(* ===== verification/Prelude.thy ===== *)
theory Prelude
  imports Main "HOL-Library.Word" "HOL-Library.Monad_Syntax"
begin

unbundle bit_operations_syntax

text \<open>
  What the component theories share: the machine types of \<^verbatim>\<open>kern/include/defs.h\<close>, the
  error codes of \<^verbatim>\<open>kern/include/error.h\<close>, the effect of \<^verbatim>\<open>assert\<close> and \<^verbatim>\<open>panic\<close>, and generic
  facts on lists, maps and words.

  Kernel code that may stop the machine has type \<open>'a option\<close>: \<open>None\<close> is a failed
  \<^verbatim>\<open>assert\<close> or a \<^verbatim>\<open>panic\<close> (the kernel never continues after one), \<open>Some r\<close> is a return.
  An error the code \<^emph>\<open>returns\<close> is a value: a negative \<^verbatim>\<open>int\<close> such as \<^verbatim>\<open>-E_NO_MEM\<close>.
\<close>

section \<open>Machine types and error codes\<close>

type_synonym u8 = "8 word"
type_synonym u32 = "32 word"

definition E_BAD_PROC :: int where "E_BAD_PROC = 2"
definition E_INVAL :: int where "E_INVAL = 3"
definition E_NO_MEM :: int where "E_NO_MEM = 4"
definition E_NO_FREE_PROC :: int where "E_NO_FREE_PROC = 5"
definition E_KILLED :: int where "E_KILLED = 9"
definition E_TOO_BIG :: int where "E_TOO_BIG = 12"
definition E_NO_DEV :: int where "E_NO_DEV = 13"
definition E_NA_DEV :: int where "E_NA_DEV = 14"
definition E_BUSY :: int where "E_BUSY = 15"
definition E_NOENT :: int where "E_NOENT = 16"
definition E_ISDIR :: int where "E_ISDIR = 17"
definition E_NOTDIR :: int where "E_NOTDIR = 18"
definition E_UNIMP :: int where "E_UNIMP = 20"
definition E_MAX_OPEN :: int where "E_MAX_OPEN = 22"
definition E_EXISTS :: int where "E_EXISTS = 23"

lemmas error_codes =
  E_BAD_PROC_def E_INVAL_def E_NO_MEM_def E_NO_FREE_PROC_def E_KILLED_def E_TOO_BIG_def
  E_NO_DEV_def E_NA_DEV_def E_BUSY_def E_NOENT_def E_ISDIR_def E_NOTDIR_def E_UNIMP_def
  E_MAX_OPEN_def E_EXISTS_def

section \<open>Assertions\<close>

definition kassert :: "bool \<Rightarrow> unit option" where
  "kassert b = (if b then Some () else None)"

lemma kassert_simps [simp]:
  "kassert True = Some ()" "kassert False = None"
  by (simp_all add: kassert_def)

lemma kassert_eq_Some [simp]: "kassert b = Some u \<longleftrightarrow> b"
  by (simp add: kassert_def)

lemma kassert_bind [simp]: "(kassert b \<bind> f) = (if b then f () else None)"
  by (simp add: kassert_def)

section \<open>Arrays\<close>

text \<open>Reading and writing a C array of known length; an access out of range has no result.\<close>

definition fetch :: "'a list \<Rightarrow> nat \<Rightarrow> 'a option" where
  "fetch xs i = (if i < length xs then Some (xs ! i) else None)"

definition store :: "'a list \<Rightarrow> nat \<Rightarrow> 'a \<Rightarrow> 'a list option" where
  "store xs i v = (if i < length xs then Some (xs[i := v]) else None)"

lemma fetch_in [simp]: "i < length xs \<Longrightarrow> fetch xs i = Some (xs ! i)"
  by (simp add: fetch_def)

lemma store_in [simp]: "i < length xs \<Longrightarrow> store xs i v = Some (xs[i := v])"
  by (simp add: store_def)

lemma fetch_eq_Some [simp]: "fetch xs i = Some v \<longleftrightarrow> i < length xs \<and> xs ! i = v"
  by (simp add: fetch_def)

lemma store_eq_Some [simp]: "store xs i v = Some ys \<longleftrightarrow> i < length xs \<and> ys = xs[i := v]"
  by (auto simp: store_def)

section \<open>Lists\<close>

lemma remove1_middle [simp]: "x \<notin> set xs \<Longrightarrow> remove1 x (xs @ x # ys) = xs @ ys"
  by (simp add: remove1_append)

lemma distinct_split: "x \<in> set xs \<Longrightarrow> distinct xs \<Longrightarrow>
    \<exists>ys zs. xs = ys @ x # zs \<and> x \<notin> set ys \<and> x \<notin> set zs"
  by (metis distinct.simps(2) distinct_append disjoint_insert(1) list.simps(15) split_list)

section \<open>Words\<close>

lemma unat_u32_less: "unat (w :: u32) < 4294967296"
  using unsigned_less [of w] by simp

lemma unat_u8_less: "unat (w :: u8) < 256"
  using unsigned_less [of w] by simp

lemma unat_of_nat_u32 [simp]: "m < 4294967296 \<Longrightarrow> unat (of_nat m :: u32) = m"
  by (simp add: unsigned_of_nat take_bit_nat_eq_self)

end
