(* ===== verification/Klist.thy ===== *)
theory Klist
  imports Prelude
begin

text \<open>
  The circular doubly linked lists of \<^verbatim>\<open>kern/include/list.h\<close>, on which the free lists, the
  slab lists, the run queue, the timers, the wait queues and the process lists are built.
\<close>

section \<open>The links and the operations\<close>

record 'a links =
  nxt :: "'a \<Rightarrow> 'a"
  prv :: "'a \<Rightarrow> 'a"

definition set_next :: "'a \<Rightarrow> 'a \<Rightarrow> 'a links \<Rightarrow> 'a links" where
  "set_next p v h = h\<lparr>nxt := (nxt h)(p := v)\<rparr>"

definition set_prev :: "'a \<Rightarrow> 'a \<Rightarrow> 'a links \<Rightarrow> 'a links" where
  "set_prev p v h = h\<lparr>prv := (prv h)(p := v)\<rparr>"

definition list_init :: "'a \<Rightarrow> 'a links \<Rightarrow> 'a links" where
  "list_init elm h = set_prev elm elm (set_next elm elm h)"

definition list_next :: "'a links \<Rightarrow> 'a \<Rightarrow> 'a" where
  "list_next h listelm = nxt h listelm"

definition list_prev :: "'a links \<Rightarrow> 'a \<Rightarrow> 'a" where
  "list_prev h listelm = prv h listelm"

definition list_empty :: "'a links \<Rightarrow> 'a \<Rightarrow> bool" where
  "list_empty h l = (nxt h l = l)"

definition raw_list_add :: "'a \<Rightarrow> 'a \<Rightarrow> 'a \<Rightarrow> 'a links \<Rightarrow> 'a links" where
  "raw_list_add elm prev next h =
     set_prev elm prev (set_next elm next (set_next prev elm (set_prev next elm h)))"

definition raw_list_del :: "'a \<Rightarrow> 'a \<Rightarrow> 'a links \<Rightarrow> 'a links" where
  "raw_list_del prev next h = set_prev next prev (set_next prev next h)"

definition list_add_before :: "'a \<Rightarrow> 'a \<Rightarrow> 'a links \<Rightarrow> 'a links" where
  "list_add_before listelm elm h = raw_list_add elm (prv h listelm) listelm h"

definition list_add_after :: "'a \<Rightarrow> 'a \<Rightarrow> 'a links \<Rightarrow> 'a links" where
  "list_add_after listelm elm h = raw_list_add elm listelm (nxt h listelm) h"

definition list_add :: "'a \<Rightarrow> 'a \<Rightarrow> 'a links \<Rightarrow> 'a links" where
  "list_add listelm elm h = list_add_after listelm elm h"

definition list_del :: "'a \<Rightarrow> 'a links \<Rightarrow> 'a links" where
  "list_del listelm h = raw_list_del (prv h listelm) (nxt h listelm) h"

definition list_del_init :: "'a \<Rightarrow> 'a links \<Rightarrow> 'a links" where
  "list_del_init listelm h = list_init listelm (list_del listelm h)"

lemmas link_defs = set_next_def set_prev_def raw_list_add_def raw_list_del_def

lemmas list_op_defs =
  list_init_def list_next_def list_prev_def list_empty_def list_add_before_def
  list_add_after_def list_add_def list_del_def list_del_init_def

text \<open>
  The traversal every client writes: \<^verbatim>\<open>le = list; while ((le = list_next(le)) != list) ...\<close>.
  \<open>None\<close> is a walk that never comes back to the head.
\<close>

partial_function (option) list_walk :: "'a links \<Rightarrow> 'a \<Rightarrow> 'a \<Rightarrow> 'a list option" where
  "list_walk h l le =
     (if list_next h le = l then Some []
      else do { rest \<leftarrow> list_walk h l (list_next h le); Some (list_next h le # rest) })"

text \<open>The loop that empties a list from the front, as \<^verbatim>\<open>mm_destroy\<close> and \<^verbatim>\<open>wakeup_queue\<close> run it.\<close>

partial_function (option) list_drain :: "'a links \<Rightarrow> 'a \<Rightarrow> ('a list \<times> 'a links) option" where
  "list_drain h l =
     (if list_next h l = l then Some ([], h)
      else do {
        (rest, h') \<leftarrow> list_drain (list_del (list_next h l) h) l;
        Some (list_next h l # rest, h')
      })"

section \<open>The list a head stands for\<close>

text \<open>\<open>seg h a xs b\<close>: the entries \<open>xs\<close> lead from \<open>a\<close> to \<open>b\<close>, forwards and backwards.\<close>

fun seg :: "'a links \<Rightarrow> 'a \<Rightarrow> 'a list \<Rightarrow> 'a \<Rightarrow> bool" where
  "seg h a [] b = (nxt h a = b \<and> prv h b = a)"
| "seg h a (x # xs) b = (nxt h a = x \<and> prv h x = a \<and> seg h x xs b)"

definition ring :: "'a links \<Rightarrow> 'a \<Rightarrow> 'a list \<Rightarrow> bool" where
  "ring h l xs \<longleftrightarrow> distinct (l # xs) \<and> seg h l xs l"

lemma seg_append [simp]: "seg h a (xs @ y # ys) b \<longleftrightarrow> seg h a xs y \<and> seg h y ys b"
  by (induction xs arbitrary: a) auto

lemma seg_set_next [simp]: "p \<notin> set (a # xs) \<Longrightarrow> seg (set_next p v h) a xs b = seg h a xs b"
  by (induction xs arbitrary: a) (auto simp: set_next_def)

lemma seg_set_prev [simp]: "p \<notin> set xs \<Longrightarrow> p \<noteq> b \<Longrightarrow> seg (set_prev p v h) a xs b = seg h a xs b"
  by (induction xs arbitrary: a) (auto simp: set_prev_def)

lemma link_reads [simp]:
  "nxt (set_next p v h) = (nxt h)(p := v)" "prv (set_next p v h) = prv h"
  "prv (set_prev p v h) = (prv h)(p := v)" "nxt (set_prev p v h) = nxt h"
  by (simp_all add: link_defs)

lemma seg_last: "seg h a xs b \<Longrightarrow> prv h b = last (a # xs)"
  by (induction xs arbitrary: a) auto

lemma seg_first: "seg h a xs b \<Longrightarrow> nxt h a = hd (xs @ [b])"
  by (cases xs) auto

lemma seg_raw_add:
  assumes "seg h a (xs @ ys) b" "distinct (a # xs @ ys)" "b \<notin> set (xs @ ys)"
    and "e \<notin> set (a # xs @ ys)" "e \<noteq> b"
  shows "seg (raw_list_add e (last (a # xs)) (hd (ys @ [b])) h) a (xs @ e # ys) b"
  using assms by (cases xs rule: rev_cases; cases ys) (auto simp: raw_list_add_def)

lemma seg_raw_del:
  assumes "seg h a (xs @ e # ys) b" "distinct (a # xs @ e # ys)" "b \<notin> set (xs @ e # ys)"
  shows "seg (raw_list_del (prv h e) (nxt h e) h) a (xs @ ys) b"
  using assms by (cases xs rule: rev_cases; cases ys) (auto simp: raw_list_del_def)

lemma ring_distinct: "ring h l xs \<Longrightarrow> distinct xs" and ring_head: "ring h l xs \<Longrightarrow> l \<notin> set xs"
  by (simp_all add: ring_def)

lemma ring_init: "ring (list_init l h) l []"
  by (simp add: ring_def list_init_def)

lemma ring_empty: "ring h l xs \<Longrightarrow> list_empty h l \<longleftrightarrow> xs = []"
  by (cases xs) (auto simp: ring_def list_empty_def)

lemma ring_next: "ring h l xs \<Longrightarrow> list_next h l = hd (xs @ [l])"
  by (auto simp: ring_def list_next_def dest: seg_first)

lemma ring_prev: "ring h l xs \<Longrightarrow> list_prev h l = last (l # xs)"
  by (auto simp: ring_def list_prev_def dest: seg_last)

lemma ring_next_of:
  "ring h l (xs @ e # ys) \<Longrightarrow> list_next h e = hd (ys @ [l])"
  "ring h l (xs @ e # ys) \<Longrightarrow> list_prev h e = last (l # xs)"
  by (auto simp: ring_def list_next_def list_prev_def dest: seg_first seg_last)

lemma ring_insert:
  assumes "ring h l (xs @ ys)" "e \<notin> set (l # xs @ ys)"
  shows "ring (raw_list_add e (last (l # xs)) (hd (ys @ [l])) h) l (xs @ e # ys)"
  using assms seg_raw_add [of h l xs ys l e] by (auto simp: ring_def)

lemma ring_add_after_head:
  assumes "ring h l xs" "e \<notin> set (l # xs)"
  shows "ring (list_add l e h) l (e # xs)"
  using ring_insert [of h l "[]" xs e] assms ring_next [OF assms(1)]
  by (simp add: list_add_def list_add_after_def list_next_def)

lemma ring_add_before_head:
  assumes "ring h l xs" "e \<notin> set (l # xs)"
  shows "ring (list_add_before l e h) l (xs @ [e])"
  using ring_insert [of h l xs "[]" e] assms ring_prev [OF assms(1)]
  by (simp add: list_add_before_def list_prev_def)

lemma ring_add_before:
  assumes "ring h l (xs @ x # ys)" "e \<notin> set (l # xs @ x # ys)"
  shows "ring (list_add_before x e h) l (xs @ e # x # ys)"
  using ring_insert [of h l xs "x # ys" e] assms ring_next_of(2) [OF assms(1)]
  by (simp add: list_add_before_def list_prev_def)

lemma ring_add_after:
  assumes "ring h l (xs @ x # ys)" "e \<notin> set (l # xs @ x # ys)"
  shows "ring (list_add_after x e h) l (xs @ x # e # ys)"
  using ring_insert [of h l "xs @ [x]" ys e] assms ring_next_of(1) [OF assms(1)]
  by (simp add: list_add_after_def list_next_def)

lemma ring_del:
  assumes "ring h l (xs @ e # ys)"
  shows "ring (list_del e h) l (xs @ ys)"
  using assms seg_raw_del [of h l xs e ys l] by (auto simp: ring_def list_del_def)

lemma ring_del_remove1:
  assumes "ring h l xs" "e \<in> set xs"
  shows "ring (list_del e h) l (remove1 e xs)"
proof -
  obtain ys zs where "xs = ys @ e # zs" "e \<notin> set ys"
    using distinct_split [OF assms(2) ring_distinct [OF assms(1)]] by auto
  then show ?thesis using assms(1) ring_del by auto
qed

lemma ring_frame_init: "ring h l xs \<Longrightarrow> e \<notin> set (l # xs) \<Longrightarrow> ring (list_init e h) l xs"
  by (auto simp: ring_def list_init_def)

lemma ring_del_init:
  assumes "ring h l xs" "e \<in> set xs"
  shows "ring (list_del_init e h) l (remove1 e xs)" "list_empty (list_del_init e h) e"
proof -
  have d: "distinct xs" "l \<notin> set xs" using assms(1) by (auto simp: ring_def)
  show "ring (list_del_init e h) l (remove1 e xs)"
    unfolding list_del_init_def
    by (rule ring_frame_init [OF ring_del_remove1 [OF assms]]) (use d assms(2) in auto)
  show "list_empty (list_del_init e h) e"
    by (simp add: list_del_init_def list_empty_def list_init_def)
qed

text \<open>Operations on one ring leave a ring with other entries alone.\<close>

lemma seg_raw_frame:
  "{p, n, e} \<inter> set (a # xs) = {} \<Longrightarrow> b \<notin> {p, n, e} \<Longrightarrow> seg (raw_list_add e p n h) a xs b = seg h a xs b"
  "{p, n} \<inter> set (a # xs) = {} \<Longrightarrow> b \<notin> {p, n} \<Longrightarrow> seg (raw_list_del p n h) a xs b = seg h a xs b"
  by (auto simp: raw_list_add_def raw_list_del_def)

lemma list_walk_seg: "seg h a xs l \<Longrightarrow> l \<notin> set xs \<Longrightarrow> list_walk h l a = Some xs"
  by (induction xs arbitrary: a) (subst list_walk.simps; auto simp: list_next_def)+

lemma list_walk_ring: "ring h l xs \<Longrightarrow> list_walk h l l = Some xs"
  by (simp add: ring_def list_walk_seg)

section \<open>The interface the clients rely on\<close>

text \<open>
  The clients keep lists by their head, add at either end and remove any entry; they model
  them as HOL lists. \<open>view h l xs\<close> says that head \<open>l\<close> holds the list \<open>xs\<close>.
\<close>

locale intrusive_list =
  fixes view :: "'h \<Rightarrow> 'a \<Rightarrow> 'a list \<Rightarrow> bool"
    and init :: "'a \<Rightarrow> 'h \<Rightarrow> 'h"
    and add_head :: "'a \<Rightarrow> 'a \<Rightarrow> 'h \<Rightarrow> 'h"
    and add_tail :: "'a \<Rightarrow> 'a \<Rightarrow> 'h \<Rightarrow> 'h"
    and del :: "'a \<Rightarrow> 'h \<Rightarrow> 'h"
    and first :: "'h \<Rightarrow> 'a \<Rightarrow> 'a"
  assumes view_init: "view (init l h) l []"
    and view_add_head: "view h l xs \<Longrightarrow> e \<notin> set (l # xs) \<Longrightarrow> view (add_head l e h) l (e # xs)"
    and view_add_tail: "view h l xs \<Longrightarrow> e \<notin> set (l # xs) \<Longrightarrow> view (add_tail l e h) l (xs @ [e])"
    and view_del: "view h l xs \<Longrightarrow> e \<in> set xs \<Longrightarrow> view (del e h) l (remove1 e xs)"
    and view_first: "view h l xs \<Longrightarrow> first h l = hd (xs @ [l])"
    and view_distinct: "view h l xs \<Longrightarrow> distinct (l # xs)"
begin

lemma view_pop: "view h l (x # xs) \<Longrightarrow> first h l = x \<and> view (del x h) l xs"
  using view_first [of h l "x # xs"] view_del [of h l "x # xs" x] by simp

lemma view_tail_fold:
  "view h l xs \<Longrightarrow> distinct (l # xs @ ys) \<Longrightarrow> view (fold (add_tail l) ys h) l (xs @ ys)"
proof (induction ys arbitrary: h xs)
  case (Cons y ys)
  then have "view (add_tail l y h) l (xs @ [y])" by (intro view_add_tail) auto
  with Cons.prems Cons.IH [of _ "xs @ [y]"] show ?case by auto
qed simp

lemma view_head_fold:
  "view h l xs \<Longrightarrow> distinct (l # rev ys @ xs) \<Longrightarrow> view (fold (add_head l) ys h) l (rev ys @ xs)"
proof (induction ys arbitrary: h xs)
  case (Cons y ys)
  then have "view (add_head l y h) l (y # xs)" by (intro view_add_head) auto
  with Cons.prems Cons.IH [of _ "y # xs"] show ?case by auto
qed simp

lemma view_add_del: "view h l xs \<Longrightarrow> e \<notin> set (l # xs) \<Longrightarrow>
    view (del e (add_head l e h)) l xs \<and> view (del e (add_tail l e h)) l xs"
  using view_del [OF view_add_head, of h l xs e e] view_del [OF view_add_tail, of h l xs e e]
  by (simp add: remove1_append)

end

interpretation kl: intrusive_list ring list_init list_add list_add_before list_del list_next
proof unfold_locales
qed (auto simp: ring_init ring_add_after_head ring_add_before_head ring_del_remove1 ring_next
      dest: ring_distinct ring_head)

lemma list_drain_ring: "ring h l xs \<Longrightarrow> \<exists>h'. list_drain h l = Some (xs, h') \<and> ring h' l []"
proof (induction xs arbitrary: h)
  case Nil
  then show ?case using ring_next [of h l "[]"] by (subst list_drain.simps) simp
next
  case (Cons x xs)
  then have x: "list_next h l = x" "ring (list_del x h) l xs" "x \<noteq> l"
    using kl.view_pop [of h l x xs] ring_head [of h l "x # xs"] by auto
  with Cons.IH [of "list_del x h"] obtain h' where
    "list_drain (list_del x h) l = Some (xs, h')" "ring h' l []" by auto
  with x show ?case by (subst list_drain.simps) simp
qed

section \<open>Properties\<close>

text \<open>C32: the operations of list.h refine operations on lists. On a head that holds \<open>xs\<close>,
  \<^verbatim>\<open>list_add\<close> of a new entry holds \<open>e # xs\<close>, \<^verbatim>\<open>list_add_before\<close> holds \<open>xs @ [e]\<close>,
  \<^verbatim>\<open>list_empty\<close> answers whether \<open>xs\<close> is empty, \<^verbatim>\<open>list_del_init\<close> of a member removes it and
  leaves it detached, and the traversal loop terminates with exactly the entries in order.\<close>

theorem list_ops_refine:
  assumes "ring h l xs" and "e \<notin> set (l # xs)" and "m \<in> set xs"
  shows "list_walk (list_add l e h) l l = Some (e # xs)
    \<and> list_walk (list_add_before l e h) l l = Some (xs @ [e])
    \<and> list_walk (list_del m h) l l = Some (remove1 m xs)
    \<and> list_walk (list_del_init m h) l l = Some (remove1 m xs)
    \<and> list_empty (list_del_init m h) m
    \<and> list_next h l = hd xs \<and> list_prev h l = last xs \<and> \<not> list_empty h l"
  using assms ring_next [OF assms(1)] ring_prev [OF assms(1)] ring_empty [OF assms(1)]
  by (auto intro!: list_walk_ring ring_add_after_head ring_add_before_head ring_del_remove1
      ring_del_init simp: hd_append)

definition demo_links :: "nat links" where
  "demo_links = list_add 0 1 (list_add 0 2 (list_init 0 \<lparr>nxt = id, prv = id\<rparr>))"

theorem list_ops_refine_witness:
  "list_walk (list_add 0 7 demo_links) 0 0 = Some [7, 1, 2]
    \<and> list_walk (list_del 1 demo_links) 0 0 = Some [2]"
proof -
  have "ring demo_links 0 [1, 2]"
    by (simp add: ring_def demo_links_def list_op_defs link_defs)
  from list_ops_refine [OF this, of 7 1] show ?thesis by simp
qed

text \<open>Draining a list from the front after queueing at the tail returns the entries in
  arrival order (the wait queues and the run queue are first-in first-out), and in reverse
  order after adding at the head (the free lists are last-in first-out); the loop terminates
  and the head is left empty.\<close>

theorem list_queue_order:
  assumes "ring h l []" and "distinct (l # ys)"
  shows "(\<exists>h'. list_drain (fold (list_add_before l) ys h) l = Some (ys, h') \<and> list_empty h' l)
    \<and> (\<exists>h'. list_drain (fold (list_add l) ys h) l = Some (rev ys, h') \<and> list_empty h' l)"
proof -
  have "ring (fold (list_add_before l) ys h) l ys"
    using kl.view_tail_fold [OF assms(1), of ys] assms(2) by simp
  moreover have "ring (fold (list_add l) ys h) l (rev ys)"
    using kl.view_head_fold [OF assms(1), of ys] assms(2) by simp
  ultimately show ?thesis using list_drain_ring ring_empty by metis
qed

theorem list_queue_order_witness:
  "map_option fst (list_drain (fold (list_add_before 0) [1, 2, 3]
     (list_init 0 \<lparr>nxt = id, prv = id\<rparr>)) 0) = Some [1, 2, 3 :: nat]"
  using list_queue_order [OF ring_init [of "0 :: nat" "\<lparr>nxt = id, prv = id\<rparr>"], of "[1, 2, 3]"]
  by auto

end
