(* ===== verification/Klib.thy ===== *)
theory Klib
  imports Prelude
begin

text \<open>
  The arithmetic the kernel is written with: the rounding macros of \<^verbatim>\<open>kern/include/defs.h\<close>,
  the address macros of \<^verbatim>\<open>kern/mm/mmu.h\<close>, the division-free division of
  \<^verbatim>\<open>kern/include/thumips.h\<close> (the CPU has no divide instruction), the single-word bit operations
  of \<^verbatim>\<open>kern/include/atomic.h\<close>, and \<^verbatim>\<open>kern/libs/hash.c\<close> and \<^verbatim>\<open>kern/libs/rand.c\<close>.
  All values are 32-bit words.
\<close>

section \<open>Rounding and addresses\<close>

definition ROUNDDOWN_2N :: "u32 \<Rightarrow> nat \<Rightarrow> u32" where
  "ROUNDDOWN_2N a n = push_bit n (drop_bit n a)"

definition ROUNDUP_2N :: "u32 \<Rightarrow> nat \<Rightarrow> u32" where
  "ROUNDUP_2N a n = ROUNDDOWN_2N (a + push_bit n 1 - 1) n"

definition ROUNDUP_DIV_2N :: "u32 \<Rightarrow> nat \<Rightarrow> u32" where
  "ROUNDUP_DIV_2N a n = drop_bit n (a + push_bit n 1 - 1)"

definition PDX :: "u32 \<Rightarrow> u32" where "PDX la = drop_bit 22 la AND 0x3FF"

definition PTX :: "u32 \<Rightarrow> u32" where "PTX la = drop_bit 12 la AND 0x3FF"

definition PGOFF :: "u32 \<Rightarrow> u32" where "PGOFF la = la AND 0xFFF"

definition PGADDR :: "u32 \<Rightarrow> u32 \<Rightarrow> u32 \<Rightarrow> u32" where
  "PGADDR d t off = push_bit 22 d OR push_bit 12 t OR off"

definition PTE_ADDR :: "u32 \<Rightarrow> u32" where "PTE_ADDR pte = pte AND NOT 0xFFF"

section \<open>Division without a divide instruction\<close>

definition mulu10 :: "u32 \<Rightarrow> u32" where
  "mulu10 n = push_bit 3 n + push_bit 1 n"

definition divu10 :: "u32 \<Rightarrow> u32" where
  "divu10 n =
     (let q = drop_bit 1 n + drop_bit 2 n;
          q = q + drop_bit 4 q;
          q = q + drop_bit 8 q;
          q = q + drop_bit 16 q;
          q = drop_bit 3 q;
          r = n - mulu10 q
      in q + drop_bit 4 (r + 6))"

definition divu5 :: "u32 \<Rightarrow> u32" where
  "divu5 n =
     (let q = drop_bit 3 n + drop_bit 4 n;
          q = q + drop_bit 4 q;
          q = q + drop_bit 8 q;
          q = q + drop_bit 16 q;
          r = n - q * 5
      in q + drop_bit 6 (13 * r))"

section \<open>Bits of a word\<close>

definition set_bit_at :: "nat \<Rightarrow> u32 \<Rightarrow> u32" where
  "set_bit_at nr w = w OR push_bit nr 1"

definition clear_bit_at :: "nat \<Rightarrow> u32 \<Rightarrow> u32" where
  "clear_bit_at nr w = w AND NOT (push_bit nr 1)"

definition change_bit_at :: "nat \<Rightarrow> u32 \<Rightarrow> u32" where
  "change_bit_at nr w = w XOR push_bit nr 1"

definition test_bit_at :: "nat \<Rightarrow> u32 \<Rightarrow> bool" where
  "test_bit_at nr w = (w AND push_bit nr 1 \<noteq> 0)"

text \<open>The read-modify-write operations return the value and the new word.\<close>

definition test_and_set_bit :: "nat \<Rightarrow> u32 \<Rightarrow> bool \<times> u32" where
  "test_and_set_bit nr w = (w AND push_bit nr 1 \<noteq> 0, w OR push_bit nr 1)"

definition test_and_clear_bit :: "nat \<Rightarrow> u32 \<Rightarrow> bool \<times> u32" where
  "test_and_clear_bit nr w = (w AND push_bit nr 1 \<noteq> 0, w AND NOT (push_bit nr 1))"

text \<open>\<^verbatim>\<open>test_and_change_bit\<close> computes the old bit in \<^verbatim>\<open>c\<close> and then returns the constant 0.\<close>

definition test_and_change_bit :: "nat \<Rightarrow> u32 \<Rightarrow> bool \<times> u32" where
  "test_and_change_bit nr w = (False, w XOR push_bit nr 1)"

section \<open>Hash and pseudo-random numbers\<close>

definition hash32 :: "u32 \<Rightarrow> nat \<Rightarrow> u32" where
  "hash32 val bits = drop_bit (32 - bits) (val * 0x9e370001)"

definition rand :: "u32 \<Rightarrow> u32 \<times> u32" where
  "rand next =
     (let next = (next * 0xDEECE66D + 0xB) AND (push_bit 17 1 - 1);
          result = drop_bit 12 next
      in (result AND 0xFFFF, next))"

definition srand :: "u32 \<Rightarrow> u32" where
  "srand seed = seed"

section \<open>Lemmas\<close>

lemma unat_drop_bit_u32: "unat (drop_bit n (w :: u32)) = unat w div 2 ^ n"
  by (rule trans [OF unat_drop_bit_eq drop_bit_eq_div])

lemma unat_add_no_overflow: "unat (a :: u32) + unat b < 4294967296 \<Longrightarrow> unat (a + b) = unat a + unat b"
  by (simp add: unat_word_ariths)

lemma unat_mult_no_overflow: "unat (a :: u32) * unat b < 4294967296 \<Longrightarrow> unat (a * b) = unat a * unat b"
  by (simp add: unat_word_ariths)

lemma mulu10_eq: "mulu10 n = n * 10"
  by (simp add: mulu10_def push_bit_eq_mult)

text \<open>The shift-and-add estimate is below the quotient by less than two, with the remainders of
  the five shifts named.\<close>

lemma divu10_linear:
  fixes n :: nat
  assumes "n < 4294967296"
    and "n = 2 * a + ra" "ra \<le> 1" "n = 4 * b + rb" "rb \<le> 3" "q1 = a + b"
    and "q1 = 16 * c + rc" "rc \<le> 15" "q2 = q1 + c"
    and "q2 = 256 * d + rd" "rd \<le> 255" "q3 = q2 + d"
    and "q3 = 65536 * e + re" "re \<le> 65535" "q4 = q3 + e"
    and "q4 = 8 * q + rq" "rq \<le> 7"
  shows "q4 \<le> n \<and> 10 * q \<le> n \<and> n \<le> 10 * q + 15"
  using assms by linarith

lemma divu5_linear:
  fixes n :: nat
  assumes "n < 4294967296"
    and "n = 8 * a + ra" "ra \<le> 7" "n = 16 * b + rb" "rb \<le> 15" "q1 = a + b"
    and "q1 = 16 * c + rc" "rc \<le> 15" "q2 = q1 + c"
    and "q2 = 256 * d + rd" "rd \<le> 255" "q3 = q2 + d"
    and "q3 = 65536 * e + re" "re \<le> 65535" "q = q3 + e"
  shows "5 * q \<le> n \<and> n \<le> 5 * q + 25"
  using assms by linarith

lemma unat_shift_add:
  assumes "unat (q :: u32) = x" "x + x div 2 ^ k < 4294967296"
  shows "unat (q + drop_bit k q) = x + x div 2 ^ k"
  using assms unat_add_no_overflow [of q "drop_bit k q"] unat_drop_bit_u32 [of k q] by simp

lemma mod_le_minus: "0 < m \<Longrightarrow> (x :: nat) mod m \<le> m - 1"
  by (metis Suc_pred' less_Suc_eq_le mod_less_divisor)

lemma small_mods:
  "(x :: nat) mod 2 \<le> 1" "x mod 4 \<le> 3" "x mod 8 \<le> 7" "x mod 16 \<le> 15" "x mod 256 \<le> 255"
  "x mod 65536 \<le> 65535"
  using mod_le_minus [of 2 x] mod_le_minus [of 4 x] mod_le_minus [of 8 x] mod_le_minus [of 16 x]
    mod_le_minus [of 256 x] mod_le_minus [of 65536 x] by simp_all

lemma mult_div_mod_split: "(x :: nat) = m * (x div m) + x mod m"
  by simp

text \<open>The three refinement steps both divisions share.\<close>

definition shift_chain :: "u32 \<Rightarrow> u32" where
  "shift_chain q = (let q = q + drop_bit 4 q; q = q + drop_bit 8 q in q + drop_bit 16 q)"

lemma unat_shift_chain:
  assumes "unat w = q1" "q2 = q1 + q1 div 16" "q3 = q2 + q2 div 256" "q4 = q3 + q3 div 65536"
    and "q4 < 4294967296"
  shows "unat (shift_chain w) = q4"
proof -
  have s3: "q3 < 4294967296" using assms(4,5) le_add1 [of q3 "q3 div 65536"] by (metis le_less_trans)
  have s2: "q2 < 4294967296" using assms(3) s3 le_add1 [of q2 "q2 div 256"] by (metis le_less_trans)
  define w2 where w2: "w2 = w + drop_bit 4 w"
  define w3 where w3: "w3 = w2 + drop_bit 8 w2"
  have "unat w2 = q2"
    using unat_shift_add [of w q1 4] s2 assms(1) unfolding w2 assms(2) by simp
  then have "unat w3 = q3"
    using unat_shift_add [of w2 q2 8] s3 unfolding w3 assms(3) by simp
  then have "unat (w3 + drop_bit 16 w3) = q4"
    using unat_shift_add [of w3 q3 16] assms(5) unfolding assms(4) by simp
  then show ?thesis by (simp only: shift_chain_def Let_def w3 w2)
qed

lemma small_quotients:
  "\<forall>r \<in> set [0..<16]. (r + 6) div 16 = r div 10"
  "\<forall>r \<in> set [0..<26]. 13 * r div 64 = r div 5"
  by code_simp+

lemma divu10_estimate:
  fixes n :: u32
  defines "q \<equiv> unat (drop_bit 3 (shift_chain (drop_bit 1 n + drop_bit 2 n)))"
  shows "10 * q \<le> unat n" "unat n \<le> 10 * q + 15"
proof -
  define q1 where q1: "q1 = unat n div 2 + unat n div 4"
  define q2 where q2: "q2 = q1 + q1 div 16"
  define q3 where q3: "q3 = q2 + q2 div 256"
  define q4 where q4: "q4 = q3 + q3 div 65536"
  have lin: "q4 \<le> unat n \<and> 10 * (q4 div 8) \<le> unat n \<and> unat n \<le> 10 * (q4 div 8) + 15"
    by (rule divu10_linear [OF unat_u32_less mult_div_mod_split _ mult_div_mod_split _ q1
        mult_div_mod_split _ q2 mult_div_mod_split _ q3 mult_div_mod_split _ q4 mult_div_mod_split])
       (rule small_mods)+
  have small: "q4 < 4294967296" using lin unat_u32_less [of n] by (meson le_less_trans)
  have "q1 \<le> q2" "q2 \<le> q3" "q3 \<le> q4" unfolding q2 q3 q4 by (rule le_add1)+
  then have "q1 < 4294967296" using small by linarith
  then have "unat (drop_bit 1 n + drop_bit 2 n) = q1"
    using unat_add_no_overflow [of "drop_bit 1 n" "drop_bit 2 n"] unfolding q1 unat_drop_bit_u32
    by simp
  then have "q = q4 div 8"
    using unat_shift_chain [OF _ q2 q3 q4 small] by (simp add: q_def unat_drop_bit_u32)
  with lin show "10 * q \<le> unat n" "unat n \<le> 10 * q + 15" by auto
qed

lemma divu10_unat: "unat (divu10 n) = unat n div 10"
proof -
  define v where v: "v = drop_bit 3 (shift_chain (drop_bit 1 n + drop_bit 2 n))"
  define r where r: "r = unat n - 10 * unat v"
  have est: "10 * unat v \<le> unat n" "unat n \<le> 10 * unat v + 15"
    using divu10_estimate [of n] by (simp_all add: v)
  have r15: "r \<le> 15" and nr: "unat n = 10 * unat v + r" using est r by auto
  have "10 * unat v < 4294967296" using est(1) unat_u32_less [of n] by (rule le_less_trans)
  then have m: "unat (mulu10 v) = 10 * unat v"
    using unat_mult_no_overflow [of v 10] by (simp add: mulu10_eq mult.commute)
  then have ur: "unat (n - mulu10 v) = r"
    using est r by (subst unat_sub) (simp_all add: word_le_nat_alt)
  have "unat (drop_bit 4 (n - mulu10 v + 6)) = (r + 6) div 16"
    using r15 ur unat_add_no_overflow [of "n - mulu10 v" 6] by (simp add: unat_drop_bit_u32)
  moreover have "(r + 6) div 16 = r div 10" using r15 small_quotients(1) by simp
  moreover have "unat v + r div 10 = unat n div 10" using nr by simp
  moreover have "unat n div 10 < 4294967296"
    using div_le_dividend unat_u32_less by (rule le_less_trans)
  moreover have "divu10 n = v + drop_bit 4 (n - mulu10 v + 6)"
    by (simp add: divu10_def v Let_def shift_chain_def)
  ultimately show ?thesis using unat_add_no_overflow [of v "drop_bit 4 (n - mulu10 v + 6)"] by simp
qed

lemma divu5_estimate:
  fixes n :: u32
  defines "q \<equiv> unat (shift_chain (drop_bit 3 n + drop_bit 4 n))"
  shows "5 * q \<le> unat n" "unat n \<le> 5 * q + 25"
proof -
  define q1 where q1: "q1 = unat n div 8 + unat n div 16"
  define q2 where q2: "q2 = q1 + q1 div 16"
  define q3 where q3: "q3 = q2 + q2 div 256"
  define q4 where q4: "q4 = q3 + q3 div 65536"
  have lin: "5 * q4 \<le> unat n \<and> unat n \<le> 5 * q4 + 25"
    by (rule divu5_linear [OF unat_u32_less mult_div_mod_split _ mult_div_mod_split _ q1
        mult_div_mod_split _ q2 mult_div_mod_split _ q3 mult_div_mod_split _ q4])
       (rule small_mods)+
  then have small: "q4 < 4294967296" using unat_u32_less [of n] by linarith
  have "q1 \<le> q2" "q2 \<le> q3" "q3 \<le> q4" unfolding q2 q3 q4 by (rule le_add1)+
  then have "q1 < 4294967296" using small by linarith
  then have "unat (drop_bit 3 n + drop_bit 4 n) = q1"
    using unat_add_no_overflow [of "drop_bit 3 n" "drop_bit 4 n"] unfolding q1 unat_drop_bit_u32
    by simp
  then have "q = q4" using unat_shift_chain [OF _ q2 q3 q4 small] by (simp add: q_def)
  with lin show "5 * q \<le> unat n" "unat n \<le> 5 * q + 25" by auto
qed

lemma divu5_unat: "unat (divu5 n) = unat n div 5"
proof -
  define v where v: "v = shift_chain (drop_bit 3 n + drop_bit 4 n)"
  define r where r: "r = unat n - 5 * unat v"
  have est: "5 * unat v \<le> unat n" "unat n \<le> 5 * unat v + 25"
    using divu5_estimate [of n] by (simp_all add: v)
  have r25: "r \<le> 25" and nr: "unat n = 5 * unat v + r" using est r by auto
  have "5 * unat v < 4294967296" using est(1) unat_u32_less [of n] by (rule le_less_trans)
  then have m: "unat (v * 5) = 5 * unat v"
    using unat_mult_no_overflow [of v 5] by (simp add: mult.commute)
  then have ur: "unat (n - v * 5) = r"
    using est r by (subst unat_sub) (simp_all add: word_le_nat_alt)
  have "unat (drop_bit 6 (13 * (n - v * 5))) = 13 * r div 64"
    using r25 ur unat_mult_no_overflow [of 13 "n - v * 5"] by (simp add: unat_drop_bit_u32)
  moreover have "13 * r div 64 = r div 5" using r25 small_quotients(2) by simp
  moreover have "unat v + r div 5 = unat n div 5" using nr by simp
  moreover have "unat n div 5 < 4294967296"
    using div_le_dividend unat_u32_less by (rule le_less_trans)
  moreover have "divu5 n = v + drop_bit 6 (13 * (n - v * 5))"
    by (simp add: divu5_def v Let_def shift_chain_def)
  ultimately show ?thesis using unat_add_no_overflow [of v "drop_bit 6 (13 * (n - v * 5))"] by simp
qed


subsection \<open>Rounding\<close>

lemma unat_ROUNDDOWN: "unat (ROUNDDOWN_2N a n) = unat a div 2 ^ n * 2 ^ n"
proof -
  have "unat a div 2 ^ n * 2 ^ n < 4294967296"
    using div_times_less_eq_dividend unat_u32_less by (rule le_less_trans)
  then show ?thesis
    unfolding ROUNDDOWN_2N_def unsigned_push_bit_eq unat_drop_bit_u32
    by (simp add: push_bit_eq_mult take_bit_eq_mod)
qed

lemma unat_add_page_minus_1:
  assumes "n < 32" "unat (a :: u32) + 2 ^ n - 1 < 4294967296"
  shows "unat (a + push_bit n 1 - 1) = unat a + 2 ^ n - 1"
proof -
  have m: "push_bit n 1 - 1 = (mask n :: u32)" by (simp add: push_bit_eq_mult mask_eq_exp_minus_1)
  have "min (LENGTH(32)) n = n" using assms(1) by simp
  then have u: "unat (push_bit n 1 - 1 :: u32) = 2 ^ n - 1"
    unfolding m unat_eq_nat_uint uint_mask_eq by (simp only: nat_mask_eq) (rule mask_eq_exp_minus_1)
  show ?thesis
    using unat_add_no_overflow [of a "push_bit n 1 - 1"] assms(2)
    unfolding u by (simp only: add_diff_eq Nat.add_diff_assoc one_le_power one_le_numeral)
qed


lemma unat_ROUNDUP:
  assumes "n < 32" "unat a + 2 ^ n - 1 < 4294967296"
  shows "unat (ROUNDUP_2N a n) = (unat a + 2 ^ n - 1) div 2 ^ n * 2 ^ n"
  unfolding ROUNDUP_2N_def unat_ROUNDDOWN unat_add_page_minus_1 [OF assms] ..

lemma unat_ROUNDUP_DIV:
  assumes "n < 32" "unat a + 2 ^ n - 1 < 4294967296"
  shows "unat (ROUNDUP_DIV_2N a n) = (unat a + 2 ^ n - 1) div 2 ^ n"
  unfolding ROUNDUP_DIV_2N_def unat_drop_bit_u32 unat_add_page_minus_1 [OF assms] ..

text \<open>Rounding up a number is the least multiple that is not below it.\<close>

lemma ceil_mult_bounds:
  assumes "0 < (m :: nat)"
  shows "a \<le> (a + m - 1) div m * m \<and> (a + m - 1) div m * m < a + m"
proof -
  define x where "x = a + m - 1"
  define y r where "y = x div m * m" and "r = x mod m"
  have "y + r = x" unfolding y_def r_def by (rule div_mult_mod_eq)
  moreover have "r < m" using assms unfolding r_def by (rule mod_less_divisor)
  moreover have "x + 1 = a + m" using assms by (simp add: x_def)
  ultimately have "a \<le> y \<and> y < a + m" by linarith
  then show ?thesis unfolding y_def x_def .
qed

subsection \<open>The three fields of an address\<close>

lemma low_masks: "(0x3FF :: u32) = mask 10" "(0xFFF :: u32) = mask 12" "(0x1FFFF :: u32) = mask 17"
  by (simp_all add: mask_eq_exp_minus_1)

lemma address_fields:
  "PDX la = take_bit 10 (drop_bit 22 la)" "PTX la = take_bit 10 (drop_bit 12 la)"
  "PGOFF la = take_bit 12 la"
  unfolding PDX_def PTX_def PGOFF_def low_masks take_bit_eq_mask by (rule refl)+

lemmas field_bits = address_fields PGADDR_def bit_or_iff bit_take_bit_iff bit_push_bit_iff bit_drop_bit_eq

lemma PGADDR_fields: "PGADDR (PDX la) (PTX la) (PGOFF la) = la"
proof (rule bit_word_eqI)
  fix i :: nat assume "i < LENGTH(32)"
  then show "bit (PGADDR (PDX la) (PTX la) (PGOFF la)) i = bit la i"
    by (cases "22 \<le> i"; cases "12 \<le> i") (auto simp: field_bits)
qed

lemma take_bit_u32_self: "unat (w :: u32) < 2 ^ n \<Longrightarrow> take_bit n w = w"
  by (simp add: word_unat_eq_iff unsigned_take_bit_eq take_bit_nat_eq_self)

lemma take_bit_self_bit: "take_bit n (w :: u32) = w \<Longrightarrow> n \<le> i \<Longrightarrow> \<not> bit w i"
  by (metis bit_take_bit_iff not_le)

lemma fields_PGADDR:
  assumes "take_bit 10 d = d" "take_bit 10 t = t" "take_bit 12 off = off"
  shows "PDX (PGADDR d t off) = d" "PTX (PGADDR d t off) = t" "PGOFF (PGADDR d t off) = off"
proof -
  note no = take_bit_self_bit [OF assms(1)] take_bit_self_bit [OF assms(2)] take_bit_self_bit [OF assms(3)]
  show "PDX (PGADDR d t off) = d"
  proof (rule bit_word_eqI)
    fix i show "bit (PDX (PGADDR d t off)) i = bit d i"
      by (cases "i < 10") (auto simp: field_bits no)
  qed
  show "PTX (PGADDR d t off) = t"
  proof (rule bit_word_eqI)
    fix i show "bit (PTX (PGADDR d t off)) i = bit t i"
      by (cases "i < 10") (auto simp: field_bits no)
  qed
  show "PGOFF (PGADDR d t off) = off"
  proof (rule bit_word_eqI)
    fix i show "bit (PGOFF (PGADDR d t off)) i = bit off i"
      by (cases "i < 12") (auto simp: field_bits no)
  qed
qed


subsection \<open>Bits\<close>

lemma and_single_bit: "(w :: u32) AND push_bit n 1 \<noteq> 0 \<longleftrightarrow> bit w n"
proof
  assume "bit w n"
  then have "bit (w AND push_bit n 1) n"
    using bit_imp_le_length [of w n] by (simp only: bit_and_iff bit_push_bit_iff) simp
  then show "w AND push_bit n 1 \<noteq> 0" by auto
next
  assume "w AND push_bit n 1 \<noteq> 0"
  then obtain i where "bit (w AND push_bit n 1) i" by (metis bit_0_eq bit_eqI bot_apply bot_bool_def)
  then have "bit w i \<and> n \<le> i \<and> bit (1 :: u32) (i - n)"
    by (simp only: bit_and_iff bit_push_bit_iff)
  then show "bit w n" by (auto simp: bit_1_iff dest: le_antisym)
qed

lemma and_power_bit [simp]: "(w :: u32) AND 2 ^ n = 0 \<longleftrightarrow> \<not> bit w n"
  using and_single_bit [of w n] by auto

lemma bit_single_bit: "i < 32 \<Longrightarrow> bit (push_bit n 1 :: u32) i \<longleftrightarrow> i = n"
  by (auto simp only: bit_push_bit_iff bit_1_iff) auto

lemmas bit_ops_defs = set_bit_at_def clear_bit_at_def change_bit_at_def test_bit_at_def
  test_and_set_bit_def test_and_clear_bit_def test_and_change_bit_def and_single_bit
  bit_or_iff bit_and_iff bit_xor_iff bit_not_iff bit_single_bit possible_bit_word

lemma bit_ops_bits:
  assumes "i < 32"
  shows "test_bit_at i (set_bit_at n w) \<longleftrightarrow> i = n \<or> test_bit_at i w"
    "test_bit_at i (clear_bit_at n w) \<longleftrightarrow> i \<noteq> n \<and> test_bit_at i w"
    "test_bit_at i (change_bit_at n w) \<longleftrightarrow> (i = n) \<noteq> test_bit_at i w"
  using assms by (auto simp only: bit_ops_defs len_num1 len_bit0)

text \<open>Flipping the lowest bit, and clearing it.\<close>

lemma nat_xor_1: "(m :: nat) XOR 1 = (if even m then m + 1 else m - 1)"
proof (rule bit_eqI)
  fix n show "bit (m XOR 1) n = bit (if even m then m + 1 else m - 1) n"
  proof (cases n)
    case 0 then show ?thesis by (simp only: bit_xor_iff bit_1_iff) (auto simp: bit_0)
  next
    case (Suc k)
    have "(if even m then m + 1 else m - 1) div 2 = m div 2" by (auto elim!: oddE)
    then have "bit (if even m then m + 1 else m - 1) (Suc k) = bit m (Suc k)" by (simp only: bit_Suc)
    then show ?thesis using Suc by (simp only: bit_xor_iff bit_1_iff) simp
  qed
qed

lemma nat_and_xor_1: "(m :: nat) AND (m XOR 1) = (if even m then m else m - 1)"
proof (rule bit_eqI)
  fix n show "bit (m AND (m XOR 1)) n = bit (if even m then m else m - 1) n"
  proof (cases n)
    case 0 then show ?thesis by (simp only: bit_and_iff bit_xor_iff bit_1_iff) (auto simp: bit_0)
  next
    case (Suc k)
    have "(if even m then m else m - 1) div 2 = m div 2" by (auto elim!: oddE)
    then have "bit (if even m then m else m - 1) (Suc k) = bit m (Suc k)" by (simp only: bit_Suc)
    then show ?thesis using Suc by (simp only: bit_and_iff bit_xor_iff bit_1_iff) simp
  qed
qed

lemma test_bit_at_bit: "test_bit_at n w \<longleftrightarrow> bit w n"
  by (simp only: test_bit_at_def and_single_bit)

lemma test_and_ops:
  "test_and_set_bit n w = (test_bit_at n w, set_bit_at n w)"
  "test_and_clear_bit n w = (test_bit_at n w, clear_bit_at n w)"
  by (simp_all only: test_and_set_bit_def test_and_clear_bit_def test_bit_at_def set_bit_at_def clear_bit_at_def)

lemma drop_bit_bound: "k \<le> 32 \<Longrightarrow> unat (drop_bit (32 - k) (w :: u32)) < 2 ^ k"
proof -
  assume "k \<le> 32"
  then have "unat w < 2 ^ k * 2 ^ (32 - k)" using unat_u32_less [of w] by (simp flip: power_add)
  then show ?thesis unfolding unat_drop_bit_u32 by (simp add: less_mult_imp_div_less)
qed


section \<open>Properties\<close>

text \<open>C38: on every 32-bit argument the shift-and-add routines are the exact division by ten and by
  five: the estimate they correct is never more than one off.\<close>

theorem divu_exact: "divu10 n = n div 10 \<and> divu5 n = n div 5"
  by (simp add: word_unat_eq_iff divu10_unat divu5_unat unat_div)

text \<open>Rounding up to a power of two gives the least multiple that is not below the argument,
  the rounded quotient is that multiple divided, and rounding down the greatest multiple not above
  it, as long as the sum in the macro does not wrap.\<close>

theorem rounding_exact:
  assumes "n < 32" "unat a + 2 ^ n - 1 < 4294967296"
  shows "2 ^ n dvd unat (ROUNDUP_2N a n) \<and> a \<le> ROUNDUP_2N a n \<and> unat (ROUNDUP_2N a n) < unat a + 2 ^ n
    \<and> unat (ROUNDUP_2N a n) = unat (ROUNDUP_DIV_2N a n) * 2 ^ n
    \<and> 2 ^ n dvd unat (ROUNDDOWN_2N a n) \<and> ROUNDDOWN_2N a n \<le> a
    \<and> unat a < unat (ROUNDDOWN_2N a n) + 2 ^ n"
proof -
  have "unat a < unat a div 2 ^ n * 2 ^ n + 2 ^ n"
    using mod_less_divisor [of "2 ^ n" "unat a", OF zero_less_power [OF zero_less_numeral]]
      div_mult_mod_eq [of "unat a" "2 ^ n"] by linarith
  moreover have "unat a div 2 ^ n * 2 ^ n \<le> unat a" by (rule div_times_less_eq_dividend)
  ultimately show ?thesis
    using ceil_mult_bounds [of "2 ^ n" "unat a"]
    unfolding word_le_nat_alt unat_ROUNDUP [OF assms] unat_ROUNDUP_DIV [OF assms] unat_ROUNDDOWN by simp
qed

theorem rounding_exact_witness:
  "2 ^ 12 dvd unat (ROUNDUP_2N 4097 12) \<and> unat (ROUNDUP_2N 4097 12) < 4097 + 2 ^ 12"
  using rounding_exact [of 12 4097] by simp

text \<open>C39: page directory index, page table index and page offset split an address without loss,
  and putting any three in-range fields together gives an address that has exactly these fields.\<close>

theorem address_roundtrip:
  assumes "d < 1024" "t < 1024" "off < 4096"
  shows "PGADDR (PDX la) (PTX la) (PGOFF la) = la
    \<and> PDX (PGADDR d t off) = d \<and> PTX (PGADDR d t off) = t \<and> PGOFF (PGADDR d t off) = off"
proof -
  have "take_bit 10 d = d" "take_bit 10 t = t" "take_bit 12 off = off"
    using assms by (simp_all add: take_bit_u32_self word_less_nat_alt)
  then show ?thesis using PGADDR_fields fields_PGADDR by blast
qed

theorem address_roundtrip_witness: "PTX (PGADDR 3 1023 4095) = 1023"
  using address_roundtrip [of 3 1023 4095 0] by simp

text \<open>Setting, clearing and flipping a bit changes that bit and no other, and the
  test-and-modify forms leave the same words; test-and-set and test-and-clear answer the old bit,
  test-and-flip always answers zero.\<close>

theorem bit_operations:
  assumes "i < 32"
  shows "(test_bit_at i (set_bit_at n w) \<longleftrightarrow> i = n \<or> test_bit_at i w)
    \<and> (test_bit_at i (clear_bit_at n w) \<longleftrightarrow> i \<noteq> n \<and> test_bit_at i w)
    \<and> (test_bit_at i (change_bit_at n w) \<longleftrightarrow> (i = n) \<noteq> test_bit_at i w)
    \<and> test_and_set_bit n w = (test_bit_at n w, set_bit_at n w)
    \<and> test_and_clear_bit n w = (test_bit_at n w, clear_bit_at n w)
    \<and> test_and_change_bit n w = (False, change_bit_at n w)"
  using bit_ops_bits [OF assms]
  by (simp add: set_bit_at_def clear_bit_at_def change_bit_at_def test_bit_at_def
      test_and_set_bit_def test_and_clear_bit_def test_and_change_bit_def)

theorem bit_operations_witness:
  "test_bit_at 5 (set_bit_at 5 0) \<and> test_and_change_bit 5 32 = (False, change_bit_at 5 32)"
  using bit_operations [of 5 5 0] bit_operations [of 5 5 32] by simp



end
