(* ===== verification/Bitmap.thy ===== *)
theory Bitmap
  imports Klib
begin

text \<open>
  \<^verbatim>\<open>kern/fs/sfs/bitmap.c\<close>: the free-block bitmap of the simple file system. A set bit is a free
  index. The words are a list; the two loops of \<^verbatim>\<open>bitmap_alloc\<close> and the loop that clears the
  leftover bits in \<^verbatim>\<open>bitmap_create\<close> are the recursive functions below. What a client relies on is
  the locale \<open>index_pool\<close>: a set of free indices with an operation that takes one out, one that puts
  one back and a test.
\<close>

section \<open>The code\<close>

record bitmap =
  nbits :: u32
  nwords :: u32
  words :: "u32 list"

text \<open>The loop at the end of \<^verbatim>\<open>bitmap_create\<close>: flip the bits from \<open>overbits\<close> on.\<close>

function flip_overbits :: "nat \<Rightarrow> u32 \<Rightarrow> u32" where
  "flip_overbits overbits w =
     (if overbits < 32 then flip_overbits (Suc overbits) (w XOR push_bit overbits 1) else w)"
  by auto
termination by (relation "measure (\<lambda>(k, _). 32 - k)") auto

declare flip_overbits.simps [simp del]

text \<open>\<^verbatim>\<open>bitmap_create\<close> is given whether each of its two calls of \<^verbatim>\<open>kmalloc\<close> finds memory;
  \<open>Some None\<close> is the \<^verbatim>\<open>NULL\<close> it returns otherwise.\<close>

definition bitmap_create :: "bool \<Rightarrow> bool \<Rightarrow> u32 \<Rightarrow> bitmap option option" where
  "bitmap_create mem1 mem2 nb = do {
     kassert (nb \<noteq> 0 \<and> nb + 32 > nb);
     if \<not> mem1 then Some None else do {
       let nw = ROUNDUP_DIV_2N nb 5;
       if \<not> mem2 then Some None else do {
         let bm = \<lparr>nbits = nb, nwords = nw, words = replicate (unat nw) (-1)\<rparr>;
         if nb \<noteq> nw * 32 then do {
           let ix = nw - 1;
           let overbits = nb - ix * 32;
           kassert (nb div 32 = ix);
           kassert (overbits > 0 \<and> overbits < 32);
           w \<leftarrow> fetch (words bm) (unat ix);
           ws \<leftarrow> store (words bm) (unat ix) (flip_overbits (unat overbits) w);
           Some (Some (bm\<lparr>words := ws\<rparr>))
         } else Some (Some bm)
       }
     }
   }"

text \<open>The inner loop of \<^verbatim>\<open>bitmap_alloc\<close>: the first set bit from \<open>offset\<close> on.\<close>

function first_bit :: "nat \<Rightarrow> u32 \<Rightarrow> nat option" where
  "first_bit offset w =
     (if offset < 32
      then if w AND push_bit offset 1 \<noteq> 0 then Some offset else first_bit (Suc offset) w
      else None)"
  by auto
termination by (relation "measure (\<lambda>(k, _). 32 - k)") auto

declare first_bit.simps [simp del]

text \<open>The outer loop. The result is the returned code, the index stored through
  \<^verbatim>\<open>index_store\<close> if any, and the bitmap; running off a non-zero word is \<^verbatim>\<open>assert(0)\<close>.\<close>

function bitmap_alloc_from :: "nat \<Rightarrow> bitmap \<Rightarrow> (int \<times> u32 option \<times> bitmap) option" where
  "bitmap_alloc_from ix bm =
     (if ix < unat (nwords bm)
      then do {
        w \<leftarrow> fetch (words bm) ix;
        if w \<noteq> 0
        then do {
          offset \<leftarrow> first_bit 0 w;
          ws \<leftarrow> store (words bm) ix (w XOR push_bit offset 1);
          Some (0, Some (of_nat ix * 32 + of_nat offset), bm\<lparr>words := ws\<rparr>)
        }
        else bitmap_alloc_from (Suc ix) bm
      }
      else Some (- E_NO_MEM, None, bm))"
  by auto
termination by (relation "measure (\<lambda>(ix, bm). unat (nwords bm) - ix)") auto

declare bitmap_alloc_from.simps [simp del]

definition bitmap_alloc :: "bitmap \<Rightarrow> (int \<times> u32 option \<times> bitmap) option" where
  "bitmap_alloc bm = bitmap_alloc_from 0 bm"

text \<open>The word index and the mask of an index.\<close>

definition bitmap_translate :: "bitmap \<Rightarrow> u32 \<Rightarrow> (nat \<times> u32) option" where
  "bitmap_translate bm index = do {
     kassert (index < nbits bm);
     Some (unat (index div 32), push_bit (unat (index mod 32)) 1)
   }"

definition bitmap_test :: "bitmap \<Rightarrow> u32 \<Rightarrow> bool option" where
  "bitmap_test bm index = do {
     (ix, mask) \<leftarrow> bitmap_translate bm index;
     w \<leftarrow> fetch (words bm) ix;
     Some (w AND mask \<noteq> 0)
   }"

definition bitmap_free :: "bitmap \<Rightarrow> u32 \<Rightarrow> bitmap option" where
  "bitmap_free bm index = do {
     (ix, mask) \<leftarrow> bitmap_translate bm index;
     w \<leftarrow> fetch (words bm) ix;
     kassert (\<not> (w AND mask \<noteq> 0));
     ws \<leftarrow> store (words bm) ix (w OR mask);
     Some (bm\<lparr>words := ws\<rparr>)
   }"

text \<open>The data of the bitmap and its length in bytes.\<close>

definition bitmap_getdata :: "bitmap \<Rightarrow> u32 list \<times> u32" where
  "bitmap_getdata bm = (words bm, 4 * nwords bm)"

section \<open>The set of free indices\<close>

definition avail :: "bitmap \<Rightarrow> nat \<Rightarrow> bool" where
  "avail bm i \<longleftrightarrow> i div 32 < length (words bm) \<and> bit (words bm ! (i div 32)) (i mod 32)"

definition free_set :: "bitmap \<Rightarrow> nat set" where
  "free_set bm = {i. i < unat (nbits bm) \<and> avail bm i}"

definition bitmap_wf :: "bitmap \<Rightarrow> bool" where
  "bitmap_wf bm \<longleftrightarrow> 0 < unat (nbits bm) \<and> unat (nbits bm) + 32 < 4294967296
     \<and> unat (nwords bm) = (unat (nbits bm) + 31) div 32 \<and> length (words bm) = unat (nwords bm)
     \<and> (\<forall>i. avail bm i \<longrightarrow> i < unat (nbits bm))"

section \<open>What a client relies on\<close>

text \<open>Take \<open>n\<close> indices one after the other, collecting them.\<close>

fun take_indices :: "('s \<Rightarrow> (int \<times> u32 option \<times> 's) option) \<Rightarrow> nat \<Rightarrow> 's \<Rightarrow> (u32 list \<times> 's) option" where
  "take_indices alloc 0 s = Some ([], s)"
| "take_indices alloc (Suc n) s = do {
     (ret, ino, s) \<leftarrow> alloc s;
     i \<leftarrow> ino;
     (rest, s) \<leftarrow> take_indices alloc n s;
     Some (i # rest, s)
   }"

locale index_pool =
  fixes inv :: "'s \<Rightarrow> bool"
    and frees :: "'s \<Rightarrow> nat set"
    and capacity :: "'s \<Rightarrow> nat"
    and alloc :: "'s \<Rightarrow> (int \<times> u32 option \<times> 's) option"
    and test :: "'s \<Rightarrow> u32 \<Rightarrow> bool option"
    and release :: "'s \<Rightarrow> u32 \<Rightarrow> 's option"
  assumes frees_bound: "inv s \<Longrightarrow> frees s \<subseteq> {..<capacity s}"
    and alloc_none: "inv s \<Longrightarrow> frees s = {} \<Longrightarrow> alloc s = Some (- E_NO_MEM, None, s)"
    and alloc_some: "inv s \<Longrightarrow> frees s \<noteq> {} \<Longrightarrow> \<exists>i s'. alloc s = Some (0, Some i, s') \<and> inv s'
      \<and> unat i \<in> frees s \<and> frees s' = frees s - {unat i} \<and> capacity s' = capacity s"
    and test_iff: "inv s \<Longrightarrow> test s i = (if unat i < capacity s then Some (unat i \<in> frees s) else None)"
    and release_used: "inv s \<Longrightarrow> unat i < capacity s \<Longrightarrow> unat i \<notin> frees s \<Longrightarrow>
      \<exists>s'. release s i = Some s' \<and> inv s' \<and> frees s' = insert (unat i) (frees s) \<and> capacity s' = capacity s"
    and release_bad: "inv s \<Longrightarrow> unat i \<ge> capacity s \<or> unat i \<in> frees s \<Longrightarrow> release s i = None"
begin

lemma frees_finite: "inv s \<Longrightarrow> finite (frees s)"
  using frees_bound finite_subset by blast

lemma alloc_cases:
  assumes "inv s"
  obtains "frees s = {}" "alloc s = Some (- E_NO_MEM, None, s)"
  | i s' where "alloc s = Some (0, Some i, s')" "inv s'" "unat i \<in> frees s"
      "frees s' = frees s - {unat i}" "capacity s' = capacity s"
  using alloc_none [OF assms] alloc_some [OF assms] by blast

lemma alloc_then_release:
  assumes "inv s" "alloc s = Some (0, Some i, s')"
  shows "\<exists>s''. release s' i = Some s'' \<and> inv s'' \<and> frees s'' = frees s"
proof -
  have s': "inv s'" "unat i \<in> frees s" "frees s' = frees s - {unat i}" "capacity s' = capacity s"
    using alloc_cases [OF assms(1)] assms(2) by (auto simp: E_NO_MEM_def)
  moreover have "unat i < capacity s'" using frees_bound [OF assms(1)] s' by auto
  ultimately have "\<exists>s''. release s' i = Some s'' \<and> inv s'' \<and> frees s'' = insert (unat i) (frees s')"
    using release_used [of s' i] by auto
  then show ?thesis using s' by (metis insert_Diff)
qed

lemma take_indices_distinct:
  "inv s \<Longrightarrow> n \<le> card (frees s) \<Longrightarrow> \<exists>js s'. take_indices alloc n s = Some (js, s') \<and> length js = n
     \<and> distinct js \<and> unat ` set js \<subseteq> frees s \<and> inv s' \<and> frees s' = frees s - unat ` set js"
proof (induction n arbitrary: s)
  case (Suc n)
  have "frees s \<noteq> {}" using Suc.prems(2) by auto
  then obtain i t where t: "alloc s = Some (0, Some i, t)" "inv t" "unat i \<in> frees s"
      "frees t = frees s - {unat i}"
    using alloc_some [OF Suc.prems(1)] by blast
  have "n \<le> card (frees t)"
    using Suc.prems t frees_finite [OF Suc.prems(1)] by (simp add: card_Diff_singleton)
  then obtain js u where "take_indices alloc n t = Some (js, u)" "length js = n" "distinct js"
      "unat ` set js \<subseteq> frees t" "inv u" "frees u = frees t - unat ` set js"
    using Suc.IH [OF t(2)] by blast
  then show ?case using t by (intro exI [of _ "i # js"] exI [of _ u]) auto
qed simp

lemma take_indices_too_many:
  "inv s \<Longrightarrow> card (frees s) < n \<Longrightarrow> take_indices alloc n s = None"
proof (induction n arbitrary: s)
  case (Suc n)
  show ?case
  proof (cases rule: alloc_cases [OF Suc.prems(1)])
    case (2 i t)
    have "0 < card (frees s)" using 2 frees_finite [OF Suc.prems(1)] by (auto simp: card_gt_0_iff)
    then have "card (frees t) < n"
      using 2 Suc.prems frees_finite [OF Suc.prems(1)] by (simp add: card_Diff_singleton)
    then show ?thesis using 2 Suc.IH by simp
  qed simp
qed simp

end

section \<open>Lemmas\<close>

lemma first_bit_Some:
  "first_bit k w = Some j \<Longrightarrow> k \<le> j \<and> j < 32 \<and> bit w j \<and> (\<forall>i. k \<le> i \<and> i < j \<longrightarrow> \<not> bit w i)"
proof (induction k w rule: first_bit.induct)
  case (1 k w)
  show ?case
  proof (cases "k < 32 \<and> \<not> bit w k")
    case True
    then have "Suc k \<le> j \<and> j < 32 \<and> bit w j \<and> (\<forall>i. Suc k \<le> i \<and> i < j \<longrightarrow> \<not> bit w i)"
      using 1 by (simp add: first_bit.simps [of k])
    moreover have "k \<le> i \<Longrightarrow> i = k \<or> Suc k \<le> i" for i by auto
    ultimately show ?thesis using True by fastforce
  next
    case False
    then show ?thesis using 1(2) by (auto simp add: first_bit.simps [of k] split: if_splits)
  qed
qed

lemma first_bit_exists: "k \<le> i \<Longrightarrow> i < 32 \<Longrightarrow> bit w i \<Longrightarrow> \<exists>j. first_bit k w = Some j"
proof (induction k w rule: first_bit.induct)
  case (1 k w)
  then show ?case
    by (cases "k = i") (auto simp: first_bit.simps [of k] first_bit.simps [of i])
qed

lemma word_nonzero_bit: "(w :: u32) \<noteq> 0 \<Longrightarrow> \<exists>i < 32. bit w i"
  using bit_word_eqI [of w 0] by auto

lemma first_bit_nonzero: "w \<noteq> 0 \<Longrightarrow> \<exists>j. first_bit 0 w = Some j"
  using word_nonzero_bit first_bit_exists by blast


lemma bit_flip_overbits:
  "i < 32 \<Longrightarrow> bit (flip_overbits k w) i \<longleftrightarrow> (if k \<le> i then \<not> bit w i else bit w i)"
proof (induction k w rule: flip_overbits.induct)
  case (1 k w)
  have "bit (w XOR push_bit k 1) i \<longleftrightarrow> (if i = k then \<not> bit w i else bit w i)"
    using 1(2) by (simp only: bit_xor_iff bit_single_bit) auto
  then show ?case
    using 1 by (cases "k < 32") (auto simp: flip_overbits.simps [of k] Suc_le_eq dest: le_neq_implies_less)
qed

lemma avail_update:
  assumes "j < length (words bm)"
  shows "avail (bm\<lparr>words := (words bm)[j := w]\<rparr>) i
    \<longleftrightarrow> (if i div 32 = j then bit w (i mod 32) else avail bm i)"
  using assms by (auto simp: avail_def nth_list_update)

lemma bitmap_wf_free_set: "bitmap_wf bm \<Longrightarrow> free_set bm = {i. avail bm i}"
  by (auto simp: bitmap_wf_def free_set_def)

lemma free_set_bound: "i \<in> free_set bm \<Longrightarrow> i < unat (nbits bm)"
  by (simp add: free_set_def)

text \<open>The outer loop finds the least free index, if the words it has passed are zero.\<close>

lemma index_split: "j < 32 \<Longrightarrow> (32 * ix + j) div 32 = ix" "j < 32 \<Longrightarrow> (32 * ix + j) mod 32 = (j :: nat)"
  by simp_all

lemma bitmap_alloc_from_none:
  assumes "\<forall>i. \<not> avail bm i" "length (words bm) = unat (nwords bm)"
  shows "bitmap_alloc_from ix bm = Some (- E_NO_MEM, None, bm)"
  using assms
proof (induction ix bm rule: bitmap_alloc_from.induct)
  case (1 ix bm)
  have "words bm ! ix = 0" if "ix < length (words bm)"
  proof (rule ccontr)
    assume "words bm ! ix \<noteq> 0"
    then obtain j where "j < 32" "bit (words bm ! ix) j" using word_nonzero_bit by blast
    then have "avail bm (32 * ix + j)" using that by (simp add: avail_def)
    with 1(2) show False by blast
  qed
  then show ?case using 1 by (simp add: bitmap_alloc_from.simps [of ix])
qed

lemma bitmap_alloc_from_least:
  assumes "avail bm m" "\<forall>i. avail bm i \<longrightarrow> m \<le> i" "32 * ix \<le> m"
    and "length (words bm) = unat (nwords bm)"
  shows "bitmap_alloc_from ix bm = Some (0, Some (of_nat m),
     bm\<lparr>words := (words bm)[m div 32 := words bm ! (m div 32) XOR push_bit (m mod 32) 1]\<rparr>)"
  using assms
proof (induction ix bm rule: bitmap_alloc_from.induct)
  case (1 ix bm)
  have "ix \<le> m div 32" using 1(4) by simp
  then have ix: "ix < length (words bm)" using 1(2) by (simp add: avail_def)
  show ?case
  proof (cases "words bm ! ix = 0")
    case True
    then have "ix \<noteq> m div 32" using 1(2) by (auto simp: avail_def)
    then have "32 * Suc ix \<le> m" using \<open>ix \<le> m div 32\<close> by simp
    then show ?thesis using 1 ix True by (simp add: bitmap_alloc_from.simps [of ix])
  next
    case False
    then obtain j where j: "first_bit 0 (words bm ! ix) = Some j" using first_bit_nonzero by blast
    have jb: "j < 32" "bit (words bm ! ix) j" "\<forall>i < j. \<not> bit (words bm ! ix) i"
      using first_bit_Some [OF j] by auto
    have "m \<le> 32 * ix + j" using 1(3) ix jb by (simp add: avail_def)
    moreover have "m div 32 = ix" using calculation \<open>ix \<le> m div 32\<close> jb(1) by simp
    moreover have "\<not> m mod 32 < j" using 1(2) jb(3) calculation(2) by (auto simp: avail_def)
    ultimately have m: "m = 32 * ix + j"
      using mult_div_mod_eq [of 32 m] by (metis add_left_cancel le_antisym nat_add_left_cancel_le not_less)
    then show ?thesis using ix 1(5) False j jb(1)
      by (simp add: bitmap_alloc_from.simps [of ix] mult.commute)
  qed
qed


subsection \<open>The operations on the set of free indices\<close>

lemma xor_mask_bit:
  assumes "bit w k" "i < 32"
  shows "bit ((w :: u32) XOR push_bit k 1) i \<longleftrightarrow> bit w i \<and> i \<noteq> k"
  using assms by (simp only: bit_xor_iff bit_single_bit) auto

lemma or_mask_bit: "i < 32 \<Longrightarrow> bit ((w :: u32) OR push_bit k 1) i \<longleftrightarrow> bit w i \<or> i = k"
  by (simp only: bit_or_iff bit_single_bit)

lemma div_mod_eq_iff: "i div 32 = k div 32 \<and> i mod 32 = k mod 32 \<longleftrightarrow> i = (k :: nat)"
  by (metis div_mult_mod_eq)

lemma avail_clear:
  assumes "avail bm m"
  shows "avail (bm\<lparr>words := (words bm)[m div 32 := words bm ! (m div 32) XOR push_bit (m mod 32) 1]\<rparr>) i
    \<longleftrightarrow> avail bm i \<and> i \<noteq> m"
proof -
  have "m div 32 < length (words bm)" "bit (words bm ! (m div 32)) (m mod 32)"
    using assms by (simp_all add: avail_def)
  then show ?thesis
    by (auto simp: avail_update xor_mask_bit simp del: push_bit_of_1)
       (auto simp: avail_def, metis div_mod_eq_iff)
qed

lemma avail_set:
  assumes "m div 32 < length (words bm)"
  shows "avail (bm\<lparr>words := (words bm)[m div 32 := words bm ! (m div 32) OR push_bit (m mod 32) 1]\<rparr>) i
    \<longleftrightarrow> avail bm i \<or> i = m"
  using assms
  by (auto simp: avail_update or_mask_bit simp del: push_bit_of_1)
     (auto simp: avail_def, metis div_mod_eq_iff)


lemma wf_index: "bitmap_wf bm \<Longrightarrow> i < unat (nbits bm) \<Longrightarrow> i div 32 < length (words bm)"
  by (auto simp: bitmap_wf_def)

lemma bitmap_alloc_none:
  "bitmap_wf bm \<Longrightarrow> free_set bm = {} \<Longrightarrow> bitmap_alloc bm = Some (- E_NO_MEM, None, bm)"
  unfolding bitmap_alloc_def
  by (rule bitmap_alloc_from_none) (auto simp: bitmap_wf_free_set bitmap_wf_def)

lemma bitmap_wf_less:
  assumes "bitmap_wf bm" "nbits bm' = nbits bm" "nwords bm' = nwords bm"
    "length (words bm') = length (words bm)" "\<And>i. avail bm' i \<Longrightarrow> i < unat (nbits bm)"
  shows "bitmap_wf bm'"
  using assms unfolding bitmap_wf_def by simp

lemma bitmap_alloc_least:
  assumes "bitmap_wf bm" "free_set bm \<noteq> {}"
  shows "\<exists>bm'. bitmap_alloc bm = Some (0, Some (of_nat (Min (free_set bm))), bm') \<and> bitmap_wf bm'
    \<and> free_set bm' = free_set bm - {Min (free_set bm)} \<and> nbits bm' = nbits bm"
proof -
  define m where "m = Min (free_set bm)"
  define bm' where "bm' = bm\<lparr>words := (words bm)[m div 32 := words bm ! (m div 32) XOR push_bit (m mod 32) 1]\<rparr>"
  have fin: "finite (free_set bm)" by (simp add: free_set_def)
  have m: "avail bm m" "\<forall>i. avail bm i \<longrightarrow> m \<le> i"
    using Min_in [OF fin assms(2)] Min_le [OF fin] bitmap_wf_free_set [OF assms(1)]
    by (auto simp: m_def)
  have "bitmap_alloc bm = Some (0, Some (of_nat m), bm')"
    unfolding bitmap_alloc_def bm'_def using m assms(1)
    by (intro bitmap_alloc_from_least) (simp_all add: bitmap_wf_def)
  moreover have a: "avail bm' i \<longleftrightarrow> avail bm i \<and> i \<noteq> m" for i
    unfolding bm'_def by (rule avail_clear [OF m(1)])
  moreover have same: "nbits bm' = nbits bm" "nwords bm' = nwords bm" "length (words bm') = length (words bm)"
    by (simp_all add: bm'_def)
  moreover have wf': "bitmap_wf bm'"
    by (rule bitmap_wf_less [OF assms(1) same]) (use a assms(1) in \<open>simp add: bitmap_wf_def\<close>)
  moreover have "free_set bm' = free_set bm - {m}"
    using a by (auto simp: bitmap_wf_free_set wf' assms(1))
  ultimately show ?thesis unfolding m_def by blast
qed

lemma bitmap_translate_in:
  "unat i < unat (nbits bm) \<Longrightarrow>
    bitmap_translate bm i = Some (unat i div 32, push_bit (unat i mod 32) 1)"
  "\<not> unat i < unat (nbits bm) \<Longrightarrow> bitmap_translate bm i = None"
  by (simp_all add: bitmap_translate_def word_less_nat_alt unat_div unat_mod)

lemma bitmap_test_iff:
  assumes "bitmap_wf bm"
  shows "bitmap_test bm i = (if unat i < unat (nbits bm) then Some (unat i \<in> free_set bm) else None)"
  using wf_index [OF assms, of "unat i"]
  by (simp add: bitmap_test_def bitmap_translate_in free_set_def avail_def)

lemma bitmap_free_used:
  assumes "bitmap_wf bm" "unat i < unat (nbits bm)" "unat i \<notin> free_set bm"
  shows "\<exists>bm'. bitmap_free bm i = Some bm' \<and> bitmap_wf bm' \<and> free_set bm' = insert (unat i) (free_set bm)
    \<and> nbits bm' = nbits bm"
proof -
  let ?m = "unat i"
  define bm' where "bm' = bm\<lparr>words := (words bm)[?m div 32 := words bm ! (?m div 32) OR push_bit (?m mod 32) 1]\<rparr>"
  have in_range: "?m div 32 < length (words bm)" using wf_index [OF assms(1,2)] .
  have "bitmap_free bm i = Some bm'"
    using assms(2,3) in_range
    by (simp add: bitmap_free_def bitmap_translate_in bm'_def free_set_def avail_def)
  moreover have a: "avail bm' k \<longleftrightarrow> avail bm k \<or> k = ?m" for k
    unfolding bm'_def by (rule avail_set [OF in_range])
  moreover have same: "nbits bm' = nbits bm" "nwords bm' = nwords bm" "length (words bm') = length (words bm)"
    by (simp_all add: bm'_def)
  moreover have wf': "bitmap_wf bm'"
    by (rule bitmap_wf_less [OF assms(1) same]) (use a assms(1,2) in \<open>auto simp: bitmap_wf_def\<close>)
  moreover have "free_set bm' = insert (unat i) (free_set bm)"
    using a by (auto simp: bitmap_wf_free_set wf' assms(1))
  ultimately show ?thesis by blast
qed

lemma bitmap_free_bad:
  assumes "bitmap_wf bm" "unat i \<ge> unat (nbits bm) \<or> unat i \<in> free_set bm"
  shows "bitmap_free bm i = None"
  using assms(2) wf_index [OF assms(1), of "unat i"]
  by (cases "unat i < unat (nbits bm)")
     (auto simp: bitmap_free_def bitmap_translate_in free_set_def avail_def)

interpretation bp: index_pool bitmap_wf free_set "\<lambda>bm. unat (nbits bm)" bitmap_alloc bitmap_test bitmap_free
proof
  fix bm :: bitmap and i :: u32
  show "bitmap_wf bm \<Longrightarrow> free_set bm \<subseteq> {..<unat (nbits bm)}" by (auto simp: free_set_def)
  assume wf: "bitmap_wf bm"
  show "free_set bm = {} \<Longrightarrow> bitmap_alloc bm = Some (- E_NO_MEM, None, bm)"
    by (rule bitmap_alloc_none [OF wf])
  show "bitmap_test bm i = (if unat i < unat (nbits bm) then Some (unat i \<in> free_set bm) else None)"
    by (rule bitmap_test_iff [OF wf])
  show "unat (nbits bm) \<le> unat i \<or> unat i \<in> free_set bm \<Longrightarrow> bitmap_free bm i = None"
    by (rule bitmap_free_bad [OF wf])
  show "unat i < unat (nbits bm) \<Longrightarrow> unat i \<notin> free_set bm \<Longrightarrow> \<exists>bm'. bitmap_free bm i = Some bm'
      \<and> bitmap_wf bm' \<and> free_set bm' = insert (unat i) (free_set bm) \<and> unat (nbits bm') = unat (nbits bm)"
    using bitmap_free_used [OF wf] by metis
  assume "free_set bm \<noteq> {}"
  moreover have "unat (of_nat (Min (free_set bm)) :: u32) = Min (free_set bm)" if "free_set bm \<noteq> {}"
  proof -
    have "Min (free_set bm) < unat (nbits bm)"
      using Min_in [OF _ that] by (auto simp: free_set_def)
    then show ?thesis using unat_u32_less [of "nbits bm"]
      by (intro unat_of_nat_u32) (rule less_trans)
  qed
  ultimately show "\<exists>i bm'. bitmap_alloc bm = Some (0, Some i, bm') \<and> bitmap_wf bm' \<and> unat i \<in> free_set bm
      \<and> free_set bm' = free_set bm - {unat i} \<and> unat (nbits bm') = unat (nbits bm)"
    using bitmap_alloc_least [OF wf] Min_in [of "free_set bm"] by (auto simp: free_set_def)
qed


subsection \<open>A new bitmap\<close>

lemma wrap_check: "nb + 32 > nb \<longleftrightarrow> unat (nb :: u32) + 32 < 4294967296"
proof (cases "unat nb + 32 < 4294967296")
  case True
  then show ?thesis using unat_add_no_overflow [of nb 32] by (simp add: word_less_nat_alt)
next
  case False
  then have "unat (nb + 32) = unat nb + 32 - 4294967296"
    using unat_u32_less [of nb] by (simp add: unat_word_ariths le_mod_geq mod_less)
  then show ?thesis using False unat_u32_less [of nb] by (simp add: word_less_nat_alt)
qed

text \<open>The word count and the leftover bits, in the naturals.\<close>

lemma leftover_aux:
  fixes q r :: nat
  assumes "r < 32" "q * 32 + r \<noteq> (q * 32 + r + 31) div 32 * 32"
  shows "0 < r \<and> (q * 32 + r + 31) div 32 = q + 1"
proof (cases "r = 0")
  case True
  have "(q * 32 + 31) div 32 = q + 31 div 32" by (metis div_mult_self3 zero_neq_numeral)
  then show ?thesis using assms(2) True by simp
next
  case False
  then have "(r + 31) div 32 = 1" using assms(1) by (intro div_nat_eqI) simp_all
  moreover have "(q * 32 + (r + 31)) div 32 = q + (r + 31) div 32" by (metis div_mult_self3 zero_neq_numeral)
  ultimately show ?thesis using False by (simp add: add.assoc)
qed

lemma leftover:
  fixes N :: nat
  assumes "N \<noteq> (N + 31) div 32 * 32"
  shows "\<exists>q r. N = q * 32 + r \<and> 0 < r \<and> r < 32 \<and> N div 32 = q \<and> (N + 31) div 32 = q + 1"
proof -
  have "0 < N mod 32 \<and> (N + 31) div 32 = N div 32 + 1"
    using leftover_aux [of "N mod 32" "N div 32"] assms unfolding div_mult_mod_eq by (simp only: mod_less_divisor) simp
  moreover have "N mod 32 < 32" by simp
  moreover have "N = N div 32 * 32 + N mod 32" by (simp only: div_mult_mod_eq)
  ultimately show ?thesis by blast
qed

text \<open>A bitmap of \<open>W\<close> full words, and one whose last word is trimmed to \<open>N\<close> bits.\<close>

lemma avail_full: "words bm = replicate W (-1) \<Longrightarrow> avail bm i \<longleftrightarrow> i < W * 32"
  by (auto simp: avail_def less_mult_imp_div_less div_less_iff_less_mult)

lemma avail_trimmed:
  assumes "words bm = (replicate W (-1))[V := flip_overbits k (-1)]" "k < 32" "V < W" "W \<le> V + 1"
  shows "avail bm i \<longleftrightarrow> i < V * 32 + k"
proof -
  define q r where "q = i div 32" and "r = i mod 32"
  have i: "i = q * 32 + r" and r: "r < 32" by (simp_all add: q_def r_def)
  have av: "avail bm i \<longleftrightarrow> q < W \<and> bit (words bm ! q) r"
    by (simp add: avail_def assms(1) q_def r_def)
  consider "q = V" | "q + 1 \<le> V" | "V + 1 \<le> q" by linarith
  then show ?thesis
  proof cases
    case 1
    then show ?thesis using assms(1,3) r av i by (auto simp: bit_flip_overbits)
  next
    case 2
    then have "avail bm i" using assms(1,3) av r by simp
    then show ?thesis using i r mult_le_mono1 [OF 2, of 32] by simp
  next
    case 3
    then show ?thesis using i av assms(2,4) mult_le_mono1 [OF 3, of 32] by simp
  qed
qed

lemma bitmap_create_full:
  assumes "0 < unat nb" "unat nb + 32 < 4294967296"
    and "unat (ROUNDUP_DIV_2N nb 5) = W" "W * 32 < 4294967296" "unat nb = W * 32"
  shows "bitmap_create True True nb =
    Some (Some \<lparr>nbits = nb, nwords = of_nat W, words = replicate W (-1)\<rparr>)"
proof -
  have "nb \<noteq> 0 \<and> nb + 32 > nb" using assms(1,2) wrap_check [of nb] by (auto simp: unat_gt_0)
  moreover have nw: "ROUNDUP_DIV_2N nb 5 = of_nat W" using assms(3) [symmetric] by simp
  moreover have "nb = of_nat W * 32"
    using assms(4,5) unat_mult_no_overflow [of "of_nat W" 32] by (simp add: word_unat_eq_iff)
  ultimately show ?thesis using assms(4) by (simp add: bitmap_create_def Let_def)
qed

lemma bitmap_create_trimmed:
  assumes "unat nb + 32 < 4294967296" "unat (ROUNDUP_DIV_2N nb 5) = W" "V < W" "W \<le> V + 1"
    and "unat nb = V * 32 + k" "0 < k" "k < 32" "unat nb div 32 = V"
  shows "bitmap_create True True nb = Some (Some \<lparr>nbits = nb, nwords = of_nat W,
    words = (replicate W (-1))[V := flip_overbits k (-1)]\<rparr>)"
proof -
  have g: "nb \<noteq> 0 \<and> nb + 32 > nb" using assms(1,5,6) wrap_check [of nb] by (auto simp: unat_gt_0)
  have nw: "ROUNDUP_DIV_2N nb 5 = of_nat W" using assms(2) [symmetric] by simp
  have small: "V < 4294967296" "W < 4294967296" "W * 32 < 4294967296" using assms(1,4,5,7) by linarith+
  have uW: "unat (of_nat W :: u32) = W" "unat (of_nat V :: u32) = V" using small by simp_all
  have ix: "of_nat W - 1 = (of_nat V :: u32)"
    using assms(3,4) small uW by (simp add: word_unat_eq_iff, subst unat_sub) (simp_all add: word_le_nat_alt)
  have uV: "unat (of_nat V * 32 :: u32) = V * 32" "unat (of_nat W * 32 :: u32) = W * 32"
    using small assms(3) unat_mult_no_overflow [of "of_nat V" 32] unat_mult_no_overflow [of "of_nat W" 32]
    by (simp_all add: uW)
  have "nb \<noteq> of_nat W * 32" using uV(2) assms(3-7) by auto
  moreover have over: "unat (nb - of_nat V * 32) = k"
    using uV assms(5) by (subst unat_sub) (simp_all add: word_le_nat_alt)
  moreover have "nb div 32 = of_nat V" using uW assms(8) by (simp add: word_unat_eq_iff unat_div)
  moreover have "nb - of_nat V * 32 > 0 \<and> nb - of_nat V * 32 < 32"
    unfolding word_less_nat_alt over using assms(6,7) by simp
  ultimately show ?thesis using g assms(3) unfolding bitmap_create_def Let_def nw ix by (simp add: uW)
qed

lemma bitmap_create_free:
  assumes "0 < unat nb" "unat nb + 32 < 4294967296"
  shows "\<exists>bm. bitmap_create True True nb = Some (Some bm) \<and> bitmap_wf bm \<and> nbits bm = nb
    \<and> free_set bm = {..<unat nb}"
proof -
  define W where "W = (unat nb + 31) div 32"
  have rW: "unat (ROUNDUP_DIV_2N nb 5) = W" using unat_ROUNDUP_DIV [of 5 nb] assms by (simp add: W_def)
  have "W * 32 \<le> unat nb + 31" unfolding W_def by (rule div_times_less_eq_dividend)
  then have sW: "W * 32 < 4294967296" using assms(2) by linarith
  have "\<exists>bm. bitmap_create True True nb = Some (Some bm) \<and> nbits bm = nb \<and> unat (nwords bm) = W
    \<and> length (words bm) = W \<and> (\<forall>i. avail bm i \<longleftrightarrow> i < unat nb)"
  proof (cases "unat nb = W * 32")
    case True
    then show ?thesis using bitmap_create_full [OF assms rW sW] sW by (simp add: avail_full)
  next
    case False
    then obtain V k where lo: "unat nb = V * 32 + k" "0 < k" "k < 32" "unat nb div 32 = V"
      and "W = V + 1"
      using leftover [of "unat nb"] unfolding W_def by blast
    then have V: "V < W" "W \<le> V + 1" by simp_all
    show ?thesis
      using bitmap_create_trimmed [OF assms(2) rW V lo] avail_trimmed [OF _ lo(3) V] sW lo(1)
      by simp
  qed
  then obtain bm where bm: "bitmap_create True True nb = Some (Some bm)" "nbits bm = nb"
      "unat (nwords bm) = W" "length (words bm) = W" "\<forall>i. avail bm i \<longleftrightarrow> i < unat nb"
    by blast
  then have "bitmap_wf bm" using assms unfolding bitmap_wf_def W_def by simp
  then show ?thesis using bm by (auto simp: free_set_def)
qed


lemma bitmap_create_panics:
  "unat nb = 0 \<or> \<not> unat nb + 32 < 4294967296 \<Longrightarrow> bitmap_create m1 m2 nb = None"
  by (auto simp: bitmap_create_def unat_eq_zero wrap_check)

text \<open>A concrete bitmap: three indices, of which 0 and 2 are free.\<close>

definition demo_bitmap :: bitmap where
  "demo_bitmap = \<lparr>nbits = 3, nwords = 1, words = [5]\<rparr>"

lemma bit_5: "bit (5 :: u32) i \<longleftrightarrow> i = 0 \<or> i = 2"
proof -
  have "(5 :: u32) = push_bit 0 1 OR push_bit 2 1" by simp
  then show ?thesis by (simp only: bit_or_iff bit_push_bit_iff bit_1_iff) auto
qed

lemma demo_avail: "avail demo_bitmap i \<longleftrightarrow> i = 0 \<or> i = 2"
proof -
  have "avail demo_bitmap i \<longleftrightarrow> i < 32 \<and> bit (5 :: u32) (i mod 32)"
    by (auto simp: avail_def demo_bitmap_def div_eq_0_iff)
  then show ?thesis unfolding bit_5 by auto
qed

lemma demo_free_set: "free_set demo_bitmap = {0, 2}"
  by (auto simp: free_set_def demo_avail) (auto simp: demo_bitmap_def)

lemma demo_wf: "bitmap_wf demo_bitmap"
  by (auto simp: bitmap_wf_def demo_avail) (auto simp: demo_bitmap_def)

section \<open>Properties\<close>

text \<open>A new bitmap of \<open>nb\<close> indices has all of them free and no other (the leftover bits of its
  last word are in use); creation panics exactly when \<open>nb\<close> is zero or so large that the
  rounding would wrap.\<close>

theorem bitmap_create_exact:
  "if 0 < unat nb \<and> unat nb + 32 < 4294967296
   then \<exists>bm. bitmap_create True True nb = Some (Some bm) \<and> bitmap_wf bm \<and> nbits bm = nb
     \<and> free_set bm = {..<unat nb}
   else bitmap_create m1 m2 nb = None"
  using bitmap_create_free [of nb] bitmap_create_panics [of nb m1 m2] by auto

text \<open>C31: allocation returns the least free index and takes exactly it out of the free set, or
  reports \<^verbatim>\<open>-E_NO_MEM\<close> on a full bitmap and changes nothing; the assertion after the inner loop
  never fails.\<close>

theorem bitmap_alloc_first_fit:
  assumes "bitmap_wf bm"
  shows "if free_set bm = {} then bitmap_alloc bm = Some (- E_NO_MEM, None, bm)
    else \<exists>bm'. bitmap_alloc bm = Some (0, Some (of_nat (Min (free_set bm))), bm') \<and> bitmap_wf bm'
      \<and> free_set bm' = free_set bm - {Min (free_set bm)}"
  using bitmap_alloc_none [OF assms] bitmap_alloc_least [OF assms] by auto

theorem bitmap_alloc_first_fit_witness:
  "\<exists>bm'. bitmap_alloc demo_bitmap = Some (0, Some 0, bm') \<and> free_set bm' = {2}"
  using bitmap_alloc_first_fit [OF demo_wf] by (auto simp: demo_free_set)

text \<open>C30: exactly as many allocations succeed as there are free indices, and they return distinct
  ones; giving the index of an allocation back restores the free set, and giving back an index that
  is free or out of range panics.\<close>

theorem bitmap_pool_conserved:
  assumes "bitmap_wf bm"
  shows "(n \<le> card (free_set bm) \<longleftrightarrow> (\<exists>js bm'. take_indices bitmap_alloc n bm = Some (js, bm')))
    \<and> (\<forall>js bm'. take_indices bitmap_alloc n bm = Some (js, bm') \<longrightarrow> length js = n \<and> distinct js
        \<and> unat ` set js \<subseteq> free_set bm \<and> free_set bm' = free_set bm - unat ` set js)
    \<and> (\<forall>i bm'. bitmap_alloc bm = Some (0, Some i, bm') \<longrightarrow>
        (\<exists>bm''. bitmap_free bm' i = Some bm'' \<and> free_set bm'' = free_set bm))
    \<and> (\<forall>i. bitmap_free bm i = None \<longleftrightarrow> unat i \<ge> unat (nbits bm) \<or> unat i \<in> free_set bm)"
proof -
  have ex: "\<exists>js bm'. take_indices bitmap_alloc n bm = Some (js, bm') \<and> length js = n \<and> distinct js
      \<and> unat ` set js \<subseteq> free_set bm \<and> free_set bm' = free_set bm - unat ` set js" if "n \<le> card (free_set bm)"
    using bp.take_indices_distinct [OF assms that] by blast
  have no: "take_indices bitmap_alloc n bm = None" if "\<not> n \<le> card (free_set bm)"
    using bp.take_indices_too_many [OF assms] that by simp
  have rel: "\<exists>bm''. bitmap_free bm' i = Some bm'' \<and> free_set bm'' = free_set bm"
    if "bitmap_alloc bm = Some (0, Some i, bm')" for i bm'
    using bp.alloc_then_release [OF assms that] by blast
  have bad: "bitmap_free bm i = None \<longleftrightarrow> unat i \<ge> unat (nbits bm) \<or> unat i \<in> free_set bm" for i
    using bp.release_used [OF assms, of i] bp.release_bad [OF assms, of i] by force
  show ?thesis using ex no rel bad by (cases "n \<le> card (free_set bm)") auto
qed

theorem bitmap_pool_conserved_witness:
  "\<exists>js bm'. take_indices bitmap_alloc 2 demo_bitmap = Some (js, bm') \<and> distinct js \<and> length js = 2"
proof -
  have "\<exists>js bm'. take_indices bitmap_alloc 2 demo_bitmap = Some (js, bm')"
    using bitmap_pool_conserved [OF demo_wf, of 2] by (simp add: demo_free_set)
  then show ?thesis
    using bitmap_pool_conserved [OF demo_wf, of 2] by blast
qed

end
