(* ===== verification/Buddy.thy ===== *)
theory Buddy
  imports Klib
begin

text \<open>
  \<^verbatim>\<open>kern/mm/buddy_pmm.c\<close>: the physical page allocator. A page is its number in the array
  \<^verbatim>\<open>pages\<close>; the eleven free lists hold the first pages of free blocks (a list of
  \<^verbatim>\<open>kern/include/list.h\<close> is a HOL list, which the theory of lists justifies). The flags of a
  page are the 32-bit word of the code, tested and set with the bit operations. The invariant
  \<open>buddy_inv\<close> says that the property flags describe the free lists and that the free blocks are
  aligned, disjoint parts of one zone each; \<open>free_pgs\<close> is the set of free pages, in terms of which
  the operations are specified. \<open>coalesced\<close> says that no two buddies are free at the same time.
\<close>

section \<open>Page descriptors\<close>

record Page =
  pg_ref :: int
  pg_flags :: u32
  pg_property :: nat
  pg_zone_num :: nat

definition PageReserved :: "Page \<Rightarrow> bool" where "PageReserved p = test_bit_at 0 (pg_flags p)"
definition PageProperty :: "Page \<Rightarrow> bool" where "PageProperty p = test_bit_at 1 (pg_flags p)"

definition SetPageProperty :: "Page \<Rightarrow> Page" where
  "SetPageProperty p = p\<lparr>pg_flags := set_bit_at 1 (pg_flags p)\<rparr>"

definition ClearPageProperty :: "Page \<Rightarrow> Page" where
  "ClearPageProperty p = p\<lparr>pg_flags := clear_bit_at 1 (pg_flags p)\<rparr>"

definition set_page_ref :: "int \<Rightarrow> Page \<Rightarrow> Page" where
  "set_page_ref v p = p\<lparr>pg_ref := v\<rparr>"

section \<open>The allocator\<close>

definition MAX_ORDER :: nat where "MAX_ORDER = 10"
definition MAX_ZONE_NUM :: nat where "MAX_ZONE_NUM = 10"

record buddy =
  page :: "nat \<Rightarrow> Page"
  npage :: nat
  free_list :: "nat \<Rightarrow> nat list"
  nr_free :: "nat \<Rightarrow> u32"
  mem_base :: "nat \<Rightarrow> nat"
  zones_used :: nat

definition upd_page :: "nat \<Rightarrow> (Page \<Rightarrow> Page) \<Rightarrow> buddy \<Rightarrow> buddy" where
  "upd_page p f s = s\<lparr>page := (page s)(p := f (page s p))\<rparr>"

definition buddy_init :: "buddy \<Rightarrow> buddy" where
  "buddy_init s = s\<lparr>free_list := (\<lambda>i. if i \<le> MAX_ORDER then [] else free_list s i),
                    nr_free := (\<lambda>i. if i \<le> MAX_ORDER then 0 else nr_free s i)\<rparr>"

text \<open>\<^verbatim>\<open>p->property = order; SetPageProperty(p); list_add(&free_list(order), ...); nr_free(order) ++\<close>,
  the four statements that put a block on its list.\<close>

definition link_block :: "nat \<Rightarrow> nat \<Rightarrow> buddy \<Rightarrow> buddy" where
  "link_block p order s =
     (let s = upd_page p (\<lambda>pg. SetPageProperty (pg\<lparr>pg_property := order\<rparr>)) s in
      s\<lparr>free_list := (free_list s)(order := p # free_list s order),
        nr_free := (nr_free s)(order := nr_free s order + 1)\<rparr>)"

text \<open>\<^verbatim>\<open>nr_free(order) --; list_del(...)\<close>: the link is taken out of the list that holds it.\<close>

definition unlink_block :: "nat \<Rightarrow> nat \<Rightarrow> buddy \<Rightarrow> buddy" where
  "unlink_block p order s =
     s\<lparr>nr_free := (nr_free s)(order := nr_free s order - 1),
       free_list := (\<lambda>o'. remove1 p (free_list s o'))\<rparr>"

text \<open>The first loop of \<^verbatim>\<open>buddy_init_memmap\<close>, and its two nested loops over the orders as one
  recursion: a block while \<open>n\<close> is large enough, a smaller order otherwise.\<close>

fun init_pages :: "nat \<Rightarrow> nat \<Rightarrow> nat \<Rightarrow> buddy \<Rightarrow> buddy option" where
  "init_pages p 0 z s = Some s"
| "init_pages p (Suc n) z s = do {
     kassert (PageReserved (page s p));
     init_pages (Suc p) n z (upd_page p (\<lambda>pg. set_page_ref 0
       (pg\<lparr>pg_flags := 0, pg_property := 0, pg_zone_num := z\<rparr>)) s)
   }"

function init_blocks :: "nat \<Rightarrow> nat \<Rightarrow> nat \<Rightarrow> buddy \<Rightarrow> buddy" where
  "init_blocks n p order s =
     (if n = 0 then s
      else if n \<ge> 2 ^ order
      then init_blocks (n - 2 ^ order) (p + 2 ^ order) order (link_block p order s)
      else init_blocks n p (order - 1) s)"
  by auto
termination
proof (relation "measure (\<lambda>(n, p, order, s). n + order)", goal_cases)
  case (3 n p order s)
  then have "0 < order" by (cases order) auto
  then show ?case by simp
qed auto

declare init_blocks.simps [simp del]

definition buddy_init_memmap :: "nat \<Rightarrow> nat \<Rightarrow> buddy \<Rightarrow> buddy option" where
  "buddy_init_memmap base n s = do {
     kassert (n > 0 \<and> zones_used s < MAX_ZONE_NUM);
     s \<leftarrow> init_pages base n (zones_used s) s;
     Some (init_blocks n base MAX_ORDER
       (s\<lparr>mem_base := (mem_base s)(zones_used s := base), zones_used := zones_used s + 1\<rparr>))
   }"

function getorder_from :: "nat \<Rightarrow> nat \<Rightarrow> nat option" where
  "getorder_from order n =
     (if order \<le> MAX_ORDER then if n \<le> 2 ^ order then Some order else getorder_from (Suc order) n
      else None)"
  by auto
termination by (relation "measure (\<lambda>(order, n). Suc MAX_ORDER - order)") auto

declare getorder_from.simps [simp del]

definition getorder :: "nat \<Rightarrow> nat option" where "getorder n = getorder_from 0 n"

text \<open>\<^verbatim>\<open>buddy_alloc_pages_sub\<close>: the scan for a non-empty list, the loop that splits the block it
  found, and the whole function; \<open>Some (None, s)\<close> is the \<^verbatim>\<open>NULL\<close> it returns.\<close>

function alloc_scan :: "nat \<Rightarrow> buddy \<Rightarrow> nat option" where
  "alloc_scan cur_order s =
     (if cur_order \<le> MAX_ORDER
      then if free_list s cur_order \<noteq> [] then Some cur_order else alloc_scan (Suc cur_order) s
      else None)"
  by auto
termination by (relation "measure (\<lambda>(order, n). Suc MAX_ORDER - order)") auto

declare alloc_scan.simps [simp del]

fun split_block :: "nat \<Rightarrow> nat \<Rightarrow> nat \<Rightarrow> buddy \<Rightarrow> buddy" where
  "split_block p order 0 s = s"
| "split_block p order (Suc cur_order) s =
     (if Suc cur_order > order
      then split_block p order cur_order (link_block (p + 2 ^ cur_order) cur_order s)
      else s)"

definition buddy_alloc_pages_sub :: "nat \<Rightarrow> buddy \<Rightarrow> (nat option \<times> buddy) option" where
  "buddy_alloc_pages_sub order s = do {
     kassert (order \<le> MAX_ORDER);
     (case alloc_scan order s of
        None \<Rightarrow> Some (None, s)
      | Some cur_order \<Rightarrow>
          (let p = hd (free_list s cur_order);
               s = unlink_block p cur_order s;
               s = split_block p order cur_order s;
               s = upd_page p ClearPageProperty s
           in Some (Some p, s)))
   }"

definition page_is_buddy :: "nat \<Rightarrow> nat \<Rightarrow> nat \<Rightarrow> buddy \<Rightarrow> bool" where
  "page_is_buddy p order z s =
     (if p < npage s
      then if pg_zone_num (page s p) = z
        then \<not> PageReserved (page s p) \<and> PageProperty (page s p) \<and> pg_property (page s p) = order
        else False
      else False)"

definition page2idx :: "nat \<Rightarrow> buddy \<Rightarrow> nat" where
  "page2idx p s = p - mem_base s (pg_zone_num (page s p))"

definition idx2page :: "nat \<Rightarrow> nat \<Rightarrow> buddy \<Rightarrow> nat" where
  "idx2page z idx s = mem_base s z + idx"

text \<open>\<^verbatim>\<open>buddy_free_pages_sub\<close>: the loop that resets the pages, the loop that merges with free
  buddies, and the whole function.\<close>

fun reset_pages :: "nat \<Rightarrow> nat \<Rightarrow> buddy \<Rightarrow> buddy option" where
  "reset_pages p 0 s = Some s"
| "reset_pages p (Suc n) s = do {
     kassert (\<not> PageReserved (page s p) \<and> \<not> PageProperty (page s p));
     reset_pages (Suc p) n (upd_page p (\<lambda>pg. set_page_ref 0 (pg\<lparr>pg_flags := 0\<rparr>)) s)
   }"

function merge_loop :: "nat \<Rightarrow> nat \<Rightarrow> nat \<Rightarrow> buddy \<Rightarrow> nat \<times> nat \<times> buddy" where
  "merge_loop z page_idx order s =
     (if order < MAX_ORDER
      then let buddy_idx = page_idx XOR 2 ^ order; b = idx2page z buddy_idx s in
        if \<not> page_is_buddy b order z s then (page_idx, order, s)
        else merge_loop z (page_idx AND buddy_idx) (Suc order)
               (upd_page b ClearPageProperty (unlink_block b order s))
      else (page_idx, order, s))"
  by auto
termination by (relation "measure (\<lambda>(z, i, order, s). MAX_ORDER - order)") auto

declare merge_loop.simps [simp del]

definition buddy_free_pages_sub :: "nat \<Rightarrow> nat \<Rightarrow> buddy \<Rightarrow> buddy option" where
  "buddy_free_pages_sub base order s = do {
     let page_idx = page2idx base s;
     kassert (page_idx AND (2 ^ order - 1) = 0);
     s \<leftarrow> reset_pages base (2 ^ order) s;
     let z = pg_zone_num (page s base);
     (case merge_loop z page_idx order s of (page_idx, order, s) \<Rightarrow>
       Some (link_block (idx2page z page_idx s) order s))
   }"

text \<open>The two loops of \<^verbatim>\<open>buddy_free_pages\<close>: with growing order while the block size is at most
  \<open>n\<close>, then with falling order for the rest.\<close>

function free_up :: "nat \<Rightarrow> nat \<Rightarrow> nat \<Rightarrow> buddy \<Rightarrow> (nat \<times> nat \<times> nat \<times> buddy) option" where
  "free_up base n order s =
     (if n \<ge> 2 ^ order
      then do {
        kassert (order \<le> MAX_ORDER);
        if page2idx base s AND 2 ^ order \<noteq> 0
        then do {
          s \<leftarrow> buddy_free_pages_sub base order s;
          free_up (base + 2 ^ order) (n - 2 ^ order) (Suc order) s
        }
        else free_up base n (Suc order) s
      }
      else Some (base, n, order, s))"
  by auto
termination
proof (relation "measure (\<lambda>(base, n, order, s). Suc n - order)", goal_cases)
  case (2 base n order s)
  then have "order < n" using less_exp [of order] by linarith
  then show ?case by simp
next
  case (3 base n order s)
  then have "order < n" using less_exp [of order] by linarith
  then show ?case by simp
qed auto

function free_down :: "nat \<Rightarrow> nat \<Rightarrow> nat \<Rightarrow> buddy \<Rightarrow> buddy option" where
  "free_down base n order s =
     (if n = 0 then Some s
      else if n < 2 ^ order then free_down base n (order - 1) s
      else do {
        s \<leftarrow> buddy_free_pages_sub base order s;
        free_down (base + 2 ^ order) (n - 2 ^ order) order s
      })"
  by auto
termination
proof (relation "measure (\<lambda>(base, n, order, s). n + order)", goal_cases)
  case (2 base n order s)
  then have "0 < order" by (cases order) auto
  then show ?case by simp
qed auto

declare free_up.simps [simp del] free_down.simps [simp del]

definition buddy_free_pages :: "nat \<Rightarrow> nat \<Rightarrow> buddy \<Rightarrow> buddy option" where
  "buddy_free_pages base n s = do {
     kassert (n > 0);
     if n = 1 then buddy_free_pages_sub base 0 s
     else do {
       (base, n, order, s) \<leftarrow> free_up base n 0 s;
       free_down base n order s
     }
   }"

text \<open>\<^verbatim>\<open>buddy_alloc_pages\<close> gives the pages beyond the request back through \<^verbatim>\<open>free_pages\<close>, which is
  \<^verbatim>\<open>buddy_free_pages\<close> with interrupts disabled.\<close>

definition buddy_alloc_pages :: "nat \<Rightarrow> buddy \<Rightarrow> (nat option \<times> buddy) option" where
  "buddy_alloc_pages n s = do {
     kassert (n > 0);
     order \<leftarrow> getorder n;
     (p, s) \<leftarrow> buddy_alloc_pages_sub order s;
     (case p of
        None \<Rightarrow> Some (None, s)
      | Some p \<Rightarrow>
          if n \<noteq> 2 ^ order
          then do { s \<leftarrow> buddy_free_pages (p + n) (2 ^ order - n) s; Some (Some p, s) }
          else Some (Some p, s))
   }"

definition buddy_nr_free_pages :: "buddy \<Rightarrow> u32" where
  "buddy_nr_free_pages s = sum_list (map (\<lambda>order. nr_free s order * push_bit order 1) [0..<Suc MAX_ORDER])"


section \<open>Invariant\<close>

definition block :: "nat \<Rightarrow> nat \<Rightarrow> nat set" where
  "block p order = {p..<p + 2 ^ order}"

definition free_pgs :: "buddy \<Rightarrow> nat set" where
  "free_pgs s = {q. \<exists>order p. p \<in> set (free_list s order) \<and> q \<in> block p order}"

text \<open>The pages of a set are usable pages of zone \<open>z\<close>, and a block starts at a multiple of its size.\<close>

definition usable :: "buddy \<Rightarrow> nat \<Rightarrow> nat set \<Rightarrow> bool" where
  "usable s z Q \<longleftrightarrow> (\<forall>q \<in> Q. q < npage s \<and> \<not> PageReserved (page s q) \<and> pg_zone_num (page s q) = z
     \<and> mem_base s z \<le> q)"

definition aligned :: "buddy \<Rightarrow> nat \<Rightarrow> nat \<Rightarrow> nat \<Rightarrow> bool" where
  "aligned s z p order \<longleftrightarrow> 2 ^ order dvd p - mem_base s z"

definition buddy_inv :: "buddy \<Rightarrow> bool" where
  "buddy_inv s \<longleftrightarrow>
     (\<forall>order. distinct (free_list s order) \<and> nr_free s order = of_nat (length (free_list s order)))
   \<and> (\<forall>order p. p \<in> set (free_list s order) \<longrightarrow> order \<le> MAX_ORDER
       \<and> PageProperty (page s p) \<and> pg_property (page s p) = order
       \<and> usable s (pg_zone_num (page s p)) (block p order) \<and> aligned s (pg_zone_num (page s p)) p order)
   \<and> (\<forall>p. p < npage s \<and> PageProperty (page s p) \<longrightarrow> p \<in> set (free_list s (pg_property (page s p))))
   \<and> (\<forall>order order' p p'. p \<in> set (free_list s order) \<and> p' \<in> set (free_list s order') \<and> p \<noteq> p'
       \<longrightarrow> block p order \<inter> block p' order' = {})"

definition buddy_of :: "buddy \<Rightarrow> nat \<Rightarrow> nat \<Rightarrow> nat" where
  "buddy_of s p order =
     mem_base s (pg_zone_num (page s p)) + ((p - mem_base s (pg_zone_num (page s p))) XOR 2 ^ order)"

definition coalesced :: "buddy \<Rightarrow> bool" where
  "coalesced s \<longleftrightarrow> (\<forall>order p. order < MAX_ORDER \<and> p \<in> set (free_list s order)
     \<longrightarrow> \<not> page_is_buddy (buddy_of s p order) order (pg_zone_num (page s p)) s)"

section \<open>Lemmas\<close>

subsection \<open>Flags and page updates\<close>

lemma page_flags [simp]:
  "PageProperty (SetPageProperty pg)" "\<not> PageProperty (ClearPageProperty pg)"
  "PageReserved (SetPageProperty pg) = PageReserved pg"
  "PageReserved (ClearPageProperty pg) = PageReserved pg"
  "pg_property (SetPageProperty pg) = pg_property pg" "pg_property (ClearPageProperty pg) = pg_property pg"
  "pg_zone_num (SetPageProperty pg) = pg_zone_num pg" "pg_zone_num (ClearPageProperty pg) = pg_zone_num pg"
  "PageReserved (pg\<lparr>pg_property := k\<rparr>) = PageReserved pg"
  "PageProperty (pg\<lparr>pg_property := k\<rparr>) = PageProperty pg"
  "PageReserved (set_page_ref r pg) = PageReserved pg"
  "PageProperty (set_page_ref r pg) = PageProperty pg"
  "pg_property (set_page_ref r pg) = pg_property pg"
  "pg_zone_num (set_page_ref r pg) = pg_zone_num pg"
  "\<not> PageReserved (pg\<lparr>pg_flags := 0\<rparr>)" "\<not> PageProperty (pg\<lparr>pg_flags := 0\<rparr>)"
  by (simp_all add: PageProperty_def PageReserved_def SetPageProperty_def ClearPageProperty_def
      set_page_ref_def bit_ops_bits) (simp_all add: test_bit_at_def)

lemma upd_page_simps [simp]:
  "page (upd_page p f s) = (page s)(p := f (page s p))" "npage (upd_page p f s) = npage s"
  "free_list (upd_page p f s) = free_list s" "nr_free (upd_page p f s) = nr_free s"
  "mem_base (upd_page p f s) = mem_base s" "zones_used (upd_page p f s) = zones_used s"
  by (simp_all add: upd_page_def)

lemma link_block_simps [simp]:
  "page (link_block p k s) = (page s)(p := SetPageProperty ((page s p)\<lparr>pg_property := k\<rparr>))"
  "npage (link_block p k s) = npage s" "mem_base (link_block p k s) = mem_base s"
  "free_list (link_block p k s) = (free_list s)(k := p # free_list s k)"
  "nr_free (link_block p k s) = (nr_free s)(k := nr_free s k + 1)"
  by (simp_all add: link_block_def Let_def)

lemma unlink_block_simps [simp]:
  "page (unlink_block p k s) = page s" "npage (unlink_block p k s) = npage s"
  "mem_base (unlink_block p k s) = mem_base s"
  "free_list (unlink_block p k s) = (\<lambda>o'. remove1 p (free_list s o'))"
  "nr_free (unlink_block p k s) = (nr_free s)(k := nr_free s k - 1)"
  by (simp_all add: unlink_block_def)

lemma block_self [simp]: "p \<in> block p k"
  by (simp add: block_def)

lemma head_free: "p \<in> set (free_list s k) \<Longrightarrow> p \<in> free_pgs s"
  using block_self free_pgs_def by blast

lemma usable_mono: "usable s z Q \<Longrightarrow> P \<subseteq> Q \<Longrightarrow> usable s z P"
  by (auto simp: usable_def)

lemma usable_Un: "usable s z (P \<union> Q) \<longleftrightarrow> usable s z P \<and> usable s z Q"
  by (auto simp: usable_def)

lemma buddy_invD:
  assumes "buddy_inv s"
  shows "distinct (free_list s k)" "nr_free s k = of_nat (length (free_list s k))"
    "p \<in> set (free_list s k) \<Longrightarrow> k \<le> MAX_ORDER"
    "p \<in> set (free_list s k) \<Longrightarrow> PageProperty (page s p)"
    "p \<in> set (free_list s k) \<Longrightarrow> pg_property (page s p) = k"
    "p \<in> set (free_list s k) \<Longrightarrow> usable s (pg_zone_num (page s p)) (block p k)"
    "p \<in> set (free_list s k) \<Longrightarrow> aligned s (pg_zone_num (page s p)) p k"
    "p < npage s \<Longrightarrow> PageProperty (page s p) \<Longrightarrow> p \<in> set (free_list s (pg_property (page s p)))"
    "p \<in> set (free_list s k) \<Longrightarrow> p' \<in> set (free_list s k') \<Longrightarrow> p \<noteq> p' \<Longrightarrow> block p k \<inter> block p' k' = {}"
  using assms unfolding buddy_inv_def by blast+

subsection \<open>Putting a block on its list and taking one off\<close>

text \<open>The condition under which a block can be linked: its pages are usable pages of one zone,
  none of them free, at an aligned place.\<close>

definition linkable :: "buddy \<Rightarrow> nat \<Rightarrow> nat \<Rightarrow> nat \<Rightarrow> bool" where
  "linkable s z p order \<longleftrightarrow> usable s z (block p order) \<and> aligned s z p order
     \<and> block p order \<inter> free_pgs s = {}"

lemma linkable_zone: "linkable s z p k \<Longrightarrow> pg_zone_num (page s p) = z"
  by (auto simp: linkable_def usable_def)

lemma usable_link [simp]: "usable (link_block p k s) z Q = usable s z Q"
  by (auto simp: usable_def)

lemma usable_unlink [simp]:
  "usable (upd_page p ClearPageProperty (unlink_block p k s)) z Q = usable s z Q"
  by (auto simp: usable_def)

lemma aligned_same [simp]:
  "aligned (link_block p k s) z q j = aligned s z q j"
  "aligned (upd_page p f s) z q j = aligned s z q j"
  "aligned (unlink_block p k s) z q j = aligned s z q j"
  by (simp_all add: aligned_def)

lemma free_pgs_link: "free_pgs (link_block p k s) = free_pgs s \<union> block p k"
  by (auto simp: free_pgs_def split: if_splits)

lemma in_link_list: "q \<in> set (free_list (link_block p k s) j) \<longleftrightarrow> q \<in> set (free_list s j) \<or> (q = p \<and> j = k)"
  by auto

lemma buddy_inv_link:
  assumes inv: "buddy_inv s" and link: "linkable s z p k" and k: "k \<le> MAX_ORDER"
  shows "buddy_inv (link_block p k s)"
proof -
  note I = buddy_invD [OF inv]
  have fresh: "p \<notin> set (free_list s j)" for j
    using link head_free [of p s j] block_self [of p k] unfolding linkable_def by blast
  have disj: "q \<in> set (free_list s j) \<Longrightarrow> block p k \<inter> block q j = {}" for q j
    using link by (auto simp: linkable_def free_pgs_def)
  have z: "pg_zone_num (page s p) = z" using linkable_zone [OF link] .
  have old: "q \<in> set (free_list s j) \<Longrightarrow> q \<noteq> p" for q j using fresh by auto
  show ?thesis
    unfolding buddy_inv_def
  proof (intro conjI allI impI, goal_cases)
    case (1 j) then show ?case using I(1) fresh by simp
  next
    case (2 j) then show ?case using I(2) by simp
  next
    case (3 j q) then show ?case using I(3) k unfolding in_link_list by auto
  next
    case (4 j q) then show ?case using I(4) unfolding in_link_list by auto
  next
    case (5 j q) then show ?case using I(5) old unfolding in_link_list by auto
  next
    case (6 j q) then show ?case
      using I(6) link z old unfolding in_link_list by (auto simp: linkable_def)
  next
    case (7 j q) then show ?case
      using I(7) link z old unfolding in_link_list by (auto simp: linkable_def)
  next
    case (8 q) then show ?case using I(8) unfolding in_link_list by (auto split: if_splits)
  next
    case (9 j j' q q') then show ?case
      using I(9) disj unfolding in_link_list by blast
  qed
qed

lemma buddy_inv_unlink:
  assumes inv: "buddy_inv s" and p: "p \<in> set (free_list s k)"
  defines "t \<equiv> upd_page p ClearPageProperty (unlink_block p k s)"
  shows "buddy_inv t" "free_pgs t = free_pgs s - block p k"
proof -
  note I = buddy_invD [OF inv]
  have mem: "q \<in> set (free_list t j) \<longleftrightarrow> q \<in> set (free_list s j) \<and> q \<noteq> p" for q j
    using I(1) by (simp add: t_def)
  have only: "p \<in> set (free_list s j) \<Longrightarrow> j = k" for j using I(5) p by metis
  show "buddy_inv t"
    unfolding buddy_inv_def
  proof (intro conjI allI impI, goal_cases)
    case (1 j) then show ?case using I(1) by (simp add: t_def)
  next
    case (2 j)
    then show ?case
    proof (cases "j = k")
      case True
      have "length (free_list s k) = Suc (length (remove1 p (free_list s k)))"
        using p length_pos_if_in_set [OF p] by (simp add: length_remove1)
      then show ?thesis using True I(2) [of k] by (simp add: t_def)
    next
      case False
      then have "p \<notin> set (free_list s j)" using only by blast
      then show ?thesis using False I(2) by (simp add: t_def remove1_idem)
    qed
  next
    case (3 j q) then show ?case using I(3) mem by blast
  next
    case (4 j q) then show ?case using I(4) mem by (auto simp: t_def)
  next
    case (5 j q) then show ?case using I(5) mem by (auto simp: t_def)
  next
    case (6 j q) then show ?case using I(6) [of q j] mem by (simp add: t_def)
  next
    case (7 j q) then show ?case using I(7) [of q j] mem by (simp add: t_def)
  next
    case (8 q) then show ?case using I(8) [of q] mem by (auto simp: t_def split: if_splits)
  next
    case (9 j j' q q') then show ?case using I(9) mem by blast
  qed
  show "free_pgs t = free_pgs s - block p k"
  proof (intro set_eqI iffI)
    fix q assume "q \<in> free_pgs t"
    then obtain j r where "r \<in> set (free_list s j)" "r \<noteq> p" "q \<in> block r j"
      unfolding free_pgs_def mem by blast
    then show "q \<in> free_pgs s - block p k" using I(9) [OF p] unfolding free_pgs_def by blast
  next
    fix q assume q: "q \<in> free_pgs s - block p k"
    then obtain j r where r: "r \<in> set (free_list s j)" "q \<in> block r j"
      unfolding free_pgs_def by blast
    then have "r \<noteq> p" using q only by blast
    then show "q \<in> free_pgs t" using r unfolding free_pgs_def mem by blast
  qed
qed


subsection \<open>Buddies\<close>

lemma buddy_index:
  assumes "2 ^ k dvd (i :: nat)"
  shows "i XOR 2 ^ k = (if even (i div 2 ^ k) then i + 2 ^ k else i - 2 ^ k)"
    "i AND (i XOR 2 ^ k) = (if even (i div 2 ^ k) then i else i - 2 ^ k)"
    "2 ^ Suc k dvd i AND (i XOR 2 ^ k)"
proof -
  obtain m where i: "i = push_bit k m" using assms by (auto simp: push_bit_eq_mult mult.commute)
  have d: "i div 2 ^ k = m" by (simp add: i push_bit_eq_mult)
  have one: "2 ^ k = push_bit k (1 :: nat)" by simp
  have x: "i XOR 2 ^ k = push_bit k (m XOR 1)" unfolding i one by (simp only: push_bit_xor)
  have a: "i AND (i XOR 2 ^ k) = push_bit k (m AND (m XOR 1))" unfolding x unfolding i by (simp only: push_bit_and)
  show "i XOR 2 ^ k = (if even (i div 2 ^ k) then i + 2 ^ k else i - 2 ^ k)"
    unfolding x d nat_xor_1 unfolding i push_bit_eq_mult
    by (simp add: distrib_right diff_mult_distrib)
  show p: "i AND (i XOR 2 ^ k) = (if even (i div 2 ^ k) then i else i - 2 ^ k)"
    unfolding a d nat_and_xor_1 unfolding i push_bit_eq_mult
    by (simp add: diff_mult_distrib)
  show "2 ^ Suc k dvd i AND (i XOR 2 ^ k)"
    unfolding a nat_and_xor_1 push_bit_eq_mult by (auto elim!: oddE evenE)
qed

lemma block_mono: "k \<le> j \<Longrightarrow> block p k \<subseteq> block p j"
  using power_increasing [of k j "2 :: nat"] by (auto simp: block_def)

lemma block_halves: "block p (Suc k) = block p k \<union> block (p + 2 ^ k) k" "block p k \<inter> block (p + 2 ^ k) k = {}"
  by (auto simp: block_def)


subsection \<open>Allocation\<close>

lemma alloc_scan_Some:
  "alloc_scan k s = Some j \<Longrightarrow> k \<le> j \<and> j \<le> MAX_ORDER \<and> free_list s j \<noteq> []"
proof (induction k s rule: alloc_scan.induct)
  case (1 k s)
  then show ?case by (auto simp: alloc_scan.simps [of k] split: if_splits)
qed

lemma alloc_scan_None:
  "alloc_scan k s = None \<Longrightarrow> k \<le> j \<Longrightarrow> j \<le> MAX_ORDER \<Longrightarrow> free_list s j = []"
proof (induction k s rule: alloc_scan.induct)
  case (1 k s)
  then show ?case by (cases "j = k") (auto simp: alloc_scan.simps [of k] split: if_splits)
qed

lemma alloc_scan_first:
  "alloc_scan k s = Some j \<Longrightarrow> k \<le> i \<Longrightarrow> i < j \<Longrightarrow> free_list s i = []"
proof (induction k s rule: alloc_scan.induct)
  case (1 k s)
  then show ?case by (cases "i = k") (auto simp: alloc_scan.simps [of k] split: if_splits)
qed

lemma order_fits_mono:
  assumes "k = 0 \<or> 2 ^ (k - 1) < n" "n \<le> (2 :: nat) ^ j"
  shows "k \<le> j"
proof (cases "k = 0")
  case False
  then have "(2 :: nat) ^ (k - 1) < 2 ^ j" using assms by linarith
  then have "k - 1 < j" by (rule power_less_imp_less_exp [rotated]) simp
  then show ?thesis using False by simp
qed simp

text \<open>The head of the list keeps its property flag until the split is done; clearing it first
  gives the same state.\<close>

lemma link_clear_commute:
  "q \<noteq> p \<Longrightarrow> upd_page p ClearPageProperty (link_block q k s)
    = link_block q k (upd_page p ClearPageProperty s)"
  by (simp add: link_block_def upd_page_def Let_def fun_upd_twist)

lemma split_clear_commute:
  "upd_page p ClearPageProperty (split_block p k j s) = split_block p k j (upd_page p ClearPageProperty s)"
  by (induction p k j s rule: split_block.induct) (simp_all add: link_clear_commute)

lemma linkable_halves:
  assumes "linkable s z p (Suc k)"
  shows "linkable s z (p + 2 ^ k) k" "linkable (link_block (p + 2 ^ k) k s) z p k"
proof -
  have b: "mem_base s z \<le> p" using assms block_self [of p "Suc k"] by (auto simp: linkable_def usable_def)
  have al: "2 ^ k dvd p - mem_base s z"
    using assms by (auto simp: linkable_def aligned_def dvd_mult_right elim: dvd_trans [rotated])
  moreover have "p + 2 ^ k - mem_base s z = (p - mem_base s z) + 2 ^ k" using b by simp
  ultimately show "linkable s z (p + 2 ^ k) k"
    using assms by (auto simp: linkable_def usable_Un block_halves(1) aligned_def)
  show "linkable (link_block (p + 2 ^ k) k s) z p k"
    using assms al block_halves(2) [of p k]
    by (auto simp: linkable_def usable_Un block_halves(1) aligned_def free_pgs_link)
qed

lemma split_block_spec:
  assumes "buddy_inv s" "linkable s z p j" "k \<le> j" "j \<le> MAX_ORDER"
  shows "buddy_inv (split_block p k j s) \<and> linkable (split_block p k j s) z p k
    \<and> free_pgs (split_block p k j s) = free_pgs s \<union> (block p j - block p k)"
  using assms
proof (induction p k j s rule: split_block.induct)
  case (2 p k j s)
  show ?case
  proof (cases "Suc j > k")
    case True
    let ?t = "link_block (p + 2 ^ j) j s"
    have inv: "buddy_inv ?t" using buddy_inv_link [OF 2(2) linkable_halves(1) [OF 2(3)]] 2(5) by simp
    have "buddy_inv (split_block p k j ?t) \<and> linkable (split_block p k j ?t) z p k
      \<and> free_pgs (split_block p k j ?t) = free_pgs ?t \<union> (block p j - block p k)"
      using 2(1) [OF True inv linkable_halves(2) [OF 2(3)]] True 2(5) by simp
    moreover have "block p k \<subseteq> block p j" using True by (intro block_mono) simp
    ultimately show ?thesis
      using True block_halves [of p j] by (auto simp: free_pgs_link)
  next
    case False
    then have "k = Suc j" using 2(4) by simp
    then show ?thesis using 2 by simp
  qed
qed simp

lemma linkable_after_unlink:
  assumes "buddy_inv s" "p \<in> set (free_list s j)"
  shows "linkable (upd_page p ClearPageProperty (unlink_block p j s)) (pg_zone_num (page s p)) p j"
  using buddy_invD(6,7) [OF assms(1) assms(2)] buddy_inv_unlink(2) [OF assms] by (auto simp: linkable_def)

lemma buddy_alloc_sub_spec:
  assumes inv: "buddy_inv s" and k: "k \<le> MAX_ORDER"
  shows "case alloc_scan k s of
      None \<Rightarrow> buddy_alloc_pages_sub k s = Some (None, s)
    | Some j \<Rightarrow> \<exists>p s'. buddy_alloc_pages_sub k s = Some (Some p, s') \<and> buddy_inv s'
        \<and> linkable s' (pg_zone_num (page s p)) p k
        \<and> block p k \<subseteq> free_pgs s \<and> free_pgs s' = free_pgs s - block p k"
proof (cases "alloc_scan k s")
  case (Some j)
  define p where "p = hd (free_list s j)"
  have j: "k \<le> j" "j \<le> MAX_ORDER" "free_list s j \<noteq> []" using alloc_scan_Some [OF Some] by auto
  then have p: "p \<in> set (free_list s j)" by (simp add: p_def)
  define t where "t = upd_page p ClearPageProperty (unlink_block p j s)"
  have "buddy_alloc_pages_sub k s = Some (Some p, split_block p k j t)"
    using Some k by (simp add: buddy_alloc_pages_sub_def Let_def p_def t_def split_clear_commute)
  moreover have "block p k \<subseteq> block p j" using j(1) by (rule block_mono)
  moreover have "block p j \<subseteq> free_pgs s" using p by (auto simp: free_pgs_def)
  ultimately show ?thesis
    using split_block_spec [OF buddy_inv_unlink(1) [OF inv p] linkable_after_unlink [OF inv p] j(1,2)]
      buddy_inv_unlink(2) [OF inv p] Some by (auto simp: t_def)
qed (use k in \<open>simp add: buddy_alloc_pages_sub_def\<close>)


subsection \<open>Freeing a block\<close>

text \<open>What no operation but the initialisation changes: the zone and the reserved flag of a page.\<close>

definition same_zones :: "buddy \<Rightarrow> buddy \<Rightarrow> bool" where
  "same_zones s t \<longleftrightarrow> npage t = npage s \<and> mem_base t = mem_base s
     \<and> (\<forall>q. PageReserved (page t q) = PageReserved (page s q)
          \<and> pg_zone_num (page t q) = pg_zone_num (page s q))"

lemma same_zones_refl [simp]: "same_zones s s"
  by (simp add: same_zones_def)

lemma same_zones_trans: "same_zones s t \<Longrightarrow> same_zones t u \<Longrightarrow> same_zones s u"
  by (simp add: same_zones_def)

lemma same_zones_link [simp]: "same_zones s (link_block p k s)"
  by (simp add: same_zones_def)

lemma same_zones_unlink [simp]: "same_zones s (upd_page p ClearPageProperty (unlink_block p k s))"
  by (simp add: same_zones_def)

lemma same_zones_usable: "same_zones s t \<Longrightarrow> usable t z Q = usable s z Q"
  by (simp add: same_zones_def usable_def)

lemma same_zones_aligned: "same_zones s t \<Longrightarrow> aligned t z p k = aligned s z p k"
  by (simp add: same_zones_def aligned_def)

text \<open>Resetting allocated pages changes nothing that the invariant sees.\<close>

definition same_view :: "buddy \<Rightarrow> buddy \<Rightarrow> bool" where
  "same_view s t \<longleftrightarrow> same_zones s t \<and> free_list t = free_list s \<and> nr_free t = nr_free s
     \<and> (\<forall>q. PageProperty (page t q) = PageProperty (page s q)
          \<and> pg_property (page t q) = pg_property (page s q))"

lemma same_view_inv:
  assumes "same_view s t"
  shows "buddy_inv t = buddy_inv s" "free_pgs t = free_pgs s" "linkable t z p k = linkable s z p k"
    "coalesced t = coalesced s"
proof -
  have z: "same_zones s t" and f: "free_list t = free_list s" using assms by (simp_all add: same_view_def)
  show g: "free_pgs t = free_pgs s" by (simp add: free_pgs_def f)
  show "linkable t z p k = linkable s z p k"
    by (simp add: linkable_def g same_zones_usable [OF z] same_zones_aligned [OF z])
  show "buddy_inv t = buddy_inv s"
    unfolding buddy_inv_def same_zones_usable [OF z] same_zones_aligned [OF z]
    using assms by (simp add: same_view_def same_zones_def)
  show "coalesced t = coalesced s"
    using assms by (simp add: same_view_def same_zones_def coalesced_def buddy_of_def page_is_buddy_def)
qed

lemma reset_page_view:
  "\<not> PageReserved (page s p) \<Longrightarrow> \<not> PageProperty (page s p) \<Longrightarrow>
    same_view s (upd_page p (\<lambda>pg. set_page_ref 0 (pg\<lparr>pg_flags := 0\<rparr>)) s)"
  by (simp add: same_view_def same_zones_def)

lemma reset_pages_view:
  "\<forall>q \<in> {p..<p + n}. \<not> PageReserved (page s q) \<and> \<not> PageProperty (page s q) \<Longrightarrow>
    \<exists>t. reset_pages p n s = Some t \<and> same_view s t"
proof (induction p n s rule: reset_pages.induct)
  case (2 p n s)
  let ?t = "upd_page p (\<lambda>pg. set_page_ref 0 (pg\<lparr>pg_flags := 0\<rparr>)) s"
  have p: "\<not> PageReserved (page s p)" "\<not> PageProperty (page s p)" using 2(2) by simp_all
  have v: "same_view s ?t" by (rule reset_page_view [OF p])
  have "\<forall>q \<in> {Suc p..<Suc p + n}. \<not> PageReserved (page ?t q) \<and> \<not> PageProperty (page ?t q)"
    using 2(2) by simp
  then obtain u where "reset_pages (Suc p) n ?t = Some u" "same_view ?t u"
    using 2(1) p by fastforce
  then show ?case using p v by (simp add: same_view_def same_zones_def)
qed (simp add: same_view_def)

lemma reset_pages_bad:
  "q \<in> {p..<p + n} \<Longrightarrow> PageReserved (page s q) \<or> PageProperty (page s q) \<Longrightarrow> reset_pages p n s = None"
proof (induction p n s rule: reset_pages.induct)
  case (2 p n s)
  then show ?case by (cases "q = p") auto
qed simp

lemma and_mask_dvd: "(i :: nat) AND (2 ^ k - 1) = 0 \<longleftrightarrow> 2 ^ k dvd i"
  by (simp only: mask_eq_exp_minus_1 [symmetric] take_bit_eq_mask [symmetric] take_bit_eq_mod dvd_eq_mod_eq_0)

text \<open>A block and its free buddy are the two halves of a block of the next order.\<close>

lemma merged_block:
  assumes "2 ^ k dvd i"
  shows "block (m + (i AND (i XOR 2 ^ k))) (Suc k) = block (m + i) k \<union> block (m + (i XOR 2 ^ k)) k"
proof (cases "even (i div 2 ^ k)")
  case True
  then show ?thesis
    using block_halves(1) [of "m + i" k]
    unfolding buddy_index(2) [OF assms] unfolding buddy_index(1) [OF assms] by (simp add: add.assoc)
next
  case False
  then have "i div 2 ^ k \<noteq> 0" by (metis even_zero)
  then have "2 ^ k \<le> i" by (metis div_less not_le)
  then show ?thesis
    using False block_halves(1) [of "m + (i - 2 ^ k)" k]
    unfolding buddy_index(2) [OF assms] unfolding buddy_index(1) [OF assms]
    by (simp add: add.assoc Un_commute)
qed

lemma page_is_buddy_in:
  assumes "buddy_inv s" "page_is_buddy b k z s"
  shows "b \<in> set (free_list s k)" "pg_zone_num (page s b) = z"
  using assms(2) buddy_invD(8) [OF assms(1), of b] by (auto simp: page_is_buddy_def split: if_splits)

lemma merge_step:
  assumes inv: "buddy_inv s" and link: "linkable s z (mem_base s z + i) k"
    and b: "b = mem_base s z + (i XOR 2 ^ k)" "page_is_buddy b k z s"
  defines "t \<equiv> upd_page b ClearPageProperty (unlink_block b k s)"
  shows "buddy_inv t" "linkable t z (mem_base t z + (i AND (i XOR 2 ^ k))) (Suc k)"
    "free_pgs t \<union> block (mem_base t z + (i AND (i XOR 2 ^ k))) (Suc k) = free_pgs s \<union> block (mem_base s z + i) k"
    "same_zones s t"
proof -
  note bf = page_is_buddy_in [OF inv b(2)]
  have al: "2 ^ k dvd i" using link by (simp add: linkable_def aligned_def)
  have m: "block (mem_base s z + (i AND (i XOR 2 ^ k))) (Suc k) = block (mem_base s z + i) k \<union> block b k"
    using merged_block [OF al] b(1) by simp
  have f: "free_pgs t = free_pgs s - block b k" using buddy_inv_unlink(2) [OF inv bf(1)] by (simp add: t_def)
  have bin: "block b k \<subseteq> free_pgs s" using bf(1) by (auto simp: free_pgs_def)
  have mb: "mem_base t = mem_base s" by (simp add: t_def)
  show "buddy_inv t" using buddy_inv_unlink(1) [OF inv bf(1)] by (simp add: t_def)
  show sz: "same_zones s t" by (simp add: t_def)
  show "free_pgs t \<union> block (mem_base t z + (i AND (i XOR 2 ^ k))) (Suc k) = free_pgs s \<union> block (mem_base s z + i) k"
    unfolding mb m f using bin by blast
  have "usable s z (block b k)" using buddy_invD(6) [OF inv bf(1)] bf(2) by simp
  then show "linkable t z (mem_base t z + (i AND (i XOR 2 ^ k))) (Suc k)"
    using link bin buddy_index(3) [OF al]
    unfolding linkable_def mb m f same_zones_usable [OF sz] same_zones_aligned [OF sz] usable_Un
    by (auto simp: aligned_def)
qed

lemma merge_loop_spec:
  assumes "buddy_inv s" "linkable s z (mem_base s z + i) k" "k \<le> MAX_ORDER"
    and "merge_loop z i k s = (i', k', s')"
  shows "buddy_inv s' \<and> linkable s' z (mem_base s z + i') k' \<and> k' \<le> MAX_ORDER \<and> same_zones s s'
    \<and> free_pgs s' \<union> block (mem_base s z + i') k' = free_pgs s \<union> block (mem_base s z + i) k
    \<and> (k' = MAX_ORDER \<or> \<not> page_is_buddy (mem_base s z + (i' XOR 2 ^ k')) k' z s')"
  using assms
proof (induction z i k s rule: merge_loop.induct)
  case (1 z i k s)
  let ?b = "mem_base s z + (i XOR 2 ^ k)"
  show ?case
  proof (cases "k < MAX_ORDER \<and> page_is_buddy ?b k z s")
    case True
    let ?t = "upd_page ?b ClearPageProperty (unlink_block ?b k s)"
    note st = merge_step [OF 1(2,3) refl conjunct2 [OF True]]
    have mb: "mem_base ?t = mem_base s" by simp
    have "merge_loop z (i AND (i XOR 2 ^ k)) (Suc k) ?t = (i', k', s')"
      using 1(5) True by (simp add: merge_loop.simps [of z i k] Let_def idx2page_def)
    moreover have "\<not> \<not> page_is_buddy ?b k z s" "Suc k \<le> MAX_ORDER" using True by simp_all
    ultimately have "buddy_inv s' \<and> linkable s' z (mem_base s z + i') k' \<and> k' \<le> MAX_ORDER \<and> same_zones ?t s'
      \<and> free_pgs s' \<union> block (mem_base s z + i') k'
        = free_pgs ?t \<union> block (mem_base s z + (i AND (i XOR 2 ^ k))) (Suc k)
      \<and> (k' = MAX_ORDER \<or> \<not> page_is_buddy (mem_base s z + (i' XOR 2 ^ k')) k' z s')"
      using 1(1) [OF conjunct1 [OF True] refl refl, unfolded idx2page_def, OF _ st(1,2)] unfolding mb by blast
    then show ?thesis using st(3) same_zones_trans [OF st(4), of s'] unfolding mb by auto
  next
    case False
    then have "i' = i" "k' = k" "s' = s"
      using 1(5) by (auto simp: merge_loop.simps [of z i k] Let_def idx2page_def split: if_splits)
    then show ?thesis using 1 False by auto
  qed
qed


lemma linkable_not_property:
  assumes "buddy_inv s" "linkable s z p k" "q \<in> block p k"
  shows "\<not> PageReserved (page s q) \<and> \<not> PageProperty (page s q)"
proof -
  have "q < npage s" "\<not> PageReserved (page s q)" "q \<notin> free_pgs s"
    using assms(2,3) by (auto simp: linkable_def usable_def)
  then show ?thesis using buddy_invD(8) [OF assms(1)] head_free by blast
qed

lemma buddy_free_sub_unfold:
  assumes inv: "buddy_inv s" and link: "linkable s z p k" and k: "k \<le> MAX_ORDER"
  shows "\<exists>t. same_view s t \<and> buddy_free_pages_sub p k s =
    (case merge_loop z (p - mem_base s z) k t of (i, k, u) \<Rightarrow> Some (link_block (mem_base u z + i) k u))"
proof -
  obtain t where t: "reset_pages p (2 ^ k) s = Some t" "same_view s t"
    using reset_pages_view linkable_not_property [OF inv link] unfolding block_def by blast
  have "pg_zone_num (page s p) = z" using linkable_zone [OF link] .
  moreover have "pg_zone_num (page t p) = pg_zone_num (page s p)" "mem_base t = mem_base s"
    using t(2) by (simp_all add: same_view_def same_zones_def)
  moreover have "(p - mem_base s z) AND (2 ^ k - 1) = 0"
    using link by (simp only: and_mask_dvd linkable_def aligned_def)
  ultimately show ?thesis
    using t by (intro exI [of _ t])
      (simp add: buddy_free_pages_sub_def page2idx_def idx2page_def Let_def del: One_nat_def)
qed

lemma buddy_free_sub_spec:
  assumes inv: "buddy_inv s" and link: "linkable s z p k" and k: "k \<le> MAX_ORDER"
  shows "\<exists>s'. buddy_free_pages_sub p k s = Some s' \<and> buddy_inv s' \<and> free_pgs s' = free_pgs s \<union> block p k
    \<and> same_zones s s'"
proof -
  obtain t where v: "same_view s t" and eq: "buddy_free_pages_sub p k s =
      (case merge_loop z (p - mem_base s z) k t of (i, k, u) \<Rightarrow> Some (link_block (mem_base u z + i) k u))"
    using buddy_free_sub_unfold [OF assms] by blast
  obtain i j u where m: "merge_loop z (p - mem_base s z) k t = (i, j, u)" by (metis prod_cases3)
  have mb: "mem_base t = mem_base s" "same_zones s t" using v by (simp_all add: same_view_def same_zones_def)
  have p: "mem_base s z + (p - mem_base s z) = p"
    using link block_self [of p k] by (auto simp: linkable_def usable_def)
  have spec: "buddy_inv u \<and> linkable u z (mem_base s z + i) j \<and> j \<le> MAX_ORDER \<and> same_zones t u
      \<and> free_pgs u \<union> block (mem_base s z + i) j = free_pgs s \<union> block p k"
    using merge_loop_spec [OF _ _ k m] inv link unfolding mb p same_view_inv [OF v] by blast
  have "mem_base u = mem_base s" using spec mb by (simp add: same_zones_def)
  then have "buddy_free_pages_sub p k s = Some (link_block (mem_base s z + i) j u)" using eq m by simp
  then show ?thesis
    using spec mb(2) buddy_inv_link [of u z "mem_base s z + i" j]
    by (auto simp: free_pgs_link intro: same_zones_trans)
qed


subsection \<open>Freeing a range\<close>

text \<open>A range of allocated pages of one zone.\<close>

definition allocated :: "buddy \<Rightarrow> nat \<Rightarrow> nat set \<Rightarrow> bool" where
  "allocated s z Q \<longleftrightarrow> usable s z Q \<and> Q \<inter> free_pgs s = {}"

lemma linkable_iff: "linkable s z p k \<longleftrightarrow> allocated s z (block p k) \<and> aligned s z p k"
  by (auto simp: linkable_def allocated_def)

lemma align_next:
  assumes "2 ^ k dvd (i :: nat)"
  shows "i AND 2 ^ k \<noteq> 0 \<Longrightarrow> 2 ^ Suc k dvd i + 2 ^ k" "i AND 2 ^ k = 0 \<Longrightarrow> 2 ^ Suc k dvd i"
proof -
  obtain m where m: "i = 2 ^ k * m" using assms by (rule dvdE)
  have b: "i AND 2 ^ k = 0 \<longleftrightarrow> even m"
    unfolding and_exp_eq_0_iff_not_bit bit_iff_odd m by simp
  show "i AND 2 ^ k \<noteq> 0 \<Longrightarrow> 2 ^ Suc k dvd i + 2 ^ k" unfolding b by (auto simp: m elim!: oddE)
  show "i AND 2 ^ k = 0 \<Longrightarrow> 2 ^ Suc k dvd i" unfolding b by (auto simp: m elim!: evenE)
qed

lemma pow_le_pos: "2 ^ k \<le> (n :: nat) \<Longrightarrow> 0 < n"
  by (rule less_le_trans [OF zero_less_power [OF zero_less_numeral]])

lemma range_split: "2 ^ k \<le> n \<Longrightarrow> {p..<p + n} = block p k \<union> {p + 2 ^ k..<p + 2 ^ k + (n - 2 ^ k)}"
  by (auto simp: block_def)

text \<open>One call of \<^verbatim>\<open>buddy_free_pages_sub\<close> at the beginning of an allocated range.\<close>

lemma free_first_block:
  assumes "buddy_inv s" "allocated s z {p..<p + n}" "aligned s z p k" "2 ^ k \<le> n" "k \<le> MAX_ORDER"
  obtains s' where "buddy_free_pages_sub p k s = Some s'" "buddy_inv s'" "same_zones s s'"
    "free_pgs s' = free_pgs s \<union> block p k" "allocated s' z {p + 2 ^ k..<p + 2 ^ k + (n - 2 ^ k)}"
    "mem_base s z \<le> p"
proof -
  have "allocated s z (block p k)" using assms(2) range_split [OF assms(4)] by (auto simp: allocated_def usable_Un)
  then obtain s' where s': "buddy_free_pages_sub p k s = Some s'" "buddy_inv s'"
      "free_pgs s' = free_pgs s \<union> block p k" "same_zones s s'"
    using buddy_free_sub_spec [OF assms(1) _ assms(5)] assms(3) linkable_iff by blast
  have "block p k \<inter> {p + 2 ^ k..<p + 2 ^ k + (n - 2 ^ k)} = {}" by (auto simp: block_def)
  then have "allocated s' z {p + 2 ^ k..<p + 2 ^ k + (n - 2 ^ k)}"
    using assms(2) s'(3) same_zones_usable [OF s'(4)] range_split [OF assms(4)]
    by (auto simp: allocated_def usable_Un)
  moreover have "p \<in> {p..<p + n}" using pow_le_pos [OF assms(4)] by simp
  then have "mem_base s z \<le> p" using assms(2) unfolding allocated_def usable_def by blast
  ultimately show ?thesis using that s' by blast
qed

lemma order_bound: "2 ^ k \<le> (n :: nat) \<Longrightarrow> n < 2048 \<Longrightarrow> k \<le> MAX_ORDER"
  using power_less_imp_less_exp [of "2 :: nat" k 11] by (simp add: MAX_ORDER_def)

lemma range_zone: "allocated s z {p..<p + n} \<Longrightarrow> 0 < n \<Longrightarrow> page2idx p s = p - mem_base s z"
  by (auto simp: allocated_def usable_def page2idx_def)

lemma free_up_spec:
  assumes "buddy_inv s" "allocated s z {p..<p + n}" "aligned s z p k" "n < 2048"
  shows "\<exists>p' n' k' s'. free_up p n k s = Some (p', n', k', s') \<and> buddy_inv s' \<and> same_zones s s' \<and> n' \<le> n
    \<and> allocated s' z {p'..<p' + n'} \<and> aligned s' z p' k'
    \<and> free_pgs s' \<union> {p'..<p' + n'} = free_pgs s \<union> {p..<p + n}"
  using assms
proof (induction p n k s rule: free_up.induct)
  case (1 p n k s)
  show ?case
  proof (cases "2 ^ k \<le> n")
    case True
    have k: "k \<le> MAX_ORDER" using order_bound [OF True 1(6)] .
    have n: "0 < n" using pow_le_pos [OF True] .
    have idx: "page2idx p s = p - mem_base s z" using range_zone [OF 1(4) n] .
    have al: "2 ^ k dvd p - mem_base s z" using 1(5) by (simp add: aligned_def)
    show ?thesis
    proof (cases "page2idx p s AND 2 ^ k = 0")
      case bit: True
      have "aligned s z p (Suc k)" using align_next(2) [OF al] bit idx by (simp add: aligned_def)
      then show ?thesis using 1(2) [OF True _ _ 1(3,4) _ 1(6)] True bit k by (simp add: free_up.simps [of p n k])
    next
      case False
      obtain t where t: "buddy_free_pages_sub p k s = Some t" "buddy_inv t" "same_zones s t"
          "free_pgs t = free_pgs s \<union> block p k" "allocated t z {p + 2 ^ k..<p + 2 ^ k + (n - 2 ^ k)}"
          "mem_base s z \<le> p"
        using free_first_block [OF 1(3,4,5) True k] .
      have "2 ^ Suc k dvd (p - mem_base s z) + 2 ^ k" using align_next(1) [OF al] False idx by simp
      moreover have "p + 2 ^ k - mem_base s z = (p - mem_base s z) + 2 ^ k" using t(6) by simp
      ultimately have "aligned t z (p + 2 ^ k) (Suc k)"
        using t(3) by (simp add: aligned_def same_zones_def)
      then obtain p' n' k' s' where "free_up (p + 2 ^ k) (n - 2 ^ k) (Suc k) t = Some (p', n', k', s')"
          "buddy_inv s'" "same_zones t s'" "n' \<le> n - 2 ^ k" "allocated s' z {p'..<p' + n'}" "aligned s' z p' k'"
          "free_pgs s' \<union> {p'..<p' + n'} = free_pgs t \<union> {p + 2 ^ k..<p + 2 ^ k + (n - 2 ^ k)}"
        using 1(1) [OF True _ False t(1,2,5)] k 1(6) by (fastforce simp: kassert_def)
      then show ?thesis
        using True False k t(1,4) same_zones_trans [OF t(3)] range_split [OF True, of p]
        by (auto simp: free_up.simps [of p n k])
    qed
  next
    case False
    then show ?thesis using 1 by (simp add: free_up.simps [of p n k])
  qed
qed

lemma free_down_spec:
  assumes "buddy_inv s" "allocated s z {p..<p + n}" "aligned s z p k" "n < 2048"
  shows "\<exists>s'. free_down p n k s = Some s' \<and> buddy_inv s' \<and> same_zones s s'
    \<and> free_pgs s' = free_pgs s \<union> {p..<p + n}"
  using assms
proof (induction p n k s rule: free_down.induct)
  case (1 p n k s)
  consider "n = 0" | "0 < n" "n < 2 ^ k" | "0 < n" "2 ^ k \<le> n" by linarith
  then show ?case
  proof cases
    case 1
    then show ?thesis using \<open>buddy_inv s\<close> by (simp add: free_down.simps [of p 0 k])
  next
    case 2
    then have "aligned s z p (k - 1)"
      using 1(5) dvd_trans [OF le_imp_power_dvd [of "k - 1" k 2]] by (simp add: aligned_def)
    then show ?thesis using 1(1) [OF _ 2(2) 1(3,4) _ 1(6)] 2 by (simp add: free_down.simps [of p n k])
  next
    case 3
    obtain t where t: "buddy_free_pages_sub p k s = Some t" "buddy_inv t" "same_zones s t"
        "free_pgs t = free_pgs s \<union> block p k" "allocated t z {p + 2 ^ k..<p + 2 ^ k + (n - 2 ^ k)}"
        "mem_base s z \<le> p"
      using free_first_block [OF 1(3,4,5) 3(2) order_bound [OF 3(2) 1(6)]] .
    have "p + 2 ^ k - mem_base s z = (p - mem_base s z) + 2 ^ k" using t(6) by simp
    then have "aligned t z (p + 2 ^ k) k" using 1(5) t(3) by (simp add: aligned_def same_zones_def)
    then obtain s' where "free_down (p + 2 ^ k) (n - 2 ^ k) k t = Some s'" "buddy_inv s'" "same_zones t s'"
        "free_pgs s' = free_pgs t \<union> {p + 2 ^ k..<p + 2 ^ k + (n - 2 ^ k)}"
      using 1(2) [OF _ _ t(1,2,5)] 3 1(6) by force
    then show ?thesis
      using 3 t(1,4) same_zones_trans [OF t(3)] range_split [OF 3(2), of p]
      by (auto simp: free_down.simps [of p n k])
  qed
qed

lemma buddy_free_pages_spec:
  assumes "buddy_inv s" "allocated s z {p..<p + n}" "0 < n" "n < 2048"
  shows "\<exists>s'. buddy_free_pages p n s = Some s' \<and> buddy_inv s' \<and> same_zones s s'
    \<and> free_pgs s' = free_pgs s \<union> {p..<p + n}"
proof (cases "n = 1")
  case True
  then show ?thesis
    using free_first_block [OF assms(1,2), of 0] by (auto simp: buddy_free_pages_def aligned_def block_def)
next
  case False
  obtain p' n' k' s' where u: "free_up p n 0 s = Some (p', n', k', s')" "buddy_inv s'" "same_zones s s'" "n' \<le> n"
      "allocated s' z {p'..<p' + n'}" "aligned s' z p' k'"
      "free_pgs s' \<union> {p'..<p' + n'} = free_pgs s \<union> {p..<p + n}"
    using free_up_spec [OF assms(1,2) _ assms(4), of 0] by (auto simp: aligned_def)
  then show ?thesis
    using False assms(3,4) free_down_spec [OF u(2,5,6)] same_zones_trans [OF u(3)]
    by (auto simp: buddy_free_pages_def)
qed


subsection \<open>Requests of any size\<close>

lemma getorder_from_Some:
  "getorder_from k n = Some j \<Longrightarrow> k \<le> j \<and> j \<le> MAX_ORDER \<and> n \<le> 2 ^ j \<and> (j = k \<or> 2 ^ (j - 1) < n)"
proof (induction k n rule: getorder_from.induct)
  case (1 k n)
  then show ?case
    by (cases "k \<le> MAX_ORDER \<and> \<not> n \<le> 2 ^ k") (auto simp: getorder_from.simps [of k] split: if_splits)
qed

lemma getorder_from_None: "getorder_from k n = None \<Longrightarrow> k \<le> MAX_ORDER \<Longrightarrow> 2 ^ MAX_ORDER < n"
proof (induction k n rule: getorder_from.induct)
  case (1 k n)
  then show ?case
    by (cases "k = MAX_ORDER") (auto simp: getorder_from.simps [of k] getorder_from.simps [of MAX_ORDER]
        getorder_from.simps [of "Suc MAX_ORDER"] split: if_splits)
qed

lemma getorder_total: "n \<le> 1024 \<Longrightarrow> \<exists>k. getorder n = Some k"
  using getorder_from_None [of 0 n] by (cases "getorder n") (auto simp: getorder_def MAX_ORDER_def)

lemma same_zones_split: "same_zones s (split_block p k j s)"
proof (induction p k j s rule: split_block.induct)
  case (2 p k j s)
  then show ?case using same_zones_trans [OF same_zones_link [of s "p + 2 ^ j" j]] by simp
qed simp

lemma buddy_alloc_sub_zones: "buddy_alloc_pages_sub k s = Some (q, s') \<Longrightarrow> same_zones s s'"
  using same_zones_trans [OF same_zones_unlink same_zones_split]
  by (auto simp: buddy_alloc_pages_sub_def Let_def split_clear_commute split: option.splits if_splits)

lemma buddy_alloc_pages_spec:
  assumes inv: "buddy_inv s" and n: "0 < n" "n \<le> 1024"
  shows "(buddy_alloc_pages n s = Some (None, s) \<and> (\<forall>j. n \<le> 2 ^ j \<longrightarrow> free_list s j = []))
    \<or> (\<exists>p s' z. buddy_alloc_pages n s = Some (Some p, s') \<and> buddy_inv s' \<and> same_zones s s'
        \<and> {p..<p + n} \<subseteq> free_pgs s \<and> free_pgs s' = free_pgs s - {p..<p + n} \<and> allocated s' z {p..<p + n})"
proof -
  obtain k where g: "getorder n = Some k" using getorder_total [OF n(2)] by blast
  then have k: "k \<le> MAX_ORDER" "n \<le> 2 ^ k" "k = 0 \<or> 2 ^ (k - 1) < n"
    using getorder_from_Some [of 0 n k] by (auto simp: getorder_def)
  show ?thesis
  proof (cases "alloc_scan k s")
    case None
    have "free_list s j = []" if "n \<le> 2 ^ j" for j
    proof (cases "j \<le> MAX_ORDER")
      case True
      then show ?thesis using alloc_scan_None [OF None order_fits_mono [OF k(3) that] True] by simp
    next
      case False
      then show ?thesis using buddy_invD(3) [OF inv, of _ j] by (cases "free_list s j") auto
    qed
    then show ?thesis using buddy_alloc_sub_spec [OF inv k(1)] None n g by (simp add: buddy_alloc_pages_def)
  next
    case (Some j)
    then obtain p t where t: "buddy_alloc_pages_sub k s = Some (Some p, t)" "buddy_inv t"
        "linkable t (pg_zone_num (page s p)) p k" "block p k \<subseteq> free_pgs s" "free_pgs t = free_pgs s - block p k"
      using buddy_alloc_sub_spec [OF inv k(1)] by auto
    note z = buddy_alloc_sub_zones [OF t(1)]
    let ?z = "pg_zone_num (page s p)"
    have B: "block p k = {p..<p + n} \<union> {p + n..<p + n + (2 ^ k - n)}" using k(2) by (auto simp: block_def)
    have al: "allocated t ?z {p..<p + n}" "allocated t ?z {p + n..<p + n + (2 ^ k - n)}"
      using t(3) unfolding linkable_iff B allocated_def usable_Un by auto
    show ?thesis
    proof (cases "n = 2 ^ k")
      case True
      then show ?thesis using t z al n g unfolding B by (auto simp: buddy_alloc_pages_def)
    next
      case False
      have "(2 :: nat) ^ k \<le> 2 ^ 10" using k(1) by (intro power_increasing) (simp_all add: MAX_ORDER_def)
      then have "0 < 2 ^ k - n" "2 ^ k - n < 2048" using False k(2) by auto
      then obtain u where u: "buddy_free_pages (p + n) (2 ^ k - n) t = Some u" "buddy_inv u" "same_zones t u"
          "free_pgs u = free_pgs t \<union> {p + n..<p + n + (2 ^ k - n)}"
        using buddy_free_pages_spec [OF t(2) al(2)] by blast
      have "{p..<p + n} \<inter> {p + n..<p + n + (2 ^ k - n)} = {}" by auto
      then have "free_pgs u = free_pgs s - {p..<p + n}" "allocated u ?z {p..<p + n}"
        using u(4) t(4,5) al(1) same_zones_usable [OF u(3)] unfolding B allocated_def by auto
      then show ?thesis
        using False n g t(1,4) u(1,2) same_zones_trans [OF z u(3)] unfolding B
        by (auto simp: buddy_alloc_pages_def)
    qed
  qed
qed

subsection \<open>The count of free pages\<close>

lemma card_free_pgs:
  assumes "buddy_inv s"
  shows "card (free_pgs s) = (\<Sum>k \<le> MAX_ORDER. length (free_list s k) * 2 ^ k)"
proof -
  let ?I = "SIGMA k : {..MAX_ORDER}. set (free_list s k)"
  note I = buddy_invD [OF assms]
  have "free_pgs s = (\<Union>(k, p) \<in> ?I. block p k)" using I(3) by (auto simp: free_pgs_def)
  moreover have "\<forall>x \<in> ?I. \<forall>y \<in> ?I. x \<noteq> y \<longrightarrow>
      (case x of (k, p) \<Rightarrow> block p k) \<inter> (case y of (k, p) \<Rightarrow> block p k) = {}"
    using I(5,9) by (auto split: prod.splits) blast+
  ultimately have "card (free_pgs s) = (\<Sum>(k, p) \<in> ?I. card (block p k))"
    using card_UN_disjoint [of ?I "\<lambda>(k, p). block p k"] by (auto simp: block_def split_beta)
  also have "\<dots> = (\<Sum>k \<le> MAX_ORDER. \<Sum>p \<in> set (free_list s k). 2 ^ k)"
    by (subst sum.Sigma) (auto simp: block_def)
  also have "\<dots> = (\<Sum>k \<le> MAX_ORDER. length (free_list s k) * 2 ^ k)"
    using I(1) by (simp add: distinct_card)
  finally show ?thesis .
qed

lemma nr_free_pages_card:
  assumes "buddy_inv s"
  shows "buddy_nr_free_pages s = of_nat (card (free_pgs s))"
proof -
  have "buddy_nr_free_pages s = (\<Sum>k \<le> MAX_ORDER. nr_free s k * 2 ^ k)"
    unfolding buddy_nr_free_pages_def
    by (simp only: sum_list_distinct_conv_sum_set distinct_upt set_upt atLeast0LessThan lessThan_Suc_atMost push_bit_of_1)
  also have "\<dots> = of_nat (\<Sum>k \<le> MAX_ORDER. length (free_list s k) * 2 ^ k)"
    using buddy_invD(2) [OF assms] by simp
  finally show ?thesis using card_free_pgs [OF assms] by simp
qed


subsection \<open>Initialisation\<close>

lemma init_pages_spec:
  "\<forall>q \<in> {p..<p + n}. PageReserved (page s q) \<Longrightarrow> \<exists>pg. init_pages p n z s = Some (s\<lparr>page := pg\<rparr>)
     \<and> (\<forall>q. q \<notin> {p..<p + n} \<longrightarrow> pg q = page s q)
     \<and> (\<forall>q \<in> {p..<p + n}. \<not> PageReserved (pg q) \<and> \<not> PageProperty (pg q) \<and> pg_zone_num (pg q) = z)"
proof (induction p n z s rule: init_pages.induct)
  case (1 p z s)
  then show ?case by (intro exI [of _ "page s"]) simp
next
  case (2 p n z s)
  let ?t = "upd_page p (\<lambda>pg. set_page_ref 0 (pg\<lparr>pg_flags := 0, pg_property := 0, pg_zone_num := z\<rparr>)) s"
  have p: "PageReserved (page s p)" using 2(2) by simp
  then obtain pg where pg: "init_pages (Suc p) n z ?t = Some (?t\<lparr>page := pg\<rparr>)"
      "\<forall>q. q \<notin> {Suc p..<Suc p + n} \<longrightarrow> pg q = page ?t q"
      "\<forall>q \<in> {Suc p..<Suc p + n}. \<not> PageReserved (pg q) \<and> \<not> PageProperty (pg q) \<and> pg_zone_num (pg q) = z"
    using 2 by fastforce
  have "pg p = page ?t p" using pg(2) by simp
  then have "\<not> PageReserved (pg p) \<and> \<not> PageProperty (pg p) \<and> pg_zone_num (pg p) = z"
    by (simp add: PageReserved_def PageProperty_def test_bit_at_def set_page_ref_def)
  moreover have "{p..<p + Suc n} = insert p {Suc p..<Suc p + n}" by auto
  ultimately show ?case
    using pg p by (intro exI [of _ pg]) (auto simp: upd_page_def)
qed

lemma init_blocks_spec:
  assumes "buddy_inv s" "allocated s z {p..<p + n}" "aligned s z p k" "k \<le> MAX_ORDER"
  shows "buddy_inv (init_blocks n p k s) \<and> free_pgs (init_blocks n p k s) = free_pgs s \<union> {p..<p + n}
    \<and> same_zones s (init_blocks n p k s)"
  using assms
proof (induction n p k s rule: init_blocks.induct)
  case (1 n p k s)
  consider "n = 0" | "0 < n" "\<not> 2 ^ k \<le> n" | "0 < n" "2 ^ k \<le> n" by linarith
  then show ?case
  proof cases
    case 1
    then show ?thesis using \<open>buddy_inv s\<close> by (simp add: init_blocks.simps [of 0 p k])
  next
    case 2
    then have "aligned s z p (k - 1)"
      using 1(5) dvd_trans [OF le_imp_power_dvd [of "k - 1" k 2]] by (simp add: aligned_def)
    then show ?thesis using 1(2) [OF _ 2(2) 1(3,4)] 2 1(6) by (simp add: init_blocks.simps [of n p k])
  next
    case 3
    let ?t = "link_block p k s"
    have "mem_base s z \<le> p" using 1(4) 3(1) by (auto simp: allocated_def usable_def)
    then have "p + 2 ^ k - mem_base s z = (p - mem_base s z) + 2 ^ k" by simp
    then have al: "aligned ?t z (p + 2 ^ k) k" using 1(5) by (simp add: aligned_def)
    have disj: "block p k \<inter> {p + 2 ^ k..<p + 2 ^ k + (n - 2 ^ k)} = {}" by (auto simp: block_def)
    have "linkable s z p k" "allocated ?t z {p + 2 ^ k..<p + 2 ^ k + (n - 2 ^ k)}"
      using 1(4,5) disj unfolding range_split [OF 3(2)] linkable_iff allocated_def usable_Un
      by (auto simp: free_pgs_link)
    then show ?thesis
      using 1(1) [OF _ 3(2) _ _ al 1(6)] buddy_inv_link [OF 1(3) _ 1(6)] 3 range_split [OF 3(2), of p]
        same_zones_trans [OF same_zones_link [of s p k]]
      by (auto simp: init_blocks.simps [of n p k] free_pgs_link)
  qed
qed

end
