(* ===== verification/Intr.thy ===== *)
theory Intr
  imports Klib
begin

text \<open>
  Interrupt masking and the counters built on it: \<^verbatim>\<open>kern/driver/intr.c\<close>, \<^verbatim>\<open>kern/driver/intr.h\<close> and the
  counter operations of \<^verbatim>\<open>kern/include/atomic.h\<close>. The state is the status register of
  coprocessor 0, a 32-bit word whose lowest bit enables interrupts. On this single processor a
  section of code between \<^verbatim>\<open>local_intr_save\<close> and \<^verbatim>\<open>local_intr_restore\<close> is atomic; \<open>critical\<close> is that
  pattern, used by the components above.
\<close>

section \<open>The code\<close>

definition ST0_IE :: u32 where "ST0_IE = 1"

definition intr_enable :: "u32 \<Rightarrow> u32" where "intr_enable status = status OR ST0_IE"

definition intr_disable :: "u32 \<Rightarrow> u32" where "intr_disable status = status AND NOT ST0_IE"

definition intr_save :: "u32 \<Rightarrow> bool \<times> u32" where
  "intr_save status = (if status AND ST0_IE = 0 then (False, status) else (True, intr_disable status))"

definition intr_restore :: "bool \<Rightarrow> u32 \<Rightarrow> u32" where
  "intr_restore flag status = (if flag then intr_enable status else status)"

definition critical :: "('s \<Rightarrow> ('a \<times> 's) option) \<Rightarrow> u32 \<times> 's \<Rightarrow> ('a \<times> u32 \<times> 's) option" where
  "critical body c = (case c of (status, s) \<Rightarrow>
     (case intr_save status of (flag, status) \<Rightarrow> do {
        (r, s) \<leftarrow> body s;
        Some (r, intr_restore flag status, s)
      }))"

section \<open>Atomic counters\<close>

text \<open>A counter is a 32-bit word; it wraps.\<close>

definition atomic_read :: "u32 \<Rightarrow> u32" where "atomic_read v = v"

definition atomic_set :: "u32 \<Rightarrow> u32 \<Rightarrow> u32" where "atomic_set v i = i"

definition atomic_add :: "u32 \<Rightarrow> u32 \<Rightarrow> u32" where "atomic_add v i = v + i"

definition atomic_sub :: "u32 \<Rightarrow> u32 \<Rightarrow> u32" where "atomic_sub v i = v - i"

definition atomic_inc :: "u32 \<Rightarrow> u32" where "atomic_inc v = atomic_add v 1"

definition atomic_dec :: "u32 \<Rightarrow> u32" where "atomic_dec v = atomic_sub v 1"

definition atomic_sub_test_zero :: "u32 \<Rightarrow> u32 \<times> u32 \<Rightarrow> (bool \<times> u32 \<times> u32) option" where
  "atomic_sub_test_zero i = critical (\<lambda>v. Some (v - i = 0, v - i))"

definition atomic_inc_test_zero :: "u32 \<times> u32 \<Rightarrow> (bool \<times> u32 \<times> u32) option" where
  "atomic_inc_test_zero = critical (\<lambda>v. Some (atomic_inc v = 0, atomic_inc v))"

definition atomic_dec_test_zero :: "u32 \<times> u32 \<Rightarrow> (bool \<times> u32 \<times> u32) option" where
  "atomic_dec_test_zero = critical (\<lambda>v. Some (atomic_dec v = 0, atomic_dec v))"

definition atomic_add_return :: "u32 \<Rightarrow> u32 \<times> u32 \<Rightarrow> (u32 \<times> u32 \<times> u32) option" where
  "atomic_add_return i = critical (\<lambda>v. Some (v + i, v + i))"

definition atomic_sub_return :: "u32 \<Rightarrow> u32 \<times> u32 \<Rightarrow> (u32 \<times> u32 \<times> u32) option" where
  "atomic_sub_return i = atomic_add_return (- i)"

text \<open>The lock of \<^verbatim>\<open>kern/sync/sync.h\<close>: a word whose lowest bit is set while it is held.\<close>

definition try_lock :: "u32 \<Rightarrow> bool \<times> u32" where
  "try_lock l = (case test_and_set_bit 0 l of (old, l) \<Rightarrow> (\<not> old, l))"

definition unlock :: "u32 \<Rightarrow> u32 option" where
  "unlock l = (case test_and_clear_bit 0 l of (old, l) \<Rightarrow> if \<not> old then None else Some l)"

section \<open>Lemmas\<close>

lemma ST0_IE_bit: "(status AND ST0_IE = 0) \<longleftrightarrow> \<not> bit status 0"
  using and_power_bit [of status 0] by (simp add: ST0_IE_def)

lemma intr_bits:
  "bit (intr_enable status) i \<longleftrightarrow> i = 0 \<or> bit status i"
  "bit (intr_disable status) i \<longleftrightarrow> i \<noteq> 0 \<and> bit status i"
proof -
  show "bit (intr_enable status) i \<longleftrightarrow> i = 0 \<or> bit status i"
    by (simp only: intr_enable_def ST0_IE_def bit_or_iff bit_1_iff) auto
  show "bit (intr_disable status) i \<longleftrightarrow> i \<noteq> 0 \<and> bit status i"
    by (cases "i < 32")
       (auto simp only: intr_disable_def ST0_IE_def bit_and_iff bit_not_iff bit_1_iff possible_bit_word len_num1 len_bit0
         dest: bit_imp_le_length)
qed

lemma save_restore: "intr_restore (fst (intr_save status)) (snd (intr_save status)) = status"
proof (cases "bit status 0")
  case True
  then have "intr_enable (intr_disable status) = status" by (intro bit_word_eqI) (auto simp: intr_bits)
  then show ?thesis using True by (simp add: intr_save_def intr_restore_def ST0_IE_bit)
qed (simp add: intr_save_def intr_restore_def ST0_IE_bit)

lemma save_disables: "\<not> bit (snd (intr_save status)) 0"
  by (simp add: intr_save_def ST0_IE_bit intr_bits)

text \<open>A critical section leaves the status register as it found it.\<close>

lemma critical_eq: "critical body (status, s) = map_option (\<lambda>(r, s'). (r, status, s')) (body s)"
  using save_restore [of status] by (cases "body s") (auto simp: critical_def split: prod.splits)


section \<open>Properties\<close>


end
