(* ===== verification/Page_Allocator.thy ===== *)
theory Page_Allocator
  imports Buddy Intr
begin

text \<open>
  The page allocator as the kernel uses it: \<^verbatim>\<open>struct pmm_manager\<close> of \<^verbatim>\<open>kern/mm/pmm.h\<close>, its instance
  \<^verbatim>\<open>buddy_pmm_manager\<close>, and the functions \<^verbatim>\<open>alloc_pages\<close>, \<^verbatim>\<open>free_pages\<close> and \<^verbatim>\<open>nr_free_pages\<close> of
  \<^verbatim>\<open>kern/mm/pmm.c\<close> that call the manager with interrupts disabled. The locale \<open>page_allocator\<close> is what a
  manager promises; the buddy system is shown to keep the promise, and to keep its free blocks
  fully merged.
\<close>

section \<open>The code\<close>

record 's pmm_manager =
  pm_init :: "'s \<Rightarrow> 's"
  pm_init_memmap :: "nat \<Rightarrow> nat \<Rightarrow> 's \<Rightarrow> 's option"
  pm_alloc_pages :: "nat \<Rightarrow> 's \<Rightarrow> (nat option \<times> 's) option"
  pm_free_pages :: "nat \<Rightarrow> nat \<Rightarrow> 's \<Rightarrow> 's option"
  pm_nr_free_pages :: "'s \<Rightarrow> u32"

definition buddy_pmm_manager :: "buddy pmm_manager" where
  "buddy_pmm_manager = \<lparr>pm_init = buddy_init, pm_init_memmap = buddy_init_memmap,
     pm_alloc_pages = buddy_alloc_pages, pm_free_pages = buddy_free_pages,
     pm_nr_free_pages = buddy_nr_free_pages\<rparr>"

definition alloc_pages :: "'s pmm_manager \<Rightarrow> nat \<Rightarrow> u32 \<times> 's \<Rightarrow> (nat option \<times> u32 \<times> 's) option" where
  "alloc_pages pm n = critical (pm_alloc_pages pm n)"

definition free_pages :: "'s pmm_manager \<Rightarrow> nat \<Rightarrow> nat \<Rightarrow> u32 \<times> 's \<Rightarrow> (unit \<times> u32 \<times> 's) option" where
  "free_pages pm base n = critical (\<lambda>s. map_option (Pair ()) (pm_free_pages pm base n s))"

definition nr_free_pages :: "'s pmm_manager \<Rightarrow> u32 \<times> 's \<Rightarrow> (u32 \<times> u32 \<times> 's) option" where
  "nr_free_pages pm = critical (\<lambda>s. Some (pm_nr_free_pages pm s, s))"

section \<open>The contract\<close>

text \<open>\<open>frees s\<close> are the free pages and \<open>held s Q\<close> says that \<open>Q\<close> is a range of pages the caller
  holds.\<close>

locale page_allocator =
  fixes pm :: "'s pmm_manager"
    and inv :: "'s \<Rightarrow> bool"
    and frees :: "'s \<Rightarrow> nat set"
    and held :: "'s \<Rightarrow> nat set \<Rightarrow> bool"
  assumes finite_frees: "inv s \<Longrightarrow> finite (frees s)"
    and held_disjoint: "held s Q \<Longrightarrow> Q \<inter> frees s = {}"
    and alloc_law: "inv s \<Longrightarrow> 0 < n \<Longrightarrow> n \<le> 1024 \<Longrightarrow>
      pm_alloc_pages pm n s = Some (None, s) \<or>
      (\<exists>p s'. pm_alloc_pages pm n s = Some (Some p, s') \<and> inv s' \<and> {p..<p + n} \<subseteq> frees s
        \<and> frees s' = frees s - {p..<p + n} \<and> held s' {p..<p + n})"
    and alloc_keeps: "inv s \<Longrightarrow> 0 < n \<Longrightarrow> n \<le> 1024 \<Longrightarrow> pm_alloc_pages pm n s = Some (q, s') \<Longrightarrow>
      held s Q \<Longrightarrow> held s' Q"
    and free_law: "inv s \<Longrightarrow> held s {p..<p + n} \<Longrightarrow> 0 < n \<Longrightarrow> n \<le> 1024 \<Longrightarrow>
      \<exists>s'. pm_free_pages pm p n s = Some s' \<and> inv s' \<and> frees s' = frees s \<union> {p..<p + n}"
    and count_law: "inv s \<Longrightarrow> pm_nr_free_pages pm s = of_nat (card (frees s))"
begin

lemma alloc_pages_status: "alloc_pages pm n (st, s) = Some (r, st', s') \<Longrightarrow> st' = st"
  by (auto simp: alloc_pages_def critical_eq)

lemma alloc_pages_got:
  assumes "inv s" "0 < n" "n \<le> 1024" "alloc_pages pm n (st, s) = Some (Some p, st, s')"
  shows "inv s'" "{p..<p + n} \<subseteq> frees s" "frees s' = frees s - {p..<p + n}" "held s' {p..<p + n}"
proof -
  have "pm_alloc_pages pm n s = Some (Some p, s')" using assms(4) by (auto simp: alloc_pages_def critical_eq)
  then show "inv s'" "{p..<p + n} \<subseteq> frees s" "frees s' = frees s - {p..<p + n}" "held s' {p..<p + n}"
    using alloc_law [OF assms(1-3)] by simp_all
qed

lemma two_allocations_disjoint:
  assumes "inv s" "0 < n" "n \<le> 1024" "0 < m" "m \<le> 1024"
    and "alloc_pages pm n (st, s) = Some (Some p, st, s')" "alloc_pages pm m (st, s') = Some (Some q, st, s'')"
  shows "{p..<p + n} \<inter> {q..<q + m} = {}"
proof -
  note p = alloc_pages_got [OF assms(1-3,6)]
  have "{q..<q + m} \<subseteq> frees s'" using alloc_pages_got(2) [OF p(1) assms(4,5,7)] .
  then show ?thesis using p(3) by blast
qed

lemma alloc_free_roundtrip:
  assumes "inv s" "0 < n" "n \<le> 1024" "alloc_pages pm n (st, s) = Some (Some p, st, s')"
  shows "\<exists>s''. free_pages pm p n (st, s') = Some ((), st, s'') \<and> inv s'' \<and> frees s'' = frees s"
proof -
  note p = alloc_pages_got [OF assms]
  obtain s'' where "pm_free_pages pm p n s' = Some s''" "inv s''" "frees s'' = frees s' \<union> {p..<p + n}"
    using free_law [OF p(1,4) assms(2,3)] by blast
  then show ?thesis using p(2,3) by (intro exI [of _ s'']) (auto simp: free_pages_def critical_eq)
qed

lemma alloc_counts:
  assumes "inv s" "0 < n" "n \<le> 1024" "alloc_pages pm n (st, s) = Some (Some p, st, s')"
  shows "nr_free_pages pm (st, s') = Some (of_nat (card (frees s) - n), st, s') \<and> n \<le> card (frees s)"
proof -
  note p = alloc_pages_got [OF assms]
  have "card (frees s') = card (frees s) - n" "n \<le> card (frees s)"
    using card_Diff_subset [OF _ p(2)] card_mono [OF finite_frees [OF assms(1)] p(2)] p(3) by simp_all
  then show ?thesis using count_law [OF p(1)] by (simp add: nr_free_pages_def critical_eq)
qed

end

section \<open>The buddy system keeps the contract\<close>

lemma finite_free_pgs:
  assumes "buddy_inv s"
  shows "finite (free_pgs s)"
proof (rule finite_subset)
  show "free_pgs s \<subseteq> {..<npage s}"
    using buddy_invD(6) [OF assms] by (auto simp: free_pgs_def usable_def)
qed simp

lemma allocated_alloc:
  assumes "buddy_inv s" "0 < n" "n \<le> 1024" "buddy_alloc_pages n s = Some (q, s')" "allocated s z Q"
  shows "allocated s' z Q"
  using buddy_alloc_pages_spec [OF assms(1-3)] assms(4,5) same_zones_usable [of s s' z Q]
  by (auto simp: allocated_def)

interpretation bpm: page_allocator buddy_pmm_manager buddy_inv free_pgs "\<lambda>s Q. \<exists>z. allocated s z Q"
proof
  fix s s' :: buddy and n p :: nat and q Q
  show "buddy_inv s \<Longrightarrow> finite (free_pgs s)" by (rule finite_free_pgs)
  show "\<exists>z. allocated s z Q \<Longrightarrow> Q \<inter> free_pgs s = {}" by (auto simp: allocated_def)
  show "buddy_inv s \<Longrightarrow> 0 < n \<Longrightarrow> n \<le> 1024 \<Longrightarrow> pm_alloc_pages buddy_pmm_manager n s = Some (None, s) \<or>
      (\<exists>p s'. pm_alloc_pages buddy_pmm_manager n s = Some (Some p, s') \<and> buddy_inv s' \<and> {p..<p + n} \<subseteq> free_pgs s
        \<and> free_pgs s' = free_pgs s - {p..<p + n} \<and> (\<exists>z. allocated s' z {p..<p + n}))"
    using buddy_alloc_pages_spec [of s n] by (simp add: buddy_pmm_manager_def) blast
  show "buddy_inv s \<Longrightarrow> 0 < n \<Longrightarrow> n \<le> 1024 \<Longrightarrow> pm_alloc_pages buddy_pmm_manager n s = Some (q, s') \<Longrightarrow>
      \<exists>z. allocated s z Q \<Longrightarrow> \<exists>z. allocated s' z Q"
    using allocated_alloc [of s n q s'] by (auto simp: buddy_pmm_manager_def)
  show "buddy_inv s \<Longrightarrow> \<exists>z. allocated s z {p..<p + n} \<Longrightarrow> 0 < n \<Longrightarrow> n \<le> 1024 \<Longrightarrow>
      \<exists>s'. pm_free_pages buddy_pmm_manager p n s = Some s' \<and> buddy_inv s' \<and> free_pgs s' = free_pgs s \<union> {p..<p + n}"
    using buddy_free_pages_spec [of s _ p n] by (fastforce simp: buddy_pmm_manager_def)
  show "buddy_inv s \<Longrightarrow> pm_nr_free_pages buddy_pmm_manager s = of_nat (card (free_pgs s))"
    by (simp add: buddy_pmm_manager_def nr_free_pages_card)
qed

section \<open>Initialisation\<close>

lemma buddy_init_inv: "\<forall>q < npage s. \<not> PageProperty (page s q) \<Longrightarrow> \<forall>k > MAX_ORDER. free_list s k = [] \<and> nr_free s k = 0
    \<Longrightarrow> buddy_inv (buddy_init s) \<and> free_pgs (buddy_init s) = {}"
  by (auto simp: buddy_inv_def buddy_init_def free_pgs_def not_le)

lemma free_not_reserved:
  assumes "buddy_inv s" "q \<in> free_pgs s"
  shows "\<not> PageReserved (page s q)"
proof -
  obtain k p where "p \<in> set (free_list s k)" "q \<in> block p k" using assms(2) unfolding free_pgs_def by blast
  then show ?thesis using buddy_invD(6) [OF assms(1)] unfolding usable_def by blast
qed

lemma fresh_zone_inv:
  assumes inv: "buddy_inv s" and R: "\<forall>q \<in> R. PageReserved (page s q)"
    and old: "\<forall>q \<in> free_pgs s. pg_zone_num (page s q) \<noteq> z"
    and pg: "\<forall>q. q \<notin> R \<longrightarrow> pg q = page s q" "\<forall>q \<in> R. \<not> PageReserved (pg q) \<and> \<not> PageProperty (pg q) \<and> pg_zone_num (pg q) = z"
    and t: "t = s\<lparr>page := pg, mem_base := (mem_base s)(z := b), zones_used := m\<rparr>"
  shows "buddy_inv t" "free_pgs t = free_pgs s" "\<And>q. q \<in> free_pgs s \<Longrightarrow> page t q = page s q"
proof -
  note I = buddy_invD [OF inv]
  have ft: "page t = pg" "mem_base t = (mem_base s)(z := b)" "npage t = npage s" "free_list t = free_list s"
      "nr_free t = nr_free s"
    by (simp_all add: t)
  have notR: "q \<notin> R" if "q \<in> free_pgs s" for q using free_not_reserved [OF inv that] R by blast
  show same: "page t q = page s q" if "q \<in> free_pgs s" for q using notR [OF that] pg(1) ft(1) by simp
  show "free_pgs t = free_pgs s" by (simp add: free_pgs_def ft(4))
  have blk: "q \<in> set (free_list s k) \<Longrightarrow> block q k \<subseteq> free_pgs s" for q k by (auto simp: free_pgs_def)
  have mb: "mem_base t (pg_zone_num (page s q)) = mem_base s (pg_zone_num (page s q))"
    if "q \<in> set (free_list s k)" for q k
    using old head_free [OF that] unfolding ft(2) by simp
  have us: "usable t (pg_zone_num (page s q)) (block q k)" if "q \<in> set (free_list s k)" for q k
    unfolding usable_def mb [OF that] ft(3)
  proof
    fix r assume r: "r \<in> block q k"
    then have "page t r = page s r" using same [of r] blk [OF that] by auto
    then show "r < npage s \<and> \<not> PageReserved (page t r) \<and> pg_zone_num (page t r) = pg_zone_num (page s q)
        \<and> mem_base s (pg_zone_num (page s q)) \<le> r"
      using bspec [OF I(6) [OF that, unfolded usable_def] r] by simp
  qed
  have flagged: "PageProperty (page t q) \<Longrightarrow> page t q = page s q" for q
    using pg unfolding ft(1) by (cases "q \<in> R") auto
  show "buddy_inv t"
    unfolding buddy_inv_def ft(3-5)
  proof (intro conjI allI impI, goal_cases)
    case (1 k) then show ?case by (rule I(1))
  next
    case (2 k) then show ?case by (rule I(2))
  next
    case (3 k q) then show ?case by (rule I(3))
  next
    case (4 k q) then show ?case using I(4) same [OF head_free] by simp
  next
    case (5 k q) then show ?case using I(5) same [OF head_free] by simp
  next
    case (6 k q) then show ?case using us same [OF head_free] by simp
  next
    case (7 k q) then show ?case
      using I(7) [of q k] mb [of q k] same [OF head_free, of q k] by (simp add: aligned_def)
  next
    case (8 q) then show ?case using I(8) [of q] flagged [of q] by simp
  next
    case (9 k k' q q') then show ?case using I(9) by blast
  qed
qed

lemma init_memmap_spec:
  assumes inv: "buddy_inv s" and n: "0 < n" "base + n \<le> npage s" and zone: "zones_used s < MAX_ZONE_NUM"
    and res: "\<forall>q \<in> {base..<base + n}. PageReserved (page s q)"
    and old: "\<forall>q \<in> free_pgs s. pg_zone_num (page s q) \<noteq> zones_used s"
  shows "\<exists>s'. buddy_init_memmap base n s = Some s' \<and> buddy_inv s' \<and> free_pgs s' = free_pgs s \<union> {base..<base + n}"
proof -
  let ?z = "zones_used s" and ?R = "{base..<base + n}"
  obtain pg where pg: "init_pages base n ?z s = Some (s\<lparr>page := pg\<rparr>)" "\<forall>q. q \<notin> ?R \<longrightarrow> pg q = page s q"
      "\<forall>q \<in> ?R. \<not> PageReserved (pg q) \<and> \<not> PageProperty (pg q) \<and> pg_zone_num (pg q) = ?z"
    using init_pages_spec [OF res] by blast
  define t where "t = s\<lparr>page := pg, mem_base := (mem_base s)(?z := base), zones_used := ?z + 1\<rparr>"
  note f = fresh_zone_inv [OF inv res old pg(2,3) t_def]
  have "?R \<inter> free_pgs s = {}" using res free_not_reserved [OF inv] by blast
  then have "allocated t ?z ?R" using pg(3) n f(2) by (auto simp: allocated_def usable_def t_def)
  moreover have "aligned t ?z base MAX_ORDER" by (simp add: aligned_def t_def)
  ultimately have "buddy_inv (init_blocks n base MAX_ORDER t)"
      "free_pgs (init_blocks n base MAX_ORDER t) = free_pgs s \<union> ?R"
    using init_blocks_spec [OF f(1)] f(2) by blast+
  moreover have "buddy_init_memmap base n s = Some (init_blocks n base MAX_ORDER t)"
    using n(1) zone pg(1) by (simp add: buddy_init_memmap_def t_def)
  ultimately show ?thesis by blast
qed


section \<open>Full merging\<close>

lemma page_is_buddy_link:
  "page_is_buddy b k z (link_block p j s) \<Longrightarrow> page_is_buddy b k z s \<or> (b = p \<and> k = j)"
  by (auto simp: page_is_buddy_def split: if_splits)

lemma page_is_buddy_unlink:
  "page_is_buddy b k z (upd_page p ClearPageProperty (unlink_block p j s)) \<Longrightarrow> page_is_buddy b k z s"
  by (auto simp: page_is_buddy_def split: if_splits)

lemma buddy_of_same: "same_zones s t \<Longrightarrow> buddy_of t p k = buddy_of s p k"
  by (simp add: buddy_of_def same_zones_def)

lemma coalesced_unlink:
  assumes "coalesced s"
  shows "coalesced (upd_page p ClearPageProperty (unlink_block p j s))"
  unfolding coalesced_def buddy_of_same [OF same_zones_unlink]
proof (intro allI impI, elim conjE)
  let ?t = "upd_page p ClearPageProperty (unlink_block p j s)"
  fix k q assume "k < MAX_ORDER" "q \<in> set (free_list ?t k)"
  then have "\<not> page_is_buddy (buddy_of s q k) k (pg_zone_num (page s q)) s"
    using assms notin_set_remove1 [of q "free_list s k" p] unfolding coalesced_def by auto
  then show "\<not> page_is_buddy (buddy_of s q k) k (pg_zone_num (page ?t q)) ?t"
    using page_is_buddy_unlink [of _ k _ p j s] by auto
qed

lemma buddy_index_neq:
  assumes "2 ^ k dvd (i :: nat)"
  shows "i XOR 2 ^ k \<noteq> i"
proof (cases "even (i div 2 ^ k)")
  case False
  then have "0 < i" by (auto intro: ccontr)
  then have "i - 2 ^ k < i" by (simp add: diff_less)
  then show ?thesis using False by (simp add: buddy_index(1) [OF assms])
qed (simp add: buddy_index(1) [OF assms])

text \<open>The buddy of a buddy is the block itself.\<close>

lemma buddy_of_involution:
  assumes "buddy_of s q k = p" "pg_zone_num (page s p) = pg_zone_num (page s q)"
    "mem_base s (pg_zone_num (page s q)) \<le> q"
  shows "buddy_of s p k = q"
  using assms by (auto simp: buddy_of_def xor.assoc)

lemma coalesced_link:
  assumes co: "coalesced s" and inv: "buddy_inv s" and link: "linkable s z p k"
    and max: "k = MAX_ORDER \<or> \<not> page_is_buddy (buddy_of s p k) k z s"
  shows "coalesced (link_block p k s)"
  unfolding coalesced_def
proof (intro allI impI, elim conjE)
  fix j q assume j: "j < MAX_ORDER" and q: "q \<in> set (free_list (link_block p k s) j)"
  have z: "pg_zone_num (page s p) = z" using linkable_zone [OF link] .
  have zq: "pg_zone_num (page (link_block p k s) r) = pg_zone_num (page s r)" for r by simp
  show "\<not> page_is_buddy (buddy_of (link_block p k s) q j) j (pg_zone_num (page (link_block p k s) q)) (link_block p k s)"
    unfolding buddy_of_same [OF same_zones_link] zq
  proof
    assume b: "page_is_buddy (buddy_of s q j) j (pg_zone_num (page s q)) (link_block p k s)"
    from q consider "q \<in> set (free_list s j)" | "q = p" "j = k" unfolding in_link_list by blast
    then show False
    proof cases
      case 1
      then have "buddy_of s q j = p" "j = k"
        using page_is_buddy_link [OF b] co j unfolding coalesced_def by blast+
      moreover have zpq: "pg_zone_num (page s p) = pg_zone_num (page s q)"
        using b calculation by (simp add: page_is_buddy_def split: if_splits)
      moreover note uq = bspec [OF buddy_invD(6) [OF inv 1, unfolded usable_def] block_self]
      ultimately have "buddy_of s p k = q" using buddy_of_involution [of s q k p] by blast
      moreover have "page_is_buddy q k z s"
        using uq buddy_invD(4,5) [OF inv 1] \<open>j = k\<close> z zpq by (simp add: page_is_buddy_def)
      ultimately show False using max j \<open>j = k\<close> by simp
    next
      case 2
      have "2 ^ k dvd p - mem_base s z" using link by (simp add: linkable_def aligned_def)
      then have "(p - mem_base s z) XOR 2 ^ k \<noteq> p - mem_base s z" by (rule buddy_index_neq)
      moreover have "mem_base s z \<le> p" using link block_self [of p k] by (auto simp: linkable_def usable_def)
      ultimately have "buddy_of s p k \<noteq> p" by (simp add: buddy_of_def z)
      then show False using page_is_buddy_link [OF b] max j 2 z by auto
    qed
  qed
qed

lemma coalesced_split:
  assumes "coalesced s" "buddy_inv s" "linkable s z p j" "k \<le> j" "j \<le> MAX_ORDER"
  shows "coalesced (split_block p k j s)"
  using assms
proof (induction p k j s rule: split_block.induct)
  case (2 p k j s)
  let ?q = "p + 2 ^ j" and ?t = "link_block (p + 2 ^ j) j s"
  note h = linkable_halves [OF 2(4)]
  have zq: "pg_zone_num (page s ?q) = z" using linkable_zone [OF h(1)] .
  have mb: "mem_base s z \<le> p" using 2(4) block_self [of p "Suc j"] by (auto simp: linkable_def usable_def)
  have al: "2 ^ Suc j dvd p - mem_base s z" using 2(4) by (simp add: linkable_def aligned_def)
  have q: "?q - mem_base s z = (p - mem_base s z) + 2 ^ j" using mb by simp
  have dv: "2 ^ j dvd (p - mem_base s z) + 2 ^ j"
    using dvd_trans [OF le_imp_power_dvd [of j "Suc j" 2] al] by (intro dvd_add) auto
  obtain m where m: "p - mem_base s z = 2 ^ Suc j * m" using al by (rule dvdE)
  have "(2 ^ Suc j * m + 2 ^ j) div 2 ^ j = 2 * m + (1 :: nat)" by simp
  then have "odd (((p - mem_base s z) + 2 ^ j) div 2 ^ j)" unfolding m by simp
  then have "((p - mem_base s z) + 2 ^ j) XOR 2 ^ j = p - mem_base s z"
    unfolding buddy_index(1) [OF dv] by (simp only: if_False add_diff_cancel_right')
  then have "buddy_of s ?q j = p" unfolding buddy_of_def zq q using mb by simp
  then have "\<not> page_is_buddy (buddy_of s ?q j) j z s"
    using linkable_not_property [OF 2(3,4) block_self] by (simp add: page_is_buddy_def)
  then have "coalesced ?t" using coalesced_link [OF 2(2,3) h(1)] by blast
  moreover have "buddy_inv ?t" using buddy_inv_link [OF 2(3) h(1)] 2(6) by simp
  ultimately have "k < Suc j \<Longrightarrow> coalesced (split_block p k j ?t)"
    using 2(1) [OF _ _ _ h(2)] 2(6) by simp
  then show ?case using 2(2) by simp
qed simp


lemma coalesced_alloc_sub:
  assumes co: "coalesced s" and inv: "buddy_inv s" and k: "k \<le> MAX_ORDER"
    and r: "buddy_alloc_pages_sub k s = Some (q, s')"
  shows "coalesced s'"
proof (cases "alloc_scan k s")
  case (Some j)
  define p where "p = hd (free_list s j)"
  have j: "k \<le> j" "j \<le> MAX_ORDER" "p \<in> set (free_list s j)"
    using alloc_scan_Some [OF Some] by (auto simp: p_def)
  have "s' = split_block p k j (upd_page p ClearPageProperty (unlink_block p j s))"
    using r Some k by (simp add: buddy_alloc_pages_sub_def Let_def p_def split_clear_commute)
  then show ?thesis
    using coalesced_split [OF coalesced_unlink [OF co] buddy_inv_unlink(1) [OF inv j(3)]
        linkable_after_unlink [OF inv j(3)] j(1,2)] by simp
qed (use co r k in \<open>simp add: buddy_alloc_pages_sub_def\<close>)

lemma coalesced_merge_loop:
  "coalesced s \<Longrightarrow> merge_loop z i k s = (i', k', s') \<Longrightarrow> coalesced s'"
proof (induction z i k s rule: merge_loop.induct)
  case (1 z i k s)
  let ?b = "idx2page z (i XOR 2 ^ k) s"
  show ?case
  proof (cases "k < MAX_ORDER \<and> page_is_buddy ?b k z s")
    case True
    then have "merge_loop z (i AND (i XOR 2 ^ k)) (Suc k) (upd_page ?b ClearPageProperty (unlink_block ?b k s)) = (i', k', s')"
      using 1(3) by (simp add: merge_loop.simps [of z i k] Let_def)
    then show ?thesis using 1(1) [OF _ refl refl] True coalesced_unlink [OF 1(2)] by simp
  next
    case False
    then show ?thesis using 1(2,3) by (auto simp: merge_loop.simps [of z i k] Let_def split: if_splits)
  qed
qed

lemma coalesced_free_sub:
  assumes co: "coalesced s" and inv: "buddy_inv s" and link: "linkable s z p k" and k: "k \<le> MAX_ORDER"
    and r: "buddy_free_pages_sub p k s = Some s'"
  shows "coalesced s'"
proof -
  obtain t where v: "same_view s t" and eq: "buddy_free_pages_sub p k s =
      (case merge_loop z (p - mem_base s z) k t of (i, k, u) \<Rightarrow> Some (link_block (mem_base u z + i) k u))"
    using buddy_free_sub_unfold [OF inv link k] by blast
  obtain i j u where m: "merge_loop z (p - mem_base s z) k t = (i, j, u)" by (metis prod_cases3)
  have mb: "mem_base t = mem_base s" using v by (simp add: same_view_def same_zones_def)
  have p: "mem_base s z + (p - mem_base s z) = p"
    using link block_self [of p k] by (auto simp: linkable_def usable_def)
  have spec: "buddy_inv u \<and> linkable u z (mem_base s z + i) j \<and> j \<le> MAX_ORDER \<and> same_zones t u
      \<and> (j = MAX_ORDER \<or> \<not> page_is_buddy (mem_base s z + (i XOR 2 ^ j)) j z u)"
    using merge_loop_spec [OF _ _ k m] inv link unfolding mb p same_view_inv [OF v] by blast
  then have mbu: "mem_base u = mem_base s" using mb by (simp add: same_zones_def)
  have "buddy_of u (mem_base s z + i) j = mem_base s z + (i XOR 2 ^ j)"
    using linkable_zone [of u z "mem_base s z + i" j] spec by (simp add: buddy_of_def mbu)
  moreover have "coalesced u" using coalesced_merge_loop [OF _ m] co same_view_inv(4) [OF v] by simp
  ultimately have "coalesced (link_block (mem_base s z + i) j u)"
    using coalesced_link [of u z "mem_base s z + i" j] spec by auto
  then show ?thesis using r eq m mbu by simp
qed

text \<open>The same for a range: each call frees an aligned block at its beginning.\<close>

lemma coalesced_first_block:
  assumes "coalesced s" "buddy_inv s" "allocated s z {p..<p + n}" "aligned s z p k" "2 ^ k \<le> n" "k \<le> MAX_ORDER"
    and "buddy_free_pages_sub p k s = Some s'"
  shows "coalesced s' \<and> buddy_inv s' \<and> allocated s' z {p + 2 ^ k..<p + 2 ^ k + (n - 2 ^ k)}
    \<and> mem_base s z \<le> p \<and> mem_base s' = mem_base s"
proof -
  have "linkable s z p k"
    using assms(3,4) range_split [OF assms(5)] by (auto simp: linkable_iff allocated_def usable_Un)
  then have "coalesced s'" using coalesced_free_sub [OF assms(1,2) _ assms(6,7)] by blast
  moreover obtain t where "buddy_free_pages_sub p k s = Some t" "buddy_inv t" "same_zones s t"
      "allocated t z {p + 2 ^ k..<p + 2 ^ k + (n - 2 ^ k)}" "mem_base s z \<le> p"
    using free_first_block [OF assms(2-6)] by metis
  ultimately show ?thesis using assms(7) by (simp add: same_zones_def)
qed

lemma coalesced_free_up:
  assumes "coalesced s" "buddy_inv s" "allocated s z {p..<p + n}" "aligned s z p k" "n < 2048"
    and "free_up p n k s = Some (p', n', k', s')"
  shows "coalesced s'"
  using assms
proof (induction p n k s rule: free_up.induct)
  case (1 p n k s)
  note co = 1(3) and inv = 1(4) and al = 1(5) and ali = 1(6) and n = 1(7) and r = 1(8)
  show ?case
  proof (cases "2 ^ k \<le> n")
    case True
    have k: "k \<le> MAX_ORDER" using order_bound [OF True n] .
    have idx: "page2idx p s = p - mem_base s z" using range_zone [OF al pow_le_pos [OF True]] .
    have dv: "2 ^ k dvd p - mem_base s z" using ali by (simp add: aligned_def)
    show ?thesis
    proof (cases "page2idx p s AND 2 ^ k = 0")
      case bit: True
      then have "aligned s z p (Suc k)" using align_next(2) [OF dv] idx by (simp add: aligned_def)
      then show ?thesis
        using 1(2) [OF True _ _ co inv al _ n] r True bit k by (simp add: free_up.simps [of p n k])
    next
      case False
      then obtain t where t: "buddy_free_pages_sub p k s = Some t"
          "free_up (p + 2 ^ k) (n - 2 ^ k) (Suc k) t = Some (p', n', k', s')"
        using r True k by (auto simp: free_up.simps [of p n k] bind_eq_Some_conv)
      note ct = coalesced_first_block [OF co inv al ali True k t(1)]
      have "p + 2 ^ k - mem_base s z = (p - mem_base s z) + 2 ^ k" using ct by simp
      then have "aligned t z (p + 2 ^ k) (Suc k)"
        using align_next(1) [OF dv] False idx ct by (simp add: aligned_def)
      then show ?thesis using 1(1) [OF True _ False t(1)] t(2) ct n k by simp
    qed
  next
    case False
    then show ?thesis using r co by (simp add: free_up.simps [of p n k])
  qed
qed

lemma coalesced_free_down:
  assumes "coalesced s" "buddy_inv s" "allocated s z {p..<p + n}" "aligned s z p k" "n < 2048"
    and "free_down p n k s = Some s'"
  shows "coalesced s'"
  using assms
proof (induction p n k s rule: free_down.induct)
  case (1 p n k s)
  note co = 1(3) and inv = 1(4) and al = 1(5) and ali = 1(6) and n = 1(7) and r = 1(8)
  consider "n = 0" | "0 < n" "n < 2 ^ k" | "0 < n" "2 ^ k \<le> n" by linarith
  then show ?case
  proof cases
    case 1
    then show ?thesis using r co by (simp add: free_down.simps [of p 0 k])
  next
    case 2
    then have "aligned s z p (k - 1)"
      using ali dvd_trans [OF le_imp_power_dvd [of "k - 1" k 2]] by (simp add: aligned_def)
    then show ?thesis using 1(1) [OF _ 2(2) co inv al _ n] 2 r by (simp add: free_down.simps [of p n k])
  next
    case 3
    then obtain t where t: "buddy_free_pages_sub p k s = Some t"
        "free_down (p + 2 ^ k) (n - 2 ^ k) k t = Some s'"
      using r by (auto simp: free_down.simps [of p n k] bind_eq_Some_conv)
    note ct = coalesced_first_block [OF co inv al ali 3(2) order_bound [OF 3(2) n] t(1)]
    have "p + 2 ^ k - mem_base s z = (p - mem_base s z) + 2 ^ k" using ct by simp
    then have "2 ^ k dvd p + 2 ^ k - mem_base s z" using ali unfolding aligned_def by (metis dvd_add dvd_refl)
    then have "aligned t z (p + 2 ^ k) k" using ct by (simp add: aligned_def)
    then show ?thesis using 1(2) [OF _ _ t(1)] t(2) ct 3 n by simp
  qed
qed

lemma coalesced_free_pages:
  assumes "coalesced s" "buddy_inv s" "allocated s z {p..<p + n}" "0 < n" "n < 2048"
    and "buddy_free_pages p n s = Some s'"
  shows "coalesced s'"
proof (cases "n = 1")
  case True
  then show ?thesis
    using coalesced_first_block [OF assms(1-3), of 0 s'] assms(6) by (simp add: buddy_free_pages_def aligned_def)
next
  case False
  have a0: "aligned s z p 0" by (simp add: aligned_def)
  obtain p' n' k' t where u: "free_up p n 0 s = Some (p', n', k', t)" "buddy_inv t" "n' \<le> n"
      "allocated t z {p'..<p' + n'}" "aligned t z p' k'"
    using free_up_spec [OF assms(2,3) a0 assms(5)] by blast
  moreover have "free_down p' n' k' t = Some s'"
    using assms(4,6) False u(1) by (simp add: buddy_free_pages_def)
  ultimately show ?thesis
    using coalesced_free_down [OF coalesced_free_up [OF assms(1-3) a0 assms(5) u(1)] u(2,4,5)] assms(5) by simp
qed

lemma coalesced_alloc_pages:
  assumes "coalesced s" "buddy_inv s" "0 < n" "n \<le> 1024" "buddy_alloc_pages n s = Some (q, s')"
  shows "coalesced s'"
proof -
  obtain k p t where k: "getorder n = Some k" and t: "buddy_alloc_pages_sub k s = Some (p, t)"
    using assms(3,5) by (auto simp: buddy_alloc_pages_def bind_eq_Some_conv)
  have k10: "k \<le> MAX_ORDER" "n \<le> 2 ^ k" using k getorder_from_Some [of 0 n k] by (auto simp: getorder_def)
  have ct: "coalesced t" using coalesced_alloc_sub [OF assms(1,2) k10(1) t] .
  show ?thesis
  proof (cases "p = None \<or> n = 2 ^ k")
    case True
    then show ?thesis using assms(3,5) k t ct by (auto simp: buddy_alloc_pages_def split: option.splits)
  next
    case False
    then obtain a where a: "p = Some a" by (cases p) auto
    have fr: "buddy_free_pages (a + n) (2 ^ k - n) t = Some s'"
      using assms(3,5) k t a False by (auto simp: buddy_alloc_pages_def bind_eq_Some_conv)
    have it: "buddy_inv t" "linkable t (pg_zone_num (page s a)) a k"
      using buddy_alloc_sub_spec [OF assms(2) k10(1)] t a by (auto split: option.splits)
    have "(2 :: nat) ^ k \<le> 2 ^ 10" using k10(1) by (intro power_increasing) (simp_all add: MAX_ORDER_def)
    then have sz: "0 < 2 ^ k - n" "2 ^ k - n < 2048" using False a k10(2) by auto
    have "{a + n..<a + n + (2 ^ k - n)} \<subseteq> block a k" using k10(2) by (auto simp: block_def)
    then have "allocated t (pg_zone_num (page s a)) {a + n..<a + n + (2 ^ k - n)}"
      using it(2) usable_mono unfolding linkable_iff allocated_def by blast
    then show ?thesis using coalesced_free_pages [OF ct it(1) _ sz fr] by blast
  qed
qed


lemma coalesced_init_blocks:
  assumes "coalesced s" "buddy_inv s" "allocated s z {p..<p + n}" "aligned s z p k" "k \<le> MAX_ORDER"
    and "k < MAX_ORDER \<Longrightarrow> n < 2 ^ Suc k \<and> (n < 2 ^ k \<or> aligned s z p (Suc k))"
    and "\<forall>q \<in> free_pgs s. pg_zone_num (page s q) = z \<longrightarrow> q < p"
  shows "coalesced (init_blocks n p k s)"
  using assms
proof (induction n p k s rule: init_blocks.induct)
  case (1 n p k s)
  note co = 1(3) and inv = 1(4) and al = 1(5) and ali = 1(6) and k = 1(7) and up = 1(8) and z = 1(9)
  consider "n = 0" | "0 < n" "\<not> 2 ^ k \<le> n" | "0 < n" "2 ^ k \<le> n" by linarith
  then show ?case
  proof cases
    case 1
    then show ?thesis using co by (simp add: init_blocks.simps [of 0 p k])
  next
    case 2
    then have k0: "0 < k" by (cases k) auto
    have "aligned s z p (k - 1)"
      using ali dvd_trans [OF le_imp_power_dvd [of "k - 1" k 2]] by (simp add: aligned_def)
    then show ?thesis
      using 1(2) [OF _ 2(2) co inv al _ _ _ z] 2 k k0 ali by (simp add: init_blocks.simps [of n p k])
  next
    case 3
    let ?t = "link_block p k s"
    have pz: "mem_base s z \<le> p" "pg_zone_num (page s p) = z" using al 3(1) by (auto simp: allocated_def usable_def)
    have link: "linkable s z p k"
      using al ali range_split [OF 3(2)] by (auto simp: linkable_iff allocated_def usable_Un)
    have disj: "block p k \<inter> {p + 2 ^ k..<p + 2 ^ k + (n - 2 ^ k)} = {}" by (auto simp: block_def)
    have al': "allocated ?t z {p + 2 ^ k..<p + 2 ^ k + (n - 2 ^ k)}"
      using al disj range_split [OF 3(2)] by (auto simp: allocated_def usable_Un free_pgs_link)
    have idx: "p + 2 ^ k - mem_base s z = (p - mem_base s z) + 2 ^ k" using pz by simp
    have ali': "aligned ?t z (p + 2 ^ k) k" using ali idx by (simp add: aligned_def)
    have nb: "k = MAX_ORDER \<or> \<not> page_is_buddy (buddy_of s p k) k z s"
    proof (cases "k = MAX_ORDER")
      case False
      then have "2 ^ Suc k dvd p - mem_base s z" using up k 3(2) by (simp add: aligned_def)
      then obtain m where m: "p - mem_base s z = 2 ^ Suc k * m" by (rule dvdE)
      have "2 ^ k dvd p - mem_base s z" using ali by (simp add: aligned_def)
      then have "(p - mem_base s z) XOR 2 ^ k = (p - mem_base s z) + 2 ^ k"
        using buddy_index(1) [of k "p - mem_base s z"] by (simp add: m)
      then have "buddy_of s p k = p + 2 ^ k" using pz by (simp add: buddy_of_def)
      then show ?thesis
        using z head_free page_is_buddy_in [OF inv, of "p + 2 ^ k" k z] by fastforce
    qed simp
    have "\<forall>q \<in> free_pgs ?t. pg_zone_num (page ?t q) = z \<longrightarrow> q < p + 2 ^ k"
      using z by (auto simp: free_pgs_link block_def intro: less_le_trans)
    moreover have "k < MAX_ORDER \<Longrightarrow> n - 2 ^ k < 2 ^ Suc k \<and> (n - 2 ^ k < 2 ^ k \<or> aligned ?t z (p + 2 ^ k) (Suc k))"
      using up 3(2) by auto
    ultimately show ?thesis
      using 1(1) [OF _ 3(2) coalesced_link [OF co inv link nb] buddy_inv_link [OF inv link k] al' ali' k] 3
      by (simp add: init_blocks.simps [of n p k])
  qed
qed


lemma coalesced_init_memmap:
  assumes co: "coalesced s" and inv: "buddy_inv s" and n: "0 < n" "base + n \<le> npage s"
    and res: "\<forall>q \<in> {base..<base + n}. PageReserved (page s q)"
    and old: "\<forall>q \<in> free_pgs s. pg_zone_num (page s q) \<noteq> zones_used s"
    and r: "buddy_init_memmap base n s = Some s'"
  shows "coalesced s'"
proof -
  let ?z = "zones_used s" and ?R = "{base..<base + n}"
  obtain pg where pg: "init_pages base n ?z s = Some (s\<lparr>page := pg\<rparr>)" "\<forall>q. q \<notin> ?R \<longrightarrow> pg q = page s q"
      "\<forall>q \<in> ?R. \<not> PageReserved (pg q) \<and> \<not> PageProperty (pg q) \<and> pg_zone_num (pg q) = ?z"
    using init_pages_spec [OF res] by blast
  define t where "t = s\<lparr>page := pg, mem_base := (mem_base s)(?z := base), zones_used := ?z + 1\<rparr>"
  note f = fresh_zone_inv [OF inv res old pg(2,3) t_def]
  have s': "s' = init_blocks n base MAX_ORDER t"
    using r pg(1) by (auto simp: buddy_init_memmap_def t_def split: if_splits)
  have al: "allocated t ?z ?R"
    using pg(3) n f(2) free_not_reserved [OF inv] res by (auto simp: allocated_def usable_def t_def)
  have "coalesced t"
    unfolding coalesced_def
  proof (intro allI impI, elim conjE)
    fix k q assume k: "k < MAX_ORDER" and q: "q \<in> set (free_list t k)"
    then have qs: "q \<in> set (free_list s k)" by (simp add: t_def)
    have pq: "page t q = page s q" using f(3) head_free [OF qs] by blast
    have zq: "pg_zone_num (page s q) \<noteq> ?z" using old head_free [OF qs] by blast
    have b: "buddy_of t q k = buddy_of s q k" using zq pq by (simp add: buddy_of_def t_def)
    show "\<not> page_is_buddy (buddy_of t q k) k (pg_zone_num (page t q)) t"
    proof
      assume "page_is_buddy (buddy_of t q k) k (pg_zone_num (page t q)) t"
      then have "page_is_buddy (buddy_of s q k) k (pg_zone_num (page s q)) s"
        using pg(2,3) zq unfolding pq b page_is_buddy_def by (cases "buddy_of s q k \<in> ?R") (auto simp: t_def split: if_splits)
      then show False using co k qs unfolding coalesced_def by blast
    qed
  qed
  moreover have "\<forall>q \<in> free_pgs t. pg_zone_num (page t q) = ?z \<longrightarrow> q < base" using f(2,3) old by simp
  ultimately show ?thesis
    unfolding s' using coalesced_init_blocks [OF _ f(1) al, of MAX_ORDER] by (simp add: aligned_def t_def)
qed

text \<open>Eight reserved pages before the initialisation, and the allocator that manages them.\<close>

definition demo_pages :: buddy where
  "demo_pages = \<lparr>page = (\<lambda>_. \<lparr>pg_ref = 0, pg_flags = 1, pg_property = 0, pg_zone_num = 0\<rparr>), npage = 8,
     free_list = (\<lambda>_. []), nr_free = (\<lambda>_. 0), mem_base = (\<lambda>_. 0), zones_used = 0\<rparr>"

definition demo_buddy :: buddy where
  "demo_buddy = the (buddy_init_memmap 0 8 (buddy_init demo_pages))"

lemma demo_flags: "PageReserved (page (buddy_init demo_pages) q)" "\<not> PageProperty (page (buddy_init demo_pages) q)"
  by (simp_all add: demo_pages_def buddy_init_def PageReserved_def PageProperty_def test_bit_at_def)

lemma demo_init: "buddy_inv (buddy_init demo_pages)" "free_pgs (buddy_init demo_pages) = {}"
    "coalesced (buddy_init demo_pages)" "npage (buddy_init demo_pages) = 8" "zones_used (buddy_init demo_pages) = 0"
proof -
  show "buddy_inv (buddy_init demo_pages)" "free_pgs (buddy_init demo_pages) = {}"
    using buddy_init_inv [of demo_pages] demo_flags(2) by (simp_all add: demo_pages_def buddy_init_def)
  show "coalesced (buddy_init demo_pages)" "npage (buddy_init demo_pages) = 8" "zones_used (buddy_init demo_pages) = 0"
    by (simp_all add: coalesced_def demo_pages_def buddy_init_def)
qed

lemma demo_buddy:
  "buddy_init_memmap 0 8 (buddy_init demo_pages) = Some demo_buddy" "buddy_inv demo_buddy"
  "free_pgs demo_buddy = {0..<8}" "coalesced demo_buddy"
proof -
  have "\<exists>s'. buddy_init_memmap 0 8 (buddy_init demo_pages) = Some s' \<and> buddy_inv s'
      \<and> free_pgs s' = free_pgs (buddy_init demo_pages) \<union> {0..<0 + 8}"
    by (rule init_memmap_spec) (simp_all add: demo_init demo_flags MAX_ZONE_NUM_def)
  then obtain s' where s': "buddy_init_memmap 0 8 (buddy_init demo_pages) = Some s'" "buddy_inv s'"
      "free_pgs s' = free_pgs (buddy_init demo_pages) \<union> {0..<0 + 8}"
    by blast
  have e: "demo_buddy = s'" unfolding demo_buddy_def s'(1) by (rule option.sel)
  show d: "buddy_init_memmap 0 8 (buddy_init demo_pages) = Some demo_buddy" "buddy_inv demo_buddy"
    unfolding e by (rule s')+
  show "free_pgs demo_buddy = {0..<8}" unfolding e s'(3) demo_init by simp
  show "coalesced demo_buddy"
    by (rule coalesced_init_memmap [OF demo_init(3,1) _ _ _ _ d(1)]) (simp_all add: demo_init demo_flags)
qed

section \<open>Properties\<close>

text \<open>The run that is handed out is the start of a free block of the smallest order that fits.\<close>

lemma buddy_alloc_best_fit:
  assumes "buddy_alloc_pages n s = Some (Some p, s')"
  shows "\<exists>j. p \<in> set (free_list s j) \<and> n \<le> 2 ^ j \<and> (\<forall>i < j. n \<le> 2 ^ i \<longrightarrow> free_list s i = [])"
proof -
  obtain k t where k: "getorder n = Some k" and t: "buddy_alloc_pages_sub k s = Some (Some p, t)"
    using assms by (auto simp: buddy_alloc_pages_def bind_eq_Some_conv split: option.splits if_splits)
  then obtain j where j: "alloc_scan k s = Some j" "p = hd (free_list s j)"
    by (auto simp: buddy_alloc_pages_sub_def Let_def split: option.splits if_splits)
  note sc = alloc_scan_Some [OF j(1)]
  have n: "n \<le> 2 ^ k" "k = 0 \<or> 2 ^ (k - 1) < n" using k getorder_from_Some [of 0 n k] by (auto simp: getorder_def)
  then have "n \<le> 2 ^ j" using le_trans [OF _ power_increasing [of k j "2 :: nat"]] sc by simp
  moreover have "free_list s i = []" if "i < j" "n \<le> 2 ^ i" for i
    using alloc_scan_first [OF j(1), of i] order_fits_mono [OF n(2) that(2)] that(1) by blast
  ultimately show ?thesis using sc j(2) hd_in_set by blast
qed

text \<open>C5: a request for \<open>n\<close> pages either fails and changes nothing, and then no free block has \<open>n\<close>
  pages, or it hands out \<open>n\<close> consecutive pages, the start of one free block of the smallest order that
  fits, all of one zone, and takes exactly these out of the free set; the block structure stays consistent
  and fully merged, and no page changes its zone.\<close>

theorem buddy_alloc_exact:
  assumes "buddy_inv s" "coalesced s" "0 < n" "n \<le> 1024"
  shows "(buddy_alloc_pages n s = Some (None, s) \<and> (\<forall>order. n \<le> 2 ^ order \<longrightarrow> free_list s order = []))
    \<or> (\<exists>p s'. buddy_alloc_pages n s = Some (Some p, s') \<and> buddy_inv s' \<and> coalesced s'
        \<and> {p..<p + n} \<subseteq> free_pgs s \<and> free_pgs s' = free_pgs s - {p..<p + n}
        \<and> (\<exists>j. p \<in> set (free_list s j) \<and> n \<le> 2 ^ j \<and> (\<forall>i < j. n \<le> 2 ^ i \<longrightarrow> free_list s i = []))
        \<and> (\<forall>q \<in> {p..<p + n}. pg_zone_num (page s q) = pg_zone_num (page s p))
        \<and> (\<forall>q. pg_zone_num (page s' q) = pg_zone_num (page s q)))"
proof (cases "buddy_alloc_pages n s = Some (None, s) \<and> (\<forall>order. n \<le> 2 ^ order \<longrightarrow> free_list s order = [])")
  case False
  then obtain p s' z where r: "buddy_alloc_pages n s = Some (Some p, s')" "buddy_inv s'" "same_zones s s'" "{p..<p + n} \<subseteq> free_pgs s"
      "free_pgs s' = free_pgs s - {p..<p + n}" "allocated s' z {p..<p + n}"
    using buddy_alloc_pages_spec [OF assms(1,3,4)] by blast
  have same: "pg_zone_num (page s' q) = pg_zone_num (page s q)" for q using r(3) by (simp add: same_zones_def)
  have "pg_zone_num (page s q) = z" if "q \<in> {p..<p + n}" for q using r(6) that same [of q] by (auto simp: allocated_def usable_def)
  moreover have "p \<in> {p..<p + n}" using assms(3) by simp
  ultimately have "\<forall>q \<in> {p..<p + n}. pg_zone_num (page s q) = pg_zone_num (page s p)" by simp
  then show ?thesis using r same coalesced_alloc_pages [OF assms(2,1,3,4) r(1)] buddy_alloc_best_fit [OF r(1)] by blast
qed blast

theorem buddy_alloc_exact_witness:
  "\<exists>p s'. buddy_alloc_pages 1 demo_buddy = Some (Some p, s') \<and> free_pgs s' = {0..<8} - {p} \<and> coalesced s'"
proof -
  have "\<not> (\<forall>order. 1 \<le> (2 :: nat) ^ order \<longrightarrow> free_list demo_buddy order = [])"
  proof
    assume "\<forall>order. 1 \<le> (2 :: nat) ^ order \<longrightarrow> free_list demo_buddy order = []"
    then have "free_pgs demo_buddy = {}" by (simp add: free_pgs_def)
    then show False by (simp add: demo_buddy)
  qed
  then show ?thesis using buddy_alloc_exact [OF demo_buddy(2,4), of 1] by (auto simp: demo_buddy)
qed

text \<open>C6: giving back pages of one zone that are not free adds exactly these to the free set, however
  they are cut into blocks and merged with their neighbours, and no assertion fails.\<close>

theorem buddy_free_exact:
  assumes "buddy_inv s" "coalesced s" "allocated s z {p..<p + n}" "0 < n" "n < 2048"
  shows "\<exists>s'. buddy_free_pages p n s = Some s' \<and> buddy_inv s' \<and> coalesced s'
    \<and> free_pgs s' = free_pgs s \<union> {p..<p + n}"
  using buddy_free_pages_spec [OF assms(1,3,4,5)] coalesced_free_pages [OF assms(2,1,3,4,5)] by blast

theorem buddy_free_exact_witness:
  "\<exists>p s s'. buddy_alloc_pages 1 demo_buddy = Some (Some p, s) \<and> buddy_free_pages p 1 s = Some s'
    \<and> free_pgs s' = {0..<8}"
proof -
  have ne: "\<not> (\<forall>order. 1 \<le> (2 :: nat) ^ order \<longrightarrow> free_list demo_buddy order = [])"
    using demo_buddy(3) by (fastforce simp: free_pgs_def)
  obtain p s z where s: "buddy_alloc_pages 1 demo_buddy = Some (Some p, s)" "buddy_inv s"
      "{p..<p + 1} \<subseteq> free_pgs demo_buddy" "free_pgs s = free_pgs demo_buddy - {p..<p + 1}" "allocated s z {p..<p + 1}"
    using buddy_alloc_pages_spec [OF demo_buddy(2), of 1] ne by auto
  have "coalesced s" using coalesced_alloc_pages [OF demo_buddy(4,2) _ _ s(1)] by simp
  then show ?thesis
    using buddy_free_exact [OF s(2) _ s(5)] s(1,3,4) demo_buddy(3) by fastforce
qed

text \<open>C27: through the interface of the kernel, whatever the interrupt status: every call leaves the status
  as it found it, two requests never overlap, the count of free pages falls by exactly the number requested, and
  giving the pages back restores the free set.\<close>

theorem kernel_pages_conserved:
  assumes "buddy_inv s" "0 < n" "n \<le> 1024" "alloc_pages buddy_pmm_manager n (st, s) = Some (Some p, st', s')"
  shows "st' = st \<and> nr_free_pages buddy_pmm_manager (st, s') = Some (of_nat (card (free_pgs s) - n), st, s')
    \<and> (\<exists>s''. free_pages buddy_pmm_manager p n (st, s') = Some ((), st, s'') \<and> free_pgs s'' = free_pgs s)
    \<and> (\<forall>m q st'' s''. 0 < m \<and> m \<le> 1024 \<and> alloc_pages buddy_pmm_manager m (st, s') = Some (Some q, st'', s'')
        \<longrightarrow> st'' = st \<and> {p..<p + n} \<inter> {q..<q + m} = {})"
proof -
  note st = bpm.alloc_pages_status [OF assms(4)]
  note got = assms(4) [unfolded st]
  have "st'' = st \<and> {p..<p + n} \<inter> {q..<q + m} = {}"
    if "0 < m" "m \<le> 1024" "alloc_pages buddy_pmm_manager m (st, s') = Some (Some q, st'', s'')" for m q st'' s''
    using bpm.alloc_pages_status [OF that(3)] bpm.two_allocations_disjoint [OF assms(1-3) that(1,2) got] that(3) by blast
  then show ?thesis using st bpm.alloc_counts [OF assms(1-3) got] bpm.alloc_free_roundtrip [OF assms(1-3) got] by blast
qed

theorem kernel_pages_conserved_witness:
  "\<exists>p s'. alloc_pages buddy_pmm_manager 1 (1, demo_buddy) = Some (Some p, 1, s')
    \<and> nr_free_pages buddy_pmm_manager (1, s') = Some (7, 1, s')"
proof -
  have ne: "\<not> (\<forall>order. 1 \<le> (2 :: nat) ^ order \<longrightarrow> free_list demo_buddy order = [])"
    using demo_buddy(3) by (fastforce simp: free_pgs_def)
  obtain p s where "buddy_alloc_pages 1 demo_buddy = Some (Some p, s)"
    using buddy_alloc_pages_spec [OF demo_buddy(2), of 1] ne by auto
  then have a: "alloc_pages buddy_pmm_manager 1 (1, demo_buddy) = Some (Some p, 1, s)"
    by (simp add: alloc_pages_def critical_eq buddy_pmm_manager_def)
  then show ?thesis using kernel_pages_conserved [OF demo_buddy(2) _ _ a] by (simp add: demo_buddy)
qed

text \<open>C28: handing the reserved pages of a region to the allocator frees exactly these pages,
  as maximal aligned blocks, in a state that satisfies the invariant.\<close>

theorem buddy_init_exact:
  assumes "buddy_inv s" "coalesced s" "0 < n" "base + n \<le> npage s" "zones_used s < MAX_ZONE_NUM"
    and "\<forall>q \<in> {base..<base + n}. PageReserved (page s q)"
    and "\<forall>q \<in> free_pgs s. pg_zone_num (page s q) \<noteq> zones_used s"
  shows "\<exists>s'. buddy_init_memmap base n s = Some s' \<and> buddy_inv s' \<and> coalesced s'
    \<and> free_pgs s' = free_pgs s \<union> {base..<base + n}"
  using init_memmap_spec [OF assms(1,3-7)] coalesced_init_memmap [OF assms(2,1,3,4,6,7)] by blast

theorem buddy_init_exact_witness:
  "\<exists>s'. buddy_init_memmap 0 8 (buddy_init demo_pages) = Some s' \<and> free_pgs s' = {0..<8}"
  using buddy_init_exact [OF demo_init(1,3), of 8 0] by (auto simp: demo_init demo_flags MAX_ZONE_NUM_def)

end
