(* ===== verification/Kstring.thy ===== *)
theory Kstring
  imports Prelude
begin

text \<open>
  \<^verbatim>\<open>kern/libs/string.c\<close>: strings and memory blocks. Memory is a function from addresses to bytes; a
  function that writes returns the new memory, and a function with a loop that ends only at a zero byte
  is partial (\<open>None\<close> is a loop that never ends). \<open>cstr m s xs\<close> says that the zero-terminated string at \<open>s\<close>
  has the bytes \<open>xs\<close>.
\<close>

type_synonym mem = "nat \<Rightarrow> u8"

section \<open>Strings\<close>

partial_function (option) strlen_loop :: "mem \<Rightarrow> nat \<Rightarrow> nat \<Rightarrow> nat option" where
  "strlen_loop m s cnt = (if m s \<noteq> 0 then strlen_loop m (Suc s) (Suc cnt) else Some cnt)"

definition strlen :: "mem \<Rightarrow> nat \<Rightarrow> nat option" where
  "strlen m s = strlen_loop m s 0"

text \<open>The count is the second argument; the loop runs while it is below \<open>len\<close>.\<close>

function strnlen_loop :: "mem \<Rightarrow> nat \<Rightarrow> nat \<Rightarrow> nat \<Rightarrow> nat" where
  "strnlen_loop m s cnt len =
     (if cnt < len \<and> m s \<noteq> 0 then strnlen_loop m (Suc s) (Suc cnt) len else cnt)"
  by auto
termination by (relation "measure (\<lambda>(m, s, cnt, len). len - cnt)") auto

declare strnlen_loop.simps [simp del]

definition strnlen :: "mem \<Rightarrow> nat \<Rightarrow> nat \<Rightarrow> nat" where
  "strnlen m s len = strnlen_loop m s 0 len"

partial_function (option) strcpy :: "mem \<Rightarrow> nat \<Rightarrow> nat \<Rightarrow> mem option" where
  "strcpy m p src =
     (let m' = m(p := m src) in if m' p \<noteq> 0 then strcpy m' (Suc p) (Suc src) else Some m')"

fun strncpy :: "mem \<Rightarrow> nat \<Rightarrow> nat \<Rightarrow> nat \<Rightarrow> mem" where
  "strncpy m p src 0 = m"
| "strncpy m p src (Suc len) =
     (let m' = m(p := m src) in strncpy m' (Suc p) (if m' p \<noteq> 0 then Suc src else src) len)"

partial_function (option) strcmp :: "mem \<Rightarrow> nat \<Rightarrow> nat \<Rightarrow> int option" where
  "strcmp m s1 s2 =
     (if m s1 \<noteq> 0 \<and> m s1 = m s2 then strcmp m (Suc s1) (Suc s2)
      else Some (uint (m s1) - uint (m s2)))"

fun strncmp :: "mem \<Rightarrow> nat \<Rightarrow> nat \<Rightarrow> nat \<Rightarrow> int" where
  "strncmp m s1 s2 0 = 0"
| "strncmp m s1 s2 (Suc n) =
     (if m s1 \<noteq> 0 \<and> m s1 = m s2 then strncmp m (Suc s1) (Suc s2) n
      else uint (m s1) - uint (m s2))"

text \<open>The outer option is the loop; the inner one the returned pointer.\<close>

partial_function (option) strchr :: "mem \<Rightarrow> nat \<Rightarrow> u8 \<Rightarrow> nat option option" where
  "strchr m s c =
     (if m s \<noteq> 0 then if m s = c then Some (Some s) else strchr m (Suc s) c else Some None)"

partial_function (option) strfind :: "mem \<Rightarrow> nat \<Rightarrow> u8 \<Rightarrow> nat option" where
  "strfind m s c =
     (if m s \<noteq> 0 then if m s = c then Some s else strfind m (Suc s) c else Some s)"

section \<open>Memory blocks\<close>

fun memset :: "mem \<Rightarrow> nat \<Rightarrow> u8 \<Rightarrow> nat \<Rightarrow> mem" where
  "memset m p c 0 = m"
| "memset m p c (Suc n) = memset (m(p := c)) (Suc p) c n"

fun memcpy :: "mem \<Rightarrow> nat \<Rightarrow> nat \<Rightarrow> nat \<Rightarrow> mem" where
  "memcpy m d s 0 = m"
| "memcpy m d s (Suc n) = memcpy (m(d := m s)) (Suc d) (Suc s) n"

text \<open>The backward loop of \<^verbatim>\<open>memmove\<close>, with \<open>d\<close> and \<open>s\<close> one past the bytes still to copy.\<close>

fun memmove_down :: "mem \<Rightarrow> nat \<Rightarrow> nat \<Rightarrow> nat \<Rightarrow> mem" where
  "memmove_down m d s 0 = m"
| "memmove_down m d s (Suc n) = memmove_down (m(d - 1 := m (s - 1))) (d - 1) (s - 1) n"

definition memmove :: "mem \<Rightarrow> nat \<Rightarrow> nat \<Rightarrow> nat \<Rightarrow> mem" where
  "memmove m d s n = (if s < d \<and> s + n > d then memmove_down m (d + n) (s + n) n else memcpy m d s n)"

fun memcmp :: "mem \<Rightarrow> nat \<Rightarrow> nat \<Rightarrow> nat \<Rightarrow> int" where
  "memcmp m s1 s2 0 = 0"
| "memcmp m s1 s2 (Suc n) =
     (if m s1 \<noteq> m s2 then uint (m s1) - uint (m s2) else memcmp m (Suc s1) (Suc s2) n)"

section \<open>Copies in new memory\<close>

text \<open>\<open>kmalloc\<close> is given as the address it answers for a size, or \<open>None\<close>.\<close>

definition strdup :: "(nat \<Rightarrow> nat option) \<Rightarrow> mem \<Rightarrow> nat \<Rightarrow> (nat option \<times> mem) option" where
  "strdup kmalloc m src = do {
     len \<leftarrow> strlen m src;
     (case kmalloc (len + 1) of
        Some dst \<Rightarrow> Some (Some dst, (memcpy m dst src len)(dst + len := 0))
      | None \<Rightarrow> Some (None, m))
   }"

definition stradd :: "(nat \<Rightarrow> nat option) \<Rightarrow> mem \<Rightarrow> nat \<Rightarrow> nat \<Rightarrow> (nat option \<times> mem) option" where
  "stradd kmalloc m src1 src2 = do {
     len1 \<leftarrow> strlen m src1;
     len2 \<leftarrow> strlen m src2;
     (case kmalloc (len1 + len2 + 1) of
        Some dst \<Rightarrow>
          Some (Some dst, (memcpy (memcpy m dst src1 len1) (dst + len1) src2 len2)(dst + len1 + len2 := 0))
      | None \<Rightarrow> Some (None, m))
   }"

section \<open>Strings as lists\<close>

primrec cstr :: "mem \<Rightarrow> nat \<Rightarrow> u8 list \<Rightarrow> bool" where
  "cstr m s [] = (m s = 0)"
| "cstr m s (x # xs) = (m s = x \<and> x \<noteq> 0 \<and> cstr m (Suc s) xs)"

definition disjoint_ranges :: "nat \<Rightarrow> nat \<Rightarrow> nat \<Rightarrow> nat \<Rightarrow> bool" where
  "disjoint_ranges a n b k \<longleftrightarrow> a + n \<le> b \<or> b + k \<le> a"

section \<open>Lemmas\<close>

lemma cstr_nth: "cstr m s xs \<longleftrightarrow> (\<forall>i < length xs. m (s + i) = xs ! i) \<and> 0 \<notin> set xs \<and> m (s + length xs) = 0"
proof (induction xs arbitrary: s)
  case (Cons x xs)
  then show ?case by (auto simp: All_less_Suc2)
qed simp

lemma cstr_cong:
  assumes "\<And>i. i \<le> length xs \<Longrightarrow> m' (t + i) = m (s + i)"
  shows "cstr m' t xs = cstr m s xs"
  using assms by (simp add: cstr_nth)

lemma strlen_loop_cstr: "cstr m s xs \<Longrightarrow> strlen_loop m s cnt = Some (cnt + length xs)"
  by (induction xs arbitrary: s cnt) (simp_all add: strlen_loop.simps [of m])

lemma strlen_cstr: "cstr m s xs \<Longrightarrow> strlen m s = Some (length xs)"
  by (simp add: strlen_def strlen_loop_cstr)

lemma strnlen_loop_cstr: "cstr m s xs \<Longrightarrow> cnt \<le> len \<Longrightarrow> strnlen_loop m s cnt len = min len (cnt + length xs)"
  by (induction xs arbitrary: s cnt) (simp_all add: strnlen_loop.simps [of m])

lemma memcpy_outside: "a \<notin> {d..<d + n} \<Longrightarrow> memcpy m d s n a = m a"
  by (induction m d s n rule: memcpy.induct) auto

lemma memcpy_inside:
  "\<not> (s < d \<and> d < s + n) \<Longrightarrow> i < n \<Longrightarrow> memcpy m d s n (d + i) = m (s + i)"
proof (induction m d s n arbitrary: i rule: memcpy.induct)
  case (2 m d s n)
  show ?case
  proof (cases i)
    case 0
    then show ?thesis using memcpy_outside [of d "Suc d" n] by simp
  next
    case (Suc j)
    have "memcpy (m(d := m s)) (Suc d) (Suc s) n (Suc d + j) = (m(d := m s)) (Suc s + j)"
      by (rule 2(1)) (use 2(2,3) Suc in auto)
    moreover have "Suc s + j \<noteq> d" using 2(2,3) Suc by auto
    ultimately show ?thesis using Suc by simp
  qed
qed simp

text \<open>The backward loop, with the bytes still to copy at \<open>d\<close> and \<open>s\<close>.\<close>

lemma memmove_down_spec:
  "s < d \<Longrightarrow> memmove_down m (d + n) (s + n) n a = (if a \<in> {d..<d + n} then m (s + (a - d)) else m a)"
proof (induction n arbitrary: m)
  case (Suc n)
  let ?m = "m(d + n := m (s + n))"
  have "memmove_down m (d + Suc n) (s + Suc n) (Suc n) a = memmove_down ?m (d + n) (s + n) n a" by simp
  also have "\<dots> = (if a \<in> {d..<d + n} then ?m (s + (a - d)) else ?m a)" by (rule Suc.IH [OF Suc.prems])
  also have "\<dots> = (if a \<in> {d..<d + Suc n} then m (s + (a - d)) else m a)"
    using Suc.prems by auto
  finally show ?case .
qed simp

lemma memmove_exact:
  "memmove m d s n a = (if a \<in> {d..<d + n} then m (s + (a - d)) else m a)"
proof (cases "s < d \<and> s + n > d")
  case True
  then show ?thesis by (auto simp: memmove_def memmove_down_spec)
next
  case False
  then show ?thesis
    using memcpy_inside [of s d n "a - d" m] memcpy_outside [of a d n m s] by (auto simp: memmove_def)
qed


subsection \<open>Copying strings\<close>

lemma strcpy_memcpy:
  "cstr m src xs \<Longrightarrow> \<not> (src < dst \<and> dst \<le> src + length xs) \<Longrightarrow>
    strcpy m dst src = Some (memcpy m dst src (Suc (length xs)))"
proof (induction xs arbitrary: m dst src)
  case Nil
  then show ?case by (simp add: strcpy.simps [of m] Let_def fun_upd_def)
next
  case (Cons x xs)
  have "cstr (m(dst := m src)) (Suc src) xs"
    using Cons.prems by (subst cstr_cong [where m = m and s = "Suc src"]) auto
  then have "strcpy (m(dst := m src)) (Suc dst) (Suc src)
      = Some (memcpy (m(dst := m src)) (Suc dst) (Suc src) (Suc (length xs)))"
    by (rule Cons.IH) (use Cons.prems(2) in auto)
  then show ?case
    using Cons.prems(1) by (simp add: strcpy.simps [of m dst] Let_def del: fun_upd_apply) (simp add: fun_upd_same)
qed

lemma strncpy_outside: "a \<notin> {p..<p + len} \<Longrightarrow> strncpy m p src len a = m a"
  by (induction m p src len rule: strncpy.induct) (auto simp: Let_def)

lemma strncpy_inside:
  "cstr m src xs \<Longrightarrow> disjoint_ranges p len src (Suc (length xs)) \<Longrightarrow> i < len \<Longrightarrow>
    strncpy m p src len (p + i) = (if i < length xs then xs ! i else 0)"
proof (induction m p src len arbitrary: xs i rule: strncpy.induct)
  case (2 m p src len)
  let ?m = "m(p := m src)"
  have m_p: "?m p = (case xs of [] \<Rightarrow> 0 | x # _ \<Rightarrow> x)" using 2(2) by (cases xs) auto
  have first: "strncpy ?m (Suc p) s' len p = ?m p" for s' by (rule strncpy_outside) simp
  have same: "?m (src + j) = m (src + j)" if "j \<le> length xs" for j
    using 2(3,4) that by (auto simp: disjoint_ranges_def)
  show ?case
  proof (cases xs)
    case Nil
    then have "?m p = 0" using m_p by simp
    have "cstr ?m src []" using 2(2) Nil same [of 0] by simp
    then have "strncpy ?m (Suc p) src len (Suc p + j) = 0" if "j < len" for j
      using 2(1) [OF refl, of "[]" j] 2(3) that Nil \<open>?m p = 0\<close>
      by (auto simp: disjoint_ranges_def simp del: fun_upd_apply)
    then show ?thesis using first [of src] \<open>?m p = 0\<close> 2(4) Nil by (cases i) (auto simp: Let_def)
  next
    case (Cons x ys)
    then have mp: "?m p = x" "x \<noteq> 0" using m_p 2(2) by auto
    have "?m (Suc src + j) = m (Suc src + j)" if "j \<le> length ys" for j
      using same [of "Suc j"] that Cons by (simp del: fun_upd_apply)
    then have "cstr ?m (Suc src) ys" using cstr_cong [of ys ?m "Suc src" m "Suc src"] 2(2) Cons by simp
    then have "strncpy ?m (Suc p) (Suc src) len (Suc p + j) = (if j < length ys then ys ! j else 0)" if "j < len" for j
      using 2(1) [OF refl, of ys j] 2(3) mp that Cons by (auto simp: disjoint_ranges_def simp del: fun_upd_apply)
    then show ?thesis using first [of "Suc src"] mp 2(4) Cons by (cases i) (auto simp: Let_def)
  qed
qed simp

subsection \<open>Comparing\<close>

lemma uint_pos: "w \<noteq> 0 \<Longrightarrow> 0 < uint (w :: u8)"
  using uint_0_iff [of w] uint_ge_0 [of w] by linarith

lemma strcmp_cstr:
  "cstr m a xs \<Longrightarrow> cstr m b ys \<Longrightarrow>
    \<exists>r. strcmp m a b = Some r \<and> (r = 0 \<longleftrightarrow> xs = ys) \<and> (r < 0 \<longleftrightarrow> ord_class.lexordp xs ys)"
proof (induction xs arbitrary: a b ys)
  case Nil
  then show ?case by (cases ys) (auto simp: strcmp.simps [of m] uint_0_iff uint_pos)
next
  case (Cons x xs)
  show ?case
  proof (cases ys)
    case Nil
    then show ?thesis using Cons.prems by (auto simp: strcmp.simps [of m] uint_0_iff not_less uint_ge_0)
  next
    case (Cons y zs)
    note yz = this
    show ?thesis
    proof (cases "x = y")
      case True
      then show ?thesis using Cons.IH [of "Suc a" "Suc b" zs] Cons.prems yz by (auto simp: strcmp.simps [of m a b])
    next
      case False
      then have "uint x \<noteq> uint y" by (simp add: word_uint_eq_iff)
      then show ?thesis using False Cons.prems yz by (auto simp: strcmp.simps [of m a b] word_less_def)
    qed
  qed
qed

lemma strncmp_cstr:
  "cstr m a xs \<Longrightarrow> cstr m b ys \<Longrightarrow> (strncmp m a b n = 0 \<longleftrightarrow> take n xs = take n ys)"
proof (induction n arbitrary: a b xs ys)
  case (Suc n)
  then show ?case by (cases xs; cases ys) (auto simp: uint_0_iff word_uint_eq_iff [symmetric])
qed simp

lemma memcmp_zero: "memcmp m a b n = 0 \<longleftrightarrow> (\<forall>i < n. m (a + i) = m (b + i))"
  by (induction n arbitrary: a b) (auto simp: All_less_Suc2 word_uint_eq_iff [symmetric])

subsection \<open>Searching\<close>

lemma strchr_cstr:
  "cstr m s xs \<Longrightarrow> strchr m s c =
    Some (if c \<in> set xs then Some (s + length (takeWhile (\<lambda>x. x \<noteq> c) xs)) else None)"
  by (induction xs arbitrary: s) (simp_all add: strchr.simps [of m])

lemma strfind_cstr:
  "cstr m s xs \<Longrightarrow> strfind m s c = Some (s + length (takeWhile (\<lambda>x. x \<noteq> c) xs))"
  by (induction xs arbitrary: s) (simp_all add: strfind.simps [of m])


subsection \<open>Duplicates and concatenation\<close>

lemma disjoint_sym: "disjoint_ranges a n b k \<longleftrightarrow> disjoint_ranges b k a n"
  by (auto simp: disjoint_ranges_def)

text \<open>A string outside the range that is written keeps its value.\<close>

lemma cstr_frame:
  assumes "cstr m s xs" "\<And>a. a \<notin> {d..<d + n} \<Longrightarrow> m' a = m a" "disjoint_ranges d n s (Suc (length xs))"
  shows "cstr m' s xs"
  using assms(1) by (subst cstr_cong [where m = m and s = s]) (use assms(2,3) in \<open>auto simp: disjoint_ranges_def\<close>)

lemma memcpy_disjoint: "disjoint_ranges d n s n \<Longrightarrow> i < n \<Longrightarrow> memcpy m d s n (d + i) = m (s + i)"
  by (rule memcpy_inside) (auto simp: disjoint_ranges_def)

lemma stradd_spec:
  assumes a: "cstr m a xs" and b: "cstr m b ys" and k: "kmalloc (length xs + length ys + 1) = Some d"
    and da: "disjoint_ranges d (length xs + length ys + 1) a (Suc (length xs))"
    and db: "disjoint_ranges d (length xs + length ys + 1) b (Suc (length ys))"
  shows "\<exists>m'. stradd kmalloc m a b = Some (Some d, m') \<and> cstr m' d (xs @ ys) \<and> cstr m' a xs \<and> cstr m' b ys"
proof -
  define m1 where "m1 = memcpy m d a (length xs)"
  define m2 where "m2 = memcpy m1 (d + length xs) b (length ys)"
  define m3 where "m3 = m2(d + length xs + length ys := 0)"
  have "stradd kmalloc m a b = Some (Some d, m3)"
    using strlen_cstr [OF a] strlen_cstr [OF b] k by (simp add: stradd_def m1_def m2_def m3_def)
  moreover have out: "c \<notin> {d..<d + (length xs + length ys + 1)} \<Longrightarrow> m3 c = m c" for c
    unfolding m3_def m2_def m1_def by (auto simp: memcpy_outside)
  moreover have "m3 (d + i) = (xs @ ys) ! i" if "i < length xs + length ys" for i
  proof (cases "i < length xs")
    case True
    then have "m2 (d + i) = m1 (d + i)" unfolding m2_def by (intro memcpy_outside) auto
    moreover have "m1 (d + i) = m (a + i)"
      unfolding m1_def using da True by (intro memcpy_disjoint) (auto simp: disjoint_ranges_def)
    ultimately show ?thesis using a True by (simp add: m3_def cstr_nth nth_append)
  next
    case False
    define j where "j = i - length xs"
    have j: "i = length xs + j" "j < length ys" using that False by (simp_all add: j_def)
    have "m2 (d + length xs + j) = m1 (b + j)"
      unfolding m2_def using db j(2) by (intro memcpy_disjoint) (auto simp: disjoint_ranges_def)
    moreover have "m1 (b + j) = m (b + j)"
      unfolding m1_def using db j(2) by (intro memcpy_outside) (auto simp: disjoint_ranges_def)
    ultimately show ?thesis using b j by (simp add: m3_def cstr_nth nth_append add.assoc)
  qed
  moreover have "m3 (d + length xs + length ys) = 0" by (simp add: m3_def)
  ultimately show ?thesis
    using a b cstr_frame [OF a out da] cstr_frame [OF b out db]
    by (auto simp: cstr_nth add.assoc)
qed

lemma strdup_spec:
  assumes a: "cstr m a xs" and k: "kmalloc (length xs + 1) = Some d"
    and da: "disjoint_ranges d (length xs + 1) a (Suc (length xs))"
  shows "\<exists>m'. strdup kmalloc m a = Some (Some d, m') \<and> cstr m' d xs \<and> cstr m' a xs"
proof -
  let ?m = "(memcpy m d a (length xs))(d + length xs := 0)"
  have "strdup kmalloc m a = Some (Some d, ?m)" using strlen_cstr [OF a] k by (simp add: strdup_def)
  moreover have out: "c \<notin> {d..<d + (length xs + 1)} \<Longrightarrow> ?m c = m c" for c by (auto simp: memcpy_outside)
  moreover have "?m (d + i) = xs ! i" if "i < length xs" for i
    using a da that memcpy_disjoint [of d "length xs" a i m] by (auto simp: cstr_nth disjoint_ranges_def)
  ultimately show ?thesis using a cstr_frame [OF a out da] by (auto simp: cstr_nth)
qed

lemma strcpy_spec:
  assumes "cstr m a xs" "disjoint_ranges d (Suc (length xs)) a (Suc (length xs))"
  shows "\<exists>m'. strcpy m d a = Some m' \<and> cstr m' d xs \<and> cstr m' a xs \<and> (\<forall>q. q \<notin> {d..<d + Suc (length xs)} \<longrightarrow> m' q = m q)"
proof -
  let ?m = "memcpy m d a (Suc (length xs))"
  have "strcpy m d a = Some ?m" using strcpy_memcpy [OF assms(1)] assms(2) by (auto simp: disjoint_ranges_def)
  moreover have out: "q \<notin> {d..<d + Suc (length xs)} \<Longrightarrow> ?m q = m q" for q by (rule memcpy_outside)
  moreover have "cstr ?m d xs = cstr m a xs" by (rule cstr_cong) (rule memcpy_disjoint [OF assms(2)], simp)
  ultimately show ?thesis using assms cstr_frame [OF assms(1) out assms(2)] by blast
qed

section \<open>Properties\<close>

text \<open>C34: \<^verbatim>\<open>memmove\<close> copies the bytes the source had before the call, however the two ranges overlap,
  and nothing else; \<^verbatim>\<open>memcpy\<close> does the same unless the destination begins inside the source.\<close>

theorem memory_moves:
  assumes "\<not> (s < d \<and> d < s + n)"
  shows "(\<forall>a. memmove m e s k a = (if a \<in> {e..<e + k} then m (s + (a - e)) else m a))
    \<and> memcpy m d s n = memmove m d s n"
proof
  show "\<forall>a. memmove m e s k a = (if a \<in> {e..<e + k} then m (s + (a - e)) else m a)"
    by (simp add: memmove_exact)
  show "memcpy m d s n = memmove m d s n"
    using assms by (auto simp: memmove_def)
qed

theorem memory_moves_witness:
  "memmove (\<lambda>a. of_nat a) 1 0 2 2 = (1 :: u8) \<and> memcpy (\<lambda>a. of_nat a) 0 1 2 = memmove (\<lambda>a. of_nat a) 0 1 2"
  using memory_moves [of 1 0 2 "\<lambda>a. of_nat a" 0 0] memory_moves [of 0 0 0 "\<lambda>a. of_nat a" 1 2] by simp

text \<open>C35: on zero-terminated strings the comparison always ends, is zero exactly on equal strings and negative
  exactly when the first comes first in the lexicographic order of bytes; the bounded
  comparison agrees with equality of the prefixes.\<close>

theorem strcmp_lexicographic:
  assumes "cstr m a xs" "cstr m b ys"
  shows "(\<exists>r. strcmp m a b = Some r \<and> (r = 0 \<longleftrightarrow> xs = ys) \<and> (r < 0 \<longleftrightarrow> ord_class.lexordp xs ys))
    \<and> (strncmp m a b n = 0 \<longleftrightarrow> take n xs = take n ys)"
  using strcmp_cstr [OF assms] strncmp_cstr [OF assms] by blast

text \<open>The strings \<^verbatim>\<open>"AB"\<close> at 0 and \<^verbatim>\<open>"B"\<close> at 4.\<close>

definition demo_mem :: mem where
  "demo_mem = (\<lambda>_. 0)(0 := 65, 1 := 66, 4 := 66)"

lemma demo_strings: "cstr demo_mem 0 [65, 66]" "cstr demo_mem 4 [66]"
  by (simp_all add: demo_mem_def)

theorem strcmp_lexicographic_witness:
  "\<exists>r. strcmp demo_mem 0 4 = Some r \<and> r < 0"
  using strcmp_lexicographic [OF demo_strings] by auto

text \<open>C36: the routines compute on terminated strings what the list operations compute on their contents. Into memory apart from the
  arguments, \<^verbatim>\<open>strcpy\<close> and \<^verbatim>\<open>strdup\<close> make a copy and \<^verbatim>\<open>stradd\<close> the two lists appended, with the
  arguments intact; without memory the last two change nothing. \<^verbatim>\<open>strlen\<close>, \<^verbatim>\<open>strnlen\<close>, \<^verbatim>\<open>strfind\<close> and
  \<^verbatim>\<open>strchr\<close> measure the list and find the first occurrence of a byte.\<close>

theorem string_lists:
  assumes "cstr m a xs" "cstr m b ys"
    and "kmalloc (length xs + length ys + 1) = Some d" "kmalloc (length xs + 1) = Some e"
    and "disjoint_ranges d (length xs + length ys + 1) a (Suc (length xs))"
    and "disjoint_ranges d (length xs + length ys + 1) b (Suc (length ys))"
    and "disjoint_ranges e (length xs + 1) a (Suc (length xs))"
  shows "(\<exists>m'. stradd kmalloc m a b = Some (Some d, m') \<and> cstr m' d (xs @ ys) \<and> cstr m' a xs \<and> cstr m' b ys)
    \<and> (\<exists>m'. strdup kmalloc m a = Some (Some e, m') \<and> cstr m' e xs \<and> cstr m' a xs)
    \<and> stradd (\<lambda>_. None) m a b = Some (None, m) \<and> strdup (\<lambda>_. None) m a = Some (None, m)
    \<and> (\<exists>m'. strcpy m d a = Some m' \<and> cstr m' d xs \<and> cstr m' a xs \<and> cstr m' b ys)
    \<and> strlen m a = Some (length xs) \<and> strnlen m a k = min k (length xs)
    \<and> strfind m a c = Some (a + length (takeWhile (\<lambda>x. x \<noteq> c) xs))
    \<and> strchr m a c = Some (if c \<in> set xs then Some (a + length (takeWhile (\<lambda>x. x \<noteq> c) xs)) else None)"
proof -
  have da: "disjoint_ranges d (Suc (length xs)) a (Suc (length xs))" and db: "disjoint_ranges d (Suc (length xs)) b (Suc (length ys))"
    using assms(5,6) by (auto simp: disjoint_ranges_def)
  obtain m' where m': "strcpy m d a = Some m'" "cstr m' d xs" "cstr m' a xs" "\<And>q. q \<notin> {d..<d + Suc (length xs)} \<Longrightarrow> m' q = m q"
    using strcpy_spec [OF assms(1) da] by blast
  have "cstr m' b ys" by (rule cstr_frame [OF assms(2) m'(4) db])
  moreover have "stradd (\<lambda>_. None) m a b = Some (None, m)" "strdup (\<lambda>_. None) m a = Some (None, m)"
    using strlen_cstr [OF assms(1)] strlen_cstr [OF assms(2)] by (simp_all add: stradd_def strdup_def)
  moreover have "strnlen m a k = min k (length xs)" using strnlen_loop_cstr [OF assms(1), of 0 k] by (simp add: strnlen_def)
  ultimately show ?thesis
    using stradd_spec [where kmalloc = kmalloc, OF assms(1-3,5,6)] strdup_spec [where kmalloc = kmalloc, OF assms(1,4,7)]
      m'(1-3) strlen_cstr [OF assms(1)] strfind_cstr [OF assms(1)] strchr_cstr [OF assms(1)] by blast
qed

theorem string_lists_witness:
  "(\<exists>m'. stradd (\<lambda>_. Some 10) demo_mem 0 4 = Some (Some 10, m') \<and> cstr m' 10 [65, 66, 66])
    \<and> (\<exists>m'. strdup (\<lambda>_. Some 10) demo_mem 0 = Some (Some 10, m') \<and> cstr m' 10 [65, 66])
    \<and> (\<exists>m'. strcpy demo_mem 10 0 = Some m' \<and> cstr m' 10 [65, 66]) \<and> strchr demo_mem 0 66 = Some (Some 1)"
proof -
  have "disjoint_ranges 10 (length [65, 66 :: u8] + length [66 :: u8] + 1) 0 (Suc (length [65, 66 :: u8]))"
      "disjoint_ranges 10 (length [65, 66 :: u8] + length [66 :: u8] + 1) 4 (Suc (length [66 :: u8]))"
      "disjoint_ranges 10 (length [65, 66 :: u8] + 1) 0 (Suc (length [65, 66 :: u8]))"
    by (simp_all add: disjoint_ranges_def)
  from string_lists [OF demo_strings _ _ this, of "\<lambda>_. Some 10" 0 66] show ?thesis by auto
qed

end
