(* ===== verification/Trapframe.thy ===== *)
theory Trapframe
  imports Prelude
begin

text \<open>
  The registers saved on entry to the kernel: \<^verbatim>\<open>kern/trap/mips_trapframe.h\<close>. The general registers 1 to 30 are a
  function of their index in \<^verbatim>\<open>reg_r\<close>.
\<close>

record trapframe =
  tf_vaddr :: u32
  tf_status :: u32
  tf_cause :: u32
  tf_lo :: u32
  tf_hi :: u32
  tf_ra :: u32
  tf_regs :: "nat \<Rightarrow> u32"
  tf_epc :: u32

definition MIPS_REG_V0 :: nat where "MIPS_REG_V0 = 1"
definition MIPS_REG_A0 :: nat where "MIPS_REG_A0 = 3"
definition MIPS_REG_A1 :: nat where "MIPS_REG_A1 = 4"
definition MIPS_REG_A2 :: nat where "MIPS_REG_A2 = 5"
definition MIPS_REG_A3 :: nat where "MIPS_REG_A3 = 6"
definition MIPS_REG_T0 :: nat where "MIPS_REG_T0 = 7"
definition MIPS_REG_GP :: nat where "MIPS_REG_GP = 27"
definition MIPS_REG_SP :: nat where "MIPS_REG_SP = 28"

text \<open>The size of the structure in bytes: seven words and thirty registers.\<close>

definition sizeof_trapframe :: u32 where "sizeof_trapframe = 4 * 37"

definition set_reg :: "nat \<Rightarrow> u32 \<Rightarrow> trapframe \<Rightarrow> trapframe" where
  "set_reg r v tf = tf\<lparr>tf_regs := (tf_regs tf)(r := v)\<rparr>"

definition empty_frame :: trapframe where
  "empty_frame = \<lparr>tf_vaddr = 0, tf_status = 0, tf_cause = 0, tf_lo = 0, tf_hi = 0, tf_ra = 0, tf_regs = (\<lambda>r. 0), tf_epc = 0\<rparr>"

end
