(* ===== verification/Sched.thy ===== *)
theory Sched
  imports Klib Trapframe
begin

text \<open>
  \<^verbatim>\<open>kern/schedule/sched.c\<close>, \<^verbatim>\<open>kern/schedule/default_sched.c\<close> and the process structure of
  \<^verbatim>\<open>kern/process/proc.h\<close>. The state \<open>sched\<close> is extended by the process table in another theory, so the
  operations are polymorphic in the rest of the record. A process or timer is its address; a process
  is linked in the run queue when it is a member of \<open>run_list\<close>, which is what the code reads off
  \<^verbatim>\<open>list_empty(&(proc->run_link))\<close>. The bodies run with interrupts disabled, so each function is one
  step. The locale \<open>scheduling_class\<close> is the interface \<^verbatim>\<open>struct sched_class\<close>, interpreted on the
  round-robin class; the timer list, which stores differences, is refined to a list of deadlines.
\<close>

section \<open>State\<close>

datatype proc_state = PROC_UNINIT | PROC_SLEEPING | PROC_RUNNABLE | PROC_ZOMBIE

record proc_struct =
  p_state :: proc_state
  p_pid :: int
  p_runs :: int
  p_kstack :: nat
  p_need_resched :: bool
  p_parent :: "nat option"
  p_mm :: "nat option"
  p_context_ra :: u32
  p_context_sp :: u32
  p_tf_addr :: u32
  p_tf :: trapframe
  p_cr3 :: u32
  p_flags :: u32
  p_name :: string
  p_exit_code :: int
  p_wait_state :: u32
  p_cptr :: "nat option"
  p_yptr :: "nat option"
  p_optr :: "nat option"
  p_rq :: bool
  p_time_slice :: int
  p_fs_struct :: "nat option"

definition WT_INTERRUPTED :: u32 where "WT_INTERRUPTED = 0x80000000"
definition WT_CHILD :: u32 where "WT_CHILD = 1 OR WT_INTERRUPTED"
definition WT_KSEM :: u32 where "WT_KSEM = 0x100"
definition WT_TIMER :: u32 where "WT_TIMER = 2 OR WT_INTERRUPTED"
definition WT_KBD :: u32 where "WT_KBD = 4 OR WT_INTERRUPTED"

record timer =
  expires :: nat
  t_proc :: nat

record sched =
  procs :: "nat \<Rightarrow> proc_struct"
  current :: nat
  idleproc :: nat
  run_list :: "nat list"
  proc_num :: u32
  max_time_slice :: int
  timers :: "nat \<Rightarrow> timer"
  timer_list :: "nat list"

definition upd_proc :: "nat \<Rightarrow> (proc_struct \<Rightarrow> proc_struct) \<Rightarrow> 'a sched_scheme \<Rightarrow> 'a sched_scheme" where
  "upd_proc p f s = s\<lparr>procs := (procs s)(p := f (procs s p))\<rparr>"

definition upd_timer :: "nat \<Rightarrow> (nat \<Rightarrow> nat) \<Rightarrow> 'a sched_scheme \<Rightarrow> 'a sched_scheme" where
  "upd_timer t f s = s\<lparr>timers := (timers s)(t := (timers s t)\<lparr>expires := f (expires (timers s t))\<rparr>)\<rparr>"

section \<open>The round-robin class\<close>

record 's sched_class =
  sc_init :: "'s \<Rightarrow> 's"
  sc_enqueue :: "nat \<Rightarrow> 's \<Rightarrow> 's option"
  sc_dequeue :: "nat \<Rightarrow> 's \<Rightarrow> 's option"
  sc_pick_next :: "'s \<Rightarrow> nat option"
  sc_proc_tick :: "nat \<Rightarrow> 's \<Rightarrow> 's"

definition RR_init :: "'a sched_scheme \<Rightarrow> 'a sched_scheme" where
  "RR_init s = s\<lparr>run_list := [], proc_num := 0\<rparr>"

definition RR_enqueue :: "nat \<Rightarrow> 'a sched_scheme \<Rightarrow> 'a sched_scheme option" where
  "RR_enqueue p s = do {
     kassert (p \<notin> set (run_list s));
     let s = s\<lparr>run_list := run_list s @ [p]\<rparr>;
     let s = (if p_time_slice (procs s p) = 0 \<or> p_time_slice (procs s p) > max_time_slice s
              then upd_proc p (\<lambda>q. q\<lparr>p_time_slice := max_time_slice s\<rparr>) s else s);
     let s = upd_proc p (\<lambda>q. q\<lparr>p_rq := True\<rparr>) s;
     Some (s\<lparr>proc_num := proc_num s + 1\<rparr>)
   }"

definition RR_dequeue :: "nat \<Rightarrow> 'a sched_scheme \<Rightarrow> 'a sched_scheme option" where
  "RR_dequeue p s = do {
     kassert (p \<in> set (run_list s) \<and> p_rq (procs s p));
     Some (s\<lparr>run_list := remove1 p (run_list s), proc_num := proc_num s - 1\<rparr>)
   }"

definition RR_pick_next :: "'a sched_scheme \<Rightarrow> nat option" where
  "RR_pick_next s = (case run_list s of p # _ \<Rightarrow> Some p | [] \<Rightarrow> None)"

definition RR_proc_tick :: "nat \<Rightarrow> 'a sched_scheme \<Rightarrow> 'a sched_scheme" where
  "RR_proc_tick p s =
     (let s = (if p_time_slice (procs s p) > 0
               then upd_proc p (\<lambda>q. q\<lparr>p_time_slice := p_time_slice q - 1\<rparr>) s else s)
      in if p_time_slice (procs s p) = 0 then upd_proc p (\<lambda>q. q\<lparr>p_need_resched := True\<rparr>) s else s)"

definition default_sched_class :: "'a sched_scheme sched_class" where
  "default_sched_class = \<lparr>sc_init = RR_init, sc_enqueue = RR_enqueue, sc_dequeue = RR_dequeue,
     sc_pick_next = RR_pick_next, sc_proc_tick = RR_proc_tick\<rparr>"

section \<open>The scheduler\<close>

definition sched_class_enqueue :: "'a sched_scheme sched_class \<Rightarrow> nat \<Rightarrow> 'a sched_scheme \<Rightarrow> 'a sched_scheme option" where
  "sched_class_enqueue sc p s = (if p \<noteq> idleproc s then sc_enqueue sc p s else Some s)"

definition sched_class_dequeue :: "'a sched_scheme sched_class \<Rightarrow> nat \<Rightarrow> 'a sched_scheme \<Rightarrow> 'a sched_scheme option" where
  "sched_class_dequeue sc p s = sc_dequeue sc p s"

definition sched_class_pick_next :: "'a sched_scheme sched_class \<Rightarrow> 'a sched_scheme \<Rightarrow> nat option" where
  "sched_class_pick_next sc s = sc_pick_next sc s"

definition sched_class_proc_tick :: "'a sched_scheme sched_class \<Rightarrow> nat \<Rightarrow> 'a sched_scheme \<Rightarrow> 'a sched_scheme" where
  "sched_class_proc_tick sc p s =
     (if p \<noteq> idleproc s then sc_proc_tick sc p s else upd_proc p (\<lambda>q. q\<lparr>p_need_resched := True\<rparr>) s)"

definition sched_init :: "'a sched_scheme \<Rightarrow> 'a sched_scheme" where
  "sched_init s = sc_init default_sched_class (s\<lparr>timer_list := [], max_time_slice := 20\<rparr>)"

definition wakeup_proc :: "'a sched_scheme sched_class \<Rightarrow> nat \<Rightarrow> 'a sched_scheme \<Rightarrow> 'a sched_scheme option" where
  "wakeup_proc sc p s = do {
     kassert (p_state (procs s p) \<noteq> PROC_ZOMBIE);
     if p_state (procs s p) \<noteq> PROC_RUNNABLE
     then do {
       let s = upd_proc p (\<lambda>q. q\<lparr>p_state := PROC_RUNNABLE, p_wait_state := 0\<rparr>) s;
       if p \<noteq> current s then sched_class_enqueue sc p s else Some s
     }
     else Some s
   }"

text \<open>\<^verbatim>\<open>proc_run\<close> of \<^verbatim>\<open>proc.c\<close>: of its effects (kernel stack, page table, flush, register
  switch) the one on this state is the current process.\<close>

definition proc_run :: "nat \<Rightarrow> 'a sched_scheme \<Rightarrow> 'a sched_scheme" where
  "proc_run p s = (if p \<noteq> current s then s\<lparr>current := p\<rparr> else s)"

definition schedule :: "'a sched_scheme sched_class \<Rightarrow> 'a sched_scheme \<Rightarrow> 'a sched_scheme option" where
  "schedule sc s = do {
     let s = upd_proc (current s) (\<lambda>q. q\<lparr>p_need_resched := False\<rparr>) s;
     s \<leftarrow> (if p_state (procs s (current s)) = PROC_RUNNABLE then sched_class_enqueue sc (current s) s else Some s);
     let nxt = sched_class_pick_next sc s;
     s \<leftarrow> (case nxt of Some p \<Rightarrow> sched_class_dequeue sc p s | None \<Rightarrow> Some s);
     let p = (case nxt of None \<Rightarrow> idleproc s | Some p \<Rightarrow> p);
     let s = upd_proc p (\<lambda>q. q\<lparr>p_runs := p_runs q + 1\<rparr>) s;
     Some (if p \<noteq> current s then proc_run p s else s)
   }"

section \<open>Timers\<close>

definition timer_init :: "nat \<Rightarrow> nat \<Rightarrow> nat \<Rightarrow> 'a sched_scheme \<Rightarrow> 'a sched_scheme" where
  "timer_init t p e s = s\<lparr>timers := (timers s)(t := \<lparr>expires = e, t_proc = p\<rparr>)\<rparr>"

text \<open>The loop of \<^verbatim>\<open>add_timer\<close>: \<open>pre\<close> are the timers already passed.\<close>

fun add_timer_walk :: "nat \<Rightarrow> nat list \<Rightarrow> nat list \<Rightarrow> 'a sched_scheme \<Rightarrow> 'a sched_scheme" where
  "add_timer_walk t pre [] s = s\<lparr>timer_list := pre @ [t]\<rparr>"
| "add_timer_walk t pre (n # rest) s =
     (if expires (timers s t) < expires (timers s n)
      then (upd_timer n (\<lambda>e. e - expires (timers s t)) s)\<lparr>timer_list := pre @ t # n # rest\<rparr>
      else add_timer_walk t (pre @ [n]) rest (upd_timer t (\<lambda>e. e - expires (timers s n)) s))"

definition add_timer :: "nat \<Rightarrow> 'a sched_scheme \<Rightarrow> 'a sched_scheme option" where
  "add_timer t s = do {
     kassert (expires (timers s t) > 0);
     kassert (t \<notin> set (timer_list s));
     Some (add_timer_walk t [] (timer_list s) s)
   }"

text \<open>The timer behind a timer in the list.\<close>

fun next_timer :: "nat \<Rightarrow> nat list \<Rightarrow> nat option" where
  "next_timer t (a # b # xs) = (if a = t then Some b else next_timer t (b # xs))"
| "next_timer t _ = None"

definition del_timer :: "nat \<Rightarrow> 'a sched_scheme \<Rightarrow> 'a sched_scheme" where
  "del_timer t s =
     (if t \<in> set (timer_list s)
      then let s = (if expires (timers s t) \<noteq> 0
                    then case next_timer t (timer_list s) of
                           Some n \<Rightarrow> upd_timer n (\<lambda>e. e + expires (timers s t)) s
                         | None \<Rightarrow> s
                    else s)
           in s\<lparr>timer_list := remove1 t (timer_list s)\<rparr>
      else s)"

text \<open>The loop of \<^verbatim>\<open>run_timer_list\<close> over the timers from the first on.\<close>

fun run_expired :: "'a sched_scheme sched_class \<Rightarrow> nat list \<Rightarrow> 'a sched_scheme \<Rightarrow> 'a sched_scheme option" where
  "run_expired sc [] s = Some s"
| "run_expired sc (t # rest) s =
     (if expires (timers s t) = 0
      then do {
        let p = t_proc (timers s t);
        kassert (p_wait_state (procs s p) \<noteq> 0 \<longrightarrow> p_wait_state (procs s p) AND WT_INTERRUPTED \<noteq> 0);
        s \<leftarrow> wakeup_proc sc p s;
        run_expired sc rest (del_timer t s)
      }
      else Some s)"

definition run_timer_list :: "'a sched_scheme sched_class \<Rightarrow> 'a sched_scheme \<Rightarrow> 'a sched_scheme option" where
  "run_timer_list sc s = do {
     s \<leftarrow> (case timer_list s of
            [] \<Rightarrow> Some s
          | t # rest \<Rightarrow> do {
              kassert (expires (timers s t) \<noteq> 0);
              run_expired sc (t # rest) (upd_timer t (\<lambda>e. e - 1) s)
            });
     Some (sched_class_proc_tick sc (current s) s)
   }"


text \<open>The list keeps for each timer the ticks after the previous one; \<open>alarms\<close> are the timers with
  their distance from now.\<close>

fun deadlines :: "(nat \<Rightarrow> nat) \<Rightarrow> nat \<Rightarrow> nat list \<Rightarrow> (nat \<times> nat) list" where
  "deadlines e a [] = []"
| "deadlines e a (t # ts) = (t, a + e t) # deadlines e (a + e t) ts"

definition alarms :: "'a sched_scheme \<Rightarrow> (nat \<times> nat) list" where
  "alarms s = deadlines (\<lambda>t. expires (timers s t)) 0 (timer_list s)"

definition timers_ok :: "'a sched_scheme \<Rightarrow> bool" where
  "timers_ok s \<longleftrightarrow> distinct (timer_list s) \<and> (\<forall>a \<in> set (alarms s). 0 < snd a)"

text \<open>Insertion behind every alarm that is due no later.\<close>

definition insert_alarm :: "nat \<Rightarrow> nat \<Rightarrow> (nat \<times> nat) list \<Rightarrow> (nat \<times> nat) list" where
  "insert_alarm t d as = takeWhile (\<lambda>a. snd a \<le> d) as @ (t, d) # dropWhile (\<lambda>a. snd a \<le> d) as"

section \<open>The contract of a scheduling class\<close>

text \<open>What an operation on the run queue may change: the queue itself and, of a process, its time
  slice, its queue pointer and its request to be rescheduled.\<close>

definition same_proc :: "proc_struct \<Rightarrow> proc_struct \<Rightarrow> bool" where
  "same_proc p q \<longleftrightarrow> q\<lparr>p_time_slice := p_time_slice p, p_rq := p_rq p, p_need_resched := p_need_resched p\<rparr> = p"

definition rq_frame :: "'a sched_scheme \<Rightarrow> 'a sched_scheme \<Rightarrow> bool" where
  "rq_frame s s' \<longleftrightarrow> (\<forall>q. same_proc (procs s q) (procs s' q)) \<and>
     s'\<lparr>procs := procs s, run_list := run_list s, proc_num := proc_num s\<rparr> = s"

text \<open>The queue does not depend on the rest of the state: on the current process, the timers, or the
  other fields of a process.\<close>

definition queue_view :: "'a sched_scheme \<Rightarrow> 'a sched_scheme \<Rightarrow> bool" where
  "queue_view s s' \<longleftrightarrow> run_list s' = run_list s \<and> proc_num s' = proc_num s
     \<and> (\<forall>q. p_rq (procs s' q) = p_rq (procs s q) \<and> p_time_slice (procs s' q) = p_time_slice (procs s q))"

locale scheduling_class =
  fixes sc :: "'a sched_scheme sched_class"
    and ready :: "'a sched_scheme \<Rightarrow> nat set"
    and rq_inv :: "'a sched_scheme \<Rightarrow> bool"
  assumes enqueue_law: "rq_inv s \<Longrightarrow> p \<notin> ready s \<Longrightarrow>
      \<exists>s'. sc_enqueue sc p s = Some s' \<and> rq_inv s' \<and> ready s' = insert p (ready s) \<and> rq_frame s s'"
    and dequeue_law: "rq_inv s \<Longrightarrow> p \<in> ready s \<Longrightarrow>
      \<exists>s'. sc_dequeue sc p s = Some s' \<and> rq_inv s' \<and> ready s' = ready s - {p} \<and> rq_frame s s'"
    and pick_none: "rq_inv s \<Longrightarrow> sc_pick_next sc s = None \<longleftrightarrow> ready s = {}"
    and pick_some: "rq_inv s \<Longrightarrow> sc_pick_next sc s = Some p \<Longrightarrow> p \<in> ready s"
    and tick_law: "rq_inv s \<Longrightarrow> rq_inv (sc_proc_tick sc p s) \<and> ready (sc_proc_tick sc p s) = ready s
      \<and> rq_frame s (sc_proc_tick sc p s)"
    and view_law: "queue_view s s' \<Longrightarrow> rq_inv s' = rq_inv s \<and> ready s' = ready s"
begin

text \<open>The scheduler's invariant: the run queue holds exactly the runnable processes that are neither
  running nor idle.\<close>

definition sched_ok :: "'a sched_scheme \<Rightarrow> bool" where
  "sched_ok s \<longleftrightarrow> rq_inv s
     \<and> ready s = {p. p_state (procs s p) = PROC_RUNNABLE \<and> p \<noteq> current s \<and> p \<noteq> idleproc s}"

end

text \<open>The invariant of the round-robin queue, and the scheduler's invariant over it.\<close>

definition RR_inv :: "'a sched_scheme \<Rightarrow> bool" where
  "RR_inv s \<longleftrightarrow> distinct (run_list s) \<and> (\<forall>p \<in> set (run_list s). p_rq (procs s p)) \<and> proc_num s = of_nat (length (run_list s))"

definition run_queue_ok :: "'a sched_scheme \<Rightarrow> bool" where
  "run_queue_ok s \<longleftrightarrow> RR_inv s
     \<and> set (run_list s) = {p. p_state (procs s p) = PROC_RUNNABLE \<and> p \<noteq> current s \<and> p \<noteq> idleproc s}"

text \<open>Events between two observations of the scheduler: the running process gives up the processor
  (\<open>Block\<close> first marks it as sleeping, the way the callers of \<^verbatim>\<open>schedule\<close> that wait do) or a process
  is woken up.\<close>

datatype event = Wakeup nat | Block u32 | Schedule

fun run_event :: "event \<Rightarrow> 'a sched_scheme \<Rightarrow> 'a sched_scheme option" where
  "run_event (Wakeup p) s = wakeup_proc default_sched_class p s"
| "run_event (Block w) s = Some (upd_proc (current s) (\<lambda>q. q\<lparr>p_state := PROC_SLEEPING, p_wait_state := w\<rparr>) s)"
| "run_event Schedule s = schedule default_sched_class s"

fun run_events :: "event list \<Rightarrow> 'a sched_scheme \<Rightarrow> 'a sched_scheme option" where
  "run_events [] s = Some s"
| "run_events (e # es) s = run_event e s \<bind> run_events es"

section \<open>Lemmas\<close>

lemma upd_proc_simps [simp]:
  "procs (upd_proc p f s) = (procs s)(p := f (procs s p))" "current (upd_proc p f s) = current s"
  "idleproc (upd_proc p f s) = idleproc s" "run_list (upd_proc p f s) = run_list s"
  "proc_num (upd_proc p f s) = proc_num s" "max_time_slice (upd_proc p f s) = max_time_slice s"
  "timers (upd_proc p f s) = timers s" "timer_list (upd_proc p f s) = timer_list s"
  "sched.more (upd_proc p f s) = sched.more s"
  by (simp_all add: upd_proc_def)

lemma upd_timer_simps [simp]:
  "procs (upd_timer t f s) = procs s" "current (upd_timer t f s) = current s"
  "idleproc (upd_timer t f s) = idleproc s" "run_list (upd_timer t f s) = run_list s"
  "proc_num (upd_timer t f s) = proc_num s" "timer_list (upd_timer t f s) = timer_list s"
  "timers (upd_timer t f s) = (timers s)(t := (timers s t)\<lparr>expires := f (expires (timers s t))\<rparr>)"
  by (simp_all add: upd_timer_def)

lemma same_proc_fields:
  assumes "same_proc p q"
  shows "p_state q = p_state p" "p_wait_state q = p_wait_state p" "p_pid q = p_pid p" "p_parent q = p_parent p"
    "p_runs q = p_runs p" "p_flags q = p_flags p"
  using assms by (cases p; cases q; simp add: same_proc_def)+

lemma same_proc_refl [simp]: "same_proc p p"
  by (simp add: same_proc_def)

lemma rq_frame_fields:
  assumes "rq_frame s s'"
  shows "current s' = current s" "idleproc s' = idleproc s" "timers s' = timers s" "timer_list s' = timer_list s"
    "max_time_slice s' = max_time_slice s" "sched.more s' = sched.more s"
    "p_state (procs s' q) = p_state (procs s q)" "p_wait_state (procs s' q) = p_wait_state (procs s q)"
    "p_pid (procs s' q) = p_pid (procs s q)" "p_parent (procs s' q) = p_parent (procs s q)"
proof -
  have "s'\<lparr>procs := procs s, run_list := run_list s, proc_num := proc_num s\<rparr> = s"
    using assms by (simp add: rq_frame_def)
  then show "current s' = current s" "idleproc s' = idleproc s" "timers s' = timers s" "timer_list s' = timer_list s"
    "max_time_slice s' = max_time_slice s" "sched.more s' = sched.more s"
    by (cases s; cases s'; simp)+
qed (use assms in \<open>simp_all add: rq_frame_def same_proc_fields\<close>)

context scheduling_class
begin

lemma sched_ok_view:
  assumes "queue_view s s'" "sched_ok s"
    and "{p. p_state (procs s' p) = PROC_RUNNABLE \<and> p \<noteq> current s' \<and> p \<noteq> idleproc s'}
      = {p. p_state (procs s p) = PROC_RUNNABLE \<and> p \<noteq> current s \<and> p \<noteq> idleproc s}"
  shows "sched_ok s'"
  using assms view_law [OF assms(1)] by (simp add: sched_ok_def)

lemma wakeup_keeps:
  assumes ok: "sched_ok s" and p: "p_state (procs s p) \<noteq> PROC_ZOMBIE"
  shows "\<exists>s'. wakeup_proc sc p s = Some s' \<and> sched_ok s' \<and> p_state (procs s' p) = PROC_RUNNABLE
    \<and> current s' = current s \<and> idleproc s' = idleproc s \<and> timers s' = timers s \<and> timer_list s' = timer_list s
    \<and> sched.more s' = sched.more s \<and> p_wait_state (procs s' p) \<in> {0, p_wait_state (procs s p)}
    \<and> (\<forall>q. q \<noteq> p \<longrightarrow> p_state (procs s' q) = p_state (procs s q) \<and> p_wait_state (procs s' q) = p_wait_state (procs s q))"
proof (cases "p_state (procs s p) = PROC_RUNNABLE")
  case True
  then show ?thesis using ok by (simp add: wakeup_proc_def)
next
  case False
  let ?t = "upd_proc p (\<lambda>q. q\<lparr>p_state := PROC_RUNNABLE, p_wait_state := 0\<rparr>) s"
  have v: "rq_inv ?t" "ready ?t = ready s"
    using view_law [of s ?t] ok by (auto simp: queue_view_def sched_ok_def)
  have ready: "ready s = {q. p_state (procs s q) = PROC_RUNNABLE \<and> q \<noteq> current s \<and> q \<noteq> idleproc s}"
    using ok by (simp add: sched_ok_def)
  show ?thesis
  proof (cases "p \<noteq> current s \<and> p \<noteq> idleproc s")
    case True
    have "p \<notin> ready ?t" using False v(2) ready by simp
    then obtain u where u: "sc_enqueue sc p ?t = Some u" "rq_inv u" "ready u = insert p (ready s)" "rq_frame ?t u"
      using enqueue_law [OF v(1), of p] v(2) by auto
    have "wakeup_proc sc p s = Some u"
      using p False True u(1) by (simp add: wakeup_proc_def sched_class_enqueue_def Let_def)
    moreover have "sched_ok u" using u(2,3) ready True rq_frame_fields [OF u(4)] by (auto simp: sched_ok_def)
    ultimately show ?thesis using rq_frame_fields [OF u(4)] by simp
  next
    case no: False
    then have "wakeup_proc sc p s = Some ?t"
      using p False by (auto simp: wakeup_proc_def sched_class_enqueue_def Let_def)
    moreover have "sched_ok ?t" using v ready no by (auto simp: sched_ok_def)
    ultimately show ?thesis by simp
  qed
qed

lemma enqueue_current:
  assumes ok: "sched_ok s" and r: "p_state (procs s (current s)) = PROC_RUNNABLE"
  shows "\<exists>t. sched_class_enqueue sc (current s) s = Some t \<and> rq_inv t \<and> rq_frame s t
    \<and> ready t = {p. p_state (procs s p) = PROC_RUNNABLE \<and> p \<noteq> idleproc s}"
proof -
  have ready: "ready s = {q. p_state (procs s q) = PROC_RUNNABLE \<and> q \<noteq> current s \<and> q \<noteq> idleproc s}" "rq_inv s"
    using ok by (simp_all add: sched_ok_def)
  show ?thesis
  proof (cases "current s = idleproc s")
    case True
    then show ?thesis using ready by (auto simp: sched_class_enqueue_def rq_frame_def)
  next
    case False
    then have "insert (current s) (ready s) = {p. p_state (procs s p) = PROC_RUNNABLE \<and> p \<noteq> idleproc s}"
      using ready r by auto
    then show ?thesis using enqueue_law [OF ready(2), of "current s"] ready(1) False
      by (auto simp: sched_class_enqueue_def)
  qed
qed

lemma requeue_step:
  assumes ok: "sched_ok s"
  shows "\<exists>t. (if p_state (procs s (current s)) = PROC_RUNNABLE then sched_class_enqueue sc (current s) s else Some s) = Some t
    \<and> rq_inv t \<and> rq_frame s t \<and> ready t = {p. p_state (procs s p) = PROC_RUNNABLE \<and> p \<noteq> idleproc s}"
  using enqueue_current [OF ok] ok by (cases "p_state (procs s (current s)) = PROC_RUNNABLE") (auto simp: sched_ok_def rq_frame_def)

text \<open>Choosing the next process from a queue that holds every runnable process but the idle one.\<close>

lemma pick_step:
  assumes t: "rq_inv t" and r: "ready t = {p. p_state (procs t p) = PROC_RUNNABLE \<and> p \<noteq> idleproc t}"
  shows "\<exists>u p. (case sched_class_pick_next sc t of Some p \<Rightarrow> sched_class_dequeue sc p t | None \<Rightarrow> Some t) = Some u
    \<and> (case sched_class_pick_next sc t of None \<Rightarrow> idleproc u | Some p \<Rightarrow> p) = p
    \<and> rq_inv u \<and> rq_frame t u
    \<and> ready u = {q. p_state (procs t q) = PROC_RUNNABLE \<and> q \<noteq> p \<and> q \<noteq> idleproc t}
    \<and> (p = idleproc t \<longleftrightarrow> (\<forall>q. p_state (procs t q) = PROC_RUNNABLE \<longrightarrow> q = idleproc t))
    \<and> (p \<noteq> idleproc t \<longrightarrow> p_state (procs t p) = PROC_RUNNABLE)"
proof (cases "sc_pick_next sc t")
  case None
  then have "\<forall>p. p_state (procs t p) = PROC_RUNNABLE \<longrightarrow> p = idleproc t" using pick_none [OF t] r by blast
  then show ?thesis using None t r by (auto simp: sched_class_pick_next_def rq_frame_def)
next
  case (Some p)
  then have p: "p \<in> ready t" using pick_some [OF t] by simp
  then obtain u where u: "sc_dequeue sc p t = Some u" "rq_inv u" "ready u = ready t - {p}" "rq_frame t u"
    using dequeue_law [OF t, of p] by auto
  have "ready u = {q. p_state (procs t q) = PROC_RUNNABLE \<and> q \<noteq> p \<and> q \<noteq> idleproc t}" using u(3) r by auto
  then show ?thesis using u Some p r by (auto simp: sched_class_pick_next_def sched_class_dequeue_def)
qed

lemma schedule_keeps:
  assumes ok: "sched_ok s"
  shows "\<exists>s'. schedule sc s = Some s' \<and> sched_ok s' \<and> idleproc s' = idleproc s
    \<and> timers s' = timers s \<and> timer_list s' = timer_list s \<and> sched.more s' = sched.more s
    \<and> (\<forall>q. p_state (procs s' q) = p_state (procs s q) \<and> p_wait_state (procs s' q) = p_wait_state (procs s q))
    \<and> (current s' = idleproc s \<longleftrightarrow> (\<forall>q. p_state (procs s q) = PROC_RUNNABLE \<longrightarrow> q = idleproc s))
    \<and> (current s' \<noteq> idleproc s \<longrightarrow> p_state (procs s (current s')) = PROC_RUNNABLE)"
proof -
  let ?s = "upd_proc (current s) (\<lambda>q. q\<lparr>p_need_resched := False\<rparr>) s"
  have ok1: "sched_ok ?s" by (rule sched_ok_view [OF _ ok]) (auto simp: queue_view_def)
  from requeue_step [OF ok1] obtain t where t: "(if p_state (procs ?s (current ?s)) = PROC_RUNNABLE then sched_class_enqueue sc (current ?s) ?s else Some ?s) = Some t"
    "rq_inv t" "rq_frame ?s t" "ready t = {p. p_state (procs ?s p) = PROC_RUNNABLE \<and> p \<noteq> idleproc ?s}" by auto
  note ft = rq_frame_fields [OF t(3)]
  have "ready t = {p. p_state (procs t p) = PROC_RUNNABLE \<and> p \<noteq> idleproc t}" using t(4) ft by simp
  from pick_step [OF t(2) this] obtain u p where
    u: "(case sched_class_pick_next sc t of Some p \<Rightarrow> sched_class_dequeue sc p t | None \<Rightarrow> Some t) = Some u"
     "(case sched_class_pick_next sc t of None \<Rightarrow> idleproc u | Some p \<Rightarrow> p) = p"
     "rq_inv u" "rq_frame t u" "ready u = {q. p_state (procs t q) = PROC_RUNNABLE \<and> q \<noteq> p \<and> q \<noteq> idleproc t}"
     "p = idleproc t \<longleftrightarrow> (\<forall>q. p_state (procs t q) = PROC_RUNNABLE \<longrightarrow> q = idleproc t)"
     "p \<noteq> idleproc t \<longrightarrow> p_state (procs t p) = PROC_RUNNABLE" by blast
  note fu = rq_frame_fields [OF u(4)]
  define v where "v = upd_proc p (\<lambda>q. q\<lparr>p_runs := p_runs q + 1\<rparr>) u"
  define w where "w = (if p \<noteq> current v then proc_run p v else v)"
  have w: "schedule sc s = Some w"
    using t(1) u(1,2) by (simp add: schedule_def Let_def v_def w_def)
  have cw: "current w = p" "queue_view u w" "idleproc w = idleproc u" "timers w = timers u" "timer_list w = timer_list u"
    "sched.more w = sched.more u" "p_state (procs w q) = p_state (procs u q)"
    "p_wait_state (procs w q) = p_wait_state (procs u q)" for q
    by (simp_all add: proc_run_def queue_view_def v_def w_def)
  have s: "p_state (procs ?s q) = p_state (procs s q)" "p_wait_state (procs ?s q) = p_wait_state (procs s q)" for q
    by simp_all
  have "sched_ok w"
    using view_law [OF cw(2)] u(3,5) cw(1,3,7) fu ft by (simp add: sched_ok_def)
  moreover have "p_state (procs w q) = p_state (procs s q)" "p_wait_state (procs w q) = p_wait_state (procs s q)" for q
    by (simp_all only: cw fu ft s)
  moreover have "idleproc w = idleproc s" "timers w = timers s" "timer_list w = timer_list s" "sched.more w = sched.more s"
    by (simp_all only: cw fu ft upd_proc_simps)
  moreover have "p = idleproc s \<longleftrightarrow> (\<forall>q. p_state (procs s q) = PROC_RUNNABLE \<longrightarrow> q = idleproc s)"
    "p \<noteq> idleproc s \<longrightarrow> p_state (procs s p) = PROC_RUNNABLE"
    using u(6,7) by (simp_all only: ft s upd_proc_simps(3))
  ultimately show ?thesis using w cw(1) by (intro exI [of _ w]) simp
qed

end


section \<open>The timer list as a list of alarms\<close>

lemma deadlines_cong: "(\<And>t. t \<in> set ts \<Longrightarrow> e t = e' t) \<Longrightarrow> deadlines e a ts = deadlines e' a ts"
  by (induction ts arbitrary: a) simp_all

lemma deadlines_append: "deadlines e a (xs @ ys) = deadlines e a xs @ deadlines e (a + sum_list (map e xs)) ys"
  by (induction xs arbitrary: a) (simp_all add: add.assoc)

lemma deadlines_ge: "(t, d) \<in> set (deadlines e a ts) \<Longrightarrow> a \<le> d"
  by (induction ts arbitrary: a) (auto dest!: meta_spec, fastforce)

lemma map_fst_deadlines [simp]: "map fst (deadlines e a ts) = ts"
  by (induction ts arbitrary: a) simp_all

lemma fst_deadlines: "(t, d) \<in> set (deadlines e a ts) \<Longrightarrow> t \<in> set ts"
  by (induction ts arbitrary: a) auto

lemma deadlines_sorted: "sorted (map snd (deadlines e a ts))"
  by (induction ts arbitrary: a) (auto dest: deadlines_ge)

lemma deadlines_shift: "deadlines e (a + k) ts = map (map_prod id (\<lambda>d. d + k)) (deadlines e a ts)"
proof (induction ts arbitrary: a)
  case (Cons t ts)
  show ?case using Cons [of "a + e t"] by (simp add: ac_simps)
qed simp

lemma insert_alarm_append:
  "\<forall>x \<in> set as. snd x \<le> d \<Longrightarrow> insert_alarm t d (as @ bs) = as @ insert_alarm t d bs"
  by (simp add: insert_alarm_def takeWhile_append2 dropWhile_append2)

lemma insert_alarm_simps [simp]:
  "insert_alarm t d [] = [(t, d)]"
  "d < snd a \<Longrightarrow> insert_alarm t d (a # as) = (t, d) # a # as"
  by (simp_all add: insert_alarm_def)

lemma insert_alarm_elems:
  "set (insert_alarm t d as) = insert (t, d) (set as)"
  "distinct (map fst (insert_alarm t d as)) \<longleftrightarrow> t \<notin> fst ` set as \<and> distinct (map fst as)"
proof -
  obtain xs ys where "takeWhile (\<lambda>a. snd a \<le> d) as = xs" "dropWhile (\<lambda>a. snd a \<le> d) as = ys" "as = xs @ ys"
    using takeWhile_dropWhile_id [of "\<lambda>a. snd a \<le> d" as] by metis
  then show "set (insert_alarm t d as) = insert (t, d) (set as)"
    "distinct (map fst (insert_alarm t d as)) \<longleftrightarrow> t \<notin> fst ` set as \<and> distinct (map fst as)"
    by (auto simp: insert_alarm_def)
qed

lemma add_timer_walk_alarms:
  assumes "t \<notin> set pre" "t \<notin> set rest" "distinct rest" "set pre \<inter> set rest = {}"
    and e: "e = (\<lambda>t. expires (timers s t))" and a: "a = sum_list (map e pre)"
    and le: "\<forall>x \<in> set (deadlines e 0 pre). snd x \<le> a + e t"
  shows "alarms (add_timer_walk t pre rest s) = insert_alarm t (a + e t) (deadlines e 0 (pre @ rest))"
  using assms
proof (induction rest arbitrary: pre s e a)
  case Nil
  then show ?case using insert_alarm_append [of "deadlines e 0 pre" "a + e t" t "[]"]
    by (simp add: alarms_def deadlines_append)
next
  case (Cons n rest)
  note e = Cons.prems(5) and a = Cons.prems(6)
  show ?case
  proof (cases "e t < e n")
    case True
    let ?s = "(upd_timer n (\<lambda>x. x - expires (timers s t)) s)\<lparr>timer_list := pre @ t # n # rest\<rparr>"
    define f where "f = (\<lambda>t. expires (timers ?s t))"
    have "deadlines f b ts = deadlines e b ts" if "n \<notin> set ts" for b ts
      by (rule deadlines_cong) (use that in \<open>auto simp: e f_def\<close>)
    moreover have "f n = e n - e t" "f t = e t" "sum_list (map f pre) = a"
      using Cons.prems(2,4) a by (auto simp: f_def e intro!: arg_cong [where f = sum_list])
    ultimately have "deadlines f 0 (pre @ t # n # rest) = deadlines e 0 pre @ (t, a + e t) # deadlines e a (n # rest)"
      using True Cons.prems(3,4) by (auto simp: deadlines_append)
    then show ?thesis using True insert_alarm_append [OF Cons.prems(7), of t "deadlines e a (n # rest)"] a
      by (simp add: alarms_def f_def e deadlines_append)
  next
    case False
    let ?s = "upd_timer t (\<lambda>x. x - expires (timers s n)) s"
    define f where "f = (\<lambda>t. expires (timers ?s t))"
    have fe: "f x = e x" if "x \<noteq> t" for x using that by (simp add: f_def e)
    have ft: "f t = e t - e n" by (simp add: f_def e)
    have "deadlines f b ts = deadlines e b ts" if "t \<notin> set ts" for b ts
      by (rule deadlines_cong) (use that fe in metis)
    then have d: "deadlines f 0 (pre @ n # rest) = deadlines e 0 (pre @ n # rest)"
      "deadlines f 0 (pre @ [n]) = deadlines e 0 (pre @ [n])" using Cons.prems(1,2) by simp_all
    have sm: "sum_list (map f pre) = a" unfolding a using Cons.prems(1) by (auto simp: f_def e intro!: arg_cong [where f = sum_list])
    have "alarms (add_timer_walk t (pre @ [n]) rest ?s) = insert_alarm t (a + f n + f t) (deadlines f 0 ((pre @ [n]) @ rest))"
    proof (rule Cons.IH)
      show "\<forall>x \<in> set (deadlines f 0 (pre @ [n])). snd x \<le> a + f n + f t"
        unfolding d(2) using Cons.prems(2,7) False a ft fe [of n] by (auto simp: deadlines_append)
    qed (use Cons.prems sm in \<open>auto simp: f_def\<close>)
    moreover have "a + f n + f t = a + e t" using False ft fe [of n] Cons.prems(2) by simp
    ultimately show ?thesis using False d(1) by (simp add: e)
  qed
qed

lemma timer_list_alarms: "timer_list s = map fst (alarms s)"
  by (simp add: alarms_def)

lemma add_timer_alarms:
  assumes ok: "timers_ok s" and t: "t \<notin> set (timer_list s)" and e: "expires (timers s t) > 0"
  obtains s' where "add_timer t s = Some s'" "alarms s' = insert_alarm t (expires (timers s t)) (alarms s)" "timers_ok s'"
proof
  let ?s = "add_timer_walk t [] (timer_list s) s"
  show "add_timer t s = Some ?s" using t e by (simp add: add_timer_def)
  show a: "alarms ?s = insert_alarm t (expires (timers s t)) (alarms s)"
    using add_timer_walk_alarms [of t "[]" "timer_list s" "\<lambda>t. expires (timers s t)" s 0] ok t
    by (simp add: alarms_def timers_ok_def)
  have "timer_list ?s = map fst (insert_alarm t (expires (timers s t)) (alarms s))"
    using timer_list_alarms [of ?s] a by simp
  then have "distinct (timer_list ?s)" using ok t timer_list_alarms [of s] by (simp add: insert_alarm_elems timers_ok_def)
  then show "timers_ok ?s" using ok e by (simp add: timers_ok_def a insert_alarm_elems)
qed

lemma next_timer_append:
  "t \<notin> set pre \<Longrightarrow> next_timer t (pre @ t # post) = (case post of [] \<Rightarrow> None | n # _ \<Rightarrow> Some n)"
proof (induction pre)
  case (Cons a pre)
  then show ?case by (cases "pre @ t # post") (auto split: list.splits)
qed (cases post; simp)

lemma del_timer_alarms:
  assumes d: "distinct (timer_list s)"
  shows "alarms (del_timer t s) = filter (\<lambda>a. fst a \<noteq> t) (alarms s)"
proof (cases "t \<in> set (timer_list s)")
  case False
  then have "filter (\<lambda>a. fst a \<noteq> t) (alarms s) = alarms s" by (auto simp: timer_list_alarms filter_id_conv)
  then show ?thesis using False by (simp add: del_timer_def)
next
  case True
  then obtain pre post where l: "timer_list s = pre @ t # post" by (meson split_list)
  then have n: "t \<notin> set pre" "t \<notin> set post" "distinct post" "set pre \<inter> set post = {}" using d by auto
  define e where "e = (\<lambda>t. expires (timers s t))"
  have keep: "filter (\<lambda>a. fst a \<noteq> t) (deadlines f a ts) = deadlines f a ts" if "t \<notin> set ts" for f a ts
    using that fst_deadlines by (auto simp: filter_id_conv)
  have r: "remove1 t (pre @ t # post) = pre @ post" using n by (simp add: remove1_append)
  have rhs: "filter (\<lambda>a. fst a \<noteq> t) (alarms s) = deadlines e 0 pre @ deadlines e (sum_list (map e pre) + e t) post"
    using n keep by (simp add: alarms_def l deadlines_append e_def)
  show ?thesis
  proof (cases "post = [] \<or> e t = 0")
    case True
    then have "del_timer t s = s\<lparr>timer_list := pre @ post\<rparr>"
      using n l r by (auto simp: del_timer_def next_timer_append e_def)
    then show ?thesis unfolding rhs using True by (auto simp: alarms_def deadlines_append e_def)
  next
    case False
    then obtain m post' where p: "post = m # post'" by (cases post) auto
    let ?s = "(upd_timer m (\<lambda>x. x + expires (timers s t)) s)\<lparr>timer_list := pre @ post\<rparr>"
    define f where "f = (\<lambda>t. expires (timers ?s t))"
    have s: "del_timer t s = ?s" using False n l r p by (simp add: del_timer_def next_timer_append e_def)
    have fe: "f m = e m + e t" by (simp add: f_def e_def)
    have same: "deadlines f a ts = deadlines e a ts" "sum_list (map f ts) = sum_list (map e ts)" if "m \<notin> set ts" for a ts
      using that by (auto intro!: deadlines_cong arg_cong [where f = sum_list] simp: f_def e_def)
    have "deadlines f 0 (pre @ post) = deadlines e 0 pre @ deadlines e (sum_list (map e pre) + e t) post"
      using n p same fe by (simp add: deadlines_append add.assoc add.commute add.left_commute)
    then show ?thesis unfolding s rhs by (simp add: alarms_def f_def)
  qed
qed


context scheduling_class
begin

text \<open>A process that a timer may wake: not a zombie, and waiting, if at all, interruptibly.\<close>

definition wakeable :: "'a sched_scheme \<Rightarrow> nat \<Rightarrow> bool" where
  "wakeable s p \<longleftrightarrow> p_state (procs s p) \<noteq> PROC_ZOMBIE
     \<and> (p_wait_state (procs s p) \<noteq> 0 \<longrightarrow> p_wait_state (procs s p) AND WT_INTERRUPTED \<noteq> 0)"

lemma sched_ok_timers: "sched_ok (s\<lparr>timer_list := ts, timers := tm\<rparr>) = sched_ok s"
  using sched_ok_view [of s "s\<lparr>timer_list := ts, timers := tm\<rparr>"] sched_ok_view [of "s\<lparr>timer_list := ts, timers := tm\<rparr>" s]
  by (auto simp: queue_view_def)

lemma run_expired_wakes:
  assumes "sched_ok s" "distinct (timer_list s)" "\<And>t. t \<in> set (timer_list s) \<Longrightarrow> wakeable s (t_proc (timers s t))"
  shows "\<exists>s'. run_expired sc (timer_list s) s = Some s' \<and> sched_ok s'
    \<and> alarms s' = filter (\<lambda>a. 0 < snd a) (alarms s)
    \<and> current s' = current s \<and> idleproc s' = idleproc s \<and> sched.more s' = sched.more s
    \<and> (\<forall>t. t_proc (timers s' t) = t_proc (timers s t))
    \<and> (\<forall>q. p_state (procs s' q) = (if q \<in> (\<lambda>a. t_proc (timers s (fst a))) ` {a \<in> set (alarms s). snd a = 0}
                                  then PROC_RUNNABLE else p_state (procs s q)))"
  using assms
proof (induction "timer_list s" arbitrary: s)
  case Nil
  then show ?case by (simp add: alarms_def flip: Nil.hyps)
next
  case (Cons t rest)
  let ?e = "\<lambda>t. expires (timers s t)"
  show ?case
  proof (cases "?e t = 0")
    case False
    then have "\<And>a. a \<in> set (alarms s) \<Longrightarrow> 0 < snd a"
      by (auto simp: alarms_def dest: deadlines_ge simp flip: Cons.hyps(2))
    then have "filter (\<lambda>a. 0 < snd a) (alarms s) = alarms s" "{a \<in> set (alarms s). snd a = 0} = {}"
      by (auto simp: filter_id_conv)
    then show ?thesis using False Cons.prems(1) by (fastforce simp flip: Cons.hyps(2))
  next
    case True
    let ?p = "t_proc (timers s t)"
    have w: "wakeable s ?p" using Cons.prems(3) [of t] by (simp flip: Cons.hyps(2))
    then obtain u where u: "wakeup_proc sc ?p s = Some u" "sched_ok u" "p_state (procs u ?p) = PROC_RUNNABLE"
      "current u = current s" "idleproc u = idleproc s" "timers u = timers s" "timer_list u = timer_list s"
      "sched.more u = sched.more s" "p_wait_state (procs u ?p) \<in> {0, p_wait_state (procs s ?p)}"
      "\<And>q. q \<noteq> ?p \<Longrightarrow> p_state (procs u q) = p_state (procs s q) \<and> p_wait_state (procs u q) = p_wait_state (procs s q)"
      using wakeup_keeps [OF Cons.prems(1), of ?p] by (auto simp: wakeable_def)
    have v: "del_timer t u = u\<lparr>timer_list := rest\<rparr>"
      using True u(6,7) by (simp add: del_timer_def flip: Cons.hyps(2))
    let ?v = "u\<lparr>timer_list := rest\<rparr>"
    have al: "alarms s = (t, 0) # alarms ?v" using True u(6) by (simp add: alarms_def flip: Cons.hyps(2))
    have "\<exists>s'. run_expired sc (timer_list ?v) ?v = Some s' \<and> sched_ok s'
      \<and> alarms s' = filter (\<lambda>a. 0 < snd a) (alarms ?v)
      \<and> current s' = current ?v \<and> idleproc s' = idleproc ?v \<and> sched.more s' = sched.more ?v
      \<and> (\<forall>t. t_proc (timers s' t) = t_proc (timers ?v t))
      \<and> (\<forall>q. p_state (procs s' q) = (if q \<in> (\<lambda>a. t_proc (timers ?v (fst a))) ` {a \<in> set (alarms ?v). snd a = 0}
                                    then PROC_RUNNABLE else p_state (procs ?v q)))"
    proof (rule Cons.hyps(1))
      show "sched_ok ?v" using u(2) sched_ok_timers [where s = u and ts = rest and tm = "timers u"] by simp
      show "wakeable ?v (t_proc (timers ?v x))" if "x \<in> set (timer_list ?v)" for x
        using that w Cons.prems(3) [of x] u(3,6,9) u(10) [of "t_proc (timers s x)"]
        by (cases "t_proc (timers s x) = ?p") (auto simp: wakeable_def simp flip: Cons.hyps(2))
    qed (use Cons.prems(2) in \<open>simp_all flip: Cons.hyps(2)\<close>)
    then obtain s' where s': "run_expired sc rest ?v = Some s'" "sched_ok s'" "alarms s' = filter (\<lambda>a. 0 < snd a) (alarms ?v)"
      "current s' = current s" "idleproc s' = idleproc s" "sched.more s' = sched.more s"
      "\<And>t. t_proc (timers s' t) = t_proc (timers s t)"
      "\<And>q. p_state (procs s' q) = (if q \<in> (\<lambda>a. t_proc (timers s (fst a))) ` {a \<in> set (alarms ?v). snd a = 0}
            then PROC_RUNNABLE else p_state (procs u q))"
      using u by auto
    have "run_expired sc (timer_list s) s = Some s'"
      using True w u(1) v s'(1) by (simp add: wakeable_def flip: Cons.hyps(2))
    then show ?thesis using s' al u(3,10) by (auto simp: image_iff)
  qed
qed

lemma tick_keeps:
  fixes p
  assumes "sched_ok s"
  defines "s' \<equiv> sched_class_proc_tick sc p s"
  shows "sched_ok s'" "timers s' = timers s" "timer_list s' = timer_list s" "current s' = current s"
    "idleproc s' = idleproc s" "sched.more s' = sched.more s" "p_state (procs s' q) = p_state (procs s q)"
proof -
  let ?v = "upd_proc p (\<lambda>q. q\<lparr>p_need_resched := True\<rparr>) s"
  have "sched_ok ?v" by (rule sched_ok_view [OF _ assms(1)]) (auto simp: queue_view_def)
  moreover have t: "rq_inv (sc_proc_tick sc p s) \<and> ready (sc_proc_tick sc p s) = ready s \<and> rq_frame s (sc_proc_tick sc p s)"
    by (rule tick_law) (use assms(1) in \<open>simp add: sched_ok_def\<close>)
  note f = rq_frame_fields [OF t [THEN conjunct2, THEN conjunct2]]
  have "sched_ok (sc_proc_tick sc p s)" using t f assms(1) by (simp add: sched_ok_def)
  ultimately show "sched_ok s'" "timers s' = timers s" "timer_list s' = timer_list s" "current s' = current s"
    "idleproc s' = idleproc s" "sched.more s' = sched.more s" "p_state (procs s' q) = p_state (procs s q)"
    using f by (auto simp: s'_def sched_class_proc_tick_def)
qed

lemma run_timer_list_ticks:
  assumes ok: "sched_ok s" "timers_ok s" "\<And>t. t \<in> set (timer_list s) \<Longrightarrow> wakeable s (t_proc (timers s t))"
  shows "\<exists>s'. run_timer_list sc s = Some s' \<and> sched_ok s' \<and> timers_ok s'
    \<and> alarms s' = map (map_prod id (\<lambda>d. d - 1)) (filter (\<lambda>a. 1 < snd a) (alarms s))
    \<and> current s' = current s \<and> idleproc s' = idleproc s \<and> sched.more s' = sched.more s
    \<and> (\<forall>q. p_state (procs s' q) = (if q \<in> (\<lambda>a. t_proc (timers s (fst a))) ` {a \<in> set (alarms s). snd a = 1}
                                  then PROC_RUNNABLE else p_state (procs s q)))"
proof (cases "timer_list s")
  case Nil
  then have "run_timer_list sc s = Some (sched_class_proc_tick sc (current s) s)" "alarms s = []"
    by (simp_all add: run_timer_list_def alarms_def)
  then show ?thesis using tick_keeps [OF ok(1)] Nil by (simp add: timers_ok_def alarms_def)
next
  case (Cons t rest)
  define u where "u = upd_timer t (\<lambda>e. e - 1) s"
  have e: "expires (timers s t) \<noteq> 0" using ok(2) Cons by (simp add: timers_ok_def alarms_def)
  have "deadlines (\<lambda>t. expires (timers u t)) a rest = deadlines (\<lambda>t. expires (timers s t)) a rest" for a
    by (rule deadlines_cong) (use ok(2) Cons in \<open>auto simp: u_def timers_ok_def\<close>)
  then have al: "alarms s = map (map_prod id (\<lambda>d. d + 1)) (alarms u)"
    using e Cons deadlines_shift [of "\<lambda>t. expires (timers s t)" "expires (timers s t) - 1" 1 rest] by (simp add: alarms_def u_def)
  have sm: "timer_list u = timer_list s" "\<And>x. t_proc (timers u x) = t_proc (timers s x)" "procs u = procs s"
    "current u = current s" "idleproc u = idleproc s" "sched.more u = sched.more s" by (auto simp: u_def upd_timer_def)
  have "sched_ok u" by (rule sched_ok_view [OF _ ok(1)]) (simp_all add: queue_view_def u_def)
  moreover have "distinct (timer_list u)" "\<And>t. t \<in> set (timer_list u) \<Longrightarrow> wakeable u (t_proc (timers u t))"
    using ok(2,3) sm by (auto simp: wakeable_def timers_ok_def)
  ultimately have "\<exists>v. run_expired sc (timer_list u) u = Some v \<and> sched_ok v
    \<and> alarms v = filter (\<lambda>a. 0 < snd a) (alarms u)
    \<and> current v = current u \<and> idleproc v = idleproc u \<and> sched.more v = sched.more u
    \<and> (\<forall>t. t_proc (timers v t) = t_proc (timers u t))
    \<and> (\<forall>q. p_state (procs v q) = (if q \<in> (\<lambda>a. t_proc (timers u (fst a))) ` {a \<in> set (alarms u). snd a = 0}
                                  then PROC_RUNNABLE else p_state (procs u q)))"
    by (rule run_expired_wakes)
  then obtain v where v: "run_expired sc (timer_list u) u = Some v" "sched_ok v"
    "alarms v = filter (\<lambda>a. 0 < snd a) (alarms u)" "current v = current u" "idleproc v = idleproc u"
    "sched.more v = sched.more u"
    "\<And>q. p_state (procs v q) = (if q \<in> (\<lambda>a. t_proc (timers u (fst a))) ` {a \<in> set (alarms u). snd a = 0}
       then PROC_RUNNABLE else p_state (procs u q))"
    by blast
  let ?w = "sched_class_proc_tick sc (current v) v"
  note k = tick_keeps [OF v(2), of "current v"]
  have w: "run_timer_list sc s = Some ?w" using e Cons v(1) sm(1)
    by (simp add: run_timer_list_def u_def [symmetric] del: run_expired.simps One_nat_def)
  have aw: "alarms ?w = map (map_prod id (\<lambda>d. d - 1)) (filter (\<lambda>a. 1 < snd a) (alarms s))"
  proof -
    have "alarms ?w = alarms v" using k(2,3) by (simp add: alarms_def)
    then show ?thesis by (simp add: v(3) al filter_map o_def map_prod_def case_prod_beta)
  qed
  have tw: "timer_list ?w = map fst (filter (\<lambda>a. 0 < snd a) (alarms u))"
    using v(3) k(3) timer_list_alarms [of v] by simp
  have "timers_ok ?w" unfolding timers_ok_def tw aw using ok(2) sm(1)
    by (auto simp: timers_ok_def timer_list_alarms [of u] distinct_map_filter)
  moreover have "p_state (procs ?w q) = (if q \<in> (\<lambda>a. t_proc (timers s (fst a))) ` {a \<in> set (alarms s). snd a = 1}
     then PROC_RUNNABLE else p_state (procs s q))" for q
  proof -
    have "{a \<in> set (alarms s). snd a = 1} = map_prod id (\<lambda>d. d + 1) ` {a \<in> set (alarms u). snd a = 0}"
      by (auto simp: al)
    then show ?thesis using v(7) [of q] by (simp add: k(7) sm image_image)
  qed
  ultimately show ?thesis using w aw k v(4-6) sm(4-6) by (intro exI [of _ ?w]) simp
qed

end


section \<open>Round robin implements the contract\<close>

lemma RR_enqueue_eq:
  "RR_enqueue p s = (if p \<in> set (run_list s) then None
     else Some (upd_proc p (\<lambda>q. q\<lparr>p_time_slice := (if p_time_slice q = 0 \<or> p_time_slice q > max_time_slice s
         then max_time_slice s else p_time_slice q), p_rq := True\<rparr>)
       (s\<lparr>run_list := run_list s @ [p], proc_num := proc_num s + 1\<rparr>)))"
  by (simp add: RR_enqueue_def upd_proc_def)

lemma length_pred_word: "p \<in> set xs \<Longrightarrow> (of_nat (length xs - Suc 0) :: u32) = of_nat (length xs) - 1"
  by (cases xs) simp_all

interpretation rr: scheduling_class default_sched_class "\<lambda>s. set (run_list s)" RR_inv
proof
  fix s :: "'a sched_scheme" and p
  assume inv: "RR_inv s"
  { assume "p \<notin> set (run_list s)"
    then show "\<exists>s'. sc_enqueue default_sched_class p s = Some s' \<and> RR_inv s'
        \<and> set (run_list s') = insert p (set (run_list s)) \<and> rq_frame s s'"
      using inv by (auto simp: default_sched_class_def RR_enqueue_eq RR_inv_def rq_frame_def same_proc_def upd_proc_def) }
  { assume "p \<in> set (run_list s)"
    then show "\<exists>s'. sc_dequeue default_sched_class p s = Some s' \<and> RR_inv s'
        \<and> set (run_list s') = set (run_list s) - {p} \<and> rq_frame s s'"
      using inv by (auto simp: default_sched_class_def RR_dequeue_def RR_inv_def rq_frame_def length_remove1 length_pred_word) }
  { show "sc_pick_next default_sched_class s = None \<longleftrightarrow> set (run_list s) = {}"
      by (simp add: default_sched_class_def RR_pick_next_def split: list.split) }
  { assume "sc_pick_next default_sched_class s = Some p"
    then show "p \<in> set (run_list s)" by (auto simp: default_sched_class_def RR_pick_next_def split: list.splits) }
  { show "RR_inv (sc_proc_tick default_sched_class p s) \<and> set (run_list (sc_proc_tick default_sched_class p s)) = set (run_list s)
      \<and> rq_frame s (sc_proc_tick default_sched_class p s)"
      using inv by (auto simp: default_sched_class_def RR_proc_tick_def RR_inv_def rq_frame_def same_proc_def upd_proc_def Let_def) }
next
  fix s s' :: "'a sched_scheme"
  assume "queue_view s s'"
  then show "RR_inv s' = RR_inv s \<and> set (run_list s') = set (run_list s)" by (simp add: queue_view_def RR_inv_def)
qed

lemma rr_sched_ok: "rr.sched_ok s = run_queue_ok s"
  by (simp add: rr.sched_ok_def run_queue_ok_def)

text \<open>The queue of a scheduling step: the running process, if it can go on, joins at the back; the
  front runs next.\<close>

lemma schedule_queue:
  assumes ok: "run_queue_ok s"
  defines "q \<equiv> run_list s @ (if p_state (procs s (current s)) = PROC_RUNNABLE \<and> current s \<noteq> idleproc s then [current s] else [])"
  shows "\<exists>s'. schedule default_sched_class s = Some s' \<and> run_list s' = tl q
    \<and> current s' = (case q of [] \<Rightarrow> idleproc s | p # _ \<Rightarrow> p)"
proof -
  have "current s \<notin> set (run_list s)" using ok by (simp add: run_queue_ok_def)
  moreover have "\<forall>p \<in> set (run_list s). p_rq (procs s p)" using ok by (simp add: run_queue_ok_def RR_inv_def)
  ultimately show ?thesis
    by (cases "run_list s") (auto simp: schedule_def Let_def default_sched_class_def sched_class_enqueue_def sched_class_pick_next_def
      sched_class_dequeue_def RR_enqueue_eq RR_dequeue_def RR_pick_next_def q_def proc_run_def)
qed

lemma wakeup_queue:
  assumes "wakeup_proc default_sched_class p s = Some s'"
  shows "\<exists>xs. run_list s' = run_list s @ xs"
  using assms by (auto simp: wakeup_proc_def Let_def default_sched_class_def sched_class_enqueue_def RR_enqueue_eq kassert_def
      split: if_splits)

lemma run_event_keeps:
  assumes ok: "run_queue_ok s" and z: "\<And>p. e = Wakeup p \<Longrightarrow> p_state (procs s p) \<noteq> PROC_ZOMBIE"
  obtains s' where "run_event e s = Some s'" "run_queue_ok s'"
    "\<And>q. p_state (procs s q) \<noteq> PROC_ZOMBIE \<Longrightarrow> p_state (procs s' q) \<noteq> PROC_ZOMBIE"
proof (cases e)
  case (Wakeup p)
  then show ?thesis using that rr.wakeup_keeps [of s p] ok z rr_sched_ok
    by (metis proc_state.distinct(11) run_event.simps(1))
next
  case (Block w)
  let ?s = "upd_proc (current s) (\<lambda>q. q\<lparr>p_state := PROC_SLEEPING, p_wait_state := w\<rparr>) s"
  have "run_queue_ok ?s" using ok by (auto simp: run_queue_ok_def RR_inv_def)
  then show ?thesis using that [of ?s] Block by simp
next
  case Schedule
  then show ?thesis using that rr.schedule_keeps [of s] ok rr_sched_ok by (metis run_event.simps(3))
qed

section \<open>Properties\<close>

lemma run_events_total:
  assumes "run_queue_ok s" "\<And>p. Wakeup p \<in> set es \<Longrightarrow> p_state (procs s p) \<noteq> PROC_ZOMBIE"
  shows "\<exists>s'. run_events es s = Some s' \<and> run_queue_ok s'"
  using assms
proof (induction es arbitrary: s)
  case (Cons e es)
  obtain t where "run_event e s = Some t" "run_queue_ok t"
    "\<And>q. p_state (procs s q) \<noteq> PROC_ZOMBIE \<Longrightarrow> p_state (procs t q) \<noteq> PROC_ZOMBIE"
    using run_event_keeps [of s e] Cons.prems by auto
  then show ?case using Cons.IH [of t] Cons.prems(2) by simp
qed simp

lemma run_event_position:
  assumes ok: "run_queue_ok s" and e: "run_event e s = Some t" and p: "i < length (run_list s)" "run_list s ! i = p"
  shows "if e = Schedule then (if i = 0 then current t = p else i - 1 < length (run_list t) \<and> run_list t ! (i - 1) = p)
    else i < length (run_list t) \<and> run_list t ! i = p"
proof (cases e)
  case (Wakeup q)
  then obtain xs where "run_list t = run_list s @ xs" using wakeup_queue [of q s t] e by auto
  then show ?thesis using Wakeup p by (simp add: nth_append)
next
  case (Block w)
  then show ?thesis using e p by auto
next
  case Schedule
  obtain x xs where l: "run_list s = x # xs" using p(1) by (cases "run_list s") auto
  define r where "r = (if p_state (procs s (current s)) = PROC_RUNNABLE \<and> current s \<noteq> idleproc s then [current s] else [])"
  have "run_list t = tl (run_list s @ r)" "current t = (case run_list s @ r of [] \<Rightarrow> idleproc s | p # _ \<Rightarrow> p)"
    using schedule_queue [OF ok] e Schedule by (simp_all add: r_def)
  then have "run_list t = xs @ r" "current t = x" by (simp_all add: l)
  then show ?thesis using Schedule p l by (cases i) (simp_all add: nth_append)
qed

lemma runs_within:
  assumes "run_queue_ok s" "\<And>p. Wakeup p \<in> set es \<Longrightarrow> p_state (procs s p) \<noteq> PROC_ZOMBIE"
    and "i < length (run_list s)" "run_list s ! i = p" "i < length (filter (\<lambda>e. e = Schedule) es)"
  shows "\<exists>es1 es2 t. es = es1 @ Schedule # es2 \<and> run_events (es1 @ [Schedule]) s = Some t \<and> current t = p"
  using assms
proof (induction es arbitrary: s i)
  case (Cons e es)
  obtain t where t: "run_event e s = Some t" "run_queue_ok t"
    "\<And>q. p_state (procs s q) \<noteq> PROC_ZOMBIE \<Longrightarrow> p_state (procs t q) \<noteq> PROC_ZOMBIE"
    using run_event_keeps [of s e] Cons.prems by auto
  note pos = run_event_position [OF Cons.prems(1) t(1) Cons.prems(3,4)]
  show ?case
  proof (cases "e = Schedule \<and> i = 0")
    case True
    then show ?thesis using pos t(1) by - (rule exI [of _ "[]"], simp)
  next
    case False
    have "\<exists>es1 es2 u. es = es1 @ Schedule # es2 \<and> run_events (es1 @ [Schedule]) t = Some u \<and> current u = p"
      by (rule Cons.IH [of t "if e = Schedule then i - 1 else i"]) (use False pos Cons.prems(2,5) t(2,3) in auto)
    then obtain es1 es2 u where "es = es1 @ Schedule # es2" "run_events (es1 @ [Schedule]) t = Some u" "current u = p" by blast
    then show ?thesis using t(1) by - (rule exI [of _ "e # es1"], simp)
  qed
qed simp

text \<open>C3: A process in the run queue gets the processor. In every sequence of scheduling steps, wake-ups of
  live processes and blocking of the running process, nothing panics and the queue invariant is kept; and
  the process at position \<open>i\<close> of the run queue is running at the latest after the \<open>i + 1\<close>st scheduling step.\<close>

theorem round_robin_fair:
  assumes "run_queue_ok s" "\<forall>p. Wakeup p \<in> set es \<longrightarrow> p_state (procs s p) \<noteq> PROC_ZOMBIE"
    and "i < length (run_list s)" "i < length (filter (\<lambda>e. e = Schedule) es)"
  shows "(\<exists>s'. run_events es s = Some s' \<and> run_queue_ok s')
    \<and> (\<exists>es1 es2 t. es = es1 @ Schedule # es2 \<and> run_events (es1 @ [Schedule]) s = Some t \<and> current t = run_list s ! i)"
  using run_events_total [of s es] runs_within [of s es i "run_list s ! i"] assms by simp

definition demo_proc :: proc_struct where
  "demo_proc = \<lparr>p_state = PROC_RUNNABLE, p_pid = 0, p_runs = 0, p_kstack = 0, p_need_resched = False, p_parent = None, p_mm = None,
     p_context_ra = 0, p_context_sp = 0, p_tf_addr = 0, p_tf = empty_frame,
     p_cr3 = 0, p_flags = 0, p_name = [], p_exit_code = 0, p_wait_state = 0, p_cptr = None, p_yptr = None, p_optr = None,
     p_rq = True, p_time_slice = 5, p_fs_struct = None\<rparr>"

definition demo_sched :: sched where
  "demo_sched = \<lparr>procs = (\<lambda>p. if p < 3 then demo_proc else demo_proc\<lparr>p_state := PROC_SLEEPING, p_wait_state := WT_TIMER\<rparr>),
     current = 1, idleproc = 0, run_list = [2], proc_num = 1, max_time_slice = 20,
     timers = (\<lambda>t. \<lparr>expires = t, t_proc = 3\<rparr>), timer_list = [1, 4]\<rparr>"

lemma demo_sched_ok: "run_queue_ok demo_sched" "run_list demo_sched = [2]"
  by (auto simp: run_queue_ok_def demo_sched_def RR_inv_def demo_proc_def split: if_splits)

theorem round_robin_fair_witness:
  "\<exists>es1 es2 t. [Wakeup 3, Schedule, Schedule] = es1 @ Schedule # es2
     \<and> run_events (es1 @ [Schedule]) demo_sched = Some t \<and> current t = 2"
  using round_robin_fair [OF demo_sched_ok(1), of "[Wakeup 3, Schedule, Schedule]" 0]
  by (simp add: demo_sched_ok(2) demo_sched_def demo_proc_def)

text \<open>C20: Scheduling and waking up keep the run queue equal to the runnable processes that are neither running
  nor idle, and do not panic. A scheduling step runs the idle process exactly when no other process is
  runnable, and otherwise a runnable one; it changes no process state. A wake-up makes the process
  runnable and panics exactly for a zombie.\<close>

theorem schedule_and_wakeup:
  assumes "run_queue_ok s"
  shows "(\<exists>s'. schedule default_sched_class s = Some s' \<and> run_queue_ok s'
      \<and> (\<forall>q. p_state (procs s' q) = p_state (procs s q))
      \<and> (current s' = idleproc s \<longleftrightarrow> (\<forall>q. p_state (procs s q) = PROC_RUNNABLE \<longrightarrow> q = idleproc s))
      \<and> (current s' \<noteq> idleproc s \<longrightarrow> p_state (procs s (current s')) = PROC_RUNNABLE))
    \<and> (\<forall>p. if p_state (procs s p) = PROC_ZOMBIE then wakeup_proc default_sched_class p s = None
         else \<exists>s'. wakeup_proc default_sched_class p s = Some s' \<and> run_queue_ok s' \<and> current s' = current s
           \<and> (\<forall>q. p_state (procs s' q) = (if q = p then PROC_RUNNABLE else p_state (procs s q))))"
proof (intro conjI allI)
  show "\<exists>s'. schedule default_sched_class s = Some s' \<and> run_queue_ok s'
      \<and> (\<forall>q. p_state (procs s' q) = p_state (procs s q))
      \<and> (current s' = idleproc s \<longleftrightarrow> (\<forall>q. p_state (procs s q) = PROC_RUNNABLE \<longrightarrow> q = idleproc s))
      \<and> (current s' \<noteq> idleproc s \<longrightarrow> p_state (procs s (current s')) = PROC_RUNNABLE)"
    using rr.schedule_keeps [unfolded rr_sched_ok, OF assms] by blast
next
  fix p
  show "if p_state (procs s p) = PROC_ZOMBIE then wakeup_proc default_sched_class p s = None
    else \<exists>s'. wakeup_proc default_sched_class p s = Some s' \<and> run_queue_ok s' \<and> current s' = current s
       \<and> (\<forall>q. p_state (procs s' q) = (if q = p then PROC_RUNNABLE else p_state (procs s q)))"
  proof (cases "p_state (procs s p) = PROC_ZOMBIE")
    case True
    then show ?thesis by (simp add: wakeup_proc_def)
  next
    case False
    then show ?thesis using rr.wakeup_keeps [unfolded rr_sched_ok, OF assms, of p] by auto
  qed
qed

theorem schedule_and_wakeup_witness:
  "(\<exists>s'. schedule default_sched_class demo_sched = Some s' \<and> run_queue_ok s' \<and> current s' \<noteq> idleproc demo_sched)
   \<and> (\<exists>s'. wakeup_proc default_sched_class 3 demo_sched = Some s' \<and> run_queue_ok s' \<and> p_state (procs s' 3) = PROC_RUNNABLE)"
proof -
  have "p_state (procs demo_sched 2) = PROC_RUNNABLE" "(2 :: nat) \<noteq> idleproc demo_sched"
    "p_state (procs demo_sched 3) \<noteq> PROC_ZOMBIE" by (simp_all add: demo_sched_def demo_proc_def)
  then show ?thesis using schedule_and_wakeup [OF demo_sched_ok(1)] by metis
qed

text \<open>C19: The timer list, in which each timer stores the ticks after the one before it, acts as a list of
  timers with their absolute distances. Adding a timer inserts it behind those due no later, deleting one
  leaves the distances of all others, and a tick lowers every distance by one, removes the timers that
  reach zero and makes exactly their processes runnable, without a panic.\<close>

theorem timers_refine_alarms:
  assumes "run_queue_ok s" "timers_ok s"
    and "\<forall>t \<in> set (timer_list s). p_state (procs s (t_proc (timers s t))) \<noteq> PROC_ZOMBIE
      \<and> (p_wait_state (procs s (t_proc (timers s t))) \<noteq> 0
          \<longrightarrow> p_wait_state (procs s (t_proc (timers s t))) AND WT_INTERRUPTED \<noteq> 0)"
  shows "(\<forall>t. t \<notin> set (timer_list s) \<and> expires (timers s t) > 0 \<longrightarrow>
      (\<exists>s'. add_timer t s = Some s' \<and> timers_ok s'
         \<and> alarms s' = insert_alarm t (expires (timers s t)) (alarms s)))
    \<and> (\<forall>t. alarms (del_timer t s) = filter (\<lambda>a. fst a \<noteq> t) (alarms s))
    \<and> (\<exists>s'. run_timer_list default_sched_class s = Some s' \<and> run_queue_ok s' \<and> timers_ok s'
         \<and> alarms s' = map (map_prod id (\<lambda>d. d - 1)) (filter (\<lambda>a. 1 < snd a) (alarms s))
         \<and> (\<forall>q. p_state (procs s' q) =
              (if q \<in> (\<lambda>a. t_proc (timers s (fst a))) ` {a \<in> set (alarms s). snd a = 1}
               then PROC_RUNNABLE else p_state (procs s q))))"
proof (intro conjI allI impI)
  fix t
  assume "t \<notin> set (timer_list s) \<and> expires (timers s t) > 0"
  then show "\<exists>s'. add_timer t s = Some s' \<and> timers_ok s'
      \<and> alarms s' = insert_alarm t (expires (timers s t)) (alarms s)"
    using add_timer_alarms [OF assms(2), of t] by metis
next
  show "alarms (del_timer t s) = filter (\<lambda>a. fst a \<noteq> t) (alarms s)" for t
    using del_timer_alarms [of s t] assms(2) by (simp add: timers_ok_def)
next
  have "\<And>t. t \<in> set (timer_list s) \<Longrightarrow> rr.wakeable s (t_proc (timers s t))"
    using assms(3) by (simp add: rr.wakeable_def)
  then show "\<exists>s'. run_timer_list default_sched_class s = Some s' \<and> run_queue_ok s' \<and> timers_ok s'
         \<and> alarms s' = map (map_prod id (\<lambda>d. d - 1)) (filter (\<lambda>a. 1 < snd a) (alarms s))
         \<and> (\<forall>q. p_state (procs s' q) =
              (if q \<in> (\<lambda>a. t_proc (timers s (fst a))) ` {a \<in> set (alarms s). snd a = 1}
               then PROC_RUNNABLE else p_state (procs s q)))"
    using rr.run_timer_list_ticks [unfolded rr_sched_ok, OF assms(1,2)] by blast
qed

theorem timers_refine_alarms_witness:
  "(\<exists>s'. run_timer_list default_sched_class demo_sched = Some s' \<and> alarms s' = [(4, 4)] \<and> p_state (procs s' 3) = PROC_RUNNABLE)
   \<and> (\<exists>s'. add_timer 3 demo_sched = Some s' \<and> alarms s' = [(1, 1), (3, 3), (4, 5)])
   \<and> alarms (del_timer 1 demo_sched) = [(4, 5)]"
proof -
  have a: "alarms demo_sched = [(1, 1), (4, 5)]" by (simp add: alarms_def demo_sched_def)
  have t: "timer_list demo_sched = [1, 4]" "expires (timers demo_sched 3) = 3" "t_proc (timers demo_sched t) = 3" for t
    by (simp_all add: demo_sched_def)
  have ok: "timers_ok demo_sched" by (simp add: timers_ok_def a t)
  have "p_state (procs demo_sched 3) \<noteq> PROC_ZOMBIE" "p_wait_state (procs demo_sched 3) AND WT_INTERRUPTED \<noteq> 0"
    by (simp_all add: demo_sched_def demo_proc_def WT_TIMER_def WT_INTERRUPTED_def)
  then have "\<forall>t \<in> set (timer_list demo_sched). p_state (procs demo_sched (t_proc (timers demo_sched t))) \<noteq> PROC_ZOMBIE
      \<and> (p_wait_state (procs demo_sched (t_proc (timers demo_sched t))) \<noteq> 0
          \<longrightarrow> p_wait_state (procs demo_sched (t_proc (timers demo_sched t))) AND WT_INTERRUPTED \<noteq> 0)"
    by (simp add: t(1,3))
  note main = timers_refine_alarms [OF demo_sched_ok(1) ok this]
  have e: "3 \<in> (\<lambda>a. t_proc (timers demo_sched (fst a))) ` {a \<in> set (alarms demo_sched). snd a = 1}" by (auto simp: a t(3))
  obtain s' where s': "run_timer_list default_sched_class demo_sched = Some s'"
    "alarms s' = map (map_prod id (\<lambda>d. d - 1)) (filter (\<lambda>a. 1 < snd a) (alarms demo_sched))" "p_state (procs s' 3) = PROC_RUNNABLE"
    using main [THEN conjunct2, THEN conjunct2] e by (metis (no_types, lifting))
  obtain s'' where "add_timer 3 demo_sched = Some s''" "alarms s'' = insert_alarm 3 3 (alarms demo_sched)"
    using main [THEN conjunct1, rule_format, of 3] by (auto simp: t(1,2))
  moreover have "alarms (del_timer 1 demo_sched) = filter (\<lambda>a. fst a \<noteq> 1) (alarms demo_sched)"
    using main [THEN conjunct2, THEN conjunct1] by blast
  ultimately show ?thesis using s' by (simp add: a insert_alarm_def)
qed

end
