(* ===== verification/Sync.thy ===== *)
theory Sync
  imports Sched
begin

text \<open>
  Wait queues and semaphores: \<^verbatim>\<open>kern/sync/wait.c\<close>, \<^verbatim>\<open>kern/sync/wait.h\<close>, \<^verbatim>\<open>kern/sync/sem.c\<close>. The state extends the
  scheduler's by the wait nodes, the queue of each wait-queue address, and the value of each
  semaphore; the queue of a semaphore has the semaphore's address. A node is linked as long as its list
  entry is in some queue. Each operation runs with interrupts off and so is one step; the blocking
  operation \<^verbatim>\<open>__down\<close> is two, before and after its call of \<^verbatim>\<open>schedule\<close>, between which other processes run.

  The second half is a transition system in which any number of processes use one semaphore while the
  scheduler switches between them: its invariant shows that permits are neither lost nor created, that
  no assertion of the code fails, and that waiting processes are served in order.
\<close>

section \<open>Wait queues\<close>

record wait_t =
  w_proc :: nat
  w_flags :: u32
  w_queue :: nat
  w_linked :: bool

record sync = sched +
  waits :: "nat \<Rightarrow> wait_t"
  wait_q :: "nat \<Rightarrow> nat list"
  sem_value :: "nat \<Rightarrow> int"

definition upd_wait :: "nat \<Rightarrow> (wait_t \<Rightarrow> wait_t) \<Rightarrow> 'a sync_scheme \<Rightarrow> 'a sync_scheme" where
  "upd_wait w f s = s\<lparr>waits := (waits s)(w := f (waits s w))\<rparr>"

definition wait_init :: "nat \<Rightarrow> nat \<Rightarrow> 'a sync_scheme \<Rightarrow> 'a sync_scheme" where
  "wait_init w p = upd_wait w (\<lambda>x. x\<lparr>w_proc := p, w_flags := WT_INTERRUPTED, w_linked := False\<rparr>)"

definition wait_queue_init :: "nat \<Rightarrow> 'a sync_scheme \<Rightarrow> 'a sync_scheme" where
  "wait_queue_init q s = s\<lparr>wait_q := (wait_q s)(q := [])\<rparr>"

definition wait_queue_add :: "nat \<Rightarrow> nat \<Rightarrow> 'a sync_scheme \<Rightarrow> 'a sync_scheme option" where
  "wait_queue_add q w s = do {
     kassert (\<not> w_linked (waits s w));
     let s = upd_wait w (\<lambda>x. x\<lparr>w_queue := q, w_linked := True\<rparr>) s;
     Some (s\<lparr>wait_q := (wait_q s)(q := wait_q s q @ [w])\<rparr>)
   }"

definition wait_queue_del :: "nat \<Rightarrow> nat \<Rightarrow> 'a sync_scheme \<Rightarrow> 'a sync_scheme option" where
  "wait_queue_del q w s = do {
     kassert (w_linked (waits s w) \<and> w_queue (waits s w) = q);
     let s = upd_wait w (\<lambda>x. x\<lparr>w_linked := False\<rparr>) s;
     Some (s\<lparr>wait_q := (wait_q s)(q := remove1 w (wait_q s q))\<rparr>)
   }"

fun next_in :: "nat \<Rightarrow> nat list \<Rightarrow> nat option" where
  "next_in w (a # b # xs) = (if a = w then Some b else next_in w (b # xs))"
| "next_in w _ = None"

definition wait_queue_next :: "nat \<Rightarrow> nat \<Rightarrow> 'a sync_scheme \<Rightarrow> nat option option" where
  "wait_queue_next q w s = do {
     kassert (w_linked (waits s w) \<and> w_queue (waits s w) = q);
     Some (next_in w (wait_q s q))
   }"

definition wait_queue_prev :: "nat \<Rightarrow> nat \<Rightarrow> 'a sync_scheme \<Rightarrow> nat option option" where
  "wait_queue_prev q w s = do {
     kassert (w_linked (waits s w) \<and> w_queue (waits s w) = q);
     Some (next_in w (rev (wait_q s q)))
   }"

definition wait_queue_first :: "nat \<Rightarrow> 'a sync_scheme \<Rightarrow> nat option" where
  "wait_queue_first q s = (case wait_q s q of [] \<Rightarrow> None | w # _ \<Rightarrow> Some w)"

definition wait_queue_last :: "nat \<Rightarrow> 'a sync_scheme \<Rightarrow> nat option" where
  "wait_queue_last q s = (case rev (wait_q s q) of [] \<Rightarrow> None | w # _ \<Rightarrow> Some w)"

definition wait_queue_empty :: "nat \<Rightarrow> 'a sync_scheme \<Rightarrow> bool" where
  "wait_queue_empty q s \<longleftrightarrow> wait_q s q = []"

definition wait_in_queue :: "nat \<Rightarrow> 'a sync_scheme \<Rightarrow> bool" where
  "wait_in_queue w s \<longleftrightarrow> w_linked (waits s w)"

definition wakeup_wait :: "nat \<Rightarrow> nat \<Rightarrow> u32 \<Rightarrow> bool \<Rightarrow> 'a sync_scheme \<Rightarrow> 'a sync_scheme option" where
  "wakeup_wait q w flags del s = do {
     s \<leftarrow> (if del then wait_queue_del q w s else Some s);
     let s = upd_wait w (\<lambda>x. x\<lparr>w_flags := flags\<rparr>) s;
     wakeup_proc default_sched_class (w_proc (waits s w)) s
   }"

definition wakeup_first :: "nat \<Rightarrow> u32 \<Rightarrow> bool \<Rightarrow> 'a sync_scheme \<Rightarrow> 'a sync_scheme option" where
  "wakeup_first q flags del s =
     (case wait_queue_first q s of Some w \<Rightarrow> wakeup_wait q w flags del s | None \<Rightarrow> Some s)"

text \<open>The two loops of \<^verbatim>\<open>wakeup_queue\<close>.\<close>

partial_function (option) wakeup_loop_del :: "nat \<Rightarrow> u32 \<Rightarrow> nat \<Rightarrow> 'a sync_scheme \<Rightarrow> 'a sync_scheme option" where
  "wakeup_loop_del q flags w s = do {
     s \<leftarrow> wakeup_wait q w flags True s;
     (case wait_queue_first q s of Some w \<Rightarrow> wakeup_loop_del q flags w s | None \<Rightarrow> Some s)
   }"

partial_function (option) wakeup_loop :: "nat \<Rightarrow> u32 \<Rightarrow> nat \<Rightarrow> 'a sync_scheme \<Rightarrow> 'a sync_scheme option" where
  "wakeup_loop q flags w s = do {
     s \<leftarrow> wakeup_wait q w flags False s;
     n \<leftarrow> wait_queue_next q w s;
     (case n of Some w \<Rightarrow> wakeup_loop q flags w s | None \<Rightarrow> Some s)
   }"

definition wakeup_queue :: "nat \<Rightarrow> u32 \<Rightarrow> bool \<Rightarrow> 'a sync_scheme \<Rightarrow> 'a sync_scheme option" where
  "wakeup_queue q flags del s =
     (case wait_queue_first q s of
        Some w \<Rightarrow> if del then wakeup_loop_del q flags w s else wakeup_loop q flags w s
      | None \<Rightarrow> Some s)"

definition wait_current_set :: "nat \<Rightarrow> nat \<Rightarrow> u32 \<Rightarrow> 'a sync_scheme \<Rightarrow> 'a sync_scheme option" where
  "wait_current_set q w wait_state s = do {
     let s = wait_init w (current s) s;
     let s = upd_proc (current s) (\<lambda>p. p\<lparr>p_state := PROC_SLEEPING\<rparr>) s;
     let s = upd_proc (current s) (\<lambda>p. p\<lparr>p_wait_state := wait_state\<rparr>) s;
     wait_queue_add q w s
   }"

definition wait_current_del :: "nat \<Rightarrow> nat \<Rightarrow> 'a sync_scheme \<Rightarrow> 'a sync_scheme option" where
  "wait_current_del q w s = (if wait_in_queue w s then wait_queue_del q w s else Some s)"

section \<open>Semaphores\<close>

definition sem_init :: "nat \<Rightarrow> int \<Rightarrow> 'a sync_scheme \<Rightarrow> 'a sync_scheme" where
  "sem_init sem value s = wait_queue_init sem (s\<lparr>sem_value := (sem_value s)(sem := value)\<rparr>)"

definition sem_up :: "nat \<Rightarrow> u32 \<Rightarrow> 'a sync_scheme \<Rightarrow> 'a sync_scheme option" where
  "sem_up sem wait_state s =
     (case wait_queue_first sem s of
        None \<Rightarrow> Some (s\<lparr>sem_value := (sem_value s)(sem := sem_value s sem + 1)\<rparr>)
      | Some w \<Rightarrow> do {
          kassert (p_wait_state (procs s (w_proc (waits s w))) = wait_state);
          wakeup_wait sem w wait_state True s
        })"

text \<open>\<^verbatim>\<open>__down\<close> up to and including its call of \<^verbatim>\<open>schedule\<close>: it returns at once, or the process
  gives up the processor (\<open>None\<close>); and the rest of \<^verbatim>\<open>__down\<close>, when the process runs again.\<close>

definition sem_down :: "nat \<Rightarrow> nat \<Rightarrow> u32 \<Rightarrow> 'a sync_scheme \<Rightarrow> (u32 option \<times> 'a sync_scheme) option" where
  "sem_down sem w wait_state s =
     (if sem_value s sem > 0 then Some (Some 0, s\<lparr>sem_value := (sem_value s)(sem := sem_value s sem - 1)\<rparr>)
      else do {
        s \<leftarrow> wait_current_set sem w wait_state s;
        s \<leftarrow> schedule default_sched_class s;
        Some (None, s)
      })"

definition sem_down_resume :: "nat \<Rightarrow> nat \<Rightarrow> u32 \<Rightarrow> 'a sync_scheme \<Rightarrow> (u32 \<times> 'a sync_scheme) option" where
  "sem_down_resume sem w wait_state s = do {
     s \<leftarrow> wait_current_del sem w s;
     Some (if w_flags (waits s w) \<noteq> wait_state then w_flags (waits s w) else 0, s)
   }"

definition up :: "nat \<Rightarrow> 'a sync_scheme \<Rightarrow> 'a sync_scheme option" where "up sem = sem_up sem WT_KSEM"

definition down :: "nat \<Rightarrow> nat \<Rightarrow> 'a sync_scheme \<Rightarrow> (bool \<times> 'a sync_scheme) option" where
  "down sem w s = do {
     (flags, s) \<leftarrow> sem_down sem w WT_KSEM s;
     (case flags of Some flags \<Rightarrow> do { kassert (flags = 0); Some (True, s) } | None \<Rightarrow> Some (False, s))
   }"

definition down_resume :: "nat \<Rightarrow> nat \<Rightarrow> 'a sync_scheme \<Rightarrow> 'a sync_scheme option" where
  "down_resume sem w s = do {
     (flags, s) \<leftarrow> sem_down_resume sem w WT_KSEM s;
     kassert (flags = 0);
     Some s
   }"

definition try_down :: "nat \<Rightarrow> 'a sync_scheme \<Rightarrow> bool \<times> 'a sync_scheme" where
  "try_down sem s =
     (if sem_value s sem > 0 then (True, s\<lparr>sem_value := (sem_value s)(sem := sem_value s sem - 1)\<rparr>) else (False, s))"

section \<open>Processes sharing a semaphore\<close>

text \<open>A configuration: the state, the processes that hold a permit of the semaphore, and the processes
  that were handed one while waiting and have not run since, with their wait node.\<close>

type_synonym conf = "sync \<times> nat list \<times> (nat \<times> nat) list"

text \<open>The process that \<^verbatim>\<open>up\<close> would wake, with its node.\<close>

definition first_waiter :: "nat \<Rightarrow> 'a sync_scheme \<Rightarrow> (nat \<times> nat) list" where
  "first_waiter sem s = (case wait_q s sem of [] \<Rightarrow> [] | w # _ \<Rightarrow> [(w_proc (waits s w), w)])"

text \<open>The other events: scheduling, waits of other kinds, and wake-ups of processes that wait
  interruptibly or have just been created.\<close>

definition other_event :: "event \<Rightarrow> 'a sync_scheme \<Rightarrow> bool" where
  "other_event e s = (case e of
     Wakeup p \<Rightarrow> p_state (procs s p) \<noteq> PROC_ZOMBIE
       \<and> (p_state (procs s p) = PROC_UNINIT \<or> p_wait_state (procs s p) AND WT_INTERRUPTED \<noteq> 0)
   | _ \<Rightarrow> True)"

inductive sem_step :: "nat \<Rightarrow> conf \<Rightarrow> conf \<Rightarrow> bool" for sem where
  Acquire: "down sem w s = Some (True, s') \<Longrightarrow> sem_step sem (s, H, W) (s', current s # H, W)"
| Wait: "down sem w s = Some (False, s') \<Longrightarrow> current s \<noteq> idleproc s \<Longrightarrow> w \<notin> set (wait_q s sem) \<Longrightarrow> w \<notin> snd ` set W \<Longrightarrow>
    sem_step sem (s, H, W) (s', H, W)"
| Try: "try_down sem s = (b, s') \<Longrightarrow> sem_step sem (s, H, W) (s', (if b then [current s] else []) @ H, W)"
| Release: "up sem s = Some s' \<Longrightarrow> current s \<in> set H \<Longrightarrow>
    sem_step sem (s, H, W) (s', map fst (first_waiter sem s) @ remove1 (current s) H, first_waiter sem s @ W)"
| Resume: "(current s, w) \<in> set W \<Longrightarrow> down_resume sem w s = Some s' \<Longrightarrow>
    sem_step sem (s, H, W) (s', H, remove1 (current s, w) W)"
| Other: "other_event e s \<Longrightarrow> run_event e s = Some s' \<Longrightarrow> sem_step sem (s, H, W) (s', H, W)"

definition waiting :: "nat \<Rightarrow> 'a sync_scheme \<Rightarrow> nat \<Rightarrow> bool" where
  "waiting sem s w \<longleftrightarrow> w_linked (waits s w) \<and> w_queue (waits s w) = sem
     \<and> p_state (procs s (w_proc (waits s w))) = PROC_SLEEPING \<and> p_wait_state (procs s (w_proc (waits s w))) = WT_KSEM
     \<and> w_proc (waits s w) \<noteq> current s \<and> w_proc (waits s w) \<noteq> idleproc s"

definition granted :: "nat \<Rightarrow> 'a sync_scheme \<Rightarrow> nat \<Rightarrow> bool" where
  "granted sem s w \<longleftrightarrow> w \<notin> set (wait_q s sem) \<and> \<not> w_linked (waits s w) \<and> w_flags (waits s w) = WT_KSEM"

definition sem_inv :: "nat \<Rightarrow> int \<Rightarrow> conf \<Rightarrow> bool" where
  "sem_inv sem n c = (case c of (s, H, W) \<Rightarrow> run_queue_ok s
     \<and> sem_value s sem \<ge> 0 \<and> sem_value s sem + int (length H) = n
     \<and> (wait_q s sem \<noteq> [] \<longrightarrow> sem_value s sem = 0)
     \<and> distinct (map (\<lambda>w. w_proc (waits s w)) (wait_q s sem)) \<and> (\<forall>w \<in> set (wait_q s sem). waiting sem s w)
     \<and> distinct (map snd W) \<and> (\<forall>w \<in> snd ` set W. granted sem s w))"

section \<open>Lemmas\<close>

lemma sync_more:
  fixes s :: "'a sync_scheme"
  assumes "sched.more s' = sched.more s"
  shows "waits s' = waits s" "wait_q s' = wait_q s" "sem_value s' = sem_value s"
  using assms by (cases s; cases s'; simp)+

lemma upd_wait_simps [simp]:
  "waits (upd_wait w f s) = (waits s)(w := f (waits s w))" "wait_q (upd_wait w f s) = wait_q s"
  "sem_value (upd_wait w f s) = sem_value s" "procs (upd_wait w f s) = procs s" "current (upd_wait w f s) = current s"
  "idleproc (upd_wait w f s) = idleproc s" "run_list (upd_wait w f s) = run_list s" "proc_num (upd_wait w f s) = proc_num s"
  by (simp_all add: upd_wait_def)

lemma upd_proc_sync [simp]:
  fixes s :: "'a sync_scheme"
  shows "waits (upd_proc p f s) = waits s" "wait_q (upd_proc p f s) = wait_q s" "sem_value (upd_proc p f s) = sem_value s"
  by (rule sync_more, simp)+

lemma run_queue_ok_cong:
  assumes "run_queue_ok s" "procs s' = procs s" "run_list s' = run_list s" "proc_num s' = proc_num s"
    "current s' = current s" "idleproc s' = idleproc s"
  shows "run_queue_ok s'"
  using assms by (simp add: run_queue_ok_def RR_inv_def)

lemma schedule_sync:
  fixes s :: "'a sync_scheme"
  assumes "run_queue_ok s"
  obtains s' where "schedule default_sched_class s = Some s'" "run_queue_ok s'" "waits s' = waits s" "wait_q s' = wait_q s"
    "sem_value s' = sem_value s" "idleproc s' = idleproc s"
    "current s' = idleproc s \<or> p_state (procs s (current s')) = PROC_RUNNABLE"
    "\<And>q. p_state (procs s' q) = p_state (procs s q) \<and> p_wait_state (procs s' q) = p_wait_state (procs s q)"
  using rr.schedule_keeps [unfolded rr_sched_ok, OF assms] sync_more by metis

lemma wakeup_sync:
  fixes s :: "'a sync_scheme"
  assumes "run_queue_ok s" "p_state (procs s p) \<noteq> PROC_ZOMBIE"
  obtains s' where "wakeup_proc default_sched_class p s = Some s'" "run_queue_ok s'" "waits s' = waits s" "wait_q s' = wait_q s"
    "sem_value s' = sem_value s" "idleproc s' = idleproc s" "current s' = current s" "p_state (procs s' p) = PROC_RUNNABLE"
    "\<And>q. q \<noteq> p \<Longrightarrow> p_state (procs s' q) = p_state (procs s q) \<and> p_wait_state (procs s' q) = p_wait_state (procs s q)"
  using rr.wakeup_keeps [unfolded rr_sched_ok, OF assms] sync_more by metis

lemma int_length_remove1: "x \<in> set xs \<Longrightarrow> int (length xs) = int (length (remove1 x xs)) + 1"
  by (induction xs) auto

lemma sem_inv_up:
  assumes inv: "sem_inv sem n (s, H, W)" and cur: "current s \<in> set H"
  obtains s' where "up sem s = Some s'"
    "sem_inv sem n (s', map fst (first_waiter sem s) @ remove1 (current s) H, first_waiter sem s @ W)"
    "wait_q s' sem = tl (wait_q s sem)" "\<forall>x \<in> set (first_waiter sem s). p_state (procs s' (fst x)) = PROC_RUNNABLE"
proof (cases "wait_q s sem")
  case Nil
  let ?s = "s\<lparr>sem_value := (sem_value s)(sem := sem_value s sem + 1)\<rparr>"
  have "int (length H) = int (length (remove1 (current s) H)) + 1" by (rule int_length_remove1 [OF cur])
  then have "sem_inv sem n (?s, remove1 (current s) H, W)"
    using inv Nil run_queue_ok_cong [of s ?s] by (auto simp: sem_inv_def granted_def)
  then show ?thesis using that [of ?s] Nil by (simp add: up_def sem_up_def wait_queue_first_def first_waiter_def)
next
  case (Cons w ws)
  let ?p = "w_proc (waits s w)"
  define t where "t = upd_wait w (\<lambda>x. x\<lparr>w_flags := WT_KSEM\<rparr>)
    ((upd_wait w (\<lambda>x. x\<lparr>w_linked := False\<rparr>) s)\<lparr>wait_q := (wait_q s)(sem := ws)\<rparr>)"
  have w: "waiting sem s w" and d: "distinct (map (\<lambda>w. w_proc (waits s w)) (w # ws))"
    and rest: "\<And>v. v \<in> set ws \<Longrightarrow> waiting sem s v" using inv Cons by (auto simp: sem_inv_def)
  have wn: "w \<notin> set ws" using d by auto
  have tp: "procs t = procs s" "current t = current s" "idleproc t = idleproc s" "sem_value t = sem_value s"
    "wait_q t sem = ws" "waits t = (waits s)(w := (waits s w)\<lparr>w_linked := False, w_flags := WT_KSEM\<rparr>)"
    by (simp_all add: t_def)
  have "run_queue_ok t" using inv run_queue_ok_cong [of s t] by (simp add: sem_inv_def t_def)
  moreover have "p_state (procs t ?p) \<noteq> PROC_ZOMBIE" using w by (simp add: tp waiting_def)
  ultimately obtain s' where s': "wakeup_proc default_sched_class ?p t = Some s'" "run_queue_ok s'" "waits s' = waits t"
    "wait_q s' = wait_q t" "sem_value s' = sem_value t" "idleproc s' = idleproc t" "current s' = current t"
    "p_state (procs s' ?p) = PROC_RUNNABLE"
    "\<And>q. q \<noteq> ?p \<Longrightarrow> p_state (procs s' q) = p_state (procs t q) \<and> p_wait_state (procs s' q) = p_wait_state (procs t q)"
    using wakeup_sync [of t ?p] by metis
  have up: "up sem s = Some s'"
    using s'(1) w Cons by (simp add: up_def sem_up_def wait_queue_first_def wakeup_wait_def wait_queue_del_def waiting_def t_def Let_def)
  have "waiting sem s' v" if "v \<in> set ws" for v
  proof -
    have "w_proc (waits s v) \<noteq> ?p" using that d by (metis (no_types) distinct.simps(2) image_eqI list.simps(9) set_map)
    from s'(9) [OF this] show ?thesis using rest [OF that] that wn by (auto simp: waiting_def s'(3-7) tp)
  qed
  moreover have "granted sem s' v" if "v \<in> insert w (snd ` set W)" for v
    using that inv wn Cons by (auto simp: sem_inv_def granted_def s' tp)
  moreover have "w \<notin> snd ` set W" using inv Cons by (auto simp: sem_inv_def granted_def)
  moreover have "distinct (map (\<lambda>v. w_proc (waits s' v)) ws)"
  proof -
    have "map (\<lambda>v. w_proc (waits s' v)) ws = map (\<lambda>v. w_proc (waits s v)) ws" using wn by (auto simp: s'(3) tp(6))
    then show ?thesis using d by (simp only: list.simps(9) distinct.simps(2))
  qed
  moreover have "int (length H) = int (length (remove1 (current s) H)) + 1" by (rule int_length_remove1 [OF cur])
  ultimately have "sem_inv sem n (s', ?p # remove1 (current s) H, (?p, w) # W)"
    using inv Cons s'(2) by (auto simp: sem_inv_def s'(4-7) tp(1-5))
  then show ?thesis using that [OF up] Cons s'(4,8) tp(5) by (simp add: first_waiter_def)
qed

lemma sem_inv_wait:
  assumes inv: "sem_inv sem n (s, H, W)" and v: "\<not> sem_value s sem > 0" and cur: "current s \<noteq> idleproc s"
    and w: "w \<notin> set (wait_q s sem)" "w \<notin> snd ` set W"
  obtains s' where "down sem w s = Some (False, s')" "sem_inv sem n (s', H, W)" "wait_q s' sem = wait_q s sem @ [w]"
proof -
  define t where "t = (upd_wait w (\<lambda>x. x\<lparr>w_proc := current s, w_flags := WT_INTERRUPTED, w_queue := sem, w_linked := True\<rparr>)
     (upd_proc (current s) (\<lambda>p. p\<lparr>p_state := PROC_SLEEPING, p_wait_state := WT_KSEM\<rparr>) s))\<lparr>wait_q := (wait_q s)(sem := wait_q s sem @ [w])\<rparr>"
  have set: "wait_current_set sem w WT_KSEM s = Some t"
    by (simp add: wait_current_set_def wait_init_def wait_queue_add_def Let_def t_def upd_wait_def upd_proc_def)
  have tp: "procs t = (procs s)(current s := (procs s (current s))\<lparr>p_state := PROC_SLEEPING, p_wait_state := WT_KSEM\<rparr>)"
    "idleproc t = idleproc s" "sem_value t = sem_value s" "wait_q t sem = wait_q s sem @ [w]"
    "waits t = (waits s)(w := (waits s w)\<lparr>w_proc := current s, w_flags := WT_INTERRUPTED, w_queue := sem, w_linked := True\<rparr>)"
    by (simp_all add: t_def)
  have "run_queue_ok t" using inv by (auto simp: sem_inv_def run_queue_ok_def RR_inv_def t_def)
  then obtain s' where s': "schedule default_sched_class t = Some s'" "run_queue_ok s'" "waits s' = waits t" "wait_q s' = wait_q t"
    "sem_value s' = sem_value t" "idleproc s' = idleproc t"
    "current s' = idleproc t \<or> p_state (procs t (current s')) = PROC_RUNNABLE"
    "\<And>q. p_state (procs s' q) = p_state (procs t q) \<and> p_wait_state (procs s' q) = p_wait_state (procs t q)"
    using schedule_sync [of t] by metis
  have q: "waiting sem s' u" if "u \<in> set (wait_q s sem)" for u
    using that inv s'(7) w(1) by (auto simp: sem_inv_def waiting_def s' tp split: if_splits)
  moreover have "waiting sem s' w" using s'(7) cur by (auto simp: waiting_def s' tp)
  moreover have "granted sem s' u" if "u \<in> snd ` set W" for u
    using that inv w by (auto simp: sem_inv_def granted_def s' tp)
  moreover have "w_proc (waits s u) \<noteq> current s" if "u \<in> set (wait_q s sem)" for u
    using inv that by (simp add: sem_inv_def waiting_def)
  ultimately have "sem_inv sem n (s', H, W)"
    using inv v w s'(2) by (auto simp: sem_inv_def s' tp distinct_map inj_on_def) blast
  then show ?thesis using that [of s'] v set s'(1,4) tp(4) by (simp add: down_def sem_down_def)
qed

lemma sem_inv_take:
  assumes "sem_inv sem n (s, H, W)" "sem_value s sem > 0"
  shows "sem_inv sem n (s\<lparr>sem_value := (sem_value s)(sem := sem_value s sem - 1)\<rparr>, p # H, W)"
  using assms run_queue_ok_cong [of s "s\<lparr>sem_value := (sem_value s)(sem := sem_value s sem - 1)\<rparr>"]
  by (auto simp: sem_inv_def granted_def)

lemma sem_inv_resume:
  assumes inv: "sem_inv sem n (s, H, W)" and w: "(p, w) \<in> set W"
  shows "down_resume sem w s = Some s" "sem_inv sem n (s, H, remove1 (p, w) W)"
proof -
  have "granted sem s w" using inv w by (force simp: sem_inv_def)
  then show "down_resume sem w s = Some s"
    by (simp add: down_resume_def sem_down_resume_def wait_current_del_def wait_in_queue_def granted_def)
  have "distinct (map snd (remove1 (p, w) W))" "snd ` set (remove1 (p, w) W) \<subseteq> snd ` set W"
    using inv w by (auto simp: sem_inv_def distinct_map distinct_remove1 intro: inj_on_subset dest: notin_set_remove1)
  then show "sem_inv sem n (s, H, remove1 (p, w) W)" using inv by (auto simp: sem_inv_def)
qed

lemma sem_inv_other:
  assumes inv: "sem_inv sem n (s, H, W)" and e: "other_event e s"
  obtains s' where "run_event e s = Some s'" "sem_inv sem n (s', H, W)"
proof -
  have ok: "run_queue_ok s" using inv by (simp add: sem_inv_def)
  have "\<exists>s'. run_event e s = Some s' \<and> run_queue_ok s' \<and> waits s' = waits s \<and> wait_q s' = wait_q s
    \<and> sem_value s' = sem_value s \<and> (\<forall>w \<in> set (wait_q s sem). waiting sem s w \<longrightarrow> waiting sem s' w)"
  proof (cases e)
    case (Wakeup p)
    then have "p_state (procs s p) \<noteq> PROC_ZOMBIE" using e by (simp add: other_event_def)
    then obtain s' where s': "wakeup_proc default_sched_class p s = Some s'" "run_queue_ok s'" "waits s' = waits s" "wait_q s' = wait_q s"
      "sem_value s' = sem_value s" "idleproc s' = idleproc s" "current s' = current s"
      "\<And>q. q \<noteq> p \<Longrightarrow> p_state (procs s' q) = p_state (procs s q) \<and> p_wait_state (procs s' q) = p_wait_state (procs s q)"
      using wakeup_sync [OF ok] by metis
    have "waiting sem s' w" if "waiting sem s w" for w
    proof -
      have "w_proc (waits s w) \<noteq> p" using that e Wakeup
        by (auto simp: other_event_def waiting_def WT_KSEM_def WT_INTERRUPTED_def)
      from s'(8) [OF this] show ?thesis using that by (simp add: waiting_def s'(3-7))
    qed
    then show ?thesis using s' Wakeup by auto
  next
    case (Block x)
    let ?t = "upd_proc (current s) (\<lambda>q. q\<lparr>p_state := PROC_SLEEPING, p_wait_state := x\<rparr>) s"
    have "run_queue_ok ?t" using ok by (auto simp: run_queue_ok_def RR_inv_def)
    then show ?thesis using Block by (auto simp: waiting_def)
  next
    case Schedule
    obtain s' where s': "schedule default_sched_class s = Some s'" "run_queue_ok s'" "waits s' = waits s" "wait_q s' = wait_q s"
      "sem_value s' = sem_value s" "idleproc s' = idleproc s"
      "current s' = idleproc s \<or> p_state (procs s (current s')) = PROC_RUNNABLE"
      "\<And>q. p_state (procs s' q) = p_state (procs s q) \<and> p_wait_state (procs s' q) = p_wait_state (procs s q)"
      using schedule_sync [OF ok] by metis
    then have "waiting sem s' w" if "waiting sem s w" for w using that s'(7) by (auto simp: waiting_def)
    then show ?thesis using s' Schedule by auto
  qed
  then obtain s' where "run_event e s = Some s'" "run_queue_ok s'" "waits s' = waits s" "wait_q s' = wait_q s"
    "sem_value s' = sem_value s" "\<forall>w \<in> set (wait_q s sem). waiting sem s w \<longrightarrow> waiting sem s' w" by blast
  then show ?thesis using that [of s'] inv by (simp add: sem_inv_def granted_def)
qed

lemma sem_step_keeps:
  assumes "sem_step sem c c'" "sem_inv sem n c"
  shows "sem_inv sem n c'"
  using assms
proof (induction rule: sem_step.induct)
  case (Acquire w s s' H W)
  then have "sem_value s sem > 0" "s' = s\<lparr>sem_value := (sem_value s)(sem := sem_value s sem - 1)\<rparr>"
    by (auto simp: down_def sem_down_def split: if_splits option.splits bind_splits)
  then show ?case using sem_inv_take [OF Acquire.prems] by simp
next
  case (Wait w s s' W H)
  then have "\<not> sem_value s sem > 0" by (auto simp: down_def sem_down_def split: if_splits)
  then show ?case using sem_inv_wait [OF Wait.prems _ Wait.hyps(2-4)] Wait.hyps(1) by (metis Pair_inject option.inject)
next
  case (Try s b s' H W)
  then show ?case using sem_inv_take [OF Try.prems] by (auto simp: try_down_def split: if_splits)
next
  case (Release s s' H W)
  then show ?case using sem_inv_up [OF Release.prems Release.hyps(2)] by (metis option.inject)
next
  case (Resume s w W s' H)
  then show ?case using sem_inv_resume [OF Resume.prems Resume.hyps(1)] by simp
next
  case (Other e s s' H W)
  then show ?case using sem_inv_other [OF Other.prems Other.hyps(1)] by (metis option.inject)
qed

lemma sem_reachable_inv:
  assumes "(sem_step sem)\<^sup>*\<^sup>* c c'" "sem_inv sem n c"
  shows "sem_inv sem n c'"
  using assms by (induction rule: rtranclp_induct) (auto intro: sem_step_keeps)

lemma sem_init_inv:
  assumes "run_queue_ok s" "n \<ge> 0"
  shows "sem_inv sem n (sem_init sem n s, [], [])"
  using assms run_queue_ok_cong [of s "sem_init sem n s"] by (simp add: sem_inv_def sem_init_def wait_queue_init_def)

section \<open>Waking a whole queue\<close>

definition waiter :: "nat \<Rightarrow> 'a sync_scheme \<Rightarrow> nat \<Rightarrow> bool" where
  "waiter q s w \<longleftrightarrow> w_linked (waits s w) \<and> w_queue (waits s w) = q \<and> p_state (procs s (w_proc (waits s w))) \<noteq> PROC_ZOMBIE"

lemma wakeup_wait_spec:
  fixes s :: "'a sync_scheme"
  assumes ok: "run_queue_ok s" and w: "waiter q s w"
  obtains s' where "wakeup_wait q w flags del s = Some s'" "run_queue_ok s'"
    "wait_q s' = (if del then (wait_q s)(q := remove1 w (wait_q s q)) else wait_q s)"
    "waits s' = (waits s)(w := (waits s w)\<lparr>w_flags := flags, w_linked := \<not> del\<rparr>)"
    "p_state (procs s' (w_proc (waits s w))) = PROC_RUNNABLE"
    "\<And>p. p \<noteq> w_proc (waits s w) \<Longrightarrow> p_state (procs s' p) = p_state (procs s p)"
proof -
  define t where "t = (if del then (upd_wait w (\<lambda>x. x\<lparr>w_linked := False\<rparr>) s)\<lparr>wait_q := (wait_q s)(q := remove1 w (wait_q s q))\<rparr> else s)"
  define u where "u = upd_wait w (\<lambda>x. x\<lparr>w_flags := flags\<rparr>) t"
  have d: "wakeup_wait q w flags del s = wakeup_proc default_sched_class (w_proc (waits s w)) u"
    using w by (simp add: wakeup_wait_def wait_queue_del_def waiter_def t_def u_def Let_def)
  have u: "procs u = procs s" "wait_q u = (if del then (wait_q s)(q := remove1 w (wait_q s q)) else wait_q s)"
    "waits u = (waits s)(w := (waits s w)\<lparr>w_flags := flags, w_linked := \<not> del\<rparr>)"
    using w by (auto simp: u_def t_def waiter_def)
  have "run_queue_ok u" by (rule run_queue_ok_cong [OF ok]) (simp_all add: u_def t_def)
  moreover have "p_state (procs u (w_proc (waits s w))) \<noteq> PROC_ZOMBIE" using w u(1) by (simp add: waiter_def)
  ultimately obtain s' where s': "wakeup_proc default_sched_class (w_proc (waits s w)) u = Some s'" "run_queue_ok s'" "waits s' = waits u"
    "wait_q s' = wait_q u" "p_state (procs s' (w_proc (waits s w))) = PROC_RUNNABLE"
    "\<And>q. q \<noteq> w_proc (waits s w) \<Longrightarrow> p_state (procs s' q) = p_state (procs u q) \<and> p_wait_state (procs s' q) = p_wait_state (procs u q)"
    using wakeup_sync by metis
  show ?thesis by (rule that [of s']) (use d s' u in auto)
qed

text \<open>What waking the nodes \<open>ws\<close> of a queue achieves.\<close>

definition all_woken :: "u32 \<Rightarrow> bool \<Rightarrow> nat list \<Rightarrow> 'a sync_scheme \<Rightarrow> 'a sync_scheme \<Rightarrow> bool" where
  "all_woken flags del ws s s' \<longleftrightarrow> run_queue_ok s'
     \<and> (\<forall>w. waits s' w = (if w \<in> set ws then (waits s w)\<lparr>w_flags := flags, w_linked := \<not> del\<rparr> else waits s w))
     \<and> (\<forall>p. p_state (procs s' p) = (if p \<in> (\<lambda>w. w_proc (waits s w)) ` set ws then PROC_RUNNABLE else p_state (procs s p)))"

lemma all_woken_step:
  assumes "wakeup_wait q w flags del s = Some t" "waits t = (waits s)(w := (waits s w)\<lparr>w_flags := flags, w_linked := \<not> del\<rparr>)"
    "p_state (procs t (w_proc (waits s w))) = PROC_RUNNABLE"
    "\<And>p. p \<noteq> w_proc (waits s w) \<Longrightarrow> p_state (procs t p) = p_state (procs s p)" "w \<notin> set ws" "all_woken flags del ws t s'"
  shows "all_woken flags del (w # ws) s s'"
proof -
  have "w_proc (waits t v) = w_proc (waits s v)" for v by (simp add: assms(2))
  then have "p_state (procs s' p) = (if p \<in> (\<lambda>w. w_proc (waits s w)) ` set (w # ws) then PROC_RUNNABLE else p_state (procs s p))" for p
    using assms(3,4,6) by (cases "p = w_proc (waits s w)") (auto simp: all_woken_def)
  then show ?thesis using assms(2,5,6) by (auto simp: all_woken_def)
qed

lemma waiter_kept:
  assumes "waiter q s v" "waits t = (waits s)(w := (waits s w)\<lparr>w_flags := flags, w_linked := \<not> del\<rparr>)"
    "p_state (procs t (w_proc (waits s w))) = PROC_RUNNABLE" "v \<noteq> w"
    "\<And>p. p \<noteq> w_proc (waits s w) \<Longrightarrow> p_state (procs t p) = p_state (procs s p)"
  shows "waiter q t v"
  using assms by (cases "w_proc (waits s v) = w_proc (waits s w)") (auto simp: waiter_def)

lemma wakeup_loop_del_wakes:
  fixes s :: "'a sync_scheme"
  assumes "run_queue_ok s" "wait_q s q = w # ws" "distinct (w # ws)" "\<And>v. v \<in> set (w # ws) \<Longrightarrow> waiter q s v"
  shows "\<exists>s'. wakeup_loop_del q flags w s = Some s' \<and> wait_q s' = (wait_q s)(q := []) \<and> all_woken flags True (w # ws) s s'"
  using assms
proof (induction ws arbitrary: w s)
  case (Nil w s)
  obtain t where t: "wakeup_wait q w flags True s = Some t" "run_queue_ok t" "wait_q t = (wait_q s)(q := remove1 w (wait_q s q))"
    "waits t = (waits s)(w := (waits s w)\<lparr>w_flags := flags, w_linked := False\<rparr>)"
    "p_state (procs t (w_proc (waits s w))) = PROC_RUNNABLE"
    "\<And>p. p \<noteq> w_proc (waits s w) \<Longrightarrow> p_state (procs t p) = p_state (procs s p)"
    using wakeup_wait_spec [OF Nil.prems(1), of q w flags True] Nil.prems(4) by auto
  have "all_woken flags True [] t t" using t(2) by (simp add: all_woken_def)
  then have "all_woken flags True [w] s t" using all_woken_step [OF t(1) _ t(5,6)] t(4) by simp
  then show ?case using t Nil.prems(2) by (subst wakeup_loop_del.simps) (simp add: wait_queue_first_def)
next
  case (Cons v ws w s)
  obtain t where t: "wakeup_wait q w flags True s = Some t" "run_queue_ok t" "wait_q t = (wait_q s)(q := remove1 w (wait_q s q))"
    "waits t = (waits s)(w := (waits s w)\<lparr>w_flags := flags, w_linked := \<not> True\<rparr>)"
    "p_state (procs t (w_proc (waits s w))) = PROC_RUNNABLE"
    "\<And>p. p \<noteq> w_proc (waits s w) \<Longrightarrow> p_state (procs t p) = p_state (procs s p)"
    using wakeup_wait_spec [OF Cons.prems(1), of q w flags True] Cons.prems(4) by auto
  have q: "wait_q t q = v # ws" using t(3) Cons.prems(2) by simp
  have "\<exists>s'. wakeup_loop_del q flags v t = Some s' \<and> wait_q s' = (wait_q t)(q := []) \<and> all_woken flags True (v # ws) t s'"
    by (rule Cons.IH [OF t(2) q]) (use Cons.prems(3,4) in \<open>auto intro!: waiter_kept [OF _ t(4,5) _ t(6)]\<close>)
  then obtain s' where s': "wakeup_loop_del q flags v t = Some s'" "wait_q s' = (wait_q t)(q := [])" "all_woken flags True (v # ws) t s'"
    by blast
  have "all_woken flags True (w # v # ws) s s'"
    by (rule all_woken_step [OF t(1,4,5,6) _ s'(3)]) (use Cons.prems(3) in auto)
  then show ?case using s'(1,2) t(1,3) q by (subst wakeup_loop_del.simps) (simp add: wait_queue_first_def)
qed

lemma next_in_append:
  "w \<notin> set pre \<Longrightarrow> next_in w (pre @ w # post) = (case post of [] \<Rightarrow> None | n # _ \<Rightarrow> Some n)"
proof (induction pre)
  case (Cons a pre)
  then show ?case by (cases "pre @ w # post") (auto split: list.splits)
qed (cases post; simp)

lemma wakeup_loop_wakes:
  fixes s :: "'a sync_scheme"
  assumes "run_queue_ok s" "wait_q s q = pre @ w # ws" "distinct (pre @ w # ws)" "\<And>v. v \<in> set (w # ws) \<Longrightarrow> waiter q s v"
  shows "\<exists>s'. wakeup_loop q flags w s = Some s' \<and> wait_q s' = wait_q s \<and> all_woken flags False (w # ws) s s'"
  using assms
proof (induction ws arbitrary: pre w s)
  case (Nil pre w s)
  have w: "waiter q s w" using Nil.prems(4) by simp
  obtain t where t: "wakeup_wait q w flags False s = Some t" "run_queue_ok t" "wait_q t = wait_q s"
    "waits t = (waits s)(w := (waits s w)\<lparr>w_flags := flags, w_linked := \<not> False\<rparr>)"
    "p_state (procs t (w_proc (waits s w))) = PROC_RUNNABLE"
    "\<And>p. p \<noteq> w_proc (waits s w) \<Longrightarrow> p_state (procs t p) = p_state (procs s p)"
    using wakeup_wait_spec [OF Nil.prems(1) w, of flags False] by auto
  have "all_woken flags False [] t t" using t(2) by (simp add: all_woken_def)
  then have "all_woken flags False [w] s t" using all_woken_step [OF t(1,4,5,6)] by simp
  moreover have "wait_queue_next q w t = Some None"
    using w t(4) next_in_append [of w pre "[]"] Nil.prems(2,3) by (simp add: wait_queue_next_def waiter_def t(3))
  ultimately show ?case using t by (subst wakeup_loop.simps) simp
next
  case (Cons v ws pre w s)
  have w: "waiter q s w" using Cons.prems(4) by simp
  obtain t where t: "wakeup_wait q w flags False s = Some t" "run_queue_ok t" "wait_q t = wait_q s"
    "waits t = (waits s)(w := (waits s w)\<lparr>w_flags := flags, w_linked := \<not> False\<rparr>)"
    "p_state (procs t (w_proc (waits s w))) = PROC_RUNNABLE"
    "\<And>p. p \<noteq> w_proc (waits s w) \<Longrightarrow> p_state (procs t p) = p_state (procs s p)"
    using wakeup_wait_spec [OF Cons.prems(1) w, of flags False] by auto
  have "\<exists>s'. wakeup_loop q flags v t = Some s' \<and> wait_q s' = wait_q t \<and> all_woken flags False (v # ws) t s'"
    by (rule Cons.IH [OF t(2), of "pre @ [w]"])
      (use Cons.prems(2-4) t(3) in \<open>auto intro!: waiter_kept [OF _ t(4,5) _ t(6)]\<close>)
  then obtain s' where s': "wakeup_loop q flags v t = Some s'" "wait_q s' = wait_q t" "all_woken flags False (v # ws) t s'"
    by blast
  have "all_woken flags False (w # v # ws) s s'"
    by (rule all_woken_step [OF t(1,4,5,6) _ s'(3)]) (use Cons.prems(3) in auto)
  moreover have "wait_queue_next q w t = Some (Some v)"
    using w t(4) next_in_append [of w pre "v # ws"] Cons.prems(2,3) by (simp add: wait_queue_next_def waiter_def t(3))
  ultimately show ?case using s'(1,2) t(1,3) by (subst wakeup_loop.simps) simp
qed

section \<open>Properties\<close>

text \<open>C4: A semaphore with \<open>n\<close> permits used by any number of processes. In every reachable configuration the
  value and the number of holders add up to \<open>n\<close>, so at most \<open>n\<close> processes hold a permit; processes wait only
  while the value is zero; and no assertion of the code can fail: releasing succeeds and hands the
  permit to the process that waits longest, acquiring succeeds or queues the process last, and a woken
  process finds the wake-up reason it expects.\<close>

theorem semaphore_safe:
  assumes "run_queue_ok s" "n \<ge> 0" "(sem_step sem)\<^sup>*\<^sup>* (sem_init sem n s, [], []) (s', H, W)"
  shows "sem_value s' sem \<ge> 0 \<and> sem_value s' sem + int (length H) = n
    \<and> (wait_q s' sem \<noteq> [] \<longrightarrow> sem_value s' sem = 0)
    \<and> (current s' \<in> set H \<longrightarrow> (\<exists>t. up sem s' = Some t \<and> wait_q t sem = tl (wait_q s' sem)
         \<and> (\<forall>x \<in> set (first_waiter sem s'). p_state (procs t (fst x)) = PROC_RUNNABLE)))
    \<and> (\<forall>w. sem_value s' sem = 0 \<and> current s' \<noteq> idleproc s' \<and> w \<notin> set (wait_q s' sem) \<and> w \<notin> snd ` set W \<longrightarrow>
         (\<exists>t. down sem w s' = Some (False, t) \<and> wait_q t sem = wait_q s' sem @ [w]))
    \<and> (\<forall>(p, w) \<in> set W. down_resume sem w s' = Some s')"
proof -
  have inv: "sem_inv sem n (s', H, W)" by (rule sem_reachable_inv [OF assms(3) sem_init_inv [OF assms(1,2)]])
  have "\<exists>t. up sem s' = Some t \<and> wait_q t sem = tl (wait_q s' sem)
      \<and> (\<forall>x \<in> set (first_waiter sem s'). p_state (procs t (fst x)) = PROC_RUNNABLE)" if "current s' \<in> set H"
    using sem_inv_up [OF inv that] by metis
  moreover have "\<exists>t. down sem w s' = Some (False, t) \<and> wait_q t sem = wait_q s' sem @ [w]"
    if "sem_value s' sem = 0 \<and> current s' \<noteq> idleproc s' \<and> w \<notin> set (wait_q s' sem) \<and> w \<notin> snd ` set W" for w
    using sem_inv_wait [OF inv, of w] that by (metis less_irrefl)
  moreover have "\<forall>(p, w) \<in> set W. down_resume sem w s' = Some s'" using sem_inv_resume(1) [OF inv] by blast
  ultimately show ?thesis using inv by (simp add: sem_inv_def)
qed

definition demo_sync :: sync where
  "demo_sync = sched.extend demo_sched
     \<lparr>waits = (\<lambda>w. \<lparr>w_proc = w, w_flags = 0, w_queue = 7, w_linked = True\<rparr>), wait_q = (\<lambda>q. [3, 4]), sem_value = (\<lambda>q. 0)\<rparr>"

lemma demo_sync_ok: "run_queue_ok demo_sync"
  using demo_sched_ok(1) by (auto simp: demo_sync_def run_queue_ok_def RR_inv_def demo_sched_def sched.extend_def)

theorem semaphore_safe_witness:
  "\<exists>s'. down 7 1 (sem_init 7 1 demo_sync) = Some (True, s') \<and> sem_value s' 7 = 0 \<and> up 7 s' \<noteq> None"
proof -
  let ?i = "sem_init 7 1 demo_sync"
  define s' where "s' = ?i\<lparr>sem_value := (sem_value ?i)(7 := 0)\<rparr>"
  have d: "down 7 1 ?i = Some (True, s')" by (simp add: down_def sem_down_def sem_init_def wait_queue_init_def s'_def)
  have "(sem_step 7)\<^sup>*\<^sup>* (?i, [], []) (s', [current ?i], [])"
    using sem_step.Acquire [OF d, of "[]" "[]"] by simp
  from semaphore_safe [OF demo_sync_ok _ this]
  have "sem_value s' 7 = 0" "current s' \<in> {current ?i} \<longrightarrow> up 7 s' \<noteq> None" by auto
  moreover have "current s' = current ?i" by (simp add: s'_def)
  ultimately show ?thesis using d by blast
qed

text \<open>C33: Waking a whole queue terminates, in both of its forms. Every waiting node receives the wake-up flags
  and its process becomes runnable, no other process or node changes, and the queue ends empty when the
  nodes are to be removed and unchanged otherwise.\<close>

theorem wakeup_queue_terminates:
  assumes "run_queue_ok s" "distinct (wait_q s q)" "\<forall>w \<in> set (wait_q s q). waiter q s w"
  shows "\<exists>s'. wakeup_queue q flags del s = Some s' \<and> wait_q s' = (if del then (wait_q s)(q := []) else wait_q s)
    \<and> all_woken flags del (wait_q s q) s s'"
proof (cases "wait_q s q")
  case Nil
  then have "wakeup_queue q flags del s = Some s" "(wait_q s)(q := []) = wait_q s"
    by (auto simp: wakeup_queue_def wait_queue_first_def)
  then show ?thesis using assms(1) Nil by (simp add: all_woken_def)
next
  case (Cons w ws)
  show ?thesis
  proof (cases del)
    case True
    then show ?thesis using wakeup_loop_del_wakes [OF assms(1) Cons] assms(2,3) Cons
      by (simp add: wakeup_queue_def wait_queue_first_def)
  next
    case False
    then show ?thesis using wakeup_loop_wakes [OF assms(1), of q "[]" w ws] assms(2,3) Cons
      by (simp add: wakeup_queue_def wait_queue_first_def)
  qed
qed

theorem wakeup_queue_terminates_witness:
  "\<exists>s'. wakeup_queue 7 5 True demo_sync = Some s' \<and> wait_q s' 7 = [] \<and> p_state (procs s' 3) = PROC_RUNNABLE
     \<and> w_flags (waits s' 4) = 5"
proof -
  have d: "wait_q demo_sync 7 = [3, 4]" "waits demo_sync w = \<lparr>w_proc = w, w_flags = 0, w_queue = 7, w_linked = True\<rparr>" for w
    by (simp_all add: demo_sync_def sched.extend_def)
  have "\<forall>w \<in> set (wait_q demo_sync 7). waiter 7 demo_sync w"
    by (auto simp: waiter_def demo_sync_def sched.extend_def demo_sched_def demo_proc_def)
  from wakeup_queue_terminates [OF demo_sync_ok _ this, of 5 True] show ?thesis
    by (auto simp: d all_woken_def)
qed

end
