(* ===== verification/Pid.thy ===== *)
theory Pid
  imports Prelude
begin

text \<open>
  Allocation of process numbers: \<^verbatim>\<open>get_pid\<close> of \<^verbatim>\<open>kern/process/proc.c\<close>. The process list is represented by
  the numbers of its processes in list order; \<^verbatim>\<open>last_pid\<close> and \<^verbatim>\<open>next_safe\<close> are the static variables of the
  function. The scan of the list starts again (\<^verbatim>\<open>goto repeat\<close>) when it runs into the bound up to which
  numbers are known to be free, so the loop is a partial function, and that it ends is a theorem.
\<close>

section \<open>The code\<close>

definition MAX_PROCESS :: int where "MAX_PROCESS = 4096"
definition MAX_PID :: int where "MAX_PID = MAX_PROCESS * 2"

text \<open>One pass over the list: whether to repeat, and the two variables.\<close>

fun pid_scan :: "int list \<Rightarrow> int \<Rightarrow> int \<Rightarrow> bool \<times> int \<times> int" where
  "pid_scan [] last_pid next_safe = (False, last_pid, next_safe)"
| "pid_scan (pid # ps) last_pid next_safe =
     (if pid = last_pid
      then let last_pid = last_pid + 1
           in if last_pid \<ge> next_safe then (True, if last_pid \<ge> MAX_PID then 1 else last_pid, MAX_PID)
              else pid_scan ps last_pid next_safe
      else if pid > last_pid \<and> next_safe > pid then pid_scan ps last_pid pid
      else pid_scan ps last_pid next_safe)"

partial_function (option) pid_repeat :: "int list \<Rightarrow> int \<Rightarrow> int \<Rightarrow> (int \<times> int) option" where
  "pid_repeat ps last_pid next_safe =
     (case pid_scan ps last_pid next_safe of (again, last_pid, next_safe) \<Rightarrow>
        if again then pid_repeat ps last_pid next_safe else Some (last_pid, next_safe))"

definition get_pid :: "int list \<Rightarrow> int \<times> int \<Rightarrow> (int \<times> int) option" where
  "get_pid ps v = (case v of (last_pid, next_safe) \<Rightarrow>
     let last_pid = last_pid + 1
     in if last_pid \<ge> MAX_PID then pid_repeat ps 1 MAX_PID
        else if last_pid \<ge> next_safe then pid_repeat ps last_pid MAX_PID
        else Some (last_pid, next_safe))"

text \<open>What holds between calls: no process has a number strictly between the two variables.\<close>

definition pid_inv :: "int list \<Rightarrow> int \<times> int \<Rightarrow> bool" where
  "pid_inv ps v = (case v of (last_pid, next_safe) \<Rightarrow>
     1 \<le> last_pid \<and> last_pid \<le> MAX_PID \<and> next_safe \<le> MAX_PID \<and> (\<forall>p \<in> set ps. p \<le> last_pid \<or> next_safe \<le> p))"

section \<open>Lemmas\<close>

lemma pid_scan_stop:
  assumes "pid_scan ps l n = (False, l', n')" "l < n" "\<forall>p \<in> set qs. p < l \<or> n \<le> p"
  shows "l \<le> l' \<and> l' < n' \<and> n' \<le> n \<and> (\<forall>p \<in> set (qs @ ps). p < l' \<or> n' \<le> p)"
  using assms
proof (induction ps arbitrary: l n qs)
  case (Cons p ps)
  show ?case
  proof (cases "p = l")
    case True
    then have "l + 1 < n" "pid_scan ps (l + 1) n = (False, l', n')" using Cons.prems(1) by (auto simp: Let_def split: if_splits)
    then show ?thesis using Cons.IH [of "l + 1" n "p # qs"] Cons.prems(3) True by fastforce
  next
    case False
    show ?thesis
    proof (cases "p > l \<and> n > p")
      case True
      then show ?thesis using Cons.IH [of l p "p # qs"] Cons.prems False by fastforce
    next
      case no: False
      then show ?thesis using Cons.IH [of l n "p # qs"] Cons.prems False by fastforce
    qed
  qed
qed auto

text \<open>A repetition happens only past numbers that are in use.\<close>

lemma pid_scan_again:
  assumes "pid_scan ps l n = (True, l', n')" "l < n" "n \<le> MAX_PID"
  shows "n' = MAX_PID \<and> (\<exists>m. l < m \<and> m \<le> MAX_PID \<and> (\<forall>x. l \<le> x \<and> x < m \<longrightarrow> x \<in> set ps) \<and> l' = (if m = MAX_PID then 1 else m))"
  using assms
proof (induction ps arbitrary: l n)
  case (Cons p ps)
  show ?case
  proof (cases "p = l")
    case True
    show ?thesis
    proof (cases "l + 1 \<ge> n")
      case t: True
      then show ?thesis using Cons.prems True by (intro conjI exI [of _ "l + 1"]) (auto simp: Let_def split: if_splits)
    next
      case False
      then have "n' = MAX_PID \<and> (\<exists>m. l + 1 < m \<and> m \<le> MAX_PID \<and> (\<forall>x. l + 1 \<le> x \<and> x < m \<longrightarrow> x \<in> set ps) \<and> l' = (if m = MAX_PID then 1 else m))"
        using Cons.IH [of "l + 1" n] Cons.prems True by (simp add: Let_def)
      then obtain m where "n' = MAX_PID" "l + 1 < m" "m \<le> MAX_PID" "\<forall>x. l + 1 \<le> x \<and> x < m \<longrightarrow> x \<in> set ps" "l' = (if m = MAX_PID then 1 else m)"
        by blast
      moreover have "x = l \<or> l + 1 \<le> x" if "l \<le> x" for x using that by linarith
      ultimately show ?thesis using True by (intro conjI exI [of _ m]) auto
    qed
  next
    case False
    then show ?thesis using Cons.IH [of l n] Cons.IH [of l p] Cons.prems by (auto split: if_splits)
  qed
qed simp

lemma pid_repeat_returns:
  assumes "1 \<le> l" "l < MAX_PID" "1 \<le> f" "f < MAX_PID" "f \<notin> set ps"
  shows "\<exists>l' n'. pid_repeat ps l MAX_PID = Some (l', n') \<and> 1 \<le> l' \<and> l' < n' \<and> n' \<le> MAX_PID \<and> (\<forall>p \<in> set ps. p < l' \<or> n' \<le> p)"
  using assms(1,2)
proof (induction "nat (if l \<le> f then MAX_PID - l else 2 * MAX_PID - l)" arbitrary: l rule: less_induct)
  case less
  obtain again l' n' where s: "pid_scan ps l MAX_PID = (again, l', n')" by (metis prod_cases3)
  show ?case
  proof (cases again)
    case False
    then show ?thesis using pid_scan_stop [of ps l MAX_PID l' n' "[]"] s less.prems by (subst pid_repeat.simps) auto
  next
    case True
    then obtain m where m: "n' = MAX_PID" "l < m" "m \<le> MAX_PID" "\<forall>x. l \<le> x \<and> x < m \<longrightarrow> x \<in> set ps" "l' = (if m = MAX_PID then 1 else m)"
      using pid_scan_again [of ps l MAX_PID l' n'] s less.prems by auto
    have f: "f < l \<or> m \<le> f" using m(4) assms(5) not_le by blast
    have "nat (if l' \<le> f then MAX_PID - l' else 2 * MAX_PID - l') < nat (if l \<le> f then MAX_PID - l else 2 * MAX_PID - l)"
      using f m(2,3,5) less.prems assms(3,4) by (auto split: if_splits)
    moreover have "1 \<le> l'" "l' < MAX_PID" using m less.prems by (auto simp: MAX_PID_def MAX_PROCESS_def)
    ultimately have "\<exists>u v. pid_repeat ps l' MAX_PID = Some (u, v) \<and> 1 \<le> u \<and> u < v \<and> v \<le> MAX_PID \<and> (\<forall>p \<in> set ps. p < u \<or> v \<le> p)"
      by (rule less.hyps)
    then show ?thesis using True s m(1) by (subst pid_repeat.simps) simp
  qed
qed

lemma free_pid:
  assumes "int (length ps) < MAX_PID - 1"
  obtains f where "1 \<le> f" "f < MAX_PID" "f \<notin> set ps"
proof -
  have "card (set ps) < card {1 ..< MAX_PID}" using assms card_length [of ps] by (simp add: MAX_PID_def MAX_PROCESS_def)
  then have "\<not> {1 ..< MAX_PID} \<subseteq> set ps" using card_mono [of "set ps" "{1 ..< MAX_PID}"] by auto
  then obtain x where "1 \<le> x" "x < MAX_PID" "x \<notin> set ps" by (auto simp: subset_eq)
  then show ?thesis by (rule that)
qed

lemma get_pid_spec:
  assumes "pid_inv ps (l, n)" "int (length ps) \<le> MAX_PROCESS"
  shows "\<exists>l' n'. get_pid ps (l, n) = Some (l', n') \<and> 1 \<le> l' \<and> l' < MAX_PID \<and> l' \<notin> set ps
    \<and> (\<forall>qs. set qs \<subseteq> insert l' (set ps) \<longrightarrow> pid_inv qs (l', n'))"
proof -
  obtain f where f: "1 \<le> f" "f < MAX_PID" "f \<notin> set ps"
    using free_pid [of ps] assms(2) by (auto simp: MAX_PID_def MAX_PROCESS_def)
  have inv: "pid_inv qs (l', n')" if "1 \<le> l'" "l' < n'" "n' \<le> MAX_PID" "\<forall>p \<in> set ps. p < l' \<or> n' \<le> p" "set qs \<subseteq> insert l' (set ps)"
    for l' n' qs using that by (force simp: pid_inv_def)
  have r: ?thesis if "get_pid ps (l, n) = pid_repeat ps k MAX_PID" "1 \<le> k" "k < MAX_PID" for k
    using pid_repeat_returns [OF that(2,3) f] that(1) inv by force
  show ?thesis
  proof (cases "l + 1 \<ge> MAX_PID")
    case True
    then show ?thesis by (intro r [of 1]) (simp_all add: get_pid_def MAX_PID_def MAX_PROCESS_def)
  next
    case no: False
    show ?thesis
    proof (cases "l + 1 \<ge> n")
      case True
      then show ?thesis using no assms(1) by (intro r [of "l + 1"]) (simp_all add: get_pid_def pid_inv_def)
    next
      case False
      then have "\<forall>p \<in> set ps. p < l + 1 \<or> n \<le> p" using assms(1) by (auto simp: pid_inv_def)
      then show ?thesis using False no assms(1) inv [of "l + 1" n] by (force simp: get_pid_def pid_inv_def)
    qed
  qed
qed

text \<open>C26: With at most the allowed number of processes, choosing a process number terminates. The number is
  between 1 and the maximum and no process has it; with the process added, no number strictly between the two
  variables is in use, which stays so when processes leave, so that the next call may skip the scan.\<close>

theorem get_pid_fresh:
  assumes "pid_inv ps (l, n)" "int (length ps) \<le> MAX_PROCESS"
  shows "\<exists>l' n'. get_pid ps (l, n) = Some (l', n') \<and> 1 \<le> l' \<and> l' < MAX_PID \<and> l' \<notin> set ps
    \<and> (\<forall>qs. set qs \<subseteq> insert l' (set ps) \<longrightarrow> pid_inv qs (l', n'))"
  using assms by (rule get_pid_spec)

theorem get_pid_fresh_witness:
  "\<exists>l' n'. get_pid [1, 2, 4] (MAX_PID, MAX_PID) = Some (l', n') \<and> 1 \<le> l' \<and> l' < MAX_PID \<and> l' \<notin> {1, 2, 4}"
  using get_pid_fresh [of "[1, 2, 4]" MAX_PID MAX_PID] by (force simp: pid_inv_def MAX_PID_def MAX_PROCESS_def)

end
