(* ===== verification/Proc.thy ===== *)
theory Proc
  imports Sync Pid
begin

text \<open>
  Processes: \<^verbatim>\<open>kern/process/proc.c\<close>. The state extends the scheduler's and the wait queues' by the process list,
  the hash lists, the process counter, the variables of \<^verbatim>\<open>get_pid\<close>, and the objects that processes own:
  process descriptors, kernel stacks, page directories, memory descriptors and file-system descriptors with
  their reference counts. Which objects are allocated is part of the state; whether an allocation succeeds,
  and what duplicating an address space or a file table answers, comes from the components that do it and is
  an argument (\<open>fork_env\<close>). A blocking operation is split at its call of \<^verbatim>\<open>schedule\<close>. The lock that
  \<^verbatim>\<open>copy_mm\<close> takes and gives back around the duplication is left to the semaphore component.

  The family links (\<^verbatim>\<open>parent\<close>, \<^verbatim>\<open>cptr\<close>, \<^verbatim>\<open>optr\<close>, \<^verbatim>\<open>yptr\<close>) are the pointers of the code. \<open>family\<close> relates
  them to a function from each process to the list of its children, youngest first, and the operations on
  the links are shown to be list operations on it.
\<close>

section \<open>State\<close>

definition PF_EXITING :: u32 where "PF_EXITING = 1"
definition CLONE_VM :: u32 where "CLONE_VM = 0x100"
definition CLONE_FS :: u32 where "CLONE_FS = 0x800"
definition HASH_SHIFT :: nat where "HASH_SHIFT = 10"

record proc_sys = sync +
  initproc :: nat
  proc_list :: "nat list"
  hash_list :: "nat \<Rightarrow> nat list"
  nr_process :: int
  pid_vars :: "int \<times> int"
  boot_cr3 :: u32
  forkret_entry :: u32
  kernel_entry :: u32
  live_procs :: "nat list"
  live_kstacks :: "nat list"
  live_mms :: "nat list"
  live_pgdirs :: "nat list"
  live_fss :: "nat list"
  mm_pgdir :: "nat \<Rightarrow> nat"
  mm_count :: "nat \<Rightarrow> u32"
  fs_count :: "nat \<Rightarrow> u32"

type_synonym 'a sys = "'a proc_sys_scheme"

section \<open>Process descriptors\<close>

definition new_proc :: "u32 \<Rightarrow> proc_struct \<Rightarrow> proc_struct" where
  "new_proc cr3 p = p\<lparr>p_context_ra := 0, p_context_sp := 0, p_tf_addr := 0, p_state := PROC_UNINIT, p_pid := -1, p_runs := 0, p_kstack := 0, p_need_resched := False,
     p_parent := None, p_mm := None, p_flags := 0, p_cr3 := cr3, p_name := [], p_exit_code := 0, p_wait_state := 0,
     p_time_slice := 0, p_cptr := None, p_yptr := None, p_optr := None, p_fs_struct := None\<rparr>"

definition alloc_proc :: "nat option \<Rightarrow> 'a sys \<Rightarrow> nat option \<times> 'a sys" where
  "alloc_proc mem s = (case mem of
     None \<Rightarrow> (None, s)
   | Some p \<Rightarrow> (Some p, upd_proc p (new_proc (boot_cr3 s)) (s\<lparr>live_procs := p # live_procs s\<rparr>)))"

definition kfree_proc :: "nat \<Rightarrow> 'a sys \<Rightarrow> 'a sys" where
  "kfree_proc p s = s\<lparr>live_procs := remove1 p (live_procs s)\<rparr>"

text \<open>The number of characters a process name keeps.\<close>

definition PROC_NAME_LEN :: nat where "PROC_NAME_LEN = 30"

definition set_proc_name :: "nat \<Rightarrow> string \<Rightarrow> 'a sys \<Rightarrow> 'a sys" where
  "set_proc_name p name = upd_proc p (\<lambda>x. x\<lparr>p_name := take PROC_NAME_LEN name\<rparr>)"

definition get_proc_name :: "nat \<Rightarrow> 'a sys \<Rightarrow> string" where
  "get_proc_name p s = take PROC_NAME_LEN (p_name (procs s p))"

section \<open>Family links\<close>

definition set_links :: "nat \<Rightarrow> 'a sys \<Rightarrow> 'a sys option" where
  "set_links p s = do {
     let s = s\<lparr>proc_list := p # proc_list s\<rparr>;
     let s = upd_proc p (\<lambda>x. x\<lparr>p_yptr := None\<rparr>) s;
     q \<leftarrow> p_parent (procs s p);
     let s = upd_proc p (\<lambda>x. x\<lparr>p_optr := p_cptr (procs s q)\<rparr>) s;
     let s = (case p_optr (procs s p) of Some o' \<Rightarrow> upd_proc o' (\<lambda>x. x\<lparr>p_yptr := Some p\<rparr>) s | None \<Rightarrow> s);
     let s = upd_proc q (\<lambda>x. x\<lparr>p_cptr := Some p\<rparr>) s;
     Some (s\<lparr>nr_process := nr_process s + 1\<rparr>)
   }"

definition remove_links :: "nat \<Rightarrow> 'a sys \<Rightarrow> 'a sys option" where
  "remove_links p s = do {
     let s = s\<lparr>proc_list := remove1 p (proc_list s)\<rparr>;
     let s = (case p_optr (procs s p) of Some o' \<Rightarrow> upd_proc o' (\<lambda>x. x\<lparr>p_yptr := p_yptr (procs s p)\<rparr>) s | None \<Rightarrow> s);
     s \<leftarrow> (case p_yptr (procs s p) of
            Some y \<Rightarrow> Some (upd_proc y (\<lambda>x. x\<lparr>p_optr := p_optr (procs s p)\<rparr>) s)
          | None \<Rightarrow> do { q \<leftarrow> p_parent (procs s p); Some (upd_proc q (\<lambda>x. x\<lparr>p_cptr := p_optr (procs s p)\<rparr>) s) });
     Some (s\<lparr>nr_process := nr_process s - 1\<rparr>)
   }"

section \<open>Process numbers\<close>

definition pid_hashfn :: "int \<Rightarrow> nat" where "pid_hashfn pid = unat (hash32 (word_of_int pid) HASH_SHIFT)"

definition hash_proc :: "nat \<Rightarrow> 'a sys \<Rightarrow> 'a sys" where
  "hash_proc p s = (let b = pid_hashfn (p_pid (procs s p)) in s\<lparr>hash_list := (hash_list s)(b := p # hash_list s b)\<rparr>)"

definition unhash_proc :: "nat \<Rightarrow> 'a sys \<Rightarrow> 'a sys" where
  "unhash_proc p s = s\<lparr>hash_list := (\<lambda>b. remove1 p (hash_list s b))\<rparr>"

definition find_proc :: "int \<Rightarrow> 'a sys \<Rightarrow> nat option" where
  "find_proc pid s =
     (if 0 < pid \<and> pid < MAX_PID then List.find (\<lambda>p. p_pid (procs s p) = pid) (hash_list s (pid_hashfn pid)) else None)"

section \<open>Creating a process\<close>

text \<open>What the calls into the other components answer: the blocks handed out by \<^verbatim>\<open>kmalloc\<close> and \<^verbatim>\<open>alloc_pages\<close>,
  and the results of \<^verbatim>\<open>dup_mmap\<close> and \<^verbatim>\<open>dup_fs\<close>.\<close>

record fork_env =
  e_proc :: "nat option"
  e_kstack :: "nat option"
  e_fs :: "nat option"
  e_dup_fs :: int
  e_mm :: "nat option"
  e_pgdir :: "nat option"
  e_dup_mmap :: int

definition setup_kstack :: "nat option \<Rightarrow> nat \<Rightarrow> 'a sys \<Rightarrow> int \<times> 'a sys" where
  "setup_kstack mem p s = (case mem of
     Some k \<Rightarrow> (0, upd_proc p (\<lambda>x. x\<lparr>p_kstack := k\<rparr>) (s\<lparr>live_kstacks := k # live_kstacks s\<rparr>))
   | None \<Rightarrow> (- E_NO_MEM, s))"

definition put_kstack :: "nat \<Rightarrow> 'a sys \<Rightarrow> 'a sys" where
  "put_kstack p s = s\<lparr>live_kstacks := remove1 (p_kstack (procs s p)) (live_kstacks s)\<rparr>"

definition PADDR :: "nat \<Rightarrow> nat option" where
  "PADDR kva = (if kva < 0x80000000 then None else Some kva)"

definition setup_pgdir :: "nat option \<Rightarrow> nat \<Rightarrow> 'a sys \<Rightarrow> int \<times> 'a sys" where
  "setup_pgdir mem m s = (case mem of
     None \<Rightarrow> (- E_NO_MEM, s)
   | Some d \<Rightarrow> (0, s\<lparr>live_pgdirs := d # live_pgdirs s, mm_pgdir := (mm_pgdir s)(m := d)\<rparr>))"

definition put_pgdir :: "nat \<Rightarrow> 'a sys \<Rightarrow> 'a sys" where
  "put_pgdir m s = s\<lparr>live_pgdirs := remove1 (mm_pgdir s m) (live_pgdirs s)\<rparr>"

text \<open>The memory descriptor is allocated with count zero by \<^verbatim>\<open>mm_create\<close> and freed by \<^verbatim>\<open>mm_destroy\<close>.\<close>

definition mm_alloc :: "nat \<Rightarrow> 'a sys \<Rightarrow> 'a sys" where
  "mm_alloc m s = s\<lparr>live_mms := m # live_mms s, mm_count := (mm_count s)(m := 0)\<rparr>"

definition mm_free :: "nat \<Rightarrow> 'a sys \<Rightarrow> 'a sys" where
  "mm_free m s = s\<lparr>live_mms := remove1 m (live_mms s)\<rparr>"

definition use_mm :: "nat \<Rightarrow> nat \<Rightarrow> 'a sys \<Rightarrow> (int \<times> 'a sys) option" where
  "use_mm m p s = do {
     let s = s\<lparr>mm_count := (mm_count s)(m := mm_count s m + 1)\<rparr>;
     let s = upd_proc p (\<lambda>x. x\<lparr>p_mm := Some m\<rparr>) s;
     d \<leftarrow> PADDR (mm_pgdir s m);
     Some (0, upd_proc p (\<lambda>x. x\<lparr>p_cr3 := of_nat d\<rparr>) s)
   }"

text \<open>\<^verbatim>\<open>copy_mm\<close>: share the address space, or build one and undo what was built when a step fails.\<close>

definition copy_mm :: "fork_env \<Rightarrow> u32 \<Rightarrow> nat \<Rightarrow> 'a sys \<Rightarrow> (int \<times> 'a sys) option" where
  "copy_mm e clone_flags p s =
     (case p_mm (procs s (current s)) of
        None \<Rightarrow> Some (0, s)
      | Some oldmm \<Rightarrow>
          if clone_flags AND CLONE_VM \<noteq> 0 then use_mm oldmm p s
          else case e_mm e of
                 None \<Rightarrow> Some (- E_NO_MEM, s)
               | Some m \<Rightarrow>
                   (case setup_pgdir (e_pgdir e) m (mm_alloc m s) of (r, s) \<Rightarrow>
                      if r \<noteq> 0 then Some (- E_NO_MEM, mm_free m s)
                      else if e_dup_mmap e \<noteq> 0 then Some (e_dup_mmap e, mm_free m (put_pgdir m s))
                      else use_mm m p s))"

definition copy_fs :: "fork_env \<Rightarrow> u32 \<Rightarrow> nat \<Rightarrow> 'a sys \<Rightarrow> (int \<times> 'a sys) option" where
  "copy_fs e clone_flags p s = do {
     old \<leftarrow> p_fs_struct (procs s (current s));
     let good = (\<lambda>f s. (0, upd_proc p (\<lambda>x. x\<lparr>p_fs_struct := Some f\<rparr>) (s\<lparr>fs_count := (fs_count s)(f := fs_count s f + 1)\<rparr>)));
     Some (if clone_flags AND CLONE_FS \<noteq> 0 then good old s
           else case e_fs e of
                  None \<Rightarrow> (- E_NO_MEM, s)
                | Some f \<Rightarrow>
                    let s = s\<lparr>live_fss := f # live_fss s, fs_count := (fs_count s)(f := 0)\<rparr>
                    in if e_dup_fs e \<noteq> 0 then (e_dup_fs e, s\<lparr>live_fss := remove1 f (live_fss s)\<rparr>)
                       else good f s)
   }"

definition put_fs :: "nat \<Rightarrow> 'a sys \<Rightarrow> 'a sys" where
  "put_fs p s = (case p_fs_struct (procs s p) of
     None \<Rightarrow> s
   | Some f \<Rightarrow> let s = s\<lparr>fs_count := (fs_count s)(f := fs_count s f - 1)\<rparr>
               in if fs_count s f = 0 then s\<lparr>live_fss := remove1 f (live_fss s)\<rparr> else s)"

definition KSTACKSIZE :: u32 where "KSTACKSIZE = 2 * 4096"

text \<open>\<^verbatim>\<open>copy_thread\<close>: the frame is put at the top of the kernel stack; a kernel thread, called with stack 0, gets a
  stack below it.\<close>

definition copy_thread :: "nat \<Rightarrow> u32 \<Rightarrow> trapframe \<Rightarrow> 'a sys \<Rightarrow> 'a sys" where
  "copy_thread p esp tf s =
     (let a = of_nat (p_kstack (procs s p)) + KSTACKSIZE - sizeof_trapframe;
          tf = set_reg MIPS_REG_V0 0 tf;
          esp = (if esp = 0 then a - 32 else esp);
          tf = set_reg MIPS_REG_SP esp tf
      in upd_proc p (\<lambda>x. x\<lparr>p_tf_addr := a, p_tf := tf, p_context_ra := forkret_entry s, p_context_sp := a - 32\<rparr>) s)"

definition fork_enter :: "nat \<Rightarrow> 'a sys \<Rightarrow> (int \<times> 'a sys) option" where
  "fork_enter p s = do {
     v \<leftarrow> get_pid (map (\<lambda>q. p_pid (procs s q)) (proc_list s)) (pid_vars s);
     let s = upd_proc p (\<lambda>x. x\<lparr>p_pid := fst v\<rparr>) (s\<lparr>pid_vars := v\<rparr>);
     let s = hash_proc p s;
     s \<leftarrow> set_links p s;
     s \<leftarrow> wakeup_proc default_sched_class p s;
     Some (p_pid (procs s p), s)
   }"

definition do_fork :: "fork_env \<Rightarrow> u32 \<Rightarrow> u32 \<Rightarrow> trapframe \<Rightarrow> 'a sys \<Rightarrow> (int \<times> 'a sys) option" where
  "do_fork e clone_flags stack tf s =
     (if nr_process s \<ge> MAX_PROCESS then Some (- E_NO_FREE_PROC, s)
      else case alloc_proc (e_proc e) s of
        (None, s) \<Rightarrow> Some (- E_NO_MEM, s)
      | (Some p, s) \<Rightarrow>
          (let s = upd_proc p (\<lambda>x. x\<lparr>p_parent := Some (current s)\<rparr>) s
           in case setup_kstack (e_kstack e) p s of (r, s) \<Rightarrow>
             if r \<noteq> 0 then Some (- E_NO_MEM, kfree_proc p s)
             else do {
               (r, s) \<leftarrow> copy_fs e clone_flags p s;
               if r \<noteq> 0 then Some (- E_NO_MEM, kfree_proc p (put_kstack p s))
               else do {
                 (r, s) \<leftarrow> copy_mm e clone_flags p s;
                 if r \<noteq> 0 then Some (- E_NO_MEM, kfree_proc p (put_kstack p (put_fs p s)))
                 else fork_enter p (copy_thread p stack tf s)
               }
             }))"

text \<open>\<^verbatim>\<open>kernel_thread\<close>: the frame starts the thread at its entry code with the function and its argument;
  \<open>status\<close> and \<open>gp\<close> are the registers the code reads.\<close>

definition kernel_thread :: "fork_env \<Rightarrow> u32 \<Rightarrow> u32 \<Rightarrow> u32 \<Rightarrow> u32 \<Rightarrow> u32 \<Rightarrow> 'a sys \<Rightarrow> (int \<times> 'a sys) option" where
  "kernel_thread e status gp fn arg clone_flags s =
     (let tf = set_reg MIPS_REG_A0 arg empty_frame;
          tf = set_reg MIPS_REG_A1 fn tf;
          tf = set_reg MIPS_REG_V0 0 tf;
          tf = tf\<lparr>tf_status := ((status AND NOT 0x18) OR 1) OR 2\<rparr>;
          tf = set_reg MIPS_REG_GP gp tf;
          tf = tf\<lparr>tf_epc := kernel_entry s\<rparr>
      in do_fork e (clone_flags OR CLONE_VM) 0 tf s)"

section \<open>Leaving\<close>

text \<open>Dropping the address space: the last user frees it.\<close>

definition drop_mm :: "nat \<Rightarrow> 'a sys \<Rightarrow> 'a sys" where
  "drop_mm p s = (case p_mm (procs s p) of
     None \<Rightarrow> s
   | Some m \<Rightarrow>
       let s = s\<lparr>mm_count := (mm_count s)(m := mm_count s m - 1)\<rparr>;
           s = (if mm_count s m = 0 then mm_free m (put_pgdir m s) else s)
       in upd_proc p (\<lambda>x. x\<lparr>p_mm := None\<rparr>) s)"

text \<open>Handing a child to the init process: one round of the loop of \<^verbatim>\<open>do_exit\<close> before its wake-up.\<close>

definition hand_on :: "nat \<Rightarrow> 'a sys \<Rightarrow> 'a sys" where
  "hand_on p s =
     (let s = upd_proc (current s) (\<lambda>x. x\<lparr>p_cptr := p_optr (procs s p)\<rparr>) s;
          s = upd_proc p (\<lambda>x. x\<lparr>p_yptr := None\<rparr>) s;
          s = upd_proc p (\<lambda>x. x\<lparr>p_optr := p_cptr (procs s (initproc s))\<rparr>) s;
          s = (case p_optr (procs s p) of Some o' \<Rightarrow> upd_proc o' (\<lambda>x. x\<lparr>p_yptr := Some p\<rparr>) s | None \<Rightarrow> s);
          s = upd_proc p (\<lambda>x. x\<lparr>p_parent := Some (initproc s)\<rparr>) s
      in upd_proc (initproc s) (\<lambda>x. x\<lparr>p_cptr := Some p\<rparr>) s)"

partial_function (option) reparent_loop :: "'a sys \<Rightarrow> 'a sys option" where
  "reparent_loop s = (case p_cptr (procs s (current s)) of
     None \<Rightarrow> Some s
   | Some p \<Rightarrow> do {
       let s = hand_on p s;
       s \<leftarrow> (if p_state (procs s p) = PROC_ZOMBIE \<and> p_wait_state (procs s (initproc s)) = WT_CHILD
             then wakeup_proc default_sched_class (initproc s) s else Some s);
       reparent_loop s
     })"

definition do_exit :: "int \<Rightarrow> 'a sys \<Rightarrow> 'a sys option" where
  "do_exit error_code s = do {
     kassert (current s \<noteq> idleproc s);
     kassert (current s \<noteq> initproc s);
     let s = drop_mm (current s) s;
     let s = put_fs (current s) s;
     let s = upd_proc (current s) (\<lambda>x. x\<lparr>p_state := PROC_ZOMBIE\<rparr>) s;
     let s = upd_proc (current s) (\<lambda>x. x\<lparr>p_exit_code := error_code\<rparr>) s;
     q \<leftarrow> p_parent (procs s (current s));
     s \<leftarrow> (if p_wait_state (procs s q) = WT_CHILD then wakeup_proc default_sched_class q s else Some s);
     s \<leftarrow> reparent_loop s;
     schedule default_sched_class s
   }"

section \<open>Waiting for children, signals and sleeping\<close>

text \<open>The search along the children: whether there is one, and the first zombie.\<close>

partial_function (option) zombie_child :: "nat option \<Rightarrow> 'a sys \<Rightarrow> nat option option" where
  "zombie_child p s = (case p of
     None \<Rightarrow> Some None
   | Some c \<Rightarrow> if p_state (procs s c) = PROC_ZOMBIE then Some (Some c) else zombie_child (p_optr (procs s c)) s)"

datatype wait_result = Reaped "int option" | Failed int | Blocked

definition reap :: "bool \<Rightarrow> nat \<Rightarrow> 'a sys \<Rightarrow> (wait_result \<times> 'a sys) option" where
  "reap keep p s = do {
     kassert (p \<noteq> idleproc s \<and> p \<noteq> initproc s);
     let code = (if keep then Some (p_exit_code (procs s p)) else None);
     let s = unhash_proc p s;
     s \<leftarrow> remove_links p s;
     let s = put_kstack p s;
     let s = kfree_proc p s;
     Some (Reaped code, s)
   }"

text \<open>\<^verbatim>\<open>do_wait\<close> from \<^verbatim>\<open>repeat\<close> to its return or its call of \<^verbatim>\<open>schedule\<close>; \<open>keep\<close> tells whether the caller
  gave a place for the exit code.\<close>

definition wait_search :: "int \<Rightarrow> 'a sys \<Rightarrow> (bool \<times> nat option) option" where
  "wait_search pid s =
     (if pid \<noteq> 0
      then Some (case find_proc pid s of
        Some p \<Rightarrow> if p_parent (procs s p) = Some (current s)
                  then (True, if p_state (procs s p) = PROC_ZOMBIE then Some p else None) else (False, None)
      | None \<Rightarrow> (False, None))
      else do {
        z \<leftarrow> zombie_child (p_cptr (procs s (current s))) s;
        Some (p_cptr (procs s (current s)) \<noteq> None, z)
      })"

definition wait_repeat :: "bool \<Rightarrow> int \<Rightarrow> 'a sys \<Rightarrow> (wait_result \<times> 'a sys) option" where
  "wait_repeat keep pid s = do {
     (haskid, z) \<leftarrow> wait_search pid s;
     (case z of
        Some p \<Rightarrow> reap keep p s
      | None \<Rightarrow>
          if haskid then do {
            let s = upd_proc (current s) (\<lambda>x. x\<lparr>p_state := PROC_SLEEPING\<rparr>) s;
            let s = upd_proc (current s) (\<lambda>x. x\<lparr>p_wait_state := WT_CHILD\<rparr>) s;
            s \<leftarrow> schedule default_sched_class s;
            Some (Blocked, s)
          }
          else Some (Failed (- E_BAD_PROC), s))
   }"

text \<open>The whole call: \<open>mem_ok\<close> is the answer of \<^verbatim>\<open>user_mem_check\<close>. The part behind \<^verbatim>\<open>schedule\<close> runs when the process
  is scheduled again.\<close>

definition do_wait :: "bool \<Rightarrow> bool \<Rightarrow> int \<Rightarrow> 'a sys \<Rightarrow> (wait_result \<times> 'a sys) option" where
  "do_wait mem_ok keep pid s = (if keep \<and> \<not> mem_ok then Some (Failed (- E_INVAL), s) else wait_repeat keep pid s)"

definition wait_resume :: "bool \<Rightarrow> int \<Rightarrow> 'a sys \<Rightarrow> (wait_result \<times> 'a sys) option" where
  "wait_resume keep pid s =
     (if p_flags (procs s (current s)) AND PF_EXITING \<noteq> 0
      then do { s \<leftarrow> do_exit (- E_KILLED) s; Some (Blocked, s) }
      else wait_repeat keep pid s)"

definition do_yield :: "'a sys \<Rightarrow> int \<times> 'a sys" where
  "do_yield s = (0, upd_proc (current s) (\<lambda>x. x\<lparr>p_need_resched := True\<rparr>) s)"

definition do_kill :: "int \<Rightarrow> 'a sys \<Rightarrow> (int \<times> 'a sys) option" where
  "do_kill pid s = (case find_proc pid s of
     Some p \<Rightarrow>
       if p_flags (procs s p) AND PF_EXITING = 0 then do {
         let s = upd_proc p (\<lambda>x. x\<lparr>p_flags := p_flags x OR PF_EXITING\<rparr>) s;
         s \<leftarrow> (if p_wait_state (procs s p) AND WT_INTERRUPTED \<noteq> 0 then wakeup_proc default_sched_class p s else Some s);
         Some (0, s)
       }
       else Some (- E_KILLED, s)
   | None \<Rightarrow> Some (- E_INVAL, s))"

text \<open>\<^verbatim>\<open>do_sleep\<close> up to its call of \<^verbatim>\<open>schedule\<close>, with the timer at address \<open>t\<close>, and after it.\<close>

definition do_sleep :: "nat \<Rightarrow> nat \<Rightarrow> 'a sys \<Rightarrow> 'a sys option" where
  "do_sleep t time s =
     (if time = 0 then Some s
      else do {
        let s = timer_init t (current s) time s;
        let s = upd_proc (current s) (\<lambda>x. x\<lparr>p_state := PROC_SLEEPING\<rparr>) s;
        let s = upd_proc (current s) (\<lambda>x. x\<lparr>p_wait_state := WT_TIMER\<rparr>) s;
        s \<leftarrow> add_timer t s;
        schedule default_sched_class s
      })"

definition sleep_resume :: "nat \<Rightarrow> 'a sys \<Rightarrow> 'a sys" where
  "sleep_resume t s = del_timer t s"

section \<open>The family as a forest\<close>

abbreviation hd_opt :: "nat list \<Rightarrow> nat option" where "hd_opt xs \<equiv> (case xs of [] \<Rightarrow> None | x # _ \<Rightarrow> Some x)"

text \<open>The sibling pointers of a stretch of siblings, with the younger neighbour of the first and the older one of
  the last.\<close>

fun sibs :: "(nat \<Rightarrow> proc_struct) \<Rightarrow> nat option \<Rightarrow> nat list \<Rightarrow> nat option \<Rightarrow> bool" where
  "sibs P y [] z = True"
| "sibs P y (x # xs) z \<longleftrightarrow> p_yptr (P x) = y \<and> p_optr (P x) = (case xs of [] \<Rightarrow> z | v # _ \<Rightarrow> Some v) \<and> sibs P (Some x) xs z"

definition kin :: "(nat \<Rightarrow> proc_struct) \<Rightarrow> nat \<Rightarrow> nat list \<Rightarrow> bool" where
  "kin P q cs \<longleftrightarrow> p_cptr (P q) = hd_opt cs \<and> distinct cs \<and> sibs P None cs None \<and> (\<forall>c \<in> set cs. p_parent (P c) = Some q)"

definition family :: "nat set \<Rightarrow> (nat \<Rightarrow> proc_struct) \<Rightarrow> (nat \<Rightarrow> nat list) \<Rightarrow> bool" where
  "family L P kids \<longleftrightarrow> (\<forall>q \<in> L. kin P q (kids q) \<and> set (kids q) \<subseteq> L) \<and> (\<forall>q. q \<notin> L \<longrightarrow> kids q = [])"

definition same_links :: "proc_struct \<Rightarrow> proc_struct \<Rightarrow> bool" where
  "same_links p q \<longleftrightarrow> p_cptr q = p_cptr p \<and> p_optr q = p_optr p \<and> p_yptr q = p_yptr p \<and> p_parent q = p_parent p"

lemma sibs_append:
  "sibs P y (xs @ ys) z \<longleftrightarrow> sibs P y xs (case ys of [] \<Rightarrow> z | v # _ \<Rightarrow> Some v) \<and> sibs P (if xs = [] then y else Some (last xs)) ys z"
proof (induction xs arbitrary: y)
  case (Cons a xs)
  then show ?case by (cases xs) auto
qed simp

lemma sibs_cong:
  "(\<And>x. x \<in> set xs \<Longrightarrow> p_yptr (P x) = p_yptr (P' x) \<and> p_optr (P x) = p_optr (P' x)) \<Longrightarrow> sibs P y xs z = sibs P' y xs z"
  by (induction xs arbitrary: y) auto

lemma kin_cong:
  assumes "kin P q cs" "p_cptr (P' q) = p_cptr (P q)"
    and "\<And>x. x \<in> set cs \<Longrightarrow> p_yptr (P' x) = p_yptr (P x) \<and> p_optr (P' x) = p_optr (P x) \<and> p_parent (P' x) = p_parent (P x)"
  shows "kin P' q cs"
  using assms sibs_cong [of cs P' P] by (auto simp: kin_def)

lemma family_links: "family L P kids \<Longrightarrow> (\<And>x. same_links (P x) (P' x)) \<Longrightarrow> family L P' kids"
  using kin_cong by (force simp: family_def same_links_def)

lemma family_parent: "family L P kids \<Longrightarrow> c \<in> set (kids q) \<Longrightarrow> p_parent (P c) = Some q \<and> q \<in> L \<and> c \<in> L"
  unfolding family_def kin_def by (metis empty_iff list.set(1) subsetD)

lemma family_update:
  assumes "family L P kids" "q \<in> L" "kin P' q ys" "set ys \<subseteq> L"
    and "\<And>x. x \<noteq> q \<Longrightarrow> x \<in> L \<Longrightarrow> p_cptr (P' x) = p_cptr (P x)"
    and "\<And>x r. x \<in> set (kids r) \<Longrightarrow> r \<noteq> q \<Longrightarrow> p_yptr (P' x) = p_yptr (P x) \<and> p_optr (P' x) = p_optr (P x) \<and> p_parent (P' x) = p_parent (P x)"
  shows "family L P' (kids(q := ys))"
  using assms kin_cong [of P _ _ P'] by (auto simp: family_def)

lemma kin_link:
  assumes k: "kin P q cs" and p: "p \<notin> set cs" "p_parent (P' p) = Some q"
    and P': "\<And>x. p_yptr (P' x) = (if x = p then None else if hd_opt cs = Some x then Some p else p_yptr (P x))"
      "\<And>x. p_optr (P' x) = (if x = p then hd_opt cs else p_optr (P x))" "p_cptr (P' q) = Some p"
      "\<And>x. x \<noteq> p \<Longrightarrow> p_parent (P' x) = p_parent (P x)"
  shows "kin P' q (p # cs)"
proof (cases cs)
  case Nil
  then show ?thesis using P' p by (simp add: kin_def)
next
  case (Cons o' os)
  have "o' \<notin> set os" "p \<noteq> o'" "p \<notin> set os" using k Cons p(1) by (auto simp: kin_def)
  then have "sibs P' (Some o') os None = sibs P (Some o') os None" by (intro sibs_cong) (auto simp: P' Cons)
  moreover have "\<forall>c \<in> set cs. p_parent (P' c) = Some q" using k p(1) P'(4) by (metis kin_def)
  ultimately show ?thesis using k Cons P' p by (auto simp: kin_def)
qed

lemma family_hd_other:
  assumes "family L P kids" "x \<in> set (kids r)" "r \<noteq> q"
  shows "x \<notin> set (kids q)" "hd_opt (kids q) \<noteq> Some x"
proof -
  show "x \<notin> set (kids q)" using family_parent [OF assms(1), of x q] family_parent [OF assms(1), of x r] assms by auto
  then show "hd_opt (kids q) \<noteq> Some x" by (auto split: list.splits)
qed

lemma family_link:
  assumes f: "family L P kids" and pq: "p \<in> L" "q \<in> L" "p_parent (P p) = Some q" and new: "\<And>r. p \<notin> set (kids r)"
    and P': "\<And>x. p_yptr (P' x) = (if x = p then None else if hd_opt (kids q) = Some x then Some p else p_yptr (P x))"
      "\<And>x. p_optr (P' x) = (if x = p then hd_opt (kids q) else p_optr (P x))"
      "\<And>x. p_cptr (P' x) = (if x = q then Some p else p_cptr (P x))" "\<And>x. p_parent (P' x) = p_parent (P x)"
  shows "family L P' (kids(q := p # kids q))"
proof (rule family_update [OF f pq(2)])
  have k: "kin P q (kids q)" "set (kids q) \<subseteq> L" using f pq(2) by (auto simp: family_def)
  then show "set (p # kids q) \<subseteq> L" using pq(1) by simp
  show "kin P' q (p # kids q)" by (rule kin_link [OF k(1) new]) (simp_all add: P' pq)
next
  fix x r assume x: "x \<in> set (kids r)" "r \<noteq> q"
  then show "p_yptr (P' x) = p_yptr (P x) \<and> p_optr (P' x) = p_optr (P x) \<and> p_parent (P' x) = p_parent (P x)"
    using new [of r] family_hd_other [OF f x] by (auto simp: P')
qed (simp add: P')

lemma family_unlink:
  assumes f: "family L P kids" and q: "q \<in> L" and l: "kids q = xs @ p # ys"
    and P': "\<And>x. p_yptr (P' x) = (if hd_opt ys = Some x then (if xs = [] then None else Some (last xs)) else p_yptr (P x))"
      "\<And>x. p_optr (P' x) = (if xs \<noteq> [] \<and> x = last xs then hd_opt ys else p_optr (P x))"
      "\<And>x. p_cptr (P' x) = (if xs = [] \<and> x = q then hd_opt ys else p_cptr (P x))" "\<And>x. p_parent (P' x) = p_parent (P x)"
  shows "family L P' (kids(q := xs @ ys))"
proof (rule family_update [OF f q])
  have k: "kin P q (xs @ p # ys)" "set (xs @ p # ys) \<subseteq> L" using f q unfolding family_def l [symmetric] by blast+
  then show "set (xs @ ys) \<subseteq> L" by simp
  have d: "distinct (xs @ p # ys)" using k(1) by (simp add: kin_def)
  have lx: "last xs \<notin> set ys" if "xs \<noteq> []"
  proof -
    have "set xs \<inter> set ys = {}" using d by auto
    then show ?thesis using last_in_set [OF that] by blast
  qed
  have sx: "sibs P None xs (Some p)" and sy: "sibs P (Some p) ys None" using k(1) by (auto simp: kin_def sibs_append)
  have "sibs P' (if xs = [] then None else Some (last xs)) ys None"
  proof (cases ys)
    case (Cons v vs)
    have "sibs P' (Some v) vs None = sibs P (Some v) vs None"
      by (rule sibs_cong) (use d Cons lx in \<open>auto simp: P'\<close>)
    then show ?thesis using sy d Cons lx by (auto simp: P')
  qed simp
  moreover have "sibs P' None xs (hd_opt ys)"
  proof (cases xs rule: rev_cases)
    case (snoc ws w)
    have "sibs P' None ws (Some w) = sibs P None ws (Some w)"
      by (rule sibs_cong) (use d snoc in \<open>auto simp: P' split: list.splits\<close>)
    then show ?thesis using sx d snoc by (auto simp: P' sibs_append split: list.splits)
  qed simp
  ultimately have "sibs P' None (xs @ ys) None" by (simp add: sibs_append)
  moreover have "p_cptr (P' q) = hd_opt (xs @ ys)" using k(1) by (cases xs) (simp_all add: kin_def P')
  ultimately show "kin P' q (xs @ ys)" using k(1) d by (simp add: kin_def P')
next
  fix x r assume x: "x \<in> set (kids r)" "r \<noteq> q"
  then have "x \<notin> set (kids q)" using family_hd_other [OF f] by blast
  then show "p_yptr (P' x) = p_yptr (P x) \<and> p_optr (P' x) = p_optr (P x) \<and> p_parent (P' x) = p_parent (P x)"
    using l last_in_set [of xs] by (auto simp: P' split: list.splits)
qed (simp add: P')

text \<open>While the children of \<open>c\<close> are being handed on, the first of those left still points to a younger sibling.\<close>

definition half_family :: "nat set \<Rightarrow> (nat \<Rightarrow> proc_struct) \<Rightarrow> (nat \<Rightarrow> nat list) \<Rightarrow> nat \<Rightarrow> bool" where
  "half_family L P kids c \<longleftrightarrow> (\<forall>q \<in> L. set (kids q) \<subseteq> L \<and> (q \<noteq> c \<longrightarrow> kin P q (kids q)))
     \<and> p_cptr (P c) = hd_opt (kids c) \<and> distinct (kids c) \<and> (\<exists>y. sibs P y (kids c) None)
     \<and> (\<forall>x \<in> set (kids c). p_parent (P x) = Some c) \<and> (\<forall>q. q \<notin> L \<longrightarrow> kids q = [])"

lemma family_half: "family L P kids \<Longrightarrow> c \<in> L \<Longrightarrow> half_family L P kids c"
  by (auto simp: family_def half_family_def kin_def)

lemma half_family_done: "half_family L P kids c \<Longrightarrow> kids c = [] \<Longrightarrow> family L P kids"
  by (auto simp: family_def half_family_def kin_def)

lemma half_family_parent: "half_family L P kids c \<Longrightarrow> x \<in> set (kids q) \<Longrightarrow> p_parent (P x) = Some q"
  unfolding half_family_def kin_def by (metis empty_iff list.set(1))

lemma half_family_step:
  assumes f: "half_family L P kids c" and c: "c \<in> L" "i \<in> L" "c \<noteq> i" and k: "kids c = p # ps"
    and P': "\<And>x. p_yptr (P' x) = (if x = p then None else if hd_opt (kids i) = Some x then Some p else p_yptr (P x))"
      "\<And>x. p_optr (P' x) = (if x = p then hd_opt (kids i) else p_optr (P x))"
      "\<And>x. p_cptr (P' x) = (if x = i then Some p else if x = c then hd_opt ps else p_cptr (P x))"
      "\<And>x. p_parent (P' x) = (if x = p then Some i else p_parent (P x))"
  shows "half_family L P' (kids(c := ps, i := p # kids i)) c"
proof -
  have other: "x \<noteq> p \<and> hd_opt (kids i) \<noteq> Some x" if "x \<in> set (kids r)" "r \<noteq> i" "r \<noteq> c \<or> x \<in> set ps" for x r
  proof -
    have "p_parent (P x) = Some r" "p_parent (P p) = Some c" "\<forall>z \<in> set (kids i). p_parent (P z) = Some i"
      using half_family_parent [OF f] that k by auto
    moreover have "p \<notin> set ps" using f k by (simp add: half_family_def)
    ultimately show ?thesis using that(2,3) by (auto split: list.splits)
  qed
  have "kin P' q (kids q)" if "q \<in> L" "q \<noteq> c" "q \<noteq> i" for q
    by (rule kin_cong [of P]) (use f that other in \<open>auto simp: half_family_def P'\<close>)
  moreover have "kin P' i (p # kids i)"
  proof (rule kin_link [of P])
    show "kin P i (kids i)" using f c by (auto simp: half_family_def)
    show "p \<notin> set (kids i)" using half_family_parent [OF f, of p c] half_family_parent [OF f, of p i] k c(3) by auto
  qed (simp_all add: P')
  moreover have "sibs P' (Some p) ps None"
  proof -
    have "sibs P (Some p) ps None" using f k by (auto simp: half_family_def)
    moreover have "sibs P' (Some p) ps None = sibs P (Some p) ps None"
      by (rule sibs_cong) (use other [of _ c] k c(3) in \<open>auto simp: P'\<close>)
    ultimately show ?thesis by simp
  qed
  moreover have "\<forall>x \<in> set ps. p_parent (P' x) = Some c" using f k by (auto simp: half_family_def P')
  moreover have "set (p # ps) \<subseteq> L" using f c(1) k by (metis half_family_def)
  ultimately show ?thesis using f c k by (auto simp: half_family_def P')
qed

lemma same_links_simps:
  assumes "same_links p q"
  shows "p_cptr q = p_cptr p" "p_optr q = p_optr p" "p_yptr q = p_yptr p" "p_parent q = p_parent p"
  using assms by (simp_all add: same_links_def)

section \<open>The invariant of the process table\<close>

text \<open>A process keeps its identity when only what the scheduler changes differs.\<close>

definition same_ident :: "proc_struct \<Rightarrow> proc_struct \<Rightarrow> bool" where
  "same_ident p q \<longleftrightarrow> q\<lparr>p_state := p_state p, p_wait_state := p_wait_state p, p_runs := p_runs p,
     p_time_slice := p_time_slice p, p_rq := p_rq p, p_need_resched := p_need_resched p\<rparr> = p"

definition members :: "'a sys \<Rightarrow> nat set" where "members s = insert (idleproc s) (set (proc_list s))"

definition table_ok :: "'a sys \<Rightarrow> bool" where
  "table_ok s \<longleftrightarrow> distinct (proc_list s) \<and> idleproc s \<notin> set (proc_list s) \<and> nr_process s = int (length (proc_list s)) + 1
     \<and> pid_inv (map (\<lambda>p. p_pid (procs s p)) (proc_list s)) (pid_vars s)
     \<and> inj_on (\<lambda>p. p_pid (procs s p)) (set (proc_list s))
     \<and> (\<forall>p \<in> set (proc_list s). 1 \<le> p_pid (procs s p) \<and> p_pid (procs s p) < MAX_PID)
     \<and> (\<forall>b. distinct (hash_list s b)
          \<and> set (hash_list s b) = {p \<in> set (proc_list s). pid_hashfn (p_pid (procs s p)) = b})"

definition proc_inv :: "'a sys \<Rightarrow> (nat \<Rightarrow> nat list) \<Rightarrow> bool" where
  "proc_inv s kids \<longleftrightarrow> run_queue_ok s \<and> table_ok s \<and> family (members s) (procs s) kids
     \<and> initproc s \<in> set (proc_list s) \<and> current s \<in> members s
     \<and> (\<forall>p \<in> set (proc_list s). \<exists>q. p \<in> set (kids q)) \<and> (\<forall>q. idleproc s \<notin> set (kids q))
     \<and> (\<forall>q. q \<notin> set (kids q)) \<and> initproc s \<in> set (kids (idleproc s))
     \<and> (\<forall>p. p \<notin> members s \<longrightarrow> p_state (procs s p) \<noteq> PROC_RUNNABLE)
     \<and> (\<forall>q. kids q \<noteq> [] \<longrightarrow> p_state (procs s q) \<noteq> PROC_ZOMBIE)
     \<and> p_state (procs s (initproc s)) \<noteq> PROC_ZOMBIE"

lemma same_ident_simps:
  assumes "same_ident p q"
  shows "same_links p q" "p_pid q = p_pid p" "p_kstack q = p_kstack p" "p_exit_code q = p_exit_code p" "p_mm q = p_mm p"
    "p_fs_struct q = p_fs_struct p" "p_flags q = p_flags p"
  using assms by (cases p; cases q; simp add: same_ident_def same_links_def)+

lemma same_ident_refl [simp]: "same_ident p p"
  by (simp add: same_ident_def)

lemma sys_more:
  fixes s :: "'a sys"
  assumes "sched.more s' = sched.more s"
  shows "initproc s' = initproc s" "proc_list s' = proc_list s" "hash_list s' = hash_list s" "nr_process s' = nr_process s"
    "pid_vars s' = pid_vars s" "live_procs s' = live_procs s" "live_kstacks s' = live_kstacks s" "live_mms s' = live_mms s"
    "live_pgdirs s' = live_pgdirs s" "live_fss s' = live_fss s" "mm_count s' = mm_count s" "fs_count s' = fs_count s"
    "mm_pgdir s' = mm_pgdir s" "boot_cr3 s' = boot_cr3 s"
  using assms by (cases s; cases s'; simp)+

lemmas upd_proc_sys [simp] = sys_more [of "upd_proc p f s" s for p f and s :: "'a sys", OF upd_proc_simps(9)]

lemma wakeup_ident:
  assumes "wakeup_proc default_sched_class p s = Some s'"
  shows "same_ident (procs s q) (procs s' q)"
  using assms by (auto simp: wakeup_proc_def Let_def default_sched_class_def sched_class_enqueue_def RR_enqueue_eq kassert_def
      same_ident_def split: if_splits)

lemma schedule_ident:
  assumes "schedule default_sched_class s = Some s'"
  shows "same_ident (procs s q) (procs s' q)"
  using assms by (auto simp: schedule_def Let_def default_sched_class_def sched_class_enqueue_def sched_class_dequeue_def
      sched_class_pick_next_def RR_enqueue_eq RR_dequeue_def RR_pick_next_def kassert_def same_ident_def proc_run_def
      split: if_splits option.splits list.splits bind_splits)

lemma table_ok_cong:
  assumes "table_ok s" "proc_list s' = proc_list s" "hash_list s' = hash_list s" "nr_process s' = nr_process s"
    "pid_vars s' = pid_vars s" "idleproc s' = idleproc s" "\<And>p. p \<in> set (proc_list s) \<Longrightarrow> p_pid (procs s' p) = p_pid (procs s p)"
  shows "table_ok s'"
proof -
  have "pid_inv (map (\<lambda>p. p_pid (procs s' p)) (proc_list s)) = pid_inv (map (\<lambda>p. p_pid (procs s p)) (proc_list s))"
    using assms(7) by (intro arg_cong [where f = pid_inv]) simp
  moreover have "inj_on (\<lambda>p. p_pid (procs s' p)) (set (proc_list s)) = inj_on (\<lambda>p. p_pid (procs s p)) (set (proc_list s))"
    by (rule inj_on_cong) (rule assms(7))
  moreover have "{p \<in> set (proc_list s). pid_hashfn (p_pid (procs s' p)) = b} = {p \<in> set (proc_list s). pid_hashfn (p_pid (procs s p)) = b}" for b
    using assms(7) by auto
  ultimately show ?thesis using assms by (simp add: table_ok_def)
qed

lemma proc_inv_ident:
  fixes s :: "'a sys"
  assumes inv: "proc_inv s kids" and id: "\<And>q. same_ident (procs s q) (procs s' q)" and m: "sched.more s' = sched.more s"
    and i: "idleproc s' = idleproc s" and r: "run_queue_ok s'" and c: "current s' \<in> members s"
    and st: "\<And>p. p \<notin> members s \<Longrightarrow> p_state (procs s' p) \<noteq> PROC_RUNNABLE"
      "\<And>q. kids q \<noteq> [] \<or> q = initproc s \<Longrightarrow> p_state (procs s' q) \<noteq> PROC_ZOMBIE"
  shows "proc_inv s' kids"
proof -
  have mem: "members s' = members s" using sys_more(2) [OF m] i by (simp add: members_def)
  have "table_ok s'" by (rule table_ok_cong [of s]) (use inv sys_more [OF m] i same_ident_simps(2) [OF id] in \<open>auto simp: proc_inv_def\<close>)
  moreover have "family (members s) (procs s') kids"
    by (rule family_links [of _ "procs s"]) (use inv same_ident_simps(1) [OF id] in \<open>auto simp: proc_inv_def\<close>)
  ultimately show ?thesis using inv r c st mem i sys_more [OF m] by (auto simp: proc_inv_def)
qed

lemma wakeup_inv:
  fixes s :: "'a sys"
  assumes inv: "proc_inv s kids" and p: "p \<in> members s" "p_state (procs s p) \<noteq> PROC_ZOMBIE"
  obtains s' where "wakeup_proc default_sched_class p s = Some s'" "proc_inv s' kids" "sched.more s' = sched.more s"
    "current s' = current s" "idleproc s' = idleproc s" "\<And>q. same_ident (procs s q) (procs s' q)" "p_state (procs s' p) = PROC_RUNNABLE"
    "\<And>q. q \<noteq> p \<Longrightarrow> p_state (procs s' q) = p_state (procs s q) \<and> p_wait_state (procs s' q) = p_wait_state (procs s q)"
proof -
  have "run_queue_ok s" using inv by (simp add: proc_inv_def)
  then obtain s' where s': "wakeup_proc default_sched_class p s = Some s'" "run_queue_ok s'" "p_state (procs s' p) = PROC_RUNNABLE"
    "current s' = current s" "idleproc s' = idleproc s" "sched.more s' = sched.more s"
    "\<And>q. q \<noteq> p \<Longrightarrow> p_state (procs s' q) = p_state (procs s q) \<and> p_wait_state (procs s' q) = p_wait_state (procs s q)"
    using rr.wakeup_keeps [unfolded rr_sched_ok, OF _ p(2)] by blast
  have st: "p_state (procs s' q) = (if q = p then PROC_RUNNABLE else p_state (procs s q))" for q using s'(3,7) by simp
  have "proc_inv s' kids"
    by (rule proc_inv_ident [OF inv wakeup_ident [OF s'(1)] s'(6,5,2)]) (use inv p s'(4) in \<open>auto simp: st proc_inv_def\<close>)
  then show ?thesis using that [OF s'(1)] s' wakeup_ident [OF s'(1)] by blast
qed

lemma schedule_inv:
  fixes s :: "'a sys"
  assumes inv: "proc_inv s kids"
  obtains s' where "schedule default_sched_class s = Some s'" "proc_inv s' kids" "sched.more s' = sched.more s"
    "idleproc s' = idleproc s" "\<And>q. same_ident (procs s q) (procs s' q)"
    "\<And>q. p_state (procs s' q) = p_state (procs s q) \<and> p_wait_state (procs s' q) = p_wait_state (procs s q)"
    "current s' = idleproc s \<or> p_state (procs s (current s')) = PROC_RUNNABLE"
proof -
  have "run_queue_ok s" using inv by (simp add: proc_inv_def)
  then obtain s' where s': "schedule default_sched_class s = Some s'" "run_queue_ok s'" "idleproc s' = idleproc s"
    "sched.more s' = sched.more s" "\<And>q. p_state (procs s' q) = p_state (procs s q) \<and> p_wait_state (procs s' q) = p_wait_state (procs s q)"
    "current s' = idleproc s \<or> p_state (procs s (current s')) = PROC_RUNNABLE"
    using rr.schedule_keeps [unfolded rr_sched_ok] by blast
  have "current s' \<in> members s" using s'(6) inv by (auto simp: proc_inv_def members_def)
  then have "proc_inv s' kids"
    by (rule proc_inv_ident [OF inv schedule_ident [OF s'(1)] s'(4,3,2)]) (use inv s'(5) in \<open>auto simp: proc_inv_def\<close>)
  then show ?thesis using that [OF s'(1)] s' schedule_ident [OF s'(1)] by blast
qed

text \<open>Changes of a descriptor outside the table, and of the fields that are not about the table.\<close>

lemma proc_inv_outside:
  fixes s :: "'a sys"
  assumes inv: "proc_inv s kids" and p: "p \<notin> members s"
    and s': "\<And>q. q \<noteq> p \<Longrightarrow> procs s' q = procs s q" "p_state (procs s' p) \<noteq> PROC_RUNNABLE" "proc_list s' = proc_list s"
      "hash_list s' = hash_list s" "nr_process s' = nr_process s" "pid_vars s' = pid_vars s" "idleproc s' = idleproc s"
      "initproc s' = initproc s" "current s' = current s" "run_list s' = run_list s" "proc_num s' = proc_num s"
  shows "proc_inv s' kids"
proof -
  have mem: "members s' = members s" by (simp add: members_def s')
  have q: "procs s' q = procs s q" if "q \<in> members s" for q using that p s'(1) by metis
  have pl: "set (proc_list s) \<subseteq> members s" by (auto simp: members_def)
  have nr: "p_state (procs s p) \<noteq> PROC_RUNNABLE" using inv p by (simp add: proc_inv_def)
  have "table_ok s'" by (rule table_ok_cong [of s]) (use inv s' q pl in \<open>auto simp: proc_inv_def\<close>)
  moreover have "family (members s) (procs s') kids"
  proof -
    have f: "family (members s) (procs s) kids" using inv by (simp add: proc_inv_def)
    have "kin (procs s') x (kids x)" if "x \<in> members s" for x
      by (rule kin_cong [of "procs s"]) (use f that q in \<open>auto simp: family_def subset_iff\<close>)
    then show ?thesis using f by (simp add: family_def)
  qed
  moreover have "run_queue_ok s'"
  proof -
    have r: "run_queue_ok s" using inv by (simp add: proc_inv_def)
    then have "p \<notin> set (run_list s)" using nr by (simp add: run_queue_ok_def)
    then have "\<forall>x \<in> set (run_list s). procs s' x = procs s x" using s'(1) by metis
    moreover have "RR_inv s" using r by (simp add: run_queue_ok_def)
    ultimately have "RR_inv s'" using s' by (simp add: RR_inv_def)
    moreover have "(p_state (procs s' x) = PROC_RUNNABLE) = (p_state (procs s x) = PROC_RUNNABLE)" for x
      using nr s'(1,2) by (cases "x = p") auto
    ultimately show ?thesis using r s' by (simp add: run_queue_ok_def)
  qed
  moreover have "p_state (procs s' x) \<noteq> PROC_RUNNABLE" if "x \<notin> members s" for x
    using that inv s'(1,2) by (cases "x = p") (auto simp: proc_inv_def)
  moreover have "kids x \<noteq> [] \<Longrightarrow> x \<in> members s" for x using inv by (auto simp: proc_inv_def family_def)
  ultimately show ?thesis using inv s' q mem pl by (auto simp: proc_inv_def)
qed

end
