(* ===== verification/Process_Life.thy ===== *)
theory Process_Life
  imports Proc
begin

text \<open>
  The life of a process over the model of \<^verbatim>\<open>kern/process/proc.c\<close>: \<^verbatim>\<open>do_fork\<close> enters a process into the table and
  the family or gives everything back, \<^verbatim>\<open>do_exit\<close> hands the children to the init process and wakes a waiting
  parent, \<^verbatim>\<open>do_wait\<close> removes a finished child, \<^verbatim>\<open>do_kill\<close> and \<^verbatim>\<open>find_proc\<close> address a process by its number.
  Each operation keeps the invariant \<open>proc_inv\<close>.
\<close>

section \<open>Finding a process by its number\<close>

lemma find_Some_in: "List.find P xs = Some x \<Longrightarrow> x \<in> set xs \<and> P x"
  by (auto simp: find_Some_iff in_set_conv_nth)

lemma find_proc_iff:
  assumes t: "table_ok s"
  shows "find_proc pid s = Some p \<longleftrightarrow> p \<in> set (proc_list s) \<and> p_pid (procs s p) = pid"
proof
  assume "find_proc pid s = Some p"
  then have "p \<in> set (hash_list s (pid_hashfn pid))" "p_pid (procs s p) = pid"
    by (auto simp: find_proc_def dest!: find_Some_in split: if_splits)
  then show "p \<in> set (proc_list s) \<and> p_pid (procs s p) = pid" using t by (simp add: table_ok_def)
next
  assume p: "p \<in> set (proc_list s) \<and> p_pid (procs s p) = pid"
  then have h: "p \<in> set (hash_list s (pid_hashfn pid))" "0 < pid" "pid < MAX_PID" using t by (auto simp: table_ok_def)
  then obtain q where q: "List.find (\<lambda>p. p_pid (procs s p) = pid) (hash_list s (pid_hashfn pid)) = Some q"
    using p find_None_iff [of "\<lambda>p. p_pid (procs s p) = pid" "hash_list s (pid_hashfn pid)"] by (metis not_Some_eq)
  then have "q \<in> set (proc_list s)" "p_pid (procs s q) = pid" using t find_Some_in [OF q] by (auto simp: table_ok_def)
  then have "q = p" using p t by (auto simp: table_ok_def inj_on_def)
  then show "find_proc pid s = Some p" using q h by (simp add: find_proc_def)
qed

section \<open>Entering a process\<close>

lemma set_links_eq:
  assumes "p_parent (procs s p) = Some q" "p \<noteq> q" "p_cptr (procs s q) \<noteq> Some p"
  obtains P where "set_links p s = Some (s\<lparr>procs := P, proc_list := p # proc_list s, nr_process := nr_process s + 1\<rparr>)"
    "\<And>x. p_yptr (P x) = (if x = p then None else if p_cptr (procs s q) = Some x then Some p else p_yptr (procs s x))"
    "\<And>x. p_optr (P x) = (if x = p then p_cptr (procs s q) else p_optr (procs s x))"
    "\<And>x. p_cptr (P x) = (if x = q then Some p else p_cptr (procs s x))"
    "\<And>x. P x = (procs s x)\<lparr>p_yptr := p_yptr (P x), p_optr := p_optr (P x), p_cptr := p_cptr (P x)\<rparr>"
proof -
  define P1 where "P1 = (procs s)(p := (procs s p)\<lparr>p_yptr := None, p_optr := p_cptr (procs s q)\<rparr>)"
  define P2 where "P2 = (case p_cptr (procs s q) of Some x \<Rightarrow> P1(x := (P1 x)\<lparr>p_yptr := Some p\<rparr>) | None \<Rightarrow> P1)"
  define P where "P = P2(q := (P2 q)\<lparr>p_cptr := Some p\<rparr>)"
  have "set_links p s = Some (s\<lparr>procs := P, proc_list := p # proc_list s, nr_process := nr_process s + 1\<rparr>)"
    using assms by (cases s) (auto simp: set_links_def Let_def upd_proc_def P_def P2_def P1_def split: option.split)
  moreover have "p_yptr (P x) = (if x = p then None else if p_cptr (procs s q) = Some x then Some p else p_yptr (procs s x))" for x
    using assms by (auto simp: P_def P2_def P1_def split: option.split)
  moreover have "p_optr (P x) = (if x = p then p_cptr (procs s q) else p_optr (procs s x))" for x
    using assms by (auto simp: P_def P2_def P1_def split: option.split)
  moreover have "p_cptr (P x) = (if x = q then Some p else p_cptr (procs s x))" for x
    using assms by (auto simp: P_def P2_def P1_def split: option.split)
  moreover have "P x = (procs s x)\<lparr>p_yptr := p_yptr (P x), p_optr := p_optr (P x), p_cptr := p_cptr (P x)\<rparr>" for x
    by (auto simp: P_def P2_def P1_def split: option.split)
  ultimately show ?thesis by (rule that)
qed

lemma link_fields:
  assumes "r = Q\<lparr>p_yptr := a, p_optr := b, p_cptr := c\<rparr>"
  shows "p_parent r = p_parent Q" "p_pid r = p_pid Q" "p_state r = p_state Q" "p_rq r = p_rq Q"
    "p_kstack r = p_kstack Q" "p_wait_state r = p_wait_state Q" "p_mm r = p_mm Q" "p_fs_struct r = p_fs_struct Q"
  by (simp_all add: assms)

lemma proc_inv_cong:
  assumes "proc_inv s kids" "procs s' = procs s" "idleproc s' = idleproc s" "current s' = current s" "run_list s' = run_list s"
    "proc_num s' = proc_num s" "proc_list s' = proc_list s" "hash_list s' = hash_list s" "nr_process s' = nr_process s"
    "pid_vars s' = pid_vars s" "initproc s' = initproc s"
  shows "proc_inv s' kids"
  using assms by (simp add: proc_inv_def table_ok_def members_def run_queue_ok_def RR_inv_def)

definition entered :: "nat \<Rightarrow> int \<times> int \<Rightarrow> (nat \<Rightarrow> proc_struct) \<Rightarrow> 'a sys \<Rightarrow> 'a sys" where
  "entered p v P s = s\<lparr>procs := P, pid_vars := v,
     hash_list := (hash_list s)(pid_hashfn (fst v) := p # hash_list s (pid_hashfn (fst v))),
     proc_list := p # proc_list s, nr_process := nr_process s + 1\<rparr>"

lemma enter_table:
  fixes s :: "'a sys"
  assumes inv: "proc_inv s kids" and p: "p \<notin> members s" "p_parent (procs s p) = Some (current s)" "p_cptr (procs s p) = None"
      "p_state (procs s p) \<noteq> PROC_RUNNABLE" and cur: "p_state (procs s (current s)) \<noteq> PROC_ZOMBIE"
    and v: "1 \<le> fst v" "fst v < MAX_PID" "fst v \<notin> (\<lambda>q. p_pid (procs s q)) ` set (proc_list s)"
      "pid_inv (fst v # map (\<lambda>q. p_pid (procs s q)) (proc_list s)) v"
  obtains P where
    "set_links p (hash_proc p (upd_proc p (\<lambda>x. x\<lparr>p_pid := fst v\<rparr>) (s\<lparr>pid_vars := v\<rparr>)))
      = Some (entered p v P s)" "proc_inv (entered p v P s) (kids(current s := p # kids (current s)))"
    "\<And>x. p_state (P x) = p_state (procs s x)" "p_pid (P p) = fst v" "\<And>x. p_wait_state (P x) = p_wait_state (procs s x)"
    "\<And>x. p_mm (P x) = p_mm (procs s x)" "\<And>x. p_fs_struct (P x) = p_fs_struct (procs s x)" "\<And>x. p_kstack (P x) = p_kstack (procs s x)"
proof -
  let ?c = "current s" and ?h = "pid_hashfn (fst v)"
  define Q where "Q = (procs s)(p := (procs s p)\<lparr>p_pid := fst v\<rparr>)"
  define t where "t = s\<lparr>procs := Q, pid_vars := v, hash_list := (hash_list s)(?h := p # hash_list s ?h)\<rparr>"
  have t: "hash_proc p (upd_proc p (\<lambda>x. x\<lparr>p_pid := fst v\<rparr>) (s\<lparr>pid_vars := v\<rparr>)) = t"
    by (cases s) (simp add: hash_proc_def upd_proc_def t_def Q_def Let_def)
  have f: "family (members s) (procs s) kids" and cm: "?c \<in> members s" using inv by (auto simp: proc_inv_def)
  have pc: "p \<noteq> ?c" using cm p(1) by metis
  have nk: "p \<notin> set (kids r)" for r using family_parent [OF f] p(1) by blast
  have cp: "p_cptr (procs s ?c) = hd_opt (kids ?c)" using f cm by (auto simp: family_def kin_def)
  have Q: "Q x = procs s x" if "x \<noteq> p" for x using that by (simp add: Q_def)
  have links: "same_links (procs s x) (Q x)" for x by (simp add: Q_def same_links_def)
  have "p_cptr (procs s ?c) \<noteq> Some p" using nk [of ?c] by (auto simp: cp split: list.splits)
  then obtain P where P: "set_links p t = Some (t\<lparr>procs := P, proc_list := p # proc_list t, nr_process := nr_process t + 1\<rparr>)"
    "\<And>x. p_yptr (P x) = (if x = p then None else if p_cptr (procs t ?c) = Some x then Some p else p_yptr (procs t x))"
    "\<And>x. p_optr (P x) = (if x = p then p_cptr (procs t ?c) else p_optr (procs t x))"
    "\<And>x. p_cptr (P x) = (if x = ?c then Some p else p_cptr (procs t x))"
    "\<And>x. P x = (procs t x)\<lparr>p_yptr := p_yptr (P x), p_optr := p_optr (P x), p_cptr := p_cptr (P x)\<rparr>"
    using set_links_eq [of t p ?c] p(2) pc by (auto simp: t_def Q_def)
  note pf = link_fields [OF P(5), unfolded t_def, simplified]
  let ?s = "s\<lparr>procs := P, pid_vars := v, hash_list := (hash_list s)(?h := p # hash_list s ?h), proc_list := p # proc_list s, nr_process := nr_process s + 1\<rparr>"
  have eq: "t\<lparr>procs := P, proc_list := p # proc_list t, nr_process := nr_process t + 1\<rparr> = ?s" by (cases s) (simp add: t_def)
  have st: "p_state (P x) = p_state (procs s x)" "p_rq (P x) = p_rq (procs s x)" "p_wait_state (P x) = p_wait_state (procs s x)"
    "p_mm (P x) = p_mm (procs s x)" "p_fs_struct (P x) = p_fs_struct (procs s x)" "p_kstack (P x) = p_kstack (procs s x)" for x
    by (simp_all add: pf Q_def)
  have pid: "p_pid (P x) = (if x = p then fst v else p_pid (procs s x))" for x by (simp add: pf Q_def)
  have mem: "members ?s = insert p (members s)" by (auto simp: members_def)
  have "run_queue_ok ?s" using inv by (simp add: proc_inv_def run_queue_ok_def RR_inv_def st)
  moreover have "table_ok ?s"
  proof -
    have tb: "table_ok s" and pl: "p \<notin> set (proc_list s)" "p \<noteq> idleproc s" using inv p(1) by (auto simp: proc_inv_def members_def)
    have pidp: "p_pid (P p) = fst v" by (simp add: pid)
    have pids: "map (\<lambda>q. p_pid (P q)) (proc_list s) = map (\<lambda>q. p_pid (procs s q)) (proc_list s)" using pl by (auto simp: pid)
    have "inj_on (\<lambda>q. p_pid (P q)) (insert p (set (proc_list s)))"
      using tb v(3) pl by (auto simp: table_ok_def inj_on_def pid image_iff)
    moreover have "p \<notin> set (hash_list s b)" for b using tb pl by (simp add: table_ok_def)
    moreover have "pid_inv (map (\<lambda>q. p_pid (P q)) (p # proc_list s)) v" using v(4) by (simp only: list.map pids pidp)
    moreover have "1 \<le> p_pid (P q) \<and> p_pid (P q) < MAX_PID" if "q \<in> insert p (set (proc_list s))" for q
      using tb v(1,2) that by (auto simp: table_ok_def pid)
    moreover have "insert p (set (hash_list s ?h)) = {q \<in> insert p (set (proc_list s)). pid_hashfn (p_pid (P q)) = ?h}"
      "b \<noteq> ?h \<Longrightarrow> set (hash_list s b) = {q \<in> insert p (set (proc_list s)). pid_hashfn (p_pid (P q)) = b}" for b
      using tb pl by (auto simp: table_ok_def pid)
    ultimately show ?thesis using tb pl by (simp add: table_ok_def)
  qed
  moreover have "family (insert p (members s)) P (kids(?c := p # kids ?c))"
  proof (rule family_link)
    have "kids p = []" using f p(1) by (simp add: family_def)
    then have "family (insert p (members s)) (procs s) kids" using f p(3) by (auto simp: family_def kin_def)
    then show "family (insert p (members s)) Q kids" by (rule family_links) (rule links)
  qed (use nk cm p(2) P(2-4) pf(1) cp links in \<open>auto simp: t_def Q_def same_links_def\<close>)
  moreover have "\<forall>x \<in> insert p (set (proc_list s)). \<exists>q. x \<in> set ((kids(?c := p # kids ?c)) q)"
    using inv by (auto simp: proc_inv_def) (metis list.set_intros(2))+
  moreover have "p \<noteq> idleproc s" using p(1) by (auto simp: members_def)
  ultimately have "proc_inv ?s (kids(?c := p # kids ?c))" using inv cur p(4) pc by (auto simp: proc_inv_def mem st)
  then show ?thesis using that [of P] P(1) t eq st pid by (simp add: entered_def)
qed

section \<open>Creating a process\<close>

text \<open>When \<^verbatim>\<open>do_fork\<close> fails, and what it may rely on: the allocators hand out blocks that are not in use, page
  directories lie in the kernel's part of the address space, and the running process has a file table in use.\<close>

definition fork_fails :: "fork_env \<Rightarrow> u32 \<Rightarrow> 'a sys \<Rightarrow> bool" where
  "fork_fails e clone_flags s \<longleftrightarrow> nr_process s \<ge> MAX_PROCESS \<or> e_proc e = None \<or> e_kstack e = None
     \<or> (clone_flags AND CLONE_FS = 0 \<and> (e_fs e = None \<or> e_dup_fs e \<noteq> 0))
     \<or> (p_mm (procs s (current s)) \<noteq> None \<and> clone_flags AND CLONE_VM = 0
        \<and> (e_mm e = None \<or> e_pgdir e = None \<or> e_dup_mmap e \<noteq> 0))"

definition fork_ok :: "fork_env \<Rightarrow> 'a sys \<Rightarrow> bool" where
  "fork_ok e s \<longleftrightarrow> (\<forall>p. e_proc e = Some p \<longrightarrow> p \<notin> members s)
     \<and> (\<forall>f. e_fs e = Some f \<longrightarrow> f \<notin> set (live_fss s)) \<and> (\<forall>m. e_mm e = Some m \<longrightarrow> m \<notin> set (live_mms s))
     \<and> (\<forall>d. e_pgdir e = Some d \<longrightarrow> d \<ge> 0x80000000)
     \<and> (\<forall>m. p_mm (procs s (current s)) = Some m \<longrightarrow> mm_pgdir s m \<ge> 0x80000000)
     \<and> (\<exists>f. p_fs_struct (procs s (current s)) = Some f \<and> fs_count s f \<noteq> 0)"

definition same_objects :: "'a sys \<Rightarrow> 'a sys \<Rightarrow> bool" where
  "same_objects s s' \<longleftrightarrow> live_procs s' = live_procs s \<and> live_kstacks s' = live_kstacks s \<and> live_mms s' = live_mms s
     \<and> live_pgdirs s' = live_pgdirs s \<and> live_fss s' = live_fss s
     \<and> (\<forall>f \<in> set (live_fss s). fs_count s' f = fs_count s f) \<and> (\<forall>m \<in> set (live_mms s). mm_count s' m = mm_count s m)"

text \<open>The state while the new descriptor \<open>p\<close> is being filled in.\<close>

definition prepared :: "nat \<Rightarrow> 'a sys \<Rightarrow> 'a sys \<Rightarrow> bool" where
  "prepared p s t \<longleftrightarrow> (\<forall>q. q \<noteq> p \<longrightarrow> procs t q = procs s q) \<and> p_state (procs t p) = PROC_UNINIT
     \<and> p_parent (procs t p) = Some (current s) \<and> p_cptr (procs t p) = None
     \<and> proc_list t = proc_list s \<and> hash_list t = hash_list s \<and> nr_process t = nr_process s \<and> pid_vars t = pid_vars s
     \<and> idleproc t = idleproc s \<and> initproc t = initproc s \<and> current t = current s \<and> run_list t = run_list s \<and> proc_num t = proc_num s"

lemma prepared_inv: "proc_inv s kids \<Longrightarrow> p \<notin> members s \<Longrightarrow> prepared p s t \<Longrightarrow> proc_inv t kids"
  by (rule proc_inv_outside) (auto simp: prepared_def)

lemmas fork_defs = alloc_proc_def setup_kstack_def copy_fs_def copy_mm_def use_mm_def put_kstack_def put_fs_def kfree_proc_def
  setup_pgdir_def put_pgdir_def mm_alloc_def mm_free_def PADDR_def Let_def

lemma upd_proc_eq: "upd_proc p f s = s\<lparr>procs := (procs s)(p := f (procs s p))\<rparr>"
  by (simp add: upd_proc_def)

lemma do_fork_fails:
  fixes s :: "'a sys"
  assumes ok: "fork_ok e s" and f: "fork_fails e clone_flags s" and cur: "current s \<in> members s"
  obtains s' where "do_fork e clone_flags stack tf s = Some (if nr_process s \<ge> MAX_PROCESS then - E_NO_FREE_PROC else - E_NO_MEM, s')"
    "same_objects s s'" "s' = s \<or> (\<exists>p. e_proc e = Some p \<and> prepared p s s')"
proof (cases "nr_process s \<ge> MAX_PROCESS \<or> e_proc e = None")
  case True
  then show ?thesis using that [of s] by (auto simp: do_fork_def alloc_proc_def same_objects_def)
next
  case False
  then obtain p where p: "e_proc e = Some p" "p \<notin> members s" "p \<noteq> current s" using ok cur by (auto simp: fork_ok_def)
  obtain g where g: "p_fs_struct (procs s (current s)) = Some g" "fs_count s g \<noteq> 0" using ok by (auto simp: fork_ok_def)
  have "\<exists>s'. do_fork e clone_flags stack tf s = Some (- E_NO_MEM, s') \<and> same_objects s s' \<and> prepared p s s'"
  proof (cases "e_kstack e")
    case None
    then show ?thesis using False p by (simp add: do_fork_def fork_defs same_objects_def prepared_def new_proc_def E_NO_MEM_def)
  next
    case (Some k)
    show ?thesis
    proof (cases "clone_flags AND CLONE_FS = 0 \<and> (e_fs e = None \<or> e_dup_fs e \<noteq> 0)")
      case True
      then show ?thesis using False p g ok Some
        by (cases "e_fs e") (auto simp: do_fork_def fork_defs same_objects_def prepared_def new_proc_def fork_ok_def E_NO_MEM_def)
    next
      case fs: False
      then have mm: "\<exists>m. p_mm (procs s (current s)) = Some m" "clone_flags AND CLONE_VM = 0"
        "e_mm e = None \<or> e_pgdir e = None \<or> e_dup_mmap e \<noteq> 0" using f Some False by (auto simp: fork_fails_def)
      then obtain m where m: "p_mm (procs s (current s)) = Some m" by blast
      show ?thesis
      proof (cases "e_mm e")
        case None
        then show ?thesis using False p g ok Some m mm(2) fs
          by (auto simp: do_fork_def fork_defs same_objects_def prepared_def new_proc_def fork_ok_def E_NO_MEM_def split: option.splits)
      next
        case (Some m')
        then show ?thesis using False p g ok \<open>e_kstack e = Some k\<close> m mm(2,3) fs
          by (cases "e_pgdir e") (auto simp: do_fork_def fork_defs same_objects_def prepared_def new_proc_def fork_ok_def E_NO_MEM_def split: option.splits)
      qed
    qed
  qed
  then show ?thesis using that False p by auto
qed

lemma do_fork_prepares:
  fixes s :: "'a sys"
  assumes ok: "fork_ok e s" and f: "\<not> fork_fails e clone_flags s" and cur: "current s \<in> members s" and p: "e_proc e = Some p"
  obtains t where "do_fork e clone_flags stack tf s = fork_enter p t" "prepared p s t" "live_procs t = p # live_procs s"
    "p_kstack (procs t p) # live_kstacks s = live_kstacks t"
proof -
  obtain k where k: "e_kstack e = Some k" using f by (auto simp: fork_fails_def)
  have pc: "p \<noteq> current s" "\<not> MAX_PROCESS \<le> nr_process s" using ok cur f p by (auto simp: fork_ok_def fork_fails_def)
  obtain g where g: "p_fs_struct (procs s (current s)) = Some g" using ok by (auto simp: fork_ok_def)
  let ?t = "upd_proc p (\<lambda>x. x\<lparr>p_kstack := k\<rparr>) ((upd_proc p (\<lambda>x. x\<lparr>p_parent := Some (current s)\<rparr>)
    (upd_proc p (new_proc (boot_cr3 s)) (s\<lparr>live_procs := p # live_procs s\<rparr>)))\<lparr>live_kstacks := k # live_kstacks s\<rparr>)"
  have "\<exists>u. copy_fs e clone_flags p ?t = Some (0, u) \<and> prepared p s u \<and> live_procs u = p # live_procs s
      \<and> live_kstacks u = k # live_kstacks s \<and> p_kstack (procs u p) = k \<and> mm_pgdir u = mm_pgdir s"
    using f g pc by (cases "e_fs e") (auto simp: fork_fails_def copy_fs_def prepared_def new_proc_def Let_def)
  then obtain u where u: "copy_fs e clone_flags p ?t = Some (0, u)" "prepared p s u" "live_procs u = p # live_procs s"
    "live_kstacks u = k # live_kstacks s" "p_kstack (procs u p) = k" "mm_pgdir u = mm_pgdir s" by blast
  have cu: "current u = current s" "procs u (current s) = procs s (current s)" using u(2) pc by (auto simp: prepared_def)
  have "\<exists>v. copy_mm e clone_flags p u = Some (0, v) \<and> prepared p s v \<and> live_procs v = p # live_procs s
      \<and> live_kstacks v = k # live_kstacks s \<and> p_kstack (procs v p) = k"
  proof (cases "p_mm (procs s (current s))")
    case None
    then show ?thesis using u cu by (simp add: copy_mm_def)
  next
    case (Some m)
    show ?thesis
    proof (cases "clone_flags AND CLONE_VM = 0")
      case False
      then show ?thesis using Some u cu ok by (auto simp: copy_mm_def use_mm_def PADDR_def Let_def fork_ok_def prepared_def)
    next
      case True
      then obtain m' d where "e_mm e = Some m'" "e_pgdir e = Some d" "e_dup_mmap e = 0" using f Some by (auto simp: fork_fails_def)
      then show ?thesis using True Some u cu ok
        by (auto simp: copy_mm_def use_mm_def setup_pgdir_def mm_alloc_def PADDR_def Let_def fork_ok_def prepared_def)
    qed
  qed
  then obtain v where "copy_mm e clone_flags p u = Some (0, v)" "prepared p s v" "live_procs v = p # live_procs s"
    "live_kstacks v = k # live_kstacks s" "p_kstack (procs v p) = k" by blast
  moreover from this u(1) have "do_fork e clone_flags stack tf s = fork_enter p (copy_thread p stack tf v)"
    using pc p k by (simp add: do_fork_def alloc_proc_def setup_kstack_def Let_def)
  ultimately show ?thesis using that [of "copy_thread p stack tf v"] by (simp add: copy_thread_def prepared_def Let_def)
qed

lemma do_fork_succeeds:
  fixes s :: "'a sys"
  assumes inv: "proc_inv s kids" and ok: "fork_ok e s" and f: "\<not> fork_fails e clone_flags s"
    and cur: "p_state (procs s (current s)) \<noteq> PROC_ZOMBIE" and p: "e_proc e = Some p"
  obtains r s' where "do_fork e clone_flags stack tf s = Some (r, s')" "1 \<le> r" "proc_inv s' (kids(current s := p # kids (current s)))"
    "find_proc r s = None" "find_proc r s' = Some p" "p_state (procs s' p) = PROC_RUNNABLE" "current s' = current s"
    "live_procs s' = p # live_procs s" "p_kstack (procs s' p) # live_kstacks s = live_kstacks s'"
proof -
  have cm: "current s \<in> members s" using inv by (simp add: proc_inv_def)
  have pm: "p \<notin> members s" using ok p by (simp add: fork_ok_def)
  obtain t where t: "do_fork e clone_flags stack tf s = fork_enter p t" "prepared p s t" "live_procs t = p # live_procs s"
    "p_kstack (procs t p) # live_kstacks s = live_kstacks t" using do_fork_prepares [OF ok f cm p] by metis
  have it: "proc_inv t kids" by (rule prepared_inv [OF inv pm t(2)])
  have ct: "current t = current s" "members t = members s" "procs t (current s) = procs s (current s)"
    using t(2) cm pm by (auto simp: prepared_def members_def)
  have tb: "table_ok t" "table_ok s" using it inv by (auto simp: proc_inv_def)
  have len: "int (length (proc_list t)) \<le> MAX_PROCESS" using tb(1) t(2) f by (auto simp: table_ok_def prepared_def fork_fails_def)
  let ?pids = "map (\<lambda>q. p_pid (procs t q)) (proc_list t)"
  obtain l n where v: "get_pid ?pids (pid_vars t) = Some (l, n)" "1 \<le> l" "l < MAX_PID" "l \<notin> set ?pids"
    "\<And>qs. set qs \<subseteq> insert l (set ?pids) \<Longrightarrow> pid_inv qs (l, n)"
    using get_pid_spec [of ?pids "fst (pid_vars t)" "snd (pid_vars t)"] tb(1) len by (auto simp: table_ok_def)
  have prem: "p \<notin> members t" "p_parent (procs t p) = Some (current t)" "p_cptr (procs t p) = None" "p_state (procs t p) \<noteq> PROC_RUNNABLE"
    "p_state (procs t (current t)) \<noteq> PROC_ZOMBIE" using t(2) pm ct cur by (auto simp: prepared_def)
  have fresh: "1 \<le> fst (l, n)" "fst (l, n) < MAX_PID" "fst (l, n) \<notin> (\<lambda>q. p_pid (procs t q)) ` set (proc_list t)"
    "pid_inv (fst (l, n) # ?pids) (l, n)" using v(2-4) v(5) [of "l # ?pids"] by simp_all
  obtain P where P: "set_links p (hash_proc p (upd_proc p (\<lambda>x. x\<lparr>p_pid := fst (l, n)\<rparr>) (t\<lparr>pid_vars := (l, n)\<rparr>)))
      = Some (entered p (l, n) P t)" "proc_inv (entered p (l, n) P t) (kids(current t := p # kids (current t)))"
    "\<And>x. p_state (P x) = p_state (procs t x)" "p_pid (P p) = fst (l, n)" "\<And>x. p_wait_state (P x) = p_wait_state (procs t x)"
    "\<And>x. p_mm (P x) = p_mm (procs t x)" "\<And>x. p_fs_struct (P x) = p_fs_struct (procs t x)" "\<And>x. p_kstack (P x) = p_kstack (procs t x)"
    by (rule enter_table [OF it prem fresh]) (rule that)
  let ?u = "entered p (l, n) P t"
  have pu: "p \<in> members ?u" by (simp add: members_def entered_def)
  have "p_state (procs ?u p) \<noteq> PROC_ZOMBIE" using P(3) t(2) by (simp add: entered_def prepared_def)
  then obtain s' where s': "wakeup_proc default_sched_class p ?u = Some s'" "proc_inv s' (kids(current t := p # kids (current t)))"
    "sched.more s' = sched.more ?u" "current s' = current ?u" "\<And>q. same_ident (procs ?u q) (procs s' q)" "p_state (procs s' p) = PROC_RUNNABLE"
    using wakeup_inv [OF P(2) pu] by metis
  have pid: "p_pid (procs s' p) = l" "p_kstack (procs s' p) = p_kstack (procs t p)"
    using same_ident_simps(2,3) [OF s'(5), of p] P(4,8) by (simp_all add: entered_def)
  have d: "do_fork e clone_flags stack tf s = Some (l, s')"
    using v(1) P(1) s'(1) pid by (simp add: t(1) fork_enter_def Let_def)
  have "p \<in> set (proc_list s')" using sys_more(2) [OF s'(3)] by (simp add: entered_def)
  then have "find_proc l s' = Some p" using find_proc_iff [of s' l p] s'(2) pid by (simp add: proc_inv_def)
  moreover have "find_proc l s = None"
  proof -
    have "procs t q = procs s q" if "q \<in> set (proc_list s)" for q using that t(2) pm by (auto simp: prepared_def members_def)
    then have "l \<notin> (\<lambda>q. p_pid (procs s q)) ` set (proc_list s)" using v(4) t(2) by (auto simp: prepared_def image_iff)
    then show ?thesis using find_proc_iff [OF tb(2), of l "the (find_proc l s)"] by (cases "find_proc l s") auto
  qed
  moreover have "live_procs s' = p # live_procs s" "p_kstack (procs s' p) # live_kstacks s = live_kstacks s'"
    using sys_more(6,7) [OF s'(3)] t(3,4) pid by (simp_all add: entered_def)
  moreover have "current s' = current s" using s'(4) ct by (simp add: entered_def)
  ultimately show ?thesis using that [OF d] v(2) s'(2,6) ct by simp
qed

end
