(* ===== verification/Process_End.thy ===== *)
theory Process_End
  imports Process_Life
begin

text \<open>
  The end of a process: \<^verbatim>\<open>do_exit\<close> of \<^verbatim>\<open>kern/process/proc.c\<close> keeps the invariant of the process table. The children are
  handed to the init process one by one; \<open>exit_inv\<close> holds in between.
\<close>

section \<open>Leaving\<close>

lemma proc_inv_fields:
  fixes s :: "'a sys"
  assumes inv: "proc_inv s kids" and P: "\<And>q. same_links (procs s q) (procs s' q) \<and> p_pid (procs s' q) = p_pid (procs s q)
      \<and> p_state (procs s' q) = p_state (procs s q) \<and> p_rq (procs s' q) = p_rq (procs s q)"
    and s': "proc_list s' = proc_list s" "hash_list s' = hash_list s" "nr_process s' = nr_process s" "pid_vars s' = pid_vars s"
      "idleproc s' = idleproc s" "initproc s' = initproc s" "current s' = current s" "run_list s' = run_list s" "proc_num s' = proc_num s"
  shows "proc_inv s' kids"
proof -
  have mem: "members s' = members s" by (simp add: members_def s')
  have "table_ok s'" by (rule table_ok_cong [of s]) (use inv s' P in \<open>auto simp: proc_inv_def\<close>)
  moreover have "family (members s) (procs s') kids" by (rule family_links [of _ "procs s"]) (use inv P in \<open>auto simp: proc_inv_def\<close>)
  moreover have "run_queue_ok s'" using inv P s' by (simp add: proc_inv_def run_queue_ok_def RR_inv_def)
  ultimately show ?thesis using inv P s' mem by (simp add: proc_inv_def)
qed

text \<open>The invariant while \<open>c\<close>, already a zombie, hands on its children.\<close>

definition exit_inv :: "'a sys \<Rightarrow> (nat \<Rightarrow> nat list) \<Rightarrow> nat \<Rightarrow> bool" where
  "exit_inv s kids c \<longleftrightarrow> run_queue_ok s \<and> table_ok s \<and> half_family (members s) (procs s) kids c
     \<and> initproc s \<in> set (proc_list s) \<and> current s = c \<and> c \<in> set (proc_list s) \<and> c \<noteq> initproc s
     \<and> (\<forall>p \<in> set (proc_list s). \<exists>q. p \<in> set (kids q)) \<and> (\<forall>q. idleproc s \<notin> set (kids q))
     \<and> (\<forall>q. q \<notin> set (kids q)) \<and> initproc s \<in> set (kids (idleproc s))
     \<and> (\<forall>p. p \<notin> members s \<longrightarrow> p_state (procs s p) \<noteq> PROC_RUNNABLE)
     \<and> (\<forall>q. q \<noteq> c \<longrightarrow> kids q \<noteq> [] \<longrightarrow> p_state (procs s q) \<noteq> PROC_ZOMBIE)
     \<and> p_state (procs s (initproc s)) \<noteq> PROC_ZOMBIE \<and> p_state (procs s c) = PROC_ZOMBIE"

lemma half_family_links: "half_family L P kids c \<Longrightarrow> (\<And>x. same_links (P x) (P' x)) \<Longrightarrow> half_family L P' kids c"
proof -
  assume f: "half_family L P kids c" and l: "\<And>x. same_links (P x) (P' x)"
  note sl = same_links_simps [OF l]
  have "kin P' q (kids q)" if "q \<in> L" "q \<noteq> c" for q
    by (rule kin_cong [of P]) (use f that in \<open>auto simp: sl half_family_def\<close>)
  moreover have "sibs P' y (kids c) None = sibs P y (kids c) None" for y by (rule sibs_cong) (simp add: sl)
  ultimately show ?thesis using f by (auto simp: half_family_def sl)
qed

lemma wakeup_exit_inv:
  fixes s :: "'a sys"
  assumes inv: "exit_inv s kids c" and p: "p \<in> members s" "p_state (procs s p) \<noteq> PROC_ZOMBIE"
  obtains s' where "wakeup_proc default_sched_class p s = Some s'" "exit_inv s' kids c" "sched.more s' = sched.more s"
    "idleproc s' = idleproc s" "\<And>q. same_ident (procs s q) (procs s' q)" "p_state (procs s' p) = PROC_RUNNABLE"
    "\<And>q. q \<noteq> p \<Longrightarrow> p_state (procs s' q) = p_state (procs s q)"
proof -
  have "run_queue_ok s" using inv by (simp add: exit_inv_def)
  then obtain s' where s': "wakeup_proc default_sched_class p s = Some s'" "run_queue_ok s'" "p_state (procs s' p) = PROC_RUNNABLE"
    "current s' = current s" "idleproc s' = idleproc s" "sched.more s' = sched.more s"
    "\<And>q. q \<noteq> p \<Longrightarrow> p_state (procs s' q) = p_state (procs s q) \<and> p_wait_state (procs s' q) = p_wait_state (procs s q)"
    using rr.wakeup_keeps [unfolded rr_sched_ok, OF _ p(2)] by blast
  note id = same_ident_simps [OF wakeup_ident [OF s'(1)]]
  have st: "p_state (procs s' q) = (if q = p then PROC_RUNNABLE else p_state (procs s q))" for q using s'(3,7) by simp
  have mem: "members s' = members s" using sys_more(2) [OF s'(6)] s'(5) by (simp add: members_def)
  have "table_ok s'" by (rule table_ok_cong [of s]) (use inv sys_more [OF s'(6)] s'(5) id(2) in \<open>auto simp: exit_inv_def\<close>)
  moreover have "half_family (members s) (procs s') kids c"
    by (rule half_family_links [of _ "procs s"]) (use inv id(1) in \<open>auto simp: exit_inv_def\<close>)
  ultimately have "exit_inv s' kids c" using inv s'(2,4,5) mem p sys_more [OF s'(6)] by (auto simp: exit_inv_def st)
  then show ?thesis by (rule that [OF s'(1) _ s'(6,5) wakeup_ident [OF s'(1)] s'(3)]) (use s'(7) in auto)
qed

lemma hand_on_simps:
  fixes s :: "'a sys"
  shows "sched.more (hand_on p s) = sched.more s" "current (hand_on p s) = current s" "idleproc (hand_on p s) = idleproc s"
    "run_list (hand_on p s) = run_list s" "proc_num (hand_on p s) = proc_num s"
  by (simp_all add: hand_on_def Let_def split: option.split)

lemma hand_on_procs:
  assumes "p \<noteq> current s" "p \<noteq> initproc s" "current s \<noteq> initproc s" "p_cptr (procs s (initproc s)) \<noteq> Some p"
  defines "P' \<equiv> procs (hand_on p s)"
  shows "p_yptr (P' x) = (if x = p then None else if p_cptr (procs s (initproc s)) = Some x then Some p else p_yptr (procs s x))"
    "p_optr (P' x) = (if x = p then p_cptr (procs s (initproc s)) else p_optr (procs s x))"
    "p_cptr (P' x) = (if x = initproc s then Some p else if x = current s then p_optr (procs s p) else p_cptr (procs s x))"
    "p_parent (P' x) = (if x = p then Some (initproc s) else p_parent (procs s x))"
    "p_state (P' x) = p_state (procs s x)" "p_pid (P' x) = p_pid (procs s x)" "p_rq (P' x) = p_rq (procs s x)"
    "p_wait_state (P' x) = p_wait_state (procs s x)" "p_exit_code (P' x) = p_exit_code (procs s x)" "p_kstack (P' x) = p_kstack (procs s x)"
  using assms by (auto simp: hand_on_def Let_def split: option.split)

lemma reparent_loop_ends:
  fixes s :: "'a sys"
  assumes "exit_inv s kids c" "kids c = ps"
  shows "\<exists>s'. reparent_loop s = Some s' \<and> exit_inv s' (kids(c := [], initproc s := rev ps @ kids (initproc s))) c
    \<and> sched.more s' = sched.more s \<and> idleproc s' = idleproc s
    \<and> (\<forall>q. p_exit_code (procs s' q) = p_exit_code (procs s q) \<and> p_pid (procs s' q) = p_pid (procs s q) \<and> p_kstack (procs s' q) = p_kstack (procs s q)
         \<and> (q \<noteq> initproc s \<longrightarrow> p_state (procs s' q) = p_state (procs s q)))
    \<and> p_state (procs s' (initproc s)) \<in> {p_state (procs s (initproc s)), PROC_RUNNABLE}"
  using assms
proof (induction ps arbitrary: s kids)
  case Nil
  then have "p_cptr (procs s (current s)) = None" by (auto simp: exit_inv_def half_family_def)
  then have "reparent_loop s = Some s" by (subst reparent_loop.simps) simp
  moreover have "kids(c := [], initproc s := kids (initproc s)) = kids" using Nil.prems(2) by auto
  ultimately show ?case using Nil.prems by (simp del: fun_upd_apply)
next
  case (Cons p ps)
  let ?i = "initproc s" and ?t = "hand_on p s" and ?k = "kids(c := ps, initproc s := p # kids (initproc s))"
  have hf: "half_family (members s) (procs s) kids c" and c: "current s = c" "c \<noteq> ?i" "c \<in> members s" "?i \<in> members s"
    using Cons.prems(1) by (auto simp: exit_inv_def members_def)
  have pp: "p_parent (procs s p) = Some c" "p \<in> members s" using hf Cons.prems(2) c(3) by (auto simp: half_family_def)
  have pi: "p \<noteq> c" "p \<noteq> ?i"
  proof -
    show "p \<noteq> c" using Cons.prems by (metis exit_inv_def list.set_intros(1))
    have "p_parent (procs s ?i) = Some (idleproc s)" "c \<noteq> idleproc s"
      using Cons.prems(1) half_family_parent [OF hf] by (auto simp: exit_inv_def table_ok_def)
    then show "p \<noteq> ?i" using pp(1) by auto
  qed
  have ci: "p_cptr (procs s ?i) = hd_opt (kids ?i)" "p_optr (procs s p) = hd_opt ps"
    using hf c Cons.prems(2) by (auto simp: half_family_def kin_def)
  have "p \<notin> set (kids ?i)" using half_family_parent [OF hf, of p ?i] pp(1) c(2) by auto
  then have "p_cptr (procs s ?i) \<noteq> Some p" unfolding ci by (auto split: list.splits)
  note P = hand_on_procs [of p s, unfolded c(1), OF pi c(2) this] and R = hand_on_simps [of p s]
  have mt: "members ?t = members s" using sys_more [OF R(1)] R(3) by (simp add: members_def)
  have it: "exit_inv ?t ?k c"
  proof -
    have "half_family (members s) (procs ?t) ?k c"
      by (rule half_family_step [OF hf c(3,4,2) Cons.prems(2)]) (simp_all add: P ci)
    moreover have "table_ok ?t" by (rule table_ok_cong [of s]) (use Cons.prems(1) sys_more [OF R(1)] R P in \<open>auto simp: exit_inv_def\<close>)
    moreover have "run_queue_ok ?t" using Cons.prems(1) R P by (simp add: exit_inv_def run_queue_ok_def RR_inv_def)
    moreover have "\<exists>q. x \<in> set (?k q)" if x: "x \<in> set (proc_list s)" for x
    proof -
      obtain q where "x \<in> set (kids q)" using x Cons.prems(1) by (auto simp: exit_inv_def)
      then show ?thesis using Cons.prems(2) c(2) by (cases "q = c"; cases "q = ?i"; cases "x = p") (auto intro: exI [of _ ?i] exI [of _ c] exI [of _ q])
    qed
    moreover have "idleproc s \<notin> set (p # ps)" "c \<notin> set (p # ps)" using Cons.prems by (metis exit_inv_def)+
    moreover have "idleproc s \<notin> set (?k q)" "q \<notin> set (?k q)" for q
      using Cons.prems(1) calculation(5,6) pi by (auto simp: exit_inv_def)
    moreover have "?i \<in> set (?k (idleproc s))" using Cons.prems(1) by (auto simp: exit_inv_def table_ok_def)
    ultimately show ?thesis using Cons.prems c sys_more(1,2) [OF R(1)] R(2,3)
      by (simp add: exit_inv_def mt P del: fun_upd_apply) (simp add: exit_inv_def)
  qed
  let ?w = "if p_state (procs ?t p) = PROC_ZOMBIE \<and> p_wait_state (procs ?t ?i) = WT_CHILD then wakeup_proc default_sched_class ?i ?t else Some ?t"
  have "\<exists>u. ?w = Some u \<and> exit_inv u ?k c \<and> sched.more u = sched.more s \<and> idleproc u = idleproc s \<and> (\<forall>q. same_ident (procs ?t q) (procs u q))
      \<and> (\<forall>q. q \<noteq> ?i \<longrightarrow> p_state (procs u q) = p_state (procs ?t q)) \<and> p_state (procs u ?i) \<in> {p_state (procs ?t ?i), PROC_RUNNABLE}"
  proof (cases "p_state (procs ?t p) = PROC_ZOMBIE \<and> p_wait_state (procs ?t ?i) = WT_CHILD")
    case True
    have "?i \<in> members ?t" "p_state (procs ?t ?i) \<noteq> PROC_ZOMBIE" using c(4) mt it sys_more [OF R(1)] by (auto simp: exit_inv_def)
    then show ?thesis using wakeup_exit_inv [OF it, of ?i] True R(1,3) by (metis insert_iff)
  next
    case False
    then show ?thesis using it R(1,3) by auto
  qed
  then obtain u where u: "?w = Some u" "exit_inv u ?k c" "sched.more u = sched.more s" "idleproc u = idleproc s"
    "\<And>q. same_ident (procs ?t q) (procs u q)" "\<And>q. q \<noteq> ?i \<Longrightarrow> p_state (procs u q) = p_state (procs ?t q)"
    "p_state (procs u ?i) \<in> {p_state (procs ?t ?i), PROC_RUNNABLE}" by blast
  have iu: "initproc u = ?i" using sys_more(1) [OF u(3)] .
  have kk: "?k(c := [], initproc u := rev ps @ ?k (initproc u)) = kids(c := [], ?i := rev (p # ps) @ kids ?i)"
    using c(2) iu by auto
  have "p_cptr (procs s c) = Some p" using hf Cons.prems(2) by (simp add: half_family_def)
  then have "reparent_loop s = reparent_loop u"
    using u(1) c(1) sys_more(1) [OF R(1)] by (subst reparent_loop.simps) (auto simp: Let_def split: if_splits)
  moreover have "?k c = ps" using c(2) by simp
  note ih = Cons.IH [OF u(2) this, unfolded kk]
  ultimately show ?case using ih same_ident_simps(2,3,4) [OF u(5)] u(3,4,6,7) iu by (auto simp: P simp del: fun_upd_apply)
qed

lemma drop_put_simps:
  fixes s :: "'a sys" and p
  defines "t \<equiv> put_fs p (drop_mm p s)"
  shows "same_links (procs s q) (procs t q)" "p_pid (procs t q) = p_pid (procs s q)" "p_state (procs t q) = p_state (procs s q)"
    "p_rq (procs t q) = p_rq (procs s q)" "p_wait_state (procs t q) = p_wait_state (procs s q)" "p_parent (procs t q) = p_parent (procs s q)"
    "proc_list t = proc_list s" "hash_list t = hash_list s" "nr_process t = nr_process s" "pid_vars t = pid_vars s"
    "idleproc t = idleproc s" "initproc t = initproc s" "current t = current s" "run_list t = run_list s" "proc_num t = proc_num s"
    "p_mm (procs t p) = None"
  by (auto simp: t_def put_fs_def drop_mm_def put_pgdir_def mm_free_def same_links_def Let_def split: option.split)

lemma current_drop_put: "current (drop_mm p s) = current s" "current (put_fs p s) = current s"
  by (auto simp: put_fs_def drop_mm_def put_pgdir_def mm_free_def Let_def split: option.split)

lemma exit_inv_start:
  fixes s :: "'a sys"
  assumes inv: "proc_inv s kids" and c: "c = current s" "c \<noteq> idleproc s" "c \<noteq> initproc s"
  shows "exit_inv (upd_proc c (\<lambda>x. x\<lparr>p_exit_code := e\<rparr>) (upd_proc c (\<lambda>x. x\<lparr>p_state := PROC_ZOMBIE\<rparr>) s)) kids c" (is "exit_inv ?t kids c")
proof -
  have mt: "members ?t = members s" by (simp add: members_def)
  have cm: "c \<in> members s" "c \<in> set (proc_list s)" using inv c by (auto simp: proc_inv_def members_def)
  have "half_family (members s) (procs s) kids c" using inv cm by (intro family_half) (auto simp: proc_inv_def)
  then have "half_family (members s) (procs ?t) kids c" by (rule half_family_links) (simp add: same_links_def)
  moreover have "table_ok ?t" by (rule table_ok_cong [of s]) (use inv in \<open>auto simp: proc_inv_def\<close>)
  moreover have "run_queue_ok ?t" using inv c(1) by (auto simp: proc_inv_def run_queue_ok_def RR_inv_def)
  ultimately show ?thesis using inv c cm mt by (simp add: exit_inv_def proc_inv_def)
qed

lemma exit_inv_done:
  fixes s :: "'a sys"
  assumes "exit_inv s kids c" "kids c = []"
  shows "proc_inv s kids"
proof -
  have "p_state (procs s q) \<noteq> PROC_ZOMBIE" if "kids q \<noteq> []" for q using assms that by (metis exit_inv_def)
  then show ?thesis using assms half_family_done [of "members s" "procs s" kids c] by (simp add: exit_inv_def proc_inv_def members_def)
qed

lemma do_exit_spec:
  fixes s :: "'a sys"
  assumes inv: "proc_inv s kids" and c: "c = current s" "c \<noteq> idleproc s" "c \<noteq> initproc s"
  obtains s' where "do_exit e s = Some s'" "proc_inv s' (kids(c := [], initproc s := rev (kids c) @ kids (initproc s)))"
    "p_state (procs s' c) = PROC_ZOMBIE" "p_exit_code (procs s' c) = e" "current s' \<noteq> c"
    "\<And>q. p_parent (procs s c) = Some q \<Longrightarrow> p_wait_state (procs s q) = WT_CHILD \<Longrightarrow> p_state (procs s' q) = PROC_RUNNABLE"
    "proc_list s' = proc_list s" "\<And>q. p_pid (procs s' q) = p_pid (procs s q)"
proof -
  let ?i = "initproc s"
  define t where "t = put_fs c (drop_mm c s)"
  note T = drop_put_simps [where p = c and s = s, folded t_def]
  have it: "proc_inv t kids" by (rule proc_inv_fields [OF inv]) (simp_all add: T)
  define u where "u = upd_proc c (\<lambda>x. x\<lparr>p_exit_code := e\<rparr>) (upd_proc c (\<lambda>x. x\<lparr>p_state := PROC_ZOMBIE\<rparr>) t)"
  have iu: "exit_inv u kids c" unfolding u_def by (rule exit_inv_start [OF it]) (use c T in simp_all)
  have U: "initproc u = ?i" "current u = c" "idleproc u = idleproc s" "proc_list u = proc_list s" "p_wait_state (procs u q) = p_wait_state (procs s q)"
    "p_parent (procs u q) = p_parent (procs s q)" "p_pid (procs u q) = p_pid (procs s q)"
    "p_state (procs u q) = (if q = c then PROC_ZOMBIE else p_state (procs s q))" "p_exit_code (procs u c) = e" for q
    using c(1) T by (auto simp: u_def)
  obtain q where q: "c \<in> set (kids q)" using inv c by (auto simp: proc_inv_def members_def)
  have f: "family (members s) (procs s) kids" using inv by (simp add: proc_inv_def)
  have "kids q \<noteq> []" using q by auto
  then have pq: "p_parent (procs s c) = Some q" "q \<in> members s" "q \<noteq> c" "p_state (procs s q) \<noteq> PROC_ZOMBIE"
    using family_parent [OF f q] q inv by (auto simp: proc_inv_def)
  have mu: "members u = members s" using U by (simp add: members_def)
  let ?w = "if p_wait_state (procs u q) = WT_CHILD then wakeup_proc default_sched_class q u else Some u"
  have "\<exists>v. ?w = Some v \<and> exit_inv v kids c \<and> sched.more v = sched.more u \<and> (\<forall>x. same_ident (procs u x) (procs v x))
     \<and> (p_wait_state (procs s q) = WT_CHILD \<longrightarrow> p_state (procs v q) = PROC_RUNNABLE)"
  proof (cases "p_wait_state (procs u q) = WT_CHILD")
    case True
    have "q \<in> members u" "p_state (procs u q) \<noteq> PROC_ZOMBIE" using pq mu U(8) by auto
    then show ?thesis using True wakeup_exit_inv [OF iu] by metis
  next
    case False
    then show ?thesis using iu U(5) by auto
  qed
  then obtain v where v: "?w = Some v" "exit_inv v kids c" "sched.more v = sched.more u" "\<And>x. same_ident (procs u x) (procs v x)"
    "p_wait_state (procs s q) = WT_CHILD \<Longrightarrow> p_state (procs v q) = PROC_RUNNABLE" by blast
  note V = sys_more(1,2) [OF v(3)] and iv = same_ident_simps(2,4) [OF v(4)]
  let ?k = "kids(c := [], ?i := rev (kids c) @ kids ?i)"
  obtain w where w: "reparent_loop v = Some w" "exit_inv w ?k c" "sched.more w = sched.more v"
    "\<And>x. p_exit_code (procs w x) = p_exit_code (procs v x) \<and> p_pid (procs w x) = p_pid (procs v x)
      \<and> (x \<noteq> ?i \<longrightarrow> p_state (procs w x) = p_state (procs v x))" "p_state (procs w ?i) \<in> {p_state (procs v ?i), PROC_RUNNABLE}"
    using reparent_loop_ends [OF v(2) refl] V U(1) by auto
  have iw: "proc_inv w ?k" by (rule exit_inv_done [OF w(2)]) (use c(3) in simp)
  obtain s' where s': "schedule default_sched_class w = Some s'" "proc_inv s' ?k" "sched.more s' = sched.more w"
    "idleproc s' = idleproc w" "\<And>q. same_ident (procs w q) (procs s' q)"
    "\<And>q. p_state (procs s' q) = p_state (procs w q) \<and> p_wait_state (procs s' q) = p_wait_state (procs w q)"
    "current s' = idleproc w \<or> p_state (procs w (current s')) = PROC_RUNNABLE" by (rule schedule_inv [OF iw]) (rule that)
  have d: "do_exit e s = Some s'"
    using c pq(1) v(1) w(1) s'(1) unfolding u_def t_def
    by (auto simp: do_exit_def Let_def current_drop_put drop_put_simps(6) split: if_splits)
  have zw: "p_state (procs w c) = PROC_ZOMBIE" using w(2) by (simp add: exit_inv_def)
  have id: "idleproc w \<noteq> c" using w(2) by (auto simp: exit_inv_def table_ok_def)
  show ?thesis
  proof (rule that [OF d s'(2)])
    show "p_state (procs s' c) = PROC_ZOMBIE" using zw s'(6) by simp
    show "p_exit_code (procs s' c) = e" using same_ident_simps(4) [OF s'(5)] w(4) iv(2) U(9) by simp
    show "current s' \<noteq> c" using s'(7) zw id by auto
    show "p_state (procs s' x) = PROC_RUNNABLE" if "p_parent (procs s c) = Some x" "p_wait_state (procs s x) = WT_CHILD" for x
      using that pq(1) v(5) w(4,5) s'(6) by (cases "x = ?i") auto
    show "proc_list s' = proc_list s" using sys_more(2) [OF s'(3)] sys_more(2) [OF w(3)] V(2) U(4) by simp
    show "p_pid (procs s' x) = p_pid (procs s x)" for x using same_ident_simps(2) [OF s'(5)] w(4) iv(1) U(7) by simp
  qed
qed

end
