(* ===== verification/Process_Wait.thy ===== *)
theory Process_Wait
  imports Process_End
begin

text \<open>
  Waiting for children and signals: \<^verbatim>\<open>do_wait\<close> and \<^verbatim>\<open>do_kill\<close> of \<^verbatim>\<open>kern/process/proc.c\<close> over the invariant of the process
  table, and the properties of the process component.
\<close>

section \<open>Reaping a child\<close>

lemma zombie_child_find:
  assumes "sibs (procs s) y cs None"
  shows "zombie_child (hd_opt cs) s = Some (List.find (\<lambda>c. p_state (procs s c) = PROC_ZOMBIE) cs)"
  using assms
proof (induction cs arbitrary: y)
  case Nil
  then show ?case by (subst zombie_child.simps) simp
next
  case (Cons c cs)
  then have "p_optr (procs s c) = hd_opt cs" "zombie_child (hd_opt cs) s = Some (List.find (\<lambda>c. p_state (procs s c) = PROC_ZOMBIE) cs)"
    by auto
  then show ?case by (subst zombie_child.simps) simp
qed

lemma kin_middle:
  assumes "kin P q (xs @ p # ys)"
  shows "p_optr (P p) = hd_opt ys" "p_yptr (P p) = (if xs = [] then None else Some (last xs))" "p_parent (P p) = Some q"
  using assms by (auto simp: kin_def sibs_append)

lemma remove_links_eq:
  fixes s :: "'a sys"
  assumes k: "kin (procs s) q (xs @ p # ys)" and q: "q \<noteq> p"
  obtains P where "remove_links p s = Some (s\<lparr>procs := P, proc_list := remove1 p (proc_list s), nr_process := nr_process s - 1\<rparr>)"
    "\<And>x. p_yptr (P x) = (if hd_opt ys = Some x then (if xs = [] then None else Some (last xs)) else p_yptr (procs s x))"
    "\<And>x. p_optr (P x) = (if xs \<noteq> [] \<and> x = last xs then hd_opt ys else p_optr (procs s x))"
    "\<And>x. p_cptr (P x) = (if xs = [] \<and> x = q then hd_opt ys else p_cptr (procs s x))"
    "\<And>x. P x = (procs s x)\<lparr>p_yptr := p_yptr (P x), p_optr := p_optr (P x), p_cptr := p_cptr (P x)\<rparr>"
proof -
  note m = kin_middle [OF k]
  have d: "hd_opt ys \<noteq> Some p" using k by (cases ys) (auto simp: kin_def)
  define P1 where "P1 = (case hd_opt ys of Some x \<Rightarrow> (procs s)(x := (procs s x)\<lparr>p_yptr := p_yptr (procs s p)\<rparr>) | None \<Rightarrow> procs s)"
  define P where "P = (if xs = [] then P1(q := (P1 q)\<lparr>p_cptr := hd_opt ys\<rparr>) else P1(last xs := (P1 (last xs))\<lparr>p_optr := hd_opt ys\<rparr>))"
  have "remove_links p s = Some (s\<lparr>procs := P, proc_list := remove1 p (proc_list s), nr_process := nr_process s - 1\<rparr>)"
    using m d q by (cases s; cases ys) (auto simp: remove_links_def Let_def upd_proc_def P_def P1_def)
  moreover have "p_yptr (P x) = (if hd_opt ys = Some x then (if xs = [] then None else Some (last xs)) else p_yptr (procs s x))" for x
    using m by (cases ys) (auto simp: P_def P1_def)
  moreover have "p_optr (P x) = (if xs \<noteq> [] \<and> x = last xs then hd_opt ys else p_optr (procs s x))" for x
    by (cases ys) (auto simp: P_def P1_def)
  moreover have "p_cptr (P x) = (if xs = [] \<and> x = q then hd_opt ys else p_cptr (procs s x))" for x
    by (cases ys) (auto simp: P_def P1_def)
  moreover have "P x = (procs s x)\<lparr>p_yptr := p_yptr (P x), p_optr := p_optr (P x), p_cptr := p_cptr (P x)\<rparr>" for x
    by (cases ys; cases "xs = []") (simp_all add: P_def P1_def)
  ultimately show ?thesis by (rule that)
qed

lemma pid_inv_subset: "pid_inv ps v \<Longrightarrow> set qs \<subseteq> set ps \<Longrightarrow> pid_inv qs v"
  by (auto simp: pid_inv_def split: prod.splits)

lemma table_ok_remove:
  fixes s :: "'a sys"
  assumes t: "table_ok s" and p: "p \<in> set (proc_list s)"
    and s': "proc_list s' = remove1 p (proc_list s)" "nr_process s' = nr_process s - 1" "hash_list s' = (\<lambda>b. remove1 p (hash_list s b))"
      "pid_vars s' = pid_vars s" "idleproc s' = idleproc s" "\<And>x. p_pid (procs s' x) = p_pid (procs s x)"
  shows "table_ok s'"
proof -
  have d: "distinct (proc_list s)" using t by (simp add: table_ok_def)
  have "pid_inv (map (\<lambda>x. p_pid (procs s x)) (remove1 p (proc_list s))) (pid_vars s)"
    by (rule pid_inv_subset [of "map (\<lambda>x. p_pid (procs s x)) (proc_list s)"]) (use t d in \<open>auto simp: table_ok_def\<close>)
  moreover have "int (length (proc_list s)) = int (length (remove1 p (proc_list s))) + 1" by (rule int_length_remove1 [OF p])
  moreover have "set (remove1 p (hash_list s b)) = {x \<in> set (proc_list s) - {p}. pid_hashfn (p_pid (procs s x)) = b}" for b
    using t by (auto simp: table_ok_def)
  ultimately show ?thesis using t d by (auto simp: table_ok_def s' intro: inj_on_subset)
qed

lemma reap_spec:
  fixes s :: "'a sys"
  assumes inv: "proc_inv s kids" and p: "p \<in> set (kids (current s))" "p_state (procs s p) = PROC_ZOMBIE"
  obtains s' where "reap keep p s = Some (Reaped (if keep then Some (p_exit_code (procs s p)) else None), s')"
    "proc_inv s' (kids(current s := remove1 p (kids (current s))))" "find_proc (p_pid (procs s p)) s' = None"
    "live_procs s' = remove1 p (live_procs s)" "live_kstacks s' = remove1 (p_kstack (procs s p)) (live_kstacks s)"
    "current s' = current s" "set (proc_list s') = set (proc_list s) - {p}"
proof -
  let ?q = "current s"
  have f: "family (members s) (procs s) kids" using inv by (simp add: proc_inv_def)
  have pm: "p \<in> members s" "?q \<in> members s" using family_parent [OF f p(1)] by auto
  have pn: "p \<noteq> idleproc s" "p \<noteq> initproc s" "p \<noteq> ?q" "kids p = []" using inv p by (auto simp: proc_inv_def)
  then have pl: "p \<in> set (proc_list s)" using pm by (simp add: members_def)
  obtain xs ys where l: "kids ?q = xs @ p # ys" using p(1) by (meson split_list)
  have k: "kin (procs s) ?q (xs @ p # ys)" using f pm(2) l by (metis family_def)
  have r1: "remove1 p (kids ?q) = xs @ ys" using k l by (simp add: kin_def remove1_append)
  let ?u = "unhash_proc p s"
  have u: "procs ?u = procs s" "proc_list ?u = proc_list s" "nr_process ?u = nr_process s" by (simp_all add: unhash_proc_def)
  have ku: "kin (procs ?u) ?q (xs @ p # ys)" "?q \<noteq> p" using k pn(3) u by auto
  obtain P where
    P: "remove_links p ?u = Some (?u\<lparr>procs := P, proc_list := remove1 p (proc_list s), nr_process := nr_process s - 1\<rparr>)"
    "\<And>x. p_yptr (P x) = (if hd_opt ys = Some x then (if xs = [] then None else Some (last xs)) else p_yptr (procs s x))"
    "\<And>x. p_optr (P x) = (if xs \<noteq> [] \<and> x = last xs then hd_opt ys else p_optr (procs s x))"
    "\<And>x. p_cptr (P x) = (if xs = [] \<and> x = ?q then hd_opt ys else p_cptr (procs s x))"
    "\<And>x. P x = (procs s x)\<lparr>p_yptr := p_yptr (P x), p_optr := p_optr (P x), p_cptr := p_cptr (P x)\<rparr>"
    by (rule remove_links_eq [OF ku, unfolded u]) (rule that)
  note pf = link_fields [OF P(5)]
  define s' where "s' = kfree_proc p (put_kstack p (?u\<lparr>procs := P, proc_list := remove1 p (proc_list s), nr_process := nr_process s - 1\<rparr>))"
  have S: "procs s' = P" "proc_list s' = remove1 p (proc_list s)" "nr_process s' = nr_process s - 1"
    "hash_list s' = (\<lambda>b. remove1 p (hash_list s b))" "pid_vars s' = pid_vars s" "idleproc s' = idleproc s" "initproc s' = initproc s"
    "current s' = ?q" "run_list s' = run_list s" "proc_num s' = proc_num s" "live_procs s' = remove1 p (live_procs s)"
    "live_kstacks s' = remove1 (p_kstack (procs s p)) (live_kstacks s)"
    by (simp_all add: s'_def kfree_proc_def put_kstack_def unhash_proc_def pf)
  have d: "distinct (proc_list s)" "idleproc s \<notin> set (proc_list s)" using inv by (auto simp: proc_inv_def table_ok_def)
  then have mem: "members s' = members s - {p}" using pn(1) by (auto simp: members_def S)
  have "table_ok s'" by (rule table_ok_remove [OF _ pl]) (use inv in \<open>simp_all add: S pf proc_inv_def\<close>)
  moreover have "run_queue_ok s'" using inv by (simp add: proc_inv_def run_queue_ok_def RR_inv_def S pf)
  moreover have "family (members s - {p}) P (kids(?q := xs @ ys))"
  proof -
    have F: "family (members s) P (kids(?q := xs @ ys))"
      by (rule family_unlink [OF f pm(2) l]) (simp_all add: P(2-4) pf)
    have "p \<notin> set (xs @ ys)" using k by (auto simp: kin_def)
    moreover have "p \<notin> set (kids r)" if "r \<noteq> ?q" for r using family_parent [OF f, of p r] family_parent [OF f p(1)] that by auto
    ultimately show ?thesis using F pn(3,4) by (auto simp: family_def split: if_splits)
  qed
  moreover have "\<exists>q. x \<in> set ((kids(?q := xs @ ys)) q)" if x: "x \<in> set (proc_list s) - {p}" for x
  proof -
    obtain r where "x \<in> set (kids r)" using x inv by (auto simp: proc_inv_def)
    then show ?thesis using x l by (cases "r = ?q") (auto intro: exI [of _ r])
  qed
  moreover have "idleproc s \<notin> set ((kids(?q := xs @ ys)) r)" "r \<notin> set ((kids(?q := xs @ ys)) r)"
    "(kids(?q := xs @ ys)) r \<noteq> [] \<Longrightarrow> kids r \<noteq> []" for r
  proof -
    have "set ((kids(?q := xs @ ys)) r) \<subseteq> set (kids r)" using l by auto
    moreover have "idleproc s \<notin> set (kids r)" "r \<notin> set (kids r)" using inv by (auto simp: proc_inv_def)
    ultimately show "idleproc s \<notin> set ((kids(?q := xs @ ys)) r)" "r \<notin> set ((kids(?q := xs @ ys)) r)" by blast+
    show "(kids(?q := xs @ ys)) r \<noteq> [] \<Longrightarrow> kids r \<noteq> []" using l by (cases "r = ?q") auto
  qed
  moreover have "initproc s \<in> set ((kids(?q := xs @ ys)) (idleproc s))" using inv l pn(2) by (auto simp: proc_inv_def)
  moreover have "p_state (procs s x) \<noteq> PROC_RUNNABLE" if "x \<notin> members s - {p}" for x
    using that inv p(2) by (cases "x = p") (auto simp: proc_inv_def)
  moreover have "p_state (procs s r) \<noteq> PROC_ZOMBIE" if "kids r \<noteq> []" for r using that inv by (simp add: proc_inv_def)
  ultimately have i: "proc_inv s' (kids(?q := xs @ ys))"
    using inv pn pm mem d by (simp add: proc_inv_def S pf del: fun_upd_apply)
  have "find_proc (p_pid (procs s p)) s' \<noteq> Some x" for x
  proof
    assume "find_proc (p_pid (procs s p)) s' = Some x"
    then have "x \<in> set (proc_list s')" "p_pid (procs s' x) = p_pid (procs s p)"
      using find_proc_iff [of s' "p_pid (procs s p)" x] i by (auto simp: proc_inv_def)
    then have "x \<in> set (proc_list s)" "x \<noteq> p" "p_pid (procs s x) = p_pid (procs s p)" using d by (auto simp: S pf)
    then show False using pl inv by (auto simp: proc_inv_def table_ok_def inj_on_def)
  qed
  then have "find_proc (p_pid (procs s p)) s' = None" by (cases "find_proc (p_pid (procs s p)) s'") auto
  moreover have "reap keep p s = Some (Reaped (if keep then Some (p_exit_code (procs s p)) else None), s')"
    using pn P(1) by (simp add: reap_def s'_def Let_def)
  ultimately show ?thesis using that [of s'] i r1 S d by simp
qed

section \<open>Waiting\<close>

text \<open>The children a call of \<^verbatim>\<open>do_wait\<close> is about.\<close>

definition candidates :: "int \<Rightarrow> nat list \<Rightarrow> 'a sys \<Rightarrow> nat list" where
  "candidates pid cs s = (if pid = 0 then cs else filter (\<lambda>c. p_pid (procs s c) = pid) cs)"

lemma filter_single:
  assumes "distinct xs" "x \<in> set xs" "P x" "\<And>y. y \<in> set xs \<Longrightarrow> P y \<Longrightarrow> y = x"
  shows "filter P xs = [x]"
proof -
  obtain ys zs where xs: "xs = ys @ x # zs" using assms(2) by (meson split_list)
  have "\<not> P y" if "y \<in> set ys \<union> set zs" for y using assms(4) [of y] that assms(1) xs by auto
  then show ?thesis using assms(3) xs by (simp add: filter_empty_conv)
qed

lemma wait_search_candidates:
  fixes s :: "'a sys" and pid
  assumes inv: "proc_inv s kids"
  defines "cs \<equiv> candidates pid (kids (current s)) s"
  shows "wait_search pid s = Some (cs \<noteq> [], List.find (\<lambda>c. p_state (procs s c) = PROC_ZOMBIE) cs)"
proof (cases "pid = 0")
  case True
  have "kin (procs s) (current s) (kids (current s))" using inv by (simp add: proc_inv_def family_def)
  then show ?thesis using True zombie_child_find [of s None "kids (current s)"]
    by (simp add: wait_search_def cs_def candidates_def kin_def split: list.split)
next
  case False
  have f: "family (members s) (procs s) kids" and t: "table_ok s" using inv by (auto simp: proc_inv_def)
  have kl: "c \<in> set (proc_list s)" if "c \<in> set (kids (current s))" for c
    using family_parent [OF f that] inv that by (auto simp: proc_inv_def members_def)
  show ?thesis
  proof (cases "\<exists>p. find_proc pid s = Some p \<and> p_parent (procs s p) = Some (current s)")
    case True
    then obtain p where p: "find_proc pid s = Some p" "p_parent (procs s p) = Some (current s)" by blast
    then have pp: "p \<in> set (proc_list s)" "p_pid (procs s p) = pid" using find_proc_iff [OF t] by auto
    then obtain q where "p \<in> set (kids q)" using inv by (auto simp: proc_inv_def)
    then have pk: "p \<in> set (kids (current s))" using family_parent [OF f] p(2) by force
    have "cs = [p]" unfolding cs_def candidates_def using False
    proof (simp, intro filter_single)
      show "distinct (kids (current s))" using inv by (simp add: proc_inv_def family_def kin_def)
      show "y = p" if "y \<in> set (kids (current s))" "p_pid (procs s y) = pid" for y
        using that kl pp t by (auto simp: table_ok_def inj_on_def)
    qed (use pk pp in auto)
    then show ?thesis using False p by (simp add: wait_search_def)
  next
    case no: False
    have "cs = []"
    proof (rule ccontr)
      assume "cs \<noteq> []"
      then obtain c where "c \<in> set cs" using hd_in_set by blast
      then have c: "c \<in> set (kids (current s))" "p_pid (procs s c) = pid" using False by (auto simp: cs_def candidates_def)
      then have "find_proc pid s = Some c" using find_proc_iff [OF t] kl by simp
      then show False using no family_parent [OF f c(1)] by blast
    qed
    then show ?thesis using False no by (auto simp: wait_search_def split: option.split)
  qed
qed

lemma block_inv:
  fixes s :: "'a sys"
  assumes inv: "proc_inv s kids" and c: "c = current s" "c \<noteq> idleproc s"
  obtains s' where "schedule default_sched_class (upd_proc c (\<lambda>x. x\<lparr>p_wait_state := w\<rparr>) (upd_proc c (\<lambda>x. x\<lparr>p_state := PROC_SLEEPING\<rparr>) s)) = Some s'"
    "proc_inv s' kids" "p_state (procs s' c) = PROC_SLEEPING" "p_wait_state (procs s' c) = w" "current s' \<noteq> c"
proof -
  let ?t = "upd_proc c (\<lambda>x. x\<lparr>p_wait_state := w\<rparr>) (upd_proc c (\<lambda>x. x\<lparr>p_state := PROC_SLEEPING\<rparr>) s)"
  have mt: "members ?t = members s" by (simp add: members_def)
  have "family (members s) (procs ?t) kids" by (rule family_links [of _ "procs s"]) (use inv in \<open>auto simp: proc_inv_def same_links_def\<close>)
  moreover have "table_ok ?t" by (rule table_ok_cong [of s]) (use inv in \<open>auto simp: proc_inv_def\<close>)
  moreover have "run_queue_ok ?t" using inv c(1) by (auto simp: proc_inv_def run_queue_ok_def RR_inv_def)
  ultimately have it: "proc_inv ?t kids" using inv mt by (simp add: proc_inv_def)
  obtain s' where s': "schedule default_sched_class ?t = Some s'" "proc_inv s' kids" "sched.more s' = sched.more ?t"
    "idleproc s' = idleproc ?t" "\<And>q. same_ident (procs ?t q) (procs s' q)"
    "\<And>q. p_state (procs s' q) = p_state (procs ?t q) \<and> p_wait_state (procs s' q) = p_wait_state (procs ?t q)"
    "current s' = idleproc ?t \<or> p_state (procs ?t (current s')) = PROC_RUNNABLE" by (rule schedule_inv [OF it]) (rule that)
  show ?thesis by (rule that [OF s'(1,2)]) (use s'(6,7) c(2) in auto)
qed

section \<open>A concrete system\<close>

text \<open>The idle process 0, the init process 1, a running process 2 and its finished child 3.\<close>

definition demo_table :: "nat \<Rightarrow> proc_struct" where
  "demo_table p =
     (if p = 0 then demo_proc\<lparr>p_cptr := Some 1\<rparr>
      else if p = 1 then demo_proc\<lparr>p_pid := 1, p_state := PROC_SLEEPING, p_wait_state := WT_CHILD, p_parent := Some 0, p_cptr := Some 2\<rparr>
      else if p = 2 then demo_proc\<lparr>p_pid := 2, p_parent := Some 1, p_cptr := Some 3, p_fs_struct := Some 9\<rparr>
      else if p = 3 then demo_proc\<lparr>p_pid := 3, p_state := PROC_ZOMBIE, p_parent := Some 2, p_exit_code := 7\<rparr>
      else demo_proc\<lparr>p_state := PROC_UNINIT\<rparr>)"

definition demo_kids :: "nat \<Rightarrow> nat list" where
  "demo_kids p = (if p = 0 then [1] else if p = 1 then [2] else if p = 2 then [3] else [])"

definition demo_sys :: proc_sys where
  "demo_sys = \<lparr>procs = demo_table, current = 2, idleproc = 0, run_list = [], proc_num = 0, max_time_slice = 20,
     timers = (\<lambda>t. \<lparr>expires = 0, t_proc = 0\<rparr>), timer_list = [],
     waits = (\<lambda>w. \<lparr>w_proc = 0, w_flags = 0, w_queue = 0, w_linked = False\<rparr>), wait_q = (\<lambda>q. []), sem_value = (\<lambda>q. 0),
     initproc = 1, proc_list = [3, 2, 1], hash_list = (\<lambda>b. filter (\<lambda>p. pid_hashfn (int p) = b) [3, 2, 1]), nr_process = 4,
     pid_vars = (3, MAX_PID), boot_cr3 = 0, forkret_entry = 0, kernel_entry = 0, live_procs = [3, 2, 1, 0], live_kstacks = [], live_mms = [], live_pgdirs = [],
     live_fss = [9], mm_pgdir = (\<lambda>m. 0), mm_count = (\<lambda>m. 0), fs_count = (\<lambda>f. 1)\<rparr>"

definition demo_env :: fork_env where
  "demo_env = \<lparr>e_proc = Some 4, e_kstack = Some 50, e_fs = Some 10, e_dup_fs = 0, e_mm = None, e_pgdir = None, e_dup_mmap = 0\<rparr>"

lemma demo_sys_inv: "proc_inv demo_sys demo_kids"
proof -
  have m: "members demo_sys = {0, 1, 2, 3}" by (auto simp: members_def demo_sys_def)
  have k: "kin demo_table q (demo_kids q)" if "q \<in> {0, 1, 2, 3}" for q
    using that by (auto simp: kin_def demo_table_def demo_kids_def demo_proc_def)
  have "family {0, 1, 2, 3} demo_table demo_kids" using k by (auto simp: family_def demo_kids_def)
  moreover have "run_queue_ok demo_sys" by (auto simp: run_queue_ok_def RR_inv_def demo_sys_def demo_table_def demo_proc_def)
  moreover have "table_ok demo_sys"
    by (auto simp: table_ok_def demo_sys_def demo_table_def demo_proc_def inj_on_def pid_inv_def MAX_PID_def MAX_PROCESS_def)
  moreover have "p_state (demo_table p) \<noteq> PROC_RUNNABLE" if "p \<notin> {0, 1, 2, 3}" for p using that by (simp add: demo_table_def)
  moreover have "p_state (demo_table q) \<noteq> PROC_ZOMBIE" if "demo_kids q \<noteq> []" for q
    using that by (auto simp: demo_table_def demo_kids_def demo_proc_def split: if_splits)
  ultimately show ?thesis unfolding proc_inv_def m by (auto simp: demo_sys_def demo_kids_def demo_table_def demo_proc_def)
qed

lemma demo_sys_simps [simp]:
  "current demo_sys = 2" "idleproc demo_sys = 0" "initproc demo_sys = 1" "procs demo_sys = demo_table" "nr_process demo_sys = 4"
  "demo_kids 2 = [3]" "demo_kids 1 = [2]" "p_state (demo_table 2) = PROC_RUNNABLE" "p_state (demo_table 3) = PROC_ZOMBIE"
  by (simp_all add: demo_sys_def demo_kids_def demo_table_def demo_proc_def)

section \<open>Properties\<close>

text \<open>C17: Creating a process. It fails exactly when the table is full or something cannot be allocated or
  duplicated; then the error code says which, every object acquired on the way is given back and the table is
  as before. Otherwise the new process is the youngest child of the caller, is runnable, and has a process
  number that was free and now finds it; the invariant of the process table is kept in all cases.\<close>

theorem do_fork_exact:
  assumes "proc_inv s kids" "fork_ok e s" "p_state (procs s (current s)) \<noteq> PROC_ZOMBIE"
  shows "if fork_fails e clone_flags s
    then \<exists>s'. do_fork e clone_flags stack tf s = Some (if nr_process s \<ge> MAX_PROCESS then - E_NO_FREE_PROC else - E_NO_MEM, s')
      \<and> proc_inv s' kids \<and> same_objects s s'
    else \<exists>p pid s'. e_proc e = Some p \<and> do_fork e clone_flags stack tf s = Some (pid, s') \<and> 1 \<le> pid
      \<and> proc_inv s' (kids(current s := p # kids (current s)))
      \<and> find_proc pid s = None \<and> find_proc pid s' = Some p \<and> p_state (procs s' p) = PROC_RUNNABLE"
proof (cases "fork_fails e clone_flags s")
  case True
  have "current s \<in> members s" using assms(1) by (simp add: proc_inv_def)
  then obtain s' where s': "do_fork e clone_flags stack tf s = Some (if nr_process s \<ge> MAX_PROCESS then - E_NO_FREE_PROC else - E_NO_MEM, s')"
    "same_objects s s'" "s' = s \<or> (\<exists>p. e_proc e = Some p \<and> prepared p s s')" by (rule do_fork_fails [OF assms(2) True])
  have "proc_inv s' kids" using s'(3) assms(1,2) prepared_inv [OF assms(1)] by (auto simp: fork_ok_def)
  then show ?thesis using True s' by auto
next
  case False
  then obtain p where p: "e_proc e = Some p" by (auto simp: fork_fails_def)
  show ?thesis using False p do_fork_succeeds [OF assms(1,2) False assms(3) p] by (metis (no_types, lifting))
qed

theorem do_fork_exact_witness:
  "(\<exists>pid s'. do_fork demo_env CLONE_VM 0 empty_frame demo_sys = Some (pid, s') \<and> 1 \<le> pid \<and> find_proc pid s' = Some 4)
   \<and> (\<exists>s'. do_fork (demo_env\<lparr>e_kstack := None\<rparr>) 0 0 empty_frame demo_sys = Some (- E_NO_MEM, s') \<and> same_objects demo_sys s')"
proof -
  have m: "members demo_sys = {0, 1, 2, 3}" by (auto simp: members_def demo_sys_def)
  have ok: "fork_ok demo_env demo_sys" "fork_ok (demo_env\<lparr>e_kstack := None\<rparr>) demo_sys" unfolding fork_ok_def m
    by (auto simp: demo_env_def demo_sys_def demo_table_def demo_proc_def)
  have nf: "\<not> fork_fails demo_env CLONE_VM demo_sys"
    by (simp add: fork_fails_def demo_env_def CLONE_VM_def CLONE_FS_def MAX_PROCESS_def demo_table_def demo_proc_def)
  have ff: "fork_fails (demo_env\<lparr>e_kstack := None\<rparr>) 0 demo_sys" "\<not> MAX_PROCESS \<le> nr_process demo_sys"
    by (simp_all add: fork_fails_def MAX_PROCESS_def)
  have z: "p_state (procs demo_sys (current demo_sys)) \<noteq> PROC_ZOMBIE" by simp
  show ?thesis
    using do_fork_exact [OF demo_sys_inv ok(1) z, of CLONE_VM 0 empty_frame] do_fork_exact [OF demo_sys_inv ok(2) z, of 0 0 empty_frame] nf ff
    by (auto simp: demo_env_def)
qed

text \<open>C7: Leaving. The process becomes a zombie with its exit code, its children, zombies or not, become children of
  the init process, a waiting parent becomes runnable, another process runs, and the invariant of the
  process table is kept. The loop over the children terminates.\<close>

theorem do_exit_reparents:
  assumes "proc_inv s kids" "current s \<noteq> idleproc s" "current s \<noteq> initproc s"
  shows "\<exists>s'. do_exit code s = Some s'
    \<and> proc_inv s' (kids(current s := [], initproc s := rev (kids (current s)) @ kids (initproc s)))
    \<and> p_state (procs s' (current s)) = PROC_ZOMBIE \<and> p_exit_code (procs s' (current s)) = code \<and> current s' \<noteq> current s
    \<and> (\<forall>q. p_parent (procs s (current s)) = Some q \<and> p_wait_state (procs s q) = WT_CHILD \<longrightarrow> p_state (procs s' q) = PROC_RUNNABLE)"
  using do_exit_spec [OF assms(1) refl assms(2,3)] by metis

theorem do_exit_reparents_witness:
  "\<exists>s'. do_exit 5 demo_sys = Some s' \<and> proc_inv s' (demo_kids(2 := [], 1 := [3, 2])) \<and> p_state (procs s' 2) = PROC_ZOMBIE
     \<and> p_state (procs s' 1) = PROC_RUNNABLE"
proof -
  have "p_parent (demo_table 2) = Some 1" "p_wait_state (demo_table 1) = WT_CHILD" by (simp_all add: demo_table_def demo_proc_def)
  then show ?thesis using do_exit_reparents [OF demo_sys_inv, of 5] by (auto simp del: fun_upd_apply One_nat_def)
qed

text \<open>C18: Waiting for a child. A bad address or the absence of a matching child is reported as an error without a
  change; a finished matching child is removed from the table, the hash lists and the family and its exit
  code is delivered; otherwise the caller sleeps until a child ends and another process runs.\<close>

theorem do_wait_reaps:
  fixes pid
  assumes "proc_inv s kids" "current s \<noteq> idleproc s"
  defines "cs \<equiv> candidates pid (kids (current s)) s"
  shows "\<exists>r s'. do_wait mem_ok keep pid s = Some (r, s') \<and>
    (if keep \<and> \<not> mem_ok then r = Failed (- E_INVAL) \<and> s' = s
     else if cs = [] then r = Failed (- E_BAD_PROC) \<and> s' = s
     else case List.find (\<lambda>c. p_state (procs s c) = PROC_ZOMBIE) cs of
       Some c \<Rightarrow> r = Reaped (if keep then Some (p_exit_code (procs s c)) else None)
         \<and> proc_inv s' (kids(current s := remove1 c (kids (current s)))) \<and> find_proc (p_pid (procs s c)) s' = None
     | None \<Rightarrow> r = Blocked \<and> proc_inv s' kids \<and> current s' \<noteq> current s
         \<and> p_state (procs s' (current s)) = PROC_SLEEPING \<and> p_wait_state (procs s' (current s)) = WT_CHILD)"
proof (cases "keep \<and> \<not> mem_ok \<or> cs = []")
  case True
  then show ?thesis using wait_search_candidates [OF assms(1), of pid]
    by (auto simp: do_wait_def wait_repeat_def cs_def [symmetric])
next
  case False
  note ws = wait_search_candidates [OF assms(1), of pid, folded cs_def]
  show ?thesis
  proof (cases "List.find (\<lambda>c. p_state (procs s c) = PROC_ZOMBIE) cs")
    case None
    obtain s' where "schedule default_sched_class (upd_proc (current s) (\<lambda>x. x\<lparr>p_wait_state := WT_CHILD\<rparr>)
        (upd_proc (current s) (\<lambda>x. x\<lparr>p_state := PROC_SLEEPING\<rparr>) s)) = Some s'"
      "proc_inv s' kids" "p_state (procs s' (current s)) = PROC_SLEEPING" "p_wait_state (procs s' (current s)) = WT_CHILD"
      "current s' \<noteq> current s" by (rule block_inv [OF assms(1) refl assms(2)])
    then show ?thesis using None False ws by (auto simp: do_wait_def wait_repeat_def Let_def)
  next
    case (Some c)
    then have c: "c \<in> set (kids (current s))" "p_state (procs s c) = PROC_ZOMBIE"
      using find_Some_in [OF Some] by (auto simp: cs_def candidates_def split: if_splits)
    obtain s' where "reap keep c s = Some (Reaped (if keep then Some (p_exit_code (procs s c)) else None), s')"
      "proc_inv s' (kids(current s := remove1 c (kids (current s))))" "find_proc (p_pid (procs s c)) s' = None"
      by (rule reap_spec [OF assms(1) c, of keep])
    then show ?thesis using Some False ws by (auto simp: do_wait_def wait_repeat_def simp del: fun_upd_apply)
  qed
qed

theorem do_wait_reaps_witness:
  "(\<exists>s'. do_wait True True 0 demo_sys = Some (Reaped (Some 7), s') \<and> find_proc 3 s' = None)
   \<and> (\<exists>s'. do_wait True True 2 demo_sys = Some (Failed (- E_BAD_PROC), s'))"
proof -
  have "candidates 0 (demo_kids (current demo_sys)) demo_sys = [3]" "candidates 2 (demo_kids (current demo_sys)) demo_sys = []"
    "p_exit_code (demo_table 3) = 7" "p_pid (demo_table 3) = 3"
    by (simp_all add: candidates_def demo_table_def demo_proc_def)
  then show ?thesis
    using do_wait_reaps [OF demo_sys_inv, of True True 0] do_wait_reaps [OF demo_sys_inv, of True True 2] by auto
qed

end
