(* ===== verification/Vmm.thy ===== *)
theory Vmm
  imports Klib Kstring
begin

text \<open>
  Virtual memory areas: the part of \<^verbatim>\<open>kern/mm/vmm.c\<close> that keeps the areas of an address space. An area is a value,
  since the code never changes one after creating it, and the list of a memory descriptor is a list of them in
  list order; the cached area is one of its members. Whether an allocation succeeds is an argument. Addresses
  are 32-bit words and sums of an address and a length wrap.

  \<open>mm_inv\<close> says that the list is sorted, that the areas do not overlap and lie in the user part, and
  that the cache holds a member. Over it, the cached lookup is the plain search, mapping succeeds exactly on a
  range that is valid and free, and checking a user buffer decides that every byte of it may be accessed.
\<close>

section \<open>The code\<close>

definition USERBASE :: u32 where "USERBASE = 0x10000000"
definition USERTOP :: u32 where "USERTOP = 0x80000000"
definition KERNBASE :: u32 where "KERNBASE = 0x80000000"
definition PGSHIFT :: nat where "PGSHIFT = 12"
definition PGSIZE :: u32 where "PGSIZE = 4096"

definition VM_READ :: u32 where "VM_READ = 1"
definition VM_WRITE :: u32 where "VM_WRITE = 2"
definition VM_EXEC :: u32 where "VM_EXEC = 4"
definition VM_STACK :: u32 where "VM_STACK = 8"

definition USER_ACCESS :: "u32 \<Rightarrow> u32 \<Rightarrow> bool" where
  "USER_ACCESS start e \<longleftrightarrow> USERBASE \<le> start \<and> start < e \<and> e \<le> USERTOP"

text \<open>The end of the kernel's memory depends on the machine the kernel is built for.\<close>

definition KERN_ACCESS :: "u32 \<Rightarrow> u32 \<Rightarrow> u32 \<Rightarrow> bool" where
  "KERN_ACCESS kerntop start e \<longleftrightarrow> KERNBASE \<le> start \<and> start < e \<and> e \<le> kerntop"

record vma =
  vm_start :: u32
  vm_end :: u32
  vm_flags :: u32

text \<open>The page directory is named by the physical page that holds it; a null pointer is \<open>None\<close>.\<close>

record mm =
  mmap_list :: "vma list"
  mmap_cache :: "vma option"
  pgdir :: "nat option"
  map_count :: int
  mm_count :: int

definition set_mm_count :: "int \<Rightarrow> mm \<Rightarrow> mm" where
  "set_mm_count val mm = mm\<lparr>mm_count := val\<rparr>"

definition mm_count_inc :: "mm \<Rightarrow> int \<times> mm" where
  "mm_count_inc mm = (mm_count mm + 1, mm\<lparr>mm_count := mm_count mm + 1\<rparr>)"

definition mm_count_dec :: "mm \<Rightarrow> int \<times> mm" where
  "mm_count_dec mm = (mm_count mm - 1, mm\<lparr>mm_count := mm_count mm - 1\<rparr>)"

definition mm_create :: "bool \<Rightarrow> mm option" where
  "mm_create mem =
     (if mem
      then Some (set_mm_count 0 \<lparr>mmap_list = [], mmap_cache = None, pgdir = None, map_count = 0, mm_count = 0\<rparr>)
      else None)"

definition vma_create :: "bool \<Rightarrow> u32 \<Rightarrow> u32 \<Rightarrow> u32 \<Rightarrow> vma option" where
  "vma_create mem start e flags = (if mem then Some \<lparr>vm_start = start, vm_end = e, vm_flags = flags\<rparr> else None)"

fun find_vma_loop :: "u32 \<Rightarrow> vma list \<Rightarrow> vma option" where
  "find_vma_loop addr [] = None"
| "find_vma_loop addr (v # vs) = (if addr < vm_end v then Some v else find_vma_loop addr vs)"

definition find_vma :: "u32 \<Rightarrow> mm \<Rightarrow> vma option \<times> mm" where
  "find_vma addr mm =
     (let hit = (case mmap_cache mm of Some v \<Rightarrow> vm_start v \<le> addr \<and> vm_end v > addr | None \<Rightarrow> False);
          v = (if hit then mmap_cache mm else find_vma_loop addr (mmap_list mm))
      in (v, if v \<noteq> None then mm\<lparr>mmap_cache := v\<rparr> else mm))"

definition check_vma_overlap :: "vma \<Rightarrow> vma \<Rightarrow> unit option" where
  "check_vma_overlap prev nxt = do {
     kassert (vm_start prev < vm_end prev);
     kassert (vm_end prev \<le> vm_start nxt);
     kassert (vm_start nxt < vm_end nxt)
   }"

text \<open>The walk to the insertion point: the areas up to it and from it on.\<close>

fun insert_walk :: "vma \<Rightarrow> vma list \<Rightarrow> vma list \<Rightarrow> vma list \<times> vma list" where
  "insert_walk v pre [] = (pre, [])"
| "insert_walk v pre (w # ws) = (if vm_start w > vm_start v then (pre, w # ws) else insert_walk v (pre @ [w]) ws)"

definition insert_vma_struct :: "vma \<Rightarrow> mm \<Rightarrow> mm option" where
  "insert_vma_struct v mm = do {
     kassert (vm_start v < vm_end v);
     let (pre, post) = insert_walk v [] (mmap_list mm);
     _ \<leftarrow> (if pre \<noteq> [] then check_vma_overlap (last pre) v else Some ());
     _ \<leftarrow> (case post of w # _ \<Rightarrow> check_vma_overlap v w | [] \<Rightarrow> Some ());
     Some (mm\<lparr>mmap_list := pre @ v # post, map_count := map_count mm + 1\<rparr>)
   }"

text \<open>\<^verbatim>\<open>mm_destroy\<close> takes the areas off one by one and returns what it has freed.\<close>

fun mm_destroy_loop :: "vma list \<Rightarrow> vma list \<Rightarrow> vma list" where
  "mm_destroy_loop freed [] = freed"
| "mm_destroy_loop freed (v # vs) = mm_destroy_loop (v # freed) vs"

definition mm_destroy :: "mm \<Rightarrow> vma list option" where
  "mm_destroy mm = do { kassert (mm_count mm = 0); Some (mm_destroy_loop [] (mmap_list mm)) }"

definition mm_map :: "bool \<Rightarrow> u32 \<Rightarrow> u32 \<Rightarrow> u32 \<Rightarrow> mm \<Rightarrow> (int \<times> vma option \<times> mm) option" where
  "mm_map mem addr len flags mm =
     (let start = ROUNDDOWN_2N addr PGSHIFT; e = ROUNDUP_2N (addr + len) PGSHIFT
      in if \<not> USER_ACCESS start e then Some (- E_INVAL, None, mm)
         else case find_vma start mm of (v, mm) \<Rightarrow>
           if (case v of Some v \<Rightarrow> e > vm_start v | None \<Rightarrow> False) then Some (- E_INVAL, None, mm)
           else case vma_create mem start e flags of
                  None \<Rightarrow> Some (- E_NO_MEM, None, mm)
                | Some v \<Rightarrow> do {
                    mm \<leftarrow> insert_vma_struct v mm;
                    Some (0, Some v, mm)
                  })"

text \<open>The loop of \<^verbatim>\<open>user_mem_check\<close> over the areas of a buffer, and the check of the caller's rights.\<close>

definition may_access :: "bool \<Rightarrow> u32 \<Rightarrow> vma \<Rightarrow> bool" where
  "may_access write start v \<longleftrightarrow> vm_flags v AND (if write then VM_WRITE else VM_READ) \<noteq> 0
     \<and> \<not> (write \<and> vm_flags v AND VM_STACK \<noteq> 0 \<and> start < vm_start v + PGSIZE)"

lemma find_vma_loop_end: "find_vma_loop addr vs = Some v \<Longrightarrow> addr < vm_end v"
  by (induction vs) (auto split: if_splits)

lemma find_vma_end: "find_vma addr mm = (Some v, mm') \<Longrightarrow> addr < vm_end v"
  by (auto simp: find_vma_def Let_def split: option.splits if_splits dest: find_vma_loop_end)

function check_loop :: "bool \<Rightarrow> u32 \<Rightarrow> u32 \<Rightarrow> mm \<Rightarrow> bool \<times> mm" where
  "check_loop write start e mm =
     (if start < e
      then case find_vma start mm of
             (None, mm) \<Rightarrow> (False, mm)
           | (Some v, mm) \<Rightarrow>
               if start < vm_start v \<or> \<not> may_access write start v then (False, mm)
               else check_loop write (vm_end v) e mm
      else (True, mm))"
  by pat_completeness auto
termination
  by (relation "measure (\<lambda>(_, start, e, _). unat e - unat start)")
    (auto dest!: sym [of _ "find_vma _ _"] find_vma_end simp: word_less_nat_alt)

declare check_loop.simps [simp del]

definition user_mem_check :: "u32 \<Rightarrow> mm option \<Rightarrow> u32 \<Rightarrow> u32 \<Rightarrow> bool \<Rightarrow> bool \<times> mm option" where
  "user_mem_check kerntop mm addr len write = (case mm of
     Some mm \<Rightarrow>
       if \<not> USER_ACCESS addr (addr + len) then (False, Some mm)
       else case check_loop write addr (addr + len) mm of (r, mm) \<Rightarrow> (r, Some mm)
   | None \<Rightarrow> (KERN_ACCESS kerntop addr (addr + len), None))"

text \<open>The copies between the kernel and a process work on the memory as the processor sees it.\<close>

definition copy_from_user ::
  "u32 \<Rightarrow> mm option \<Rightarrow> u32 \<Rightarrow> u32 \<Rightarrow> u32 \<Rightarrow> bool \<Rightarrow> mem \<Rightarrow> bool \<times> mem \<times> mm option" where
  "copy_from_user kerntop mm dst src len writable m =
     (case user_mem_check kerntop mm src len writable of (ok, mm) \<Rightarrow>
        if \<not> ok then (False, m, mm) else (True, memcpy m (unat dst) (unat src) (unat len), mm))"

definition copy_to_user :: "u32 \<Rightarrow> mm option \<Rightarrow> u32 \<Rightarrow> u32 \<Rightarrow> u32 \<Rightarrow> mem \<Rightarrow> bool \<times> mem \<times> mm option" where
  "copy_to_user kerntop mm dst src len m =
     (case user_mem_check kerntop mm dst len True of (ok, mm) \<Rightarrow>
        if \<not> ok then (False, m, mm) else (True, memcpy m (unat dst) (unat src) (unat len), mm))"

lemma user_mem_check_len: "user_mem_check kerntop mm addr len write = (True, mm') \<Longrightarrow> len \<noteq> 0"
  by (auto simp: user_mem_check_def USER_ACCESS_def KERN_ACCESS_def split: option.splits if_splits)

lemma part_shrinks: "(True, mm') = user_mem_check kerntop mm addr p write \<Longrightarrow> p \<le> maxn \<Longrightarrow> unat (maxn - p) < unat maxn"
  using user_mem_check_len [of kerntop mm addr p "write" mm']
  by (simp add: unat_sub word_le_nat_alt unat_gt_0 [symmetric])

function copy_string_loop ::
  "u32 \<Rightarrow> u32 \<Rightarrow> mm option \<Rightarrow> u32 \<Rightarrow> u32 \<Rightarrow> u32 \<Rightarrow> mem \<Rightarrow> bool \<times> mem \<times> mm option" where
  "copy_string_loop kerntop part mm dst src maxn m =
     (let part = (if part > maxn then maxn else part)
      in case user_mem_check kerntop mm src part False of (ok, mm) \<Rightarrow>
           if \<not> ok then (False, m, mm)
           else let alen = strnlen m (unat src) (unat part)
                in if alen < unat part then (True, memcpy m (unat dst) (unat src) (alen + 1), mm)
                   else if part = maxn then (False, m, mm)
                   else copy_string_loop kerntop PGSIZE mm (dst + part) (src + part) (maxn - part)
                          (memcpy m (unat dst) (unat src) (unat part)))"
  by pat_completeness auto
termination
  by (relation "measure (\<lambda>(_, _, _, _, _, maxn, _). unat maxn)")
    (auto dest: part_shrinks simp: not_less split: if_splits)

declare copy_string_loop.simps [simp del]

definition copy_string :: "u32 \<Rightarrow> mm option \<Rightarrow> u32 \<Rightarrow> u32 \<Rightarrow> u32 \<Rightarrow> mem \<Rightarrow> bool \<times> mem \<times> mm option" where
  "copy_string kerntop mm dst src maxn m =
     copy_string_loop kerntop (ROUNDDOWN_2N (src + PGSIZE) PGSHIFT - src) mm dst src maxn m"

section \<open>Areas\<close>

definition covers :: "u32 \<Rightarrow> vma \<Rightarrow> bool" where
  "covers a v \<longleftrightarrow> vm_start v \<le> a \<and> a < vm_end v"

text \<open>What the loop tests of an address: the area that covers it passes the tests of the code.\<close>

definition accessible :: "bool \<Rightarrow> mm \<Rightarrow> u32 \<Rightarrow> bool" where
  "accessible write mm a \<longleftrightarrow> (\<exists>v \<in> set (mmap_list mm). covers a v \<and> may_access write a v)"

definition area_ok :: "vma \<Rightarrow> bool" where
  "area_ok v \<longleftrightarrow> USER_ACCESS (vm_start v) (vm_end v) \<and> PGOFF (vm_start v) = 0 \<and> PGOFF (vm_end v) = 0"

definition mm_inv :: "mm \<Rightarrow> bool" where
  "mm_inv mm \<longleftrightarrow> sorted_wrt (\<lambda>v w. vm_end v \<le> vm_start w) (mmap_list mm) \<and> list_all area_ok (mmap_list mm)
     \<and> (\<forall>v. mmap_cache mm = Some v \<longrightarrow> v \<in> set (mmap_list mm)) \<and> map_count mm = int (length (mmap_list mm))"

lemmas vmm_defs = covers_def area_ok_def USER_ACCESS_def USERBASE_def USERTOP_def

lemma area_nonempty: "area_ok v \<Longrightarrow> vm_start v < vm_end v"
  by (simp add: vmm_defs)

text \<open>In a sorted list of areas the first one that ends above an address is the only one that can cover it.\<close>

lemma find_vma_loop_first:
  assumes "sorted_wrt (\<lambda>v w. vm_end v \<le> vm_start w) vs" "list_all area_ok vs" "w \<in> set vs" "covers addr w"
  shows "find_vma_loop addr vs = Some w"
  using assms
proof (induction vs)
  case (Cons v vs)
  show ?case
  proof (cases "w = v")
    case False
    then have "vm_end v \<le> vm_start w" using Cons.prems by simp
    then have "\<not> addr < vm_end v" using Cons.prems by (simp add: covers_def not_less order_trans)
    then show ?thesis using Cons False by simp
  qed (use Cons.prems in \<open>simp add: covers_def\<close>)
qed simp

lemma find_vma_loop_set: "find_vma_loop addr vs = Some v \<Longrightarrow> v \<in> set vs"
  by (induction vs) (auto split: if_splits)

lemma find_vma_loop_none: "find_vma_loop addr vs = None \<longleftrightarrow> (\<forall>v \<in> set vs. vm_end v \<le> addr)"
  by (induction vs) (auto simp: not_less)

lemma find_vma_loop_le:
  assumes "sorted_wrt (\<lambda>v w. vm_end v \<le> vm_start w) vs" "list_all area_ok vs" "find_vma_loop addr vs = Some v"
    "w \<in> set vs" "addr < vm_end w"
  shows "w = v \<or> vm_end v \<le> vm_start w"
  using assms by (induction vs) (auto split: if_splits)

text \<open>The cache does not change what a lookup returns.\<close>

lemma find_vma_spec:
  assumes "mm_inv mm"
  shows "fst (find_vma addr mm) = find_vma_loop addr (mmap_list mm)" (is ?found)
    and "snd (find_vma addr mm) = mm\<lparr>mmap_cache := mmap_cache (snd (find_vma addr mm))\<rparr>" (is ?frame)
    and "mm_inv (snd (find_vma addr mm))" (is ?inv)
proof -
  have hit: "find_vma_loop addr (mmap_list mm) = Some v" if "mmap_cache mm = Some v" "covers addr v" for v
    using assms that find_vma_loop_first by (simp add: mm_inv_def)
  show ?found
    using hit by (auto simp: find_vma_def Let_def covers_def split: option.splits)
  show ?frame by (cases mm) (simp add: find_vma_def Let_def)
  show ?inv using assms find_vma_loop_set
    by (auto simp: find_vma_def Let_def mm_inv_def split: option.splits if_splits)
qed

lemma may_access_mono: "may_access write a v \<Longrightarrow> a \<le> b \<Longrightarrow> may_access write b v"
  by (auto simp: may_access_def)

lemma covering_area:
  assumes "mm_inv mm"
  shows "(\<exists>v \<in> set (mmap_list mm). covers a v \<and> Q v) \<longleftrightarrow> (case find_vma_loop a (mmap_list mm) of
    Some v \<Rightarrow> vm_start v \<le> a \<and> Q v | None \<Rightarrow> False)"
proof -
  have first: "find_vma_loop a (mmap_list mm) = Some v" if "v \<in> set (mmap_list mm)" "covers a v" for v
    using assms that find_vma_loop_first by (simp add: mm_inv_def)
  show ?thesis
  proof (cases "find_vma_loop a (mmap_list mm)")
    case None
    then show ?thesis using first by auto
  next
    case (Some v)
    then have "v \<in> set (mmap_list mm)" "a < vm_end v"
      by (rule find_vma_loop_set, rule find_vma_loop_end)
    moreover have "w = v" if "w \<in> set (mmap_list mm)" "covers a w" for w
      using first [OF that] Some by simp
    ultimately have "(\<exists>v \<in> set (mmap_list mm). covers a v \<and> Q v) \<longleftrightarrow> covers a v \<and> Q v" by metis
    then show ?thesis using Some \<open>a < vm_end v\<close> by (simp add: covers_def)
  qed
qed

lemma accessible_find: "mm_inv mm \<Longrightarrow> accessible write mm a \<longleftrightarrow> (case find_vma_loop a (mmap_list mm) of
    Some v \<Rightarrow> vm_start v \<le> a \<and> may_access write a v | None \<Rightarrow> False)"
  unfolding accessible_def by (rule covering_area)

lemma accessible_cong: "mmap_list mm' = mmap_list mm \<Longrightarrow> accessible write mm' = accessible write mm"
  by (simp add: accessible_def fun_eq_iff)

text \<open>The loop jumps from area to area, and all bytes of an area from the first on share its answer.\<close>

lemma check_loop_step:
  assumes "mm_inv mm" "find_vma_loop start (mmap_list mm) = Some v" "vm_start v \<le> start"
    "may_access write start v" "start < e"
  shows "(\<forall>a. start \<le> a \<and> a < e \<longrightarrow> accessible write mm a)
    \<longleftrightarrow> (\<forall>a. vm_end v \<le> a \<and> a < e \<longrightarrow> accessible write mm a)"
proof -
  have "start < vm_end v" using assms(2) by (rule find_vma_loop_end)
  moreover have "accessible write mm a" if "start \<le> a" "a < vm_end v" for a
  proof -
    have "v \<in> set (mmap_list mm)" using assms(2) by (rule find_vma_loop_set)
    moreover have "covers a v \<and> may_access write a v"
      using that assms may_access_mono [of "write" start v a] order_trans [of "vm_start v" start a]
      by (simp add: covers_def)
    ultimately show ?thesis unfolding accessible_def by blast
  qed
  ultimately show ?thesis by (meson leI le_less_trans less_imp_le order_trans)
qed

lemma check_loop_spec:
  assumes "mm_inv mm"
  shows "(fst (check_loop write start e mm) \<longleftrightarrow> (\<forall>a. start \<le> a \<and> a < e \<longrightarrow> accessible write mm a))
    \<and> mm_inv (snd (check_loop write start e mm))
    \<and> mmap_list (snd (check_loop write start e mm)) = mmap_list mm"
  using assms
proof (induction "write" start e mm rule: check_loop.induct)
  case (1 "write" start e mm)
  obtain x mm' where f: "find_vma start mm = (x, mm')" by fastforce
  note spec = find_vma_spec [OF "1.prems", of start, unfolded f, simplified]
  have list: "mmap_list mm' = mmap_list mm" by (subst spec(2)) simp
  have here: "accessible write mm start \<longleftrightarrow> (case x of Some v \<Rightarrow> vm_start v \<le> start \<and> may_access write start v | None \<Rightarrow> False)"
    using accessible_find [OF "1.prems", of "write" start] spec(1) by simp
  show ?case
  proof (cases "start < e \<and> accessible write mm start")
    case True
    then obtain v where v: "x = Some v" "vm_start v \<le> start" "may_access write start v"
      using here by (auto split: option.splits)
    have "check_loop write start e mm = check_loop write (vm_end v) e mm'"
      using True v f leD [OF v(2)] by (subst check_loop.simps) simp
    moreover note "1.IH" [OF _ f [symmetric] v(1)]
    ultimately show ?thesis
      using True v leD [OF v(2)] spec list check_loop_step [OF "1.prems", of start v "write" e] accessible_cong [OF list]
      by simp
  next
    case False
    have "check_loop write start e mm = (\<not> start < e, if start < e then mm' else mm)"
      using False here f by (subst check_loop.simps) (auto split: option.splits)
    then show ?thesis
      using False "1.prems" spec(3) list by (auto simp: not_less intro: order_trans)
  qed
qed

lemma user_mem_check_spec:
  assumes "mm_inv mm"
  obtains mm' where "user_mem_check kerntop (Some mm) addr len write =
      (USER_ACCESS addr (addr + len) \<and> (\<forall>a. addr \<le> a \<and> a < addr + len \<longrightarrow> accessible write mm a), Some mm')"
    "mm_inv mm'" "mmap_list mm' = mmap_list mm"
proof -
  obtain r mm' where c: "check_loop write addr (addr + len) mm = (r, mm')" by fastforce
  show thesis
  proof (cases "USER_ACCESS addr (addr + len)")
    case True
    then show thesis using check_loop_spec [OF assms, of "write" addr "addr + len"] c
      by (intro that [of mm']) (simp_all add: user_mem_check_def)
  qed (use assms that [of mm] in \<open>simp add: user_mem_check_def\<close>)
qed

section \<open>New areas\<close>

lemma insert_walk_eq:
  "insert_walk v pre ws = (pre @ takeWhile (\<lambda>w. vm_start w \<le> vm_start v) ws, dropWhile (\<lambda>w. vm_start w \<le> vm_start v) ws)"
  by (induction ws arbitrary: pre) (auto simp: not_less)

definition range_free :: "mm \<Rightarrow> u32 \<Rightarrow> u32 \<Rightarrow> bool" where
  "range_free mm start e \<longleftrightarrow> (\<forall>v \<in> set (mmap_list mm). e \<le> vm_start v \<or> vm_end v \<le> start)"

lemma find_vma_free:
  assumes "mm_inv mm" "start < e"
  shows "(case find_vma_loop start (mmap_list mm) of Some v \<Rightarrow> e > vm_start v | None \<Rightarrow> False) \<longleftrightarrow> \<not> range_free mm start e"
proof (cases "find_vma_loop start (mmap_list mm)")
  case None
  then have "range_free mm start e" by (simp add: range_free_def find_vma_loop_none)
  then show ?thesis using None by simp
next
  case (Some v)
  note v = find_vma_loop_set [OF Some] find_vma_loop_end [OF Some]
  have "vm_start v < vm_end v" using assms(1) v(1) area_nonempty by (auto simp: mm_inv_def list_all_iff)
  then have far: "e \<le> vm_start w" if "e \<le> vm_start v" "w = v \<or> vm_end v \<le> vm_start w" for w
    using that by auto
  have "e \<le> vm_start w \<or> vm_end w \<le> start" if "e \<le> vm_start v" "w \<in> set (mmap_list mm)" for w
    using find_vma_loop_le [OF _ _ Some that(2)] far [OF that(1), of w] assms(1)
    by (cases "start < vm_end w") (simp_all add: mm_inv_def not_less)
  then have "range_free mm start e \<longleftrightarrow> e \<le> vm_start v"
    using v unfolding range_free_def by (meson leD)
  then show ?thesis using Some by (simp add: not_le)
qed

lemma sorted_insert:
  assumes "sorted_wrt (\<lambda>v w. vm_end v \<le> vm_start w) vs" "list_all area_ok vs" "area_ok v"
    "\<forall>w \<in> set vs. vm_end v \<le> vm_start w \<or> vm_end w \<le> vm_start v"
  shows "sorted_wrt (\<lambda>v w. vm_end v \<le> vm_start w)
      (takeWhile (\<lambda>w. vm_start w \<le> vm_start v) vs @ v # dropWhile (\<lambda>w. vm_start w \<le> vm_start v) vs)"
  using assms
proof (induction vs)
  case (Cons w ws)
  have "vm_end w \<le> vm_start v" if "vm_start w \<le> vm_start v"
    using Cons.prems that area_nonempty [of v] by auto
  moreover have "vm_end v \<le> vm_start u" if "vm_start v < vm_start w" "u \<in> set (w # ws)" for u
  proof -
    have "vm_end v \<le> vm_start w" using Cons.prems that area_nonempty [of w] by auto
    then show ?thesis using Cons.prems that area_nonempty [of w] by (auto intro: order_trans less_imp_le)
  qed
  ultimately show ?case using Cons
    by (auto simp: not_le dest: set_takeWhileD set_dropWhileD)
qed simp

definition with_area :: "vma \<Rightarrow> mm \<Rightarrow> mm" where
  "with_area v mm = mm\<lparr>mmap_list := takeWhile (\<lambda>w. vm_start w \<le> vm_start v) (mmap_list mm) @ v
       # dropWhile (\<lambda>w. vm_start w \<le> vm_start v) (mmap_list mm),
     map_count := map_count mm + 1\<rparr>"

lemma set_with_area: "set (mmap_list (with_area v mm)) = insert v (set (mmap_list mm))"
  by (simp add: with_area_def) (metis set_append takeWhile_dropWhile_id)

lemma with_area_inv:
  assumes "mm_inv mm" "area_ok v" "range_free mm (vm_start v) (vm_end v)"
  shows "mm_inv (with_area v mm)"
proof -
  have "sorted_wrt (\<lambda>v w. vm_end v \<le> vm_start w) (mmap_list (with_area v mm))"
    using sorted_insert [of "mmap_list mm" v] assms by (simp add: with_area_def mm_inv_def range_free_def)
  moreover have "list_all area_ok (mmap_list (with_area v mm))"
    using assms by (simp add: list_all_iff set_with_area mm_inv_def)
  moreover have "map_count (with_area v mm) = int (length (mmap_list (with_area v mm)))"
  proof -
    have "length (mmap_list (with_area v mm)) = Suc (length (mmap_list mm))"
      by (simp add: with_area_def) (metis length_append takeWhile_dropWhile_id)
    then show ?thesis using assms(1) by (simp add: with_area_def mm_inv_def)
  qed
  moreover have "mmap_cache (with_area v mm) = mmap_cache mm" by (simp add: with_area_def)
  ultimately show ?thesis using assms(1) by (simp add: mm_inv_def set_with_area)
qed

text \<open>With the area in a free range none of the assertions on its neighbours fails.\<close>

lemma check_vma_overlap_ok:
  "check_vma_overlap v w = (if vm_start v < vm_end v \<and> vm_end v \<le> vm_start w \<and> vm_start w < vm_end w then Some () else None)"
  by (simp add: check_vma_overlap_def)

lemma insert_vma_struct_spec:
  assumes inv: "mm_inv mm" and v: "area_ok v" and free: "range_free mm (vm_start v) (vm_end v)"
  shows "insert_vma_struct v mm = Some (with_area v mm)"
proof -
  let ?p = "\<lambda>w. vm_start w \<le> vm_start v"
  let ?pre = "takeWhile ?p (mmap_list mm)" and ?post = "dropWhile ?p (mmap_list mm)"
  have area: "area_ok w" if "w \<in> set (mmap_list mm)" for w
    using inv that by (simp add: mm_inv_def list_all_iff)
  have "sorted_wrt (\<lambda>v w. vm_end v \<le> vm_start w) (?pre @ v # ?post)"
    using with_area_inv [OF assms] by (simp add: mm_inv_def with_area_def)
  then have before: "vm_end w \<le> vm_start v" if "w \<in> set ?pre" for w
    using that by (simp add: sorted_wrt_append)
  from \<open>sorted_wrt _ _\<close> have after: "vm_end v \<le> vm_start w" if "w \<in> set ?post" for w
    using that by (simp add: sorted_wrt_append)
  have pre: "(if ?pre \<noteq> [] then check_vma_overlap (last ?pre) v else Some ()) = Some ()"
    using area [of "last ?pre"] before [of "last ?pre"] v area_nonempty
    by (auto simp: check_vma_overlap_ok dest: set_takeWhileD last_in_set)
  have post: "(case ?post of w # _ \<Rightarrow> check_vma_overlap v w | [] \<Rightarrow> Some ()) = Some ()"
  proof (cases ?post)
    case (Cons w ws)
    then have "w \<in> set (mmap_list mm)" by (metis list.set_intros(1) set_dropWhileD)
    then show ?thesis using Cons after [of w] area [of w] v area_nonempty
      by (simp add: check_vma_overlap_ok)
  qed (simp only: list.case)
  show ?thesis using v area_nonempty [OF v] pre post
    by (simp add: insert_vma_struct_def insert_walk_eq with_area_def)
qed

lemma PGOFF_rounded: "PGOFF (ROUNDDOWN_2N a PGSHIFT) = 0" "PGOFF (ROUNDUP_2N a PGSHIFT) = 0"
  by (simp_all add: ROUNDUP_2N_def ROUNDDOWN_2N_def PGSHIFT_def address_fields take_bit_push_bit)

lemma mm_map_spec:
  assumes inv: "mm_inv mm"
    and defs: "start = ROUNDDOWN_2N addr PGSHIFT" "e = ROUNDUP_2N (addr + len) PGSHIFT"
  shows "\<exists>mm'. mm_inv mm' \<and> mmap_list mm' = mmap_list mm \<and> mm_map mem addr len flags mm =
    Some (if \<not> USER_ACCESS start e \<or> \<not> range_free mm start e then (- E_INVAL, None, mm')
          else if \<not> mem then (- E_NO_MEM, None, mm')
          else (0, Some \<lparr>vm_start = start, vm_end = e, vm_flags = flags\<rparr>,
                with_area \<lparr>vm_start = start, vm_end = e, vm_flags = flags\<rparr> mm'))"
proof (cases "USER_ACCESS start e")
  case True
  define v where "v = \<lparr>vm_start = start, vm_end = e, vm_flags = flags\<rparr>"
  obtain x mm' where f: "find_vma start mm = (x, mm')" by fastforce
  note spec = find_vma_spec [OF inv, of start, unfolded f, simplified]
  have list: "mmap_list mm' = mmap_list mm" by (subst spec(2)) simp
  have hit: "(case x of Some v \<Rightarrow> e > vm_start v | None \<Rightarrow> False) \<longleftrightarrow> \<not> range_free mm start e"
    using find_vma_free [OF inv, of start e] True spec(1) by (simp add: USER_ACCESS_def)
  have v: "area_ok v" using True by (simp add: area_ok_def v_def defs PGOFF_rounded)
  have ins: "insert_vma_struct v mm' = Some (with_area v mm')" if "range_free mm start e"
    using that insert_vma_struct_spec [OF spec(3) v] list by (simp add: range_free_def v_def)
  have "mm_map mem addr len flags mm =
      (if \<not> range_free mm start e then Some (- E_INVAL, None, mm')
       else if \<not> mem then Some (- E_NO_MEM, None, mm') else Some (0, Some v, with_area v mm'))"
    using True hit ins f unfolding mm_map_def defs [symmetric] Let_def
    by (simp add: vma_create_def v_def)
  then show ?thesis using True spec(3) list v_def by (intro exI [of _ mm']) simp
qed (use inv defs in \<open>auto simp: mm_map_def Let_def\<close>)

section \<open>User buffers\<close>

text \<open>Which bytes a process may read or write, said without the code: an area contains the byte and its flags have bit 0 for
  reading or bit 1 for writing; of a stack, bit 3, the lowest 4096 bytes are not writable. A byte is given by its number, so that a
  buffer that runs past the end of the address space has bytes outside it.\<close>

definition byte_ok :: "bool \<Rightarrow> mm \<Rightarrow> nat \<Rightarrow> bool" where
  "byte_ok write mm n \<longleftrightarrow> (\<exists>v \<in> set (mmap_list mm). unat (vm_start v) \<le> n \<and> n < unat (vm_end v)
     \<and> bit (vm_flags v) (if write then 1 else 0) \<and> (write \<and> bit (vm_flags v) 3 \<longrightarrow> unat (vm_start v) + 4096 \<le> n))"

lemma VM_bits:
  "(w AND VM_READ \<noteq> 0) = bit w 0" "(w AND VM_WRITE \<noteq> 0) = bit w 1" "(w AND VM_STACK \<noteq> 0) = bit w 3"
  "(w AND VM_EXEC \<noteq> 0) = bit w 2" for w :: u32
proof -
  have *: "VM_READ = push_bit 0 1" "VM_WRITE = push_bit 1 1" "VM_EXEC = push_bit 2 1" "VM_STACK = push_bit 3 1"
    by (simp_all add: VM_READ_def VM_WRITE_def VM_EXEC_def VM_STACK_def push_bit_eq_mult)
  show "(w AND VM_READ \<noteq> 0) = bit w 0" "(w AND VM_WRITE \<noteq> 0) = bit w 1" "(w AND VM_STACK \<noteq> 0) = bit w 3"
    "(w AND VM_EXEC \<noteq> 0) = bit w 2"
    unfolding * and_single_bit by simp_all
qed

lemma byte_ok_accessible:
  assumes "mm_inv mm"
  shows "byte_ok write mm n \<longleftrightarrow> n < 4294967296 \<and> accessible write mm (of_nat n)"
proof -
  have "unat (vm_start v) \<le> n \<and> n < unat (vm_end v) \<and> bit (vm_flags v) (if write then 1 else 0)
      \<and> (write \<and> bit (vm_flags v) 3 \<longrightarrow> unat (vm_start v) + 4096 \<le> n)
    \<longleftrightarrow> n < 4294967296 \<and> covers (of_nat n) v \<and> may_access write (of_nat n) v" if "v \<in> set (mmap_list mm)" for v
  proof (cases "n < 4294967296")
    case True
    have "area_ok v" using assms that by (auto simp: mm_inv_def list_all_iff)
    then have "unat (vm_start v) < 0x80000000" by (auto simp: vmm_defs word_less_nat_alt word_le_nat_alt)
    then have "unat (vm_start v + PGSIZE) = unat (vm_start v) + 4096"
      by (subst unat_add_no_overflow) (simp_all add: PGSIZE_def)
    then have "(of_nat n < vm_start v + PGSIZE) = (n < unat (vm_start v) + 4096)" using True by (simp add: word_less_nat_alt)
    then show ?thesis using True
      by (auto simp: covers_def may_access_def VM_bits word_less_nat_alt word_le_nat_alt)
  next
    case False
    then show ?thesis using unat_u32_less [of "vm_end v"] by auto
  qed
  then show ?thesis unfolding byte_ok_def accessible_def by blast
qed

lemma accessible_user:
  assumes "mm_inv mm" "accessible write mm a"
  shows "USERBASE \<le> a" "a < USERTOP"
proof -
  obtain v where "area_ok v" "covers a v"
    using assms by (auto simp: accessible_def mm_inv_def list_all_iff)
  then show "USERBASE \<le> a" "a < USERTOP"
    unfolding area_ok_def covers_def USER_ACCESS_def by (auto intro: order_trans less_le_trans)
qed

lemma byte_ok_user: "mm_inv mm \<Longrightarrow> byte_ok write mm n \<Longrightarrow> 0x10000000 \<le> n \<and> n < 0x80000000"
  using accessible_user [of mm "write" "of_nat n"]
  by (simp add: byte_ok_accessible word_le_nat_alt word_less_nat_alt USERBASE_def USERTOP_def)

lemma byte_ok_cong:
  assumes "mmap_list mm' = mmap_list mm"
  shows "byte_ok write mm' = byte_ok write mm"
  by (simp add: byte_ok_def fun_eq_iff assms)

lemma less_add_no_wrap: "a < a + b \<Longrightarrow> unat (a + b) = unat a + unat b" for a b :: u32
  using unat_u32_less [of a] unat_u32_less [of b]
  by (simp add: word_less_nat_alt unat_word_ariths) (simp add: mod_if split: if_splits)

lemma buffer_bytes:
  assumes "mm_inv mm"
  shows "USER_ACCESS addr (addr + len) \<and> (\<forall>a. addr \<le> a \<and> a < addr + len \<longrightarrow> accessible write mm a)
    \<longleftrightarrow> len \<noteq> 0 \<and> (\<forall>i < unat len. byte_ok write mm (unat addr + i))" (is "?words \<longleftrightarrow> ?bytes")
proof
  assume w: ?words
  then have sum: "unat (addr + len) = unat addr + unat len"
    by (intro less_add_no_wrap) (simp add: USER_ACCESS_def)
  have "byte_ok write mm (unat addr + i)" if "i < unat len" for i
  proof -
    have small: "unat addr + i < 4294967296" using that sum unat_u32_less [of "addr + len"] by simp
    then have "unat (of_nat (unat addr + i) :: u32) = unat addr + i" by (rule unat_of_nat_u32)
    then show ?thesis using w small that sum unfolding byte_ok_accessible [OF assms]
      by (simp add: word_le_nat_alt word_less_nat_alt)
  qed
  moreover have "len \<noteq> 0" using w by (auto simp: USER_ACCESS_def)
  ultimately show ?bytes by simp
next
  assume b: ?bytes
  then have pos: "0 < unat len" by (simp add: unat_gt_0)
  have ok: "byte_ok write mm (unat addr + i)" if "i < unat len" for i using b that by blast
  have ends: "0x10000000 \<le> unat addr" "unat addr + (unat len - 1) < 0x80000000"
    using byte_ok_user [OF assms ok, of 0] byte_ok_user [OF assms ok, of "unat len - 1"] pos by simp_all
  then have sum: "unat (addr + len) = unat addr + unat len"
    by (intro unat_add_no_overflow) linarith
  have "accessible write mm a" if "addr \<le> a" "a < addr + len" for a
  proof -
    define i where "i = unat a - unat addr"
    have i: "unat addr + i = unat a" "i < unat len"
      using that sum by (simp_all add: i_def word_le_nat_alt word_less_nat_alt)
    then show ?thesis using ok [of i] by (simp add: byte_ok_accessible [OF assms])
  qed
  then show ?words using ends sum pos
    by (simp add: USER_ACCESS_def USERBASE_def USERTOP_def word_le_nat_alt word_less_nat_alt)
qed

lemma user_mem_check_bytes:
  assumes "mm_inv mm"
  obtains mm' where "user_mem_check kerntop (Some mm) addr len write =
      (len \<noteq> 0 \<and> (\<forall>i < unat len. byte_ok write mm (unat addr + i)), Some mm')"
    "mm_inv mm'" "mmap_list mm' = mmap_list mm"
  by (rule user_mem_check_spec [OF assms, unfolded buffer_bytes [OF assms]]) (rule that)

text \<open>A string of \<open>n\<close> characters below the limit whose bytes, the final zero included, may be read.\<close>

definition user_string :: "mm \<Rightarrow> mem \<Rightarrow> nat \<Rightarrow> nat \<Rightarrow> nat \<Rightarrow> bool" where
  "user_string mm m s maxn n \<longleftrightarrow> n < maxn \<and> m (s + n) = 0 \<and> (\<forall>i < n. m (s + i) \<noteq> 0)
     \<and> (\<forall>i \<le> n. byte_ok False mm (s + i))"

lemma strnlen_loop_spec:
  "cnt \<le> len \<Longrightarrow> cnt \<le> strnlen_loop m s cnt len \<and> strnlen_loop m s cnt len \<le> len
    \<and> (strnlen_loop m s cnt len < len \<longrightarrow> m (s + (strnlen_loop m s cnt len - cnt)) = 0)
    \<and> (\<forall>i < strnlen_loop m s cnt len - cnt. m (s + i) \<noteq> 0)"
proof (induction m s cnt len rule: strnlen_loop.induct)
  case (1 m s cnt len)
  show ?case
  proof (cases "cnt < len \<and> m s \<noteq> 0")
    case True
    let ?r = "strnlen_loop m (Suc s) (Suc cnt) len"
    have r: "strnlen_loop m s cnt len = ?r" using True by (subst strnlen_loop.simps) simp
    have "Suc cnt \<le> len" using True by simp
    note IH = "1.IH" [OF True this]
    then have ih: "Suc cnt \<le> ?r" "?r \<le> len" "\<forall>i < ?r - Suc cnt. m (Suc s + i) \<noteq> 0" by blast+
    have "m (s + i) \<noteq> 0" if "i < ?r - cnt" for i
      using that True ih(3) by (cases i) auto
    moreover have "?r < len \<longrightarrow> m (s + (?r - cnt)) = 0"
    proof -
      have "Suc s + (?r - Suc cnt) = s + (?r - cnt)" using ih(1) by simp
      then show ?thesis using IH by metis
    qed
    ultimately show ?thesis using ih(1,2) unfolding r by simp
  qed (use "1.prems" in \<open>subst (1 2 3 4 5) strnlen_loop.simps, auto\<close>)
qed

lemma strnlen_spec:
  "strnlen m s len \<le> len" "strnlen m s len < len \<Longrightarrow> m (s + strnlen m s len) = 0"
  "i < strnlen m s len \<Longrightarrow> m (s + i) \<noteq> 0"
  using strnlen_loop_spec [of 0 len m s] by (simp_all add: strnlen_def)

text \<open>Areas are made of whole pages: what holds of a byte for reading holds of its page.\<close>

lemma aligned_le: "unat w mod 4096 = 0 \<Longrightarrow> (unat w \<le> n \<longleftrightarrow> unat w div 4096 \<le> n div 4096)" for w :: u32 and n :: nat
  using div_mult_mod_eq [of "unat w" 4096] by (simp add: less_eq_div_iff_mult_less_eq)

lemma PGOFF_mod: "PGOFF w = 0 \<longleftrightarrow> unat w mod 4096 = 0"
proof -
  have "unat (take_bit 12 w) = unat w mod 4096" by (simp add: take_bit_eq_mod unat_mod)
  then show ?thesis by (metis address_fields(3) unat_0 unat_eq_zero)
qed

lemma byte_ok_page:
  assumes "mm_inv mm" "byte_ok False mm a" "a div 4096 = b div 4096"
  shows "byte_ok False mm b"
proof -
  obtain v where v: "v \<in> set (mmap_list mm)" "covers (of_nat a) v" "may_access False (of_nat a) v" and a: "a < 4294967296"
    using assms(2) by (auto simp: byte_ok_accessible [OF assms(1)] accessible_def)
  have al: "unat (vm_start v) mod 4096 = 0" "unat (vm_end v) mod 4096 = 0"
    using assms(1) v(1) by (auto simp: mm_inv_def list_all_iff area_ok_def PGOFF_mod)
  have "a div 4096 < 1048576" using a less_mult_imp_div_less [of a 1048576 4096] by simp
  then have b: "b < 4294967296" using div_less_iff_less_mult [of 4096 b 1048576] assms(3) by simp
  have "unat (vm_start v) \<le> a" "\<not> unat (vm_end v) \<le> a"
    using v(2) a by (simp_all add: covers_def word_le_nat_alt word_less_nat_alt)
  then have "unat (vm_start v) \<le> b" "\<not> unat (vm_end v) \<le> b"
    using al assms(3) by (simp_all only: aligned_le not_False_eq_True)
  then have "covers (of_nat b) v"
    using b by (simp add: covers_def word_le_nat_alt word_less_nat_alt)
  moreover have "may_access False (of_nat b) v" using v(3) by (simp add: may_access_def)
  ultimately show ?thesis using v(1) b by (auto simp: byte_ok_accessible [OF assms(1)] accessible_def)
qed

definition page_rest :: "nat \<Rightarrow> nat \<Rightarrow> bool" where
  "page_rest s p \<longleftrightarrow> 0 < p \<and> p \<le> 4096 \<and> (s + p) mod 4096 = 0"

lemma page_rest_same_page:
  assumes "page_rest s p" "i < p"
  shows "(s + i) div 4096 = s div 4096"
proof -
  obtain k where k: "s + p = 4096 * k" using assms(1) by (metis page_rest_def mod_0_imp_dvd dvd_def)
  obtain j where j: "k = Suc j" using k assms by (cases k) (auto simp: page_rest_def)
  have "4096 * j \<le> s" "s + i < 4096 * Suc j" using assms k j by (simp_all add: page_rest_def)
  then have "s div 4096 = j" "(s + i) div 4096 = j" by (simp_all add: div_nat_eqI)
  then show ?thesis by simp
qed

lemma user_string_first:
  assumes "mm_inv mm" "page_rest s p" "user_string mm m s maxn n" "i < p"
  shows "byte_ok False mm (s + i)"
proof (rule byte_ok_page [OF assms(1), of s])
  show "byte_ok False mm s" using assms(3) unfolding user_string_def by (metis add_0_right zero_le)
  show "s div 4096 = (s + i) div 4096" using page_rest_same_page [OF assms(2,4)] by simp
qed

lemma user_string_longer: "user_string mm m s maxn n \<Longrightarrow> (\<And>i. i < p \<Longrightarrow> m (s + i) \<noteq> 0) \<Longrightarrow> p \<le> n"
  unfolding user_string_def by (meson leI)

lemma user_string_later:
  assumes "\<And>i. i < p \<Longrightarrow> m (s + i) \<noteq> 0 \<and> byte_ok False mm (s + i)" "p < maxn"
    "\<And>a. s + p \<le> a \<Longrightarrow> a < s + maxn \<Longrightarrow> m' a = m a"
  shows "user_string mm m' (s + p) (maxn - p) n \<longleftrightarrow> user_string mm m s maxn (p + n)"
proof -
  have low: "(\<forall>i < p + k. Q i) \<longleftrightarrow> (\<forall>i < k. Q (p + i))" if "\<And>i. i < p \<Longrightarrow> Q i" for Q :: "nat \<Rightarrow> bool" and k
    using that by (metis add_less_cancel_left le_add_diff_inverse not_less)
  have chars: "(\<forall>i < p + n. m (s + i) \<noteq> 0) \<longleftrightarrow> (\<forall>i < n. m (s + p + i) \<noteq> 0)"
    using low [of "\<lambda>i. m (s + i) \<noteq> 0" n] assms(1) by (simp add: add.assoc)
  have bytes: "(\<forall>i \<le> p + n. byte_ok False mm (s + i)) \<longleftrightarrow> (\<forall>i \<le> n. byte_ok False mm (s + p + i))"
    using low [of "\<lambda>i. byte_ok False mm (s + i)" "Suc n"] assms(1) by (simp add: add.assoc less_Suc_eq_le)
  show ?thesis
  proof (cases "p + n < maxn")
    case True
    then have same: "m' (s + p + i) = m (s + p + i)" if "i \<le> n" for i
      using assms(3) [of "s + p + i"] that by simp
    then have "(\<forall>i < n. m' (s + p + i) \<noteq> 0) \<longleftrightarrow> (\<forall>i < n. m (s + p + i) \<noteq> 0)" by simp
    moreover have "n < maxn - p" using True by simp
    ultimately show ?thesis using True same [of n] assms(2)
      unfolding user_string_def bytes chars by (simp add: add.assoc)
  qed (use assms(2) in \<open>auto simp: user_string_def\<close>)
qed

text \<open>What a copy of at most \<open>maxn\<close> bytes from \<open>s\<close> to \<open>d\<close> has done: it has succeeded exactly when there is a
  readable string, which is then at the destination, and has changed nothing else.\<close>

definition copied :: "mm \<Rightarrow> nat \<Rightarrow> nat \<Rightarrow> nat \<Rightarrow> mem \<Rightarrow> bool \<Rightarrow> mem \<Rightarrow> bool" where
  "copied mm d s maxn m ok m' \<longleftrightarrow> (ok \<longleftrightarrow> (\<exists>n. user_string mm m s maxn n))
     \<and> (\<forall>n. user_string mm m s maxn n \<longrightarrow> (\<forall>i \<le> n. m' (d + i) = m (s + i)))
     \<and> (\<forall>a. a \<notin> {d..<d + maxn} \<longrightarrow> m' a = m a)"

lemma copied_none: "(\<And>n. \<not> user_string mm m s maxn n) \<Longrightarrow> copied mm d s maxn m False m"
  by (simp add: copied_def)

lemma copied_last:
  assumes "user_string mm m s maxn n" "disjoint_ranges d maxn s maxn"
  shows "copied mm d s maxn m True (memcpy m d s (n + 1))"
proof -
  have n: "n < maxn" using assms(1) by (simp add: user_string_def)
  then have disj: "disjoint_ranges d (n + 1) s (n + 1)" using assms(2) by (auto simp: disjoint_ranges_def)
  have uniq: "k = n" if "user_string mm m s maxn k" for k
    using that assms(1) unfolding user_string_def by (metis linorder_neqE_nat)
  have vals: "memcpy m d s (n + 1) (d + i) = m (s + i)" if "i \<le> n" for i
    using memcpy_disjoint [OF disj, of i] that by simp
  have "memcpy m d s (n + 1) a = m a" if "a \<notin> {d..<d + maxn}" for a
    using memcpy_outside [of a d "n + 1"] that n by auto
  then show ?thesis using assms(1) uniq vals unfolding copied_def by blast
qed

lemma copied_first:
  assumes chars: "\<And>i. i < p \<Longrightarrow> m (s + i) \<noteq> 0 \<and> byte_ok False mm (s + i)" and p: "p < maxn"
    and disj: "disjoint_ranges d maxn s maxn"
    and rest: "copied mm (d + p) (s + p) (maxn - p) (memcpy m d s p) ok m'"
  shows "copied mm d s maxn m ok m'"
proof -
  let ?m = "memcpy m d s p"
  have dp: "disjoint_ranges d p s p" using disj p by (auto simp: disjoint_ranges_def)
  have out: "?m a = m a" if "a \<notin> {d..<d + p}" for a using that by (rule memcpy_outside)
  have later: "user_string mm ?m (s + p) (maxn - p) n \<longleftrightarrow> user_string mm m s maxn (p + n)" for n
    using user_string_later [OF chars p, where m' = ?m] out disj p by (auto simp: disjoint_ranges_def)
  have split: "\<exists>k. n = p + k \<and> user_string mm ?m (s + p) (maxn - p) k" if "user_string mm m s maxn n" for n
    using user_string_longer [OF that, of p] chars that later by (metis le_add_diff_inverse)
  have frame: "m' a = m a" if "a \<notin> {d..<d + maxn}" for a
    using rest that out [of a] p by (auto simp: copied_def)
  have "m' (d + i) = m (s + i)" if n: "user_string mm m s maxn n" "i \<le> n" for n i
  proof (cases "i < p")
    case True
    then have "m' (d + i) = ?m (d + i)" using rest p by (auto simp: copied_def)
    then show ?thesis using memcpy_disjoint [OF dp True] by simp
  next
    case False
    obtain k where k: "n = p + k" "user_string mm ?m (s + p) (maxn - p) k" using split [OF n(1)] by blast
    have "i - p \<le> k" using n(2) k(1) by simp
    then have "m' (d + p + (i - p)) = ?m (s + p + (i - p))"
      using rest k(2) unfolding copied_def by blast
    moreover have "s + i \<notin> {d..<d + p}"
      using disj p n unfolding user_string_def disjoint_ranges_def by auto
    ultimately show ?thesis using False out [of "s + i"] by simp
  qed
  then show ?thesis using rest split later frame unfolding copied_def by metis
qed

lemma page_rest_next: "page_rest s p \<Longrightarrow> page_rest (s + p) 4096"
  by (simp add: page_rest_def)

lemma user_string_cong: "mmap_list mm' = mmap_list mm \<Longrightarrow> user_string mm' = user_string mm"
  using byte_ok_cong [of mm' mm False] by (simp add: user_string_def fun_eq_iff)

lemma copy_string_loop_spec:
  assumes "mm_inv mm" "page_rest (unat src) (unat part)" "unat dst + unat maxn < 4294967296"
    "disjoint_ranges (unat dst) (unat maxn) (unat src) (unat maxn)"
  shows "\<exists>ok m' mm'. copy_string_loop kerntop part (Some mm) dst src maxn m = (ok, m', Some mm')
    \<and> mm_inv mm' \<and> mmap_list mm' = mmap_list mm \<and> copied mm (unat dst) (unat src) (unat maxn) m ok m'"
  using assms
proof (induction "unat maxn" arbitrary: part mm dst src maxn m rule: less_induct)
  case less
  define p where "p = (if part > maxn then maxn else part)"
  have p: "unat p \<le> unat maxn" "unat p \<le> unat part" "p = maxn \<or> p = part"
    by (auto simp: p_def word_less_nat_alt)
  note eq = copy_string_loop.simps [of kerntop part "Some mm" dst src maxn m, unfolded Let_def, folded p_def]
  obtain mm' where chk: "user_mem_check kerntop (Some mm) src p False =
      (p \<noteq> 0 \<and> (\<forall>i < unat p. byte_ok False mm (unat src + i)), Some mm')"
    and mm': "mm_inv mm'" "mmap_list mm' = mmap_list mm"
    by (rule user_mem_check_bytes [OF less.prems(1)])
  let ?r = "strnlen m (unat src) (unat p)"
  show ?case
  proof (cases "p \<noteq> 0 \<and> (\<forall>i < unat p. byte_ok False mm (unat src + i))")
    case False
    have "\<not> user_string mm m (unat src) (unat maxn) n" for n
    proof
      assume us: "user_string mm m (unat src) (unat maxn) n"
      have "0 < unat p" using us less.prems(2) p(3) by (auto simp: user_string_def page_rest_def)
      then show False using False user_string_first [OF less.prems(1,2) us] p(2) by (auto simp: unat_gt_0)
    qed
    then show ?thesis using eq chk False mm' copied_none by auto
  next
    case ok: True
    show ?thesis
    proof (cases "?r < unat p")
      case True
      then have "user_string mm m (unat src) (unat maxn) ?r"
        using strnlen_spec [where m = m and s = "unat src" and len = "unat p"] ok p(1) by (auto simp: user_string_def)
      then show ?thesis using eq chk ok True mm' copied_last less.prems(4) by auto
    next
      case False
      then have chars: "m (unat src + i) \<noteq> 0 \<and> byte_ok False mm (unat src + i)" if "i < unat p" for i
        using strnlen_spec(3) [where m = m and i = i and s = "unat src" and len = "unat p"] that ok by simp
      show ?thesis
      proof (cases "p = maxn")
        case True
        then have "\<not> user_string mm m (unat src) (unat maxn) n" for n
          using chars unfolding user_string_def by blast
        then show ?thesis using eq chk ok False True mm' copied_none by auto
      next
        case further: False
        then have lt: "p = part" "unat p < unat maxn"
          using p word_unat_eq_iff [of p maxn] by (auto simp: order_less_le)
        have pos: "0 < unat p" using ok by (simp add: unat_gt_0)
        have "unat src + (unat p - 1) < 0x80000000"
          using byte_ok_user [OF less.prems(1)] chars [of "unat p - 1"] pos by auto
        then have nat: "unat (src + p) = unat src + unat p" "unat (dst + p) = unat dst + unat p"
            "unat (maxn - p) = unat maxn - unat p"
          using less.prems(3) lt pos by (auto intro!: unat_add_no_overflow simp: unat_sub word_le_nat_alt)
        have "\<exists>ok m' mm''. copy_string_loop kerntop PGSIZE (Some mm') (dst + p) (src + p) (maxn - p)
              (memcpy m (unat dst) (unat src) (unat p)) = (ok, m', Some mm'')
            \<and> mm_inv mm'' \<and> mmap_list mm'' = mmap_list mm'
            \<and> copied mm' (unat (dst + p)) (unat (src + p)) (unat (maxn - p)) (memcpy m (unat dst) (unat src) (unat p)) ok m'"
          using less.prems lt pos nat mm'(1) page_rest_next [of "unat src" "unat p"]
          by (intro less.hyps) (auto simp: PGSIZE_def disjoint_ranges_def)
        then show ?thesis
          using eq chk ok False further mm' nat copied_first [OF chars lt(2) less.prems(4)] user_string_cong [OF mm'(2)]
          by (auto simp: copied_def)
      qed
    qed
  qed
qed

lemma page_rest_of_src:
  assumes "unat src < 0x80000000"
  shows "page_rest (unat src) (unat (ROUNDDOWN_2N (src + PGSIZE) PGSHIFT - src))"
proof -
  let ?r = "ROUNDDOWN_2N (src + PGSIZE) PGSHIFT"
  have sum: "unat (src + PGSIZE) = unat src + 4096"
    using assms unat_add_no_overflow [of src PGSIZE] by (simp add: PGSIZE_def)
  have "unat ?r = (unat src + 4096) div 4096 * 4096"
    by (simp add: unat_ROUNDDOWN sum PGSHIFT_def)
  then have r: "unat ?r = unat src div 4096 * 4096 + 4096"
    using div_add_self2 [of 4096 "unat src"] by simp
  have "unat src = unat src div 4096 * 4096 + unat src mod 4096" by simp
  moreover have "unat src mod 4096 < 4096" by simp
  ultimately have le: "unat src < unat ?r" "unat ?r \<le> unat src + 4096" unfolding r by linarith+
  then have "unat (?r - src) = unat ?r - unat src" by (simp add: unat_sub word_le_nat_alt)
  then show ?thesis using le r by (simp add: page_rest_def)
qed

section \<open>Properties\<close>

text \<open>C22: Mapping a range rounds it out to whole pages and never trips an assertion. It succeeds exactly when
  the rounded range lies in the user part, no existing area overlaps it and there is memory for the new area;
  then the area joins the list, which stays sorted, disjoint and counted. Otherwise the list is unchanged and the
  error tells the two causes apart.\<close>

theorem mm_map_exact:
  assumes "mm_inv mm" "start = ROUNDDOWN_2N addr PGSHIFT" "e = ROUNDUP_2N (addr + len) PGSHIFT"
    "v = \<lparr>vm_start = start, vm_end = e, vm_flags = flags\<rparr>"
  shows "\<exists>r x mm'. mm_map mem addr len flags mm = Some (r, x, mm') \<and> mm_inv mm'
    \<and> (r = 0 \<longleftrightarrow> USER_ACCESS start e \<and> range_free mm start e \<and> mem)
    \<and> (if r = 0 then x = Some v \<and> set (mmap_list mm') = insert v (set (mmap_list mm)) \<and> map_count mm' = map_count mm + 1
       else x = None \<and> mmap_list mm' = mmap_list mm
         \<and> r = (if USER_ACCESS start e \<and> range_free mm start e then - E_NO_MEM else - E_INVAL))"
proof -
  obtain mm' where mm': "mm_inv mm'" "mmap_list mm' = mmap_list mm"
    and r: "mm_map mem addr len flags mm = Some (if \<not> USER_ACCESS start e \<or> \<not> range_free mm start e then (- E_INVAL, None, mm')
        else if \<not> mem then (- E_NO_MEM, None, mm') else (0, Some v, with_area v mm'))"
    using mm_map_spec [OF assms(1-3), of mem flags] assms(4) by blast
  have new: "mm_inv (with_area v mm')" if "USER_ACCESS start e" "range_free mm start e"
    using that with_area_inv [OF mm'(1), of v] mm'(2) assms(2-4)
    by (simp add: area_ok_def PGOFF_rounded range_free_def)
  have "map_count (with_area v mm') = map_count mm + 1"
    using mm' assms(1) by (simp add: with_area_def mm_inv_def)
  then show ?thesis using r mm' new set_with_area [of v mm'] by (auto simp: error_codes)
qed

definition demo_mm :: mm where
  "demo_mm = \<lparr>mmap_list = [\<lparr>vm_start = 0x10001000, vm_end = 0x10003000, vm_flags = VM_READ\<rparr>,
       \<lparr>vm_start = 0x7FF00000, vm_end = 0x80000000, vm_flags = VM_READ OR VM_WRITE OR VM_STACK\<rparr>],
     mmap_cache = None, pgdir = None, map_count = 2, mm_count = 1\<rparr>"

lemma demo_mm_inv: "mm_inv demo_mm"
  by (simp add: mm_inv_def demo_mm_def vmm_defs PGOFF_def)

theorem mm_map_exact_witness:
  "mm_inv demo_mm \<and> (\<exists>x mm'. mm_map True 0x10004010 32 VM_READ demo_mm = Some (0, x, mm') \<and> map_count mm' = 3)"
proof -
  have "ROUNDDOWN_2N 0x10004010 PGSHIFT = 0x10004000" "ROUNDUP_2N (0x10004010 + 32) PGSHIFT = 0x10005000"
    by (simp_all add: ROUNDUP_2N_def ROUNDDOWN_2N_def PGSHIFT_def)
  moreover have "USER_ACCESS 0x10004000 0x10005000" "range_free demo_mm 0x10004000 0x10005000"
    by (simp_all add: USER_ACCESS_def USERBASE_def USERTOP_def range_free_def demo_mm_def)
  moreover have "map_count demo_mm = 2" by (simp add: demo_mm_def)
  ultimately show ?thesis
    using demo_mm_inv mm_map_exact [OF demo_mm_inv refl refl refl, where addr = "0x10004010" and len = 32
        and flags = VM_READ and mem = True] by auto
qed

text \<open>The sum of address and length may wrap before it is rounded: mapping almost the whole address space from
  the last byte of a page is taken for mapping that page.\<close>

theorem mm_map_wraps: "mm_map True 0x10000FFF 0xFFFFFFFF VM_READ (the (mm_create True)) =
  Some (0, Some \<lparr>vm_start = 0x10000000, vm_end = 0x10001000, vm_flags = VM_READ\<rparr>,
    \<lparr>mmap_list = [\<lparr>vm_start = 0x10000000, vm_end = 0x10001000, vm_flags = VM_READ\<rparr>], mmap_cache = None,
     pgdir = None, map_count = 1, mm_count = 0\<rparr>)"
  by (simp add: mm_map_def mm_create_def set_mm_count_def ROUNDUP_2N_def ROUNDDOWN_2N_def PGSHIFT_def USER_ACCESS_def
      USERBASE_def USERTOP_def find_vma_def vma_create_def insert_vma_struct_def)

text \<open>C21: Checking a user buffer answers yes exactly when it is not empty and every byte of it, counted without
  wrapping, lies in an area that grants the access, with the lowest page of a stack never writable. The check
  only moves the lookup cache.\<close>

theorem user_mem_check_exact:
  assumes "mm_inv mm"
  shows "\<exists>mm'. user_mem_check kerntop (Some mm) addr len write =
      (len \<noteq> 0 \<and> (\<forall>i < unat len. byte_ok write mm (unat addr + i)), Some mm')
    \<and> mm_inv mm' \<and> mmap_list mm' = mmap_list mm"
  by (rule user_mem_check_bytes [OF assms, of kerntop addr len "write"]) blast

theorem user_mem_check_exact_witness:
  "mm_inv demo_mm \<and> fst (user_mem_check 0 (Some demo_mm) 0x10002FFF 1 False)
    \<and> \<not> fst (user_mem_check 0 (Some demo_mm) 0x10002FFF 2 False) \<and> \<not> fst (user_mem_check 0 (Some demo_mm) 0x10002FFF 1 True)
    \<and> \<not> fst (user_mem_check 0 (Some demo_mm) 0x7FF00FFF 1 True) \<and> fst (user_mem_check 0 (Some demo_mm) 0x7FF01000 1 True)"
proof -
  have one: "(\<forall>i < unat (1 :: u32). P i) = P 0" "\<not> P 1 \<Longrightarrow> \<not> (\<forall>i < unat (2 :: u32). P i)" for P by (auto intro: exI [of _ 1])
  have "byte_ok False demo_mm 0x10002FFF" "\<not> byte_ok False demo_mm 0x10003000" "\<not> byte_ok True demo_mm 0x10002FFF"
    "\<not> byte_ok True demo_mm 0x7FF00FFF" "byte_ok True demo_mm 0x7FF01000"
    by (simp_all add: byte_ok_def demo_mm_def VM_READ_def VM_WRITE_def VM_STACK_def)
  then show ?thesis
    using demo_mm_inv user_mem_check_exact [OF demo_mm_inv, of 0 "0x10002FFF" 1 False]
      user_mem_check_exact [OF demo_mm_inv, of 0 "0x10002FFF" 2 False] user_mem_check_exact [OF demo_mm_inv, of 0 "0x10002FFF" 1 True]
      user_mem_check_exact [OF demo_mm_inv, of 0 "0x7FF00FFF" 1 True] user_mem_check_exact [OF demo_mm_inv, of 0 "0x7FF01000" 1 True]
      one(2) [of "\<lambda>i. byte_ok False demo_mm (0x10002FFF + i)"] by (auto simp: one(1))
qed

text \<open>C29: Copying a string from a process returns whatever the string, and succeeds exactly when there is a string
  shorter than the limit all of whose bytes, the final zero included, may be read, even though it checks whole
  page remainders. Then the string is at the destination, and in every case nothing outside the destination
  buffer changes.\<close>

theorem copy_string_exact:
  assumes "mm_inv mm" "unat dst + unat maxn < 2 ^ 32" "disjoint_ranges (unat dst) (unat maxn) (unat src) (unat maxn)"
    "USERBASE \<le> src" "src < USERTOP"
  shows "\<exists>ok m' mm'. copy_string kerntop (Some mm) dst src maxn m = (ok, m', Some mm') \<and> mm_inv mm'
    \<and> (ok \<longleftrightarrow> (\<exists>n. user_string mm m (unat src) (unat maxn) n))
    \<and> (\<forall>n. user_string mm m (unat src) (unat maxn) n \<longrightarrow> (\<forall>i \<le> n. m' (unat dst + i) = m (unat src + i)))
    \<and> (\<forall>a. a \<notin> {unat dst..<unat dst + unat maxn} \<longrightarrow> m' a = m a)"
proof -
  have "unat src < 0x80000000" using assms(5) by (simp add: USERTOP_def word_less_nat_alt)
  then have rest: "page_rest (unat src) (unat (ROUNDDOWN_2N (src + PGSIZE) PGSHIFT - src))"
    by (rule page_rest_of_src)
  have small: "unat dst + unat maxn < 4294967296" using assms(2) by simp
  from copy_string_loop_spec [OF assms(1) rest small assms(3), of kerntop m] show ?thesis
    unfolding copy_string_def copied_def by blast
qed

theorem copy_string_exact_witness:
  "mm_inv demo_mm \<and> fst (copy_string 0 (Some demo_mm) 0x90000000 0x10001000 16 (\<lambda>a. if a = 0x10001000 then 65 else 0))"
proof -
  let ?m = "\<lambda>a. if a = 0x10001000 then 65 else 0"
  have b: "byte_ok False demo_mm 0x10001000" "byte_ok False demo_mm 0x10001001"
    by (simp_all add: byte_ok_def demo_mm_def VM_READ_def VM_WRITE_def VM_STACK_def)
  have "byte_ok False demo_mm (0x10001000 + i)" if "i \<le> 1" for i
  proof -
    have "i = 0 \<or> i = 1" using that by linarith
    then show ?thesis using b by auto
  qed
  then have us: "user_string demo_mm ?m (unat (0x10001000 :: u32)) (unat (16 :: u32)) 1"
    by (simp add: user_string_def)
  have "\<exists>ok m' mm'. copy_string 0 (Some demo_mm) 0x90000000 0x10001000 16 ?m = (ok, m', Some mm')
      \<and> (ok \<longleftrightarrow> (\<exists>n. user_string demo_mm ?m (unat (0x10001000 :: u32)) (unat (16 :: u32)) n))"
    using copy_string_exact [OF demo_mm_inv, of "0x90000000" 16 "0x10001000" 0 ?m]
    unfolding disjoint_ranges_def USERBASE_def USERTOP_def by force
  then show ?thesis using us demo_mm_inv by fastforce
qed

end
