(* ===== verification/Paging.thy ===== *)
theory Paging
  imports Vmm Page_Allocator
begin

text \<open>
  Page tables: the second half of \<^verbatim>\<open>kern/mm/pmm.c\<close>, the address conversions of \<^verbatim>\<open>kern/mm/pmm.h\<close>, the TLB operations of
  \<^verbatim>\<open>kern/mm/thumips_tlb.c\<close> and the operations of \<^verbatim>\<open>kern/mm/vmm.c\<close> that work on page tables. The state is the page
  allocator with its reference counts, the contents of every physical page as 1024 words, and the TLB. A page directory
  is named by the page that holds it, and a pointer to an entry is the page and the index of the entry in it.

  \<open>walk\<close> is what the two levels of tables say about an address. Under \<open>pt_inv\<close> inserting a page changes
  it at that page only, and unmapping a range clears it on the range only, with every page whose count drops to zero
  given back to the allocator.
\<close>

section \<open>The code\<close>

subsection \<open>Addresses and pages\<close>

definition PTE_P :: u32 where "PTE_P = 1"
definition PTE_W :: u32 where "PTE_W = 2"
definition PTE_U :: u32 where "PTE_U = 4"
definition PTE_USER :: u32 where "PTE_USER = PTE_U OR PTE_W OR PTE_P"
definition PTSHIFT :: nat where "PTSHIFT = 22"
definition PTSIZE :: u32 where "PTSIZE = PGSIZE * 1024"

definition PPN :: "u32 \<Rightarrow> u32" where "PPN la = drop_bit 12 (la - KERNBASE)"
definition PDE_ADDR :: "u32 \<Rightarrow> u32" where "PDE_ADDR pde = PTE_ADDR pde"

record tlb_entry =
  tlb_hi :: u32
  tlb_low0 :: u32
  tlb_low1 :: u32

record paging =
  pmm :: "u32 \<times> buddy"
  kmem :: "nat \<Rightarrow> nat \<Rightarrow> u32"
  tlb :: "nat \<Rightarrow> tlb_entry"
  refill_index :: u32

abbreviation bud :: "paging \<Rightarrow> buddy" where "bud s \<equiv> snd (pmm s)"

definition put_word :: "nat \<Rightarrow> nat \<Rightarrow> u32 \<Rightarrow> paging \<Rightarrow> paging" where
  "put_word p i w s = s\<lparr>kmem := (kmem s)(p := (kmem s p)(i := w))\<rparr>"

definition put_page :: "nat \<Rightarrow> (nat \<Rightarrow> u32) \<Rightarrow> paging \<Rightarrow> paging" where
  "put_page p c s = s\<lparr>kmem := (kmem s)(p := c)\<rparr>"

definition page2pa :: "nat \<Rightarrow> u32" where "page2pa p = KERNBASE + push_bit PGSHIFT (of_nat p)"

definition pa2page :: "u32 \<Rightarrow> paging \<Rightarrow> nat option" where
  "pa2page pa s = do { kassert (unat (PPN pa) < npage (bud s)); Some (unat (PPN pa)) }"

definition PADDR_w :: "u32 \<Rightarrow> u32 option" where
  "PADDR_w kva = do { kassert (KERNBASE \<le> kva); Some kva }"

definition KADDR :: "u32 \<Rightarrow> paging \<Rightarrow> u32 option" where
  "KADDR pa s = do { kassert (unat (PPN pa) < npage (bud s)); Some pa }"

definition page2kva :: "nat \<Rightarrow> paging \<Rightarrow> u32 option" where
  "page2kva p s = KADDR (page2pa p) s"

definition kva2page :: "u32 \<Rightarrow> paging \<Rightarrow> nat option" where
  "kva2page kva s = do { pa \<leftarrow> PADDR_w kva; pa2page pa s }"

definition pte2page :: "u32 \<Rightarrow> paging \<Rightarrow> nat option" where
  "pte2page pte s = do { kassert (pte AND PTE_P \<noteq> 0); pa2page (PTE_ADDR pte) s }"

definition pde2page :: "u32 \<Rightarrow> paging \<Rightarrow> nat option" where
  "pde2page pde s = pa2page (PDE_ADDR pde) s"

definition page_ref :: "nat \<Rightarrow> paging \<Rightarrow> int" where
  "page_ref p s = pg_ref (page (bud s) p)"

definition page_ref_inc :: "nat \<Rightarrow> paging \<Rightarrow> paging" where
  "page_ref_inc p s = s\<lparr>pmm := (fst (pmm s), upd_page p (\<lambda>pg. set_page_ref (pg_ref pg + 1) pg) (bud s))\<rparr>"

definition page_ref_dec :: "nat \<Rightarrow> paging \<Rightarrow> paging" where
  "page_ref_dec p s = s\<lparr>pmm := (fst (pmm s), upd_page p (\<lambda>pg. set_page_ref (pg_ref pg - 1) pg) (bud s))\<rparr>"

definition alloc_page :: "paging \<Rightarrow> (nat option \<times> paging) option" where
  "alloc_page s = do { (p, m) \<leftarrow> alloc_pages buddy_pmm_manager 1 (pmm s); Some (p, s\<lparr>pmm := m\<rparr>) }"

definition free_page :: "nat \<Rightarrow> paging \<Rightarrow> paging option" where
  "free_page p s = do { (_, m) \<leftarrow> free_pages buddy_pmm_manager p 1 (pmm s); Some (s\<lparr>pmm := m\<rparr>) }"

subsection \<open>The TLB\<close>

definition write_one_tlb :: "nat \<Rightarrow> u32 \<Rightarrow> u32 \<Rightarrow> u32 \<Rightarrow> paging \<Rightarrow> paging" where
  "write_one_tlb i hi low0 low1 s = s\<lparr>tlb := (tlb s)(i := \<lparr>tlb_hi = hi, tlb_low0 = low0, tlb_low1 = low1\<rparr>)\<rparr>"

definition tlb_invalidate_all :: "paging \<Rightarrow> paging" where
  "tlb_invalidate_all s = fold (\<lambda>i. write_one_tlb i (0x80000000 + push_bit 20 (of_nat i)) 0 0) [0..<128] s"

definition tlb_invalidate :: "u32 \<Rightarrow> paging \<Rightarrow> paging" where
  "tlb_invalidate la s = tlb_invalidate_all s"

definition TLB_V :: u32 where "TLB_V = 2"
definition TLB_D :: u32 where "TLB_D = 4"
definition TLB_G :: u32 where "TLB_G = 1"

definition pte2tlblow :: "u32 \<Rightarrow> u32" where
  "pte2tlblow pte =
     (let t = push_bit 6 (drop_bit 12 (pte - KERNBASE))
      in if pte AND PTE_P = 0 then 0
         else let t = t OR TLB_V OR TLB_G OR push_bit 3 2
              in if pte AND PTE_W \<noteq> 0 then t OR TLB_D else t)"

text \<open>The entry of an odd page is preceded by the one it shares a TLB entry with.\<close>

definition tlb_refill :: "u32 \<Rightarrow> (nat \<times> nat) option \<Rightarrow> paging \<Rightarrow> paging" where
  "tlb_refill badaddr pte s = (case pte of
     None \<Rightarrow> s
   | Some (p, i) \<Rightarrow>
       let i = (if badaddr AND push_bit 12 1 \<noteq> 0 then i - 1 else i);
           s = write_one_tlb (unat (refill_index s AND 0xF)) (badaddr AND NOT 0x1FFF)
                 (pte2tlblow (kmem s p i)) (pte2tlblow (kmem s p (i + 1))) s
       in s\<lparr>refill_index := refill_index s + 1\<rparr>)"

subsection \<open>Page tables\<close>

text \<open>The page for a missing page table: counted, cleared and entered in the directory.\<close>

definition new_table :: "nat \<Rightarrow> nat \<Rightarrow> paging \<Rightarrow> (bool \<times> paging) option" where
  "new_table dir d s = do {
     (p, s) \<leftarrow> alloc_page s;
     (case p of
        None \<Rightarrow> Some (False, s)
      | Some p \<Rightarrow> do {
          let s = page_ref_inc p s;
          pa \<leftarrow> page2kva p s;
          let s = put_page p (\<lambda>_. 0) s;
          pa \<leftarrow> PADDR_w pa;
          Some (True, put_word dir d (pa OR (PTE_U OR PTE_P OR PTE_W)) s)
        })
   }"

definition get_pte :: "nat \<Rightarrow> u32 \<Rightarrow> bool \<Rightarrow> paging \<Rightarrow> ((nat \<times> nat) option \<times> paging) option" where
  "get_pte dir la create s = do {
     let d = unat (PDX la);
     (ok, s) \<leftarrow> (if kmem s dir d AND PTE_P = 0
                 then if \<not> create then Some (False, s) else new_table dir d s
                 else Some (True, s));
     if \<not> ok then Some (None, s)
     else do {
       a \<leftarrow> KADDR (PDE_ADDR (kmem s dir d) + 4 * PTX la) s;
       Some (Some (unat (PPN a), unat (PGOFF a) div 4), s)
     }
   }"

definition get_page :: "nat \<Rightarrow> u32 \<Rightarrow> paging \<Rightarrow> ((nat option \<times> (nat \<times> nat) option) \<times> paging) option" where
  "get_page dir la s = do {
     (ptep, s) \<leftarrow> get_pte dir la False s;
     (case ptep of
        Some (q, i) \<Rightarrow>
          if kmem s q i AND PTE_P \<noteq> 0 then do { p \<leftarrow> pa2page (kmem s q i) s; Some ((Some p, ptep), s) }
          else Some ((None, ptep), s)
      | None \<Rightarrow> Some ((None, ptep), s))
   }"

definition page_remove_pte :: "(nat \<times> nat) option \<Rightarrow> paging \<Rightarrow> paging option" where
  "page_remove_pte ptep s = do {
     s \<leftarrow> (case ptep of
        Some (q, i) \<Rightarrow>
          if kmem s q i AND PTE_P \<noteq> 0
          then do {
            p \<leftarrow> pte2page (kmem s q i) s;
            let s = page_ref_dec p s;
            s \<leftarrow> (if page_ref p s = 0 then free_page p s else Some s);
            Some (put_word q i 0 s)
          }
          else Some s
      | None \<Rightarrow> Some s);
     Some (tlb_invalidate_all s)
   }"

definition page_remove :: "nat \<Rightarrow> u32 \<Rightarrow> paging \<Rightarrow> paging option" where
  "page_remove dir la s = do {
     (ptep, s) \<leftarrow> get_pte dir la False s;
     if ptep \<noteq> None then page_remove_pte ptep s else Some s
   }"

definition page_insert :: "nat \<Rightarrow> nat \<Rightarrow> u32 \<Rightarrow> u32 \<Rightarrow> paging \<Rightarrow> (int \<times> paging) option" where
  "page_insert dir pg la perm s = do {
     (ptep, s) \<leftarrow> get_pte dir la True s;
     (case ptep of
        None \<Rightarrow> Some (- E_NO_MEM, s)
      | Some (q, i) \<Rightarrow> do {
          let s = page_ref_inc pg s;
          s \<leftarrow> (if kmem s q i AND PTE_P \<noteq> 0
                then do {
                  p \<leftarrow> pte2page (kmem s q i) s;
                  if p = pg then Some (page_ref_dec pg s) else page_remove_pte ptep s
                }
                else Some s);
          let s = put_word q i (page2pa pg OR PTE_P OR perm) s;
          Some (0, tlb_invalidate la s)
        })
   }"

text \<open>There is no swap area, so the branches for a swapped page are never taken.\<close>

definition swap_init_ok :: int where "swap_init_ok = 0"

definition pgdir_alloc_page :: "nat \<Rightarrow> u32 \<Rightarrow> u32 \<Rightarrow> paging \<Rightarrow> (nat option \<times> paging) option" where
  "pgdir_alloc_page dir la perm s = do {
     (pg, s) \<leftarrow> alloc_page s;
     (case pg of
        None \<Rightarrow> Some (None, s)
      | Some p \<Rightarrow> do {
          (r, s) \<leftarrow> page_insert dir p la perm s;
          if r \<noteq> 0 then do { s \<leftarrow> free_page p s; Some (None, s) }
          else do { kassert (swap_init_ok = 0); Some (Some p, s) }
        })
   }"

text \<open>The loops over a range of addresses may in principle not end, since the address wraps; they are partial.\<close>

partial_function (option) unmap_loop :: "nat \<Rightarrow> u32 \<Rightarrow> u32 \<Rightarrow> paging \<Rightarrow> paging option" where
  "unmap_loop dir start e s = do {
     (ptep, s) \<leftarrow> get_pte dir start False s;
     (start, s) \<leftarrow> (case ptep of
        None \<Rightarrow> Some (ROUNDDOWN_2N (start + PTSIZE) PTSHIFT, s)
      | Some (q, i) \<Rightarrow> do {
          s \<leftarrow> (if kmem s q i \<noteq> 0 then page_remove_pte ptep s else Some s);
          Some (start + PGSIZE, s)
        });
     if start \<noteq> 0 \<and> start < e then unmap_loop dir start e s else Some s
   }"

definition unmap_range :: "nat \<Rightarrow> u32 \<Rightarrow> u32 \<Rightarrow> paging \<Rightarrow> paging option" where
  "unmap_range dir start e s = do {
     kassert (start mod PGSIZE = 0 \<and> e mod PGSIZE = 0);
     kassert (USER_ACCESS start e);
     unmap_loop dir start e s
   }"

partial_function (option) exit_loop :: "nat \<Rightarrow> u32 \<Rightarrow> u32 \<Rightarrow> paging \<Rightarrow> paging option" where
  "exit_loop dir start e s = do {
     let d = unat (PDX start);
     s \<leftarrow> (if kmem s dir d AND PTE_P \<noteq> 0
           then do {
             p \<leftarrow> pde2page (kmem s dir d) s;
             s \<leftarrow> free_page p s;
             Some (put_word dir d 0 s)
           }
           else Some s);
     if start + PTSIZE \<noteq> 0 \<and> start + PTSIZE < e then exit_loop dir (start + PTSIZE) e s else Some s
   }"

definition exit_range :: "nat \<Rightarrow> u32 \<Rightarrow> u32 \<Rightarrow> paging \<Rightarrow> paging option" where
  "exit_range dir start e s = do {
     kassert (start mod PGSIZE = 0 \<and> e mod PGSIZE = 0);
     kassert (USER_ACCESS start e);
     exit_loop dir (ROUNDDOWN_2N start PTSHIFT) e s
   }"

text \<open>The copy of one page into another address space. The result of \<^verbatim>\<open>page_insert\<close> is not looked at.\<close>

definition copy_page :: "nat \<Rightarrow> u32 \<Rightarrow> u32 \<Rightarrow> paging \<Rightarrow> paging option" where
  "copy_page to start pte s = do {
     let perm = pte AND PTE_USER;
     p \<leftarrow> pte2page pte s;
     (np, s) \<leftarrow> alloc_page s;
     n \<leftarrow> np;
     _ \<leftarrow> page2kva n s;
     _ \<leftarrow> page2kva p s;
     let s = put_page n (kmem s p) s;
     (_, s) \<leftarrow> page_insert to n start perm s;
     Some s
   }"

partial_function (option) copy_loop :: "nat \<Rightarrow> nat \<Rightarrow> u32 \<Rightarrow> u32 \<Rightarrow> paging \<Rightarrow> (int \<times> paging) option" where
  "copy_loop to from start e s = do {
     (ptep, s) \<leftarrow> get_pte from start False s;
     (ret, start, s) \<leftarrow> (case ptep of
        None \<Rightarrow> Some (0, ROUNDDOWN_2N (start + PTSIZE) PGSHIFT, s)
      | Some (q, i) \<Rightarrow>
          if kmem s q i AND PTE_P \<noteq> 0
          then do {
            (nptep, s) \<leftarrow> get_pte to start True s;
            if nptep = None then Some (- E_NO_MEM, start, s)
            else do { s \<leftarrow> copy_page to start (kmem s q i) s; Some (0, start + PGSIZE, s) }
          }
          else Some (0, start + PGSIZE, s));
     if ret \<noteq> 0 then Some (ret, s)
     else if start \<noteq> 0 \<and> start < e then copy_loop to from start e s
     else Some (0, s)
   }"

definition copy_range :: "nat \<Rightarrow> nat \<Rightarrow> u32 \<Rightarrow> u32 \<Rightarrow> paging \<Rightarrow> (int \<times> paging) option" where
  "copy_range to from start e s = do {
     kassert (start mod PGSIZE = 0 \<and> e mod PGSIZE = 0);
     kassert (USER_ACCESS start e);
     copy_loop to from start e s
   }"

text \<open>The directory of the kernel at boot.\<close>

fun boot_map_loop :: "nat \<Rightarrow> nat \<Rightarrow> u32 \<Rightarrow> u32 \<Rightarrow> u32 \<Rightarrow> paging \<Rightarrow> paging option" where
  "boot_map_loop dir 0 la pa perm s = Some s"
| "boot_map_loop dir (Suc n) la pa perm s = do {
     (ptep, s) \<leftarrow> get_pte dir la True s;
     (q, i) \<leftarrow> ptep;
     boot_map_loop dir n (la + PGSIZE) (pa + PGSIZE) perm (put_word q i (pa OR PTE_P OR perm) s)
   }"

definition boot_map_segment :: "nat \<Rightarrow> u32 \<Rightarrow> u32 \<Rightarrow> u32 \<Rightarrow> u32 \<Rightarrow> paging \<Rightarrow> paging option" where
  "boot_map_segment dir la sz pa perm s = do {
     kassert (PGOFF la = PGOFF pa);
     let n = drop_bit PGSHIFT (ROUNDUP_2N (sz + PGOFF la) PGSHIFT);
     boot_map_loop dir (unat n) (ROUNDDOWN_2N la PGSHIFT) (ROUNDDOWN_2N pa PGSHIFT) perm s
   }"

definition boot_alloc_page :: "paging \<Rightarrow> (nat \<times> paging) option" where
  "boot_alloc_page s = do {
     (p, s) \<leftarrow> alloc_page s;
     p \<leftarrow> p;
     _ \<leftarrow> page2kva p s;
     Some (p, s)
   }"

text \<open>The page array is put behind the kernel image, which ends at \<open>kend\<close>; the size of the memory and of a page
  descriptor depend on the machine and the compiler. All pages are reserved but those behind the array.\<close>

definition SetPageReserved :: "Page \<Rightarrow> Page" where
  "SetPageReserved p = p\<lparr>pg_flags := set_bit_at 0 (pg_flags p)\<rparr>"

definition page_init :: "u32 \<Rightarrow> u32 \<Rightarrow> u32 \<Rightarrow> paging \<Rightarrow> paging option" where
  "page_init kend kmemsize psize s = do {
     let kerntop = KERNBASE + kmemsize;
     let n = drop_bit PGSHIFT kmemsize;
     let pages = ROUNDUP_2N kend PGSHIFT;
     let b = (bud s)\<lparr>npage := unat n\<rparr>;
     let b = fold (\<lambda>i. upd_page i SetPageReserved) [0..<unat n] b;
     freemem \<leftarrow> PADDR_w (pages + psize * n);
     let mbegin = ROUNDUP_2N freemem PGSHIFT;
     let mend = ROUNDDOWN_2N kerntop PGSHIFT;
     kassert (mbegin < mend);
     p \<leftarrow> pa2page mbegin (s\<lparr>pmm := (fst (pmm s), b)\<rparr>);
     b \<leftarrow> pm_init_memmap buddy_pmm_manager p (unat (drop_bit PGSHIFT (mend - mbegin))) b;
     Some (s\<lparr>pmm := (fst (pmm s), b)\<rparr>)
   }"

subsection \<open>Address spaces\<close>

fun dup_loop :: "(vma \<Rightarrow> bool) \<Rightarrow> vma list \<Rightarrow> nat \<Rightarrow> mm \<Rightarrow> paging \<Rightarrow> (int \<times> mm \<times> paging) option" where
  "dup_loop mem [] from to s = Some (0, to, s)"
| "dup_loop mem (v # vs) from to s =
     (case vma_create (mem v) (vm_start v) (vm_end v) (vm_flags v) of
        None \<Rightarrow> Some (- E_NO_MEM, to, s)
      | Some nv \<Rightarrow> do {
          to \<leftarrow> insert_vma_struct nv to;
          dir \<leftarrow> pgdir to;
          (r, s) \<leftarrow> copy_range dir from (vm_start v) (vm_end v) s;
          if r \<noteq> 0 then Some (- E_NO_MEM, to, s) else dup_loop mem vs from to s
        })"

definition dup_mmap :: "(vma \<Rightarrow> bool) \<Rightarrow> mm \<Rightarrow> mm \<Rightarrow> paging \<Rightarrow> (int \<times> mm \<times> paging) option" where
  "dup_mmap mem to from s = do { dir \<leftarrow> pgdir from; dup_loop mem (rev (mmap_list from)) dir to s }"

fun range_loop :: "(nat \<Rightarrow> u32 \<Rightarrow> u32 \<Rightarrow> paging \<Rightarrow> paging option) \<Rightarrow> nat \<Rightarrow> vma list \<Rightarrow> paging \<Rightarrow> paging option" where
  "range_loop op dir [] s = Some s"
| "range_loop op dir (v # vs) s = do { s \<leftarrow> op dir (vm_start v) (vm_end v) s; range_loop op dir vs s }"

definition exit_mmap :: "mm \<Rightarrow> paging \<Rightarrow> paging option" where
  "exit_mmap mm s = do {
     kassert (mm_count mm = 0);
     dir \<leftarrow> pgdir mm;
     s \<leftarrow> range_loop unmap_range dir (mmap_list mm) s;
     range_loop exit_range dir (mmap_list mm) s
   }"

text \<open>The rights an area gives for the error code of a fault: bit 1 is a write, bit 0 a page that is present.\<close>

definition fault_allowed :: "u32 \<Rightarrow> vma \<Rightarrow> bool" where
  "fault_allowed error_code v =
     (let c = error_code AND 3 in
      if c = 1 then False
      else if c = 0 then vm_flags v AND (VM_READ OR VM_EXEC) \<noteq> 0
      else vm_flags v AND VM_WRITE \<noteq> 0)"

definition fault_perm :: "vma \<Rightarrow> u32" where
  "fault_perm v = (if vm_flags v AND VM_WRITE \<noteq> 0 then PTE_U OR PTE_W else PTE_U)"

definition do_pgfault :: "mm option \<Rightarrow> u32 \<Rightarrow> u32 \<Rightarrow> u32 \<times> paging \<Rightarrow> (int \<times> mm option \<times> u32 \<times> paging) option" where
  "do_pgfault mm error_code addr c = (case c of (pgfault_num, s) \<Rightarrow>
     let (v, mm) = (case mm of None \<Rightarrow> (None, None) | Some mm \<Rightarrow> case find_vma addr mm of (v, mm) \<Rightarrow> (v, Some mm));
         num = pgfault_num + 1
     in (case (v, mm) of
          (Some v, Some mm) \<Rightarrow>
            if vm_start v > addr \<or> \<not> fault_allowed error_code v then Some (- E_INVAL, Some mm, num, s)
            else do {
              let perm = fault_perm v;
              let addr = ROUNDDOWN_2N addr PGSHIFT;
              dir \<leftarrow> pgdir mm;
              (ptep, s) \<leftarrow> get_pte dir addr True s;
              (case ptep of
                 None \<Rightarrow> Some (- E_NO_MEM, Some mm, num, s)
               | Some (q, i) \<Rightarrow>
                   if kmem s q i = 0
                   then do {
                     (pg, s) \<leftarrow> pgdir_alloc_page dir addr perm s;
                     Some (if pg = None then - E_NO_MEM else 0, Some mm, num, s)
                   }
                   else do { kassert (swap_init_ok = 0); Some (- E_NO_MEM, Some mm, num, s) })
            }
        | (_, mm) \<Rightarrow> Some (- E_INVAL, mm, num, s)))"

subsection \<open>Printing tables\<close>

definition perm2str :: "u32 \<Rightarrow> string" where
  "perm2str perm = [if perm AND PTE_U \<noteq> 0 then CHR ''u'' else CHR ''-'', CHR ''r'',
     if perm AND PTE_W \<noteq> 0 then CHR ''w'' else CHR ''-'']"

function skip_items :: "(u32 \<Rightarrow> bool) \<Rightarrow> nat \<Rightarrow> nat \<Rightarrow> (nat \<Rightarrow> u32) \<Rightarrow> nat" where
  "skip_items stop start right table =
     (if start < right \<and> \<not> stop (table start) then skip_items stop (start + 1) right table else start)"
  by auto
termination by (relation "measure (\<lambda>(_, start, right, _). right - start)") auto

declare skip_items.simps [simp del]

text \<open>The run of entries with the same rights: its rights and its two ends.\<close>

definition get_pgtable_items :: "nat \<Rightarrow> nat \<Rightarrow> (nat \<Rightarrow> u32) \<Rightarrow> (u32 \<times> nat \<times> nat) option" where
  "get_pgtable_items right start table =
     (if start \<ge> right then None
      else let start = skip_items (\<lambda>w. w AND PTE_P \<noteq> 0) start right table
           in if start < right
              then let perm = table start AND PTE_USER
                   in Some (perm, start, skip_items (\<lambda>w. w AND PTE_USER \<noteq> perm) (start + 1) right table)
              else None)"

section \<open>Entries and addresses\<close>

definition present :: "u32 \<Rightarrow> bool" where "present w \<longleftrightarrow> w AND PTE_P \<noteq> 0"

lemma present_bit: "present w \<longleftrightarrow> bit w 0"
  using and_single_bit [of w 0] by (simp add: present_def PTE_P_def)

definition frame :: "u32 \<Rightarrow> nat" where "frame w = unat (PPN (PTE_ADDR w))"

lemma unat_PGOFF: "unat (PGOFF w) = unat w mod 4096"
  by (simp add: address_fields take_bit_eq_mod unat_mod)

lemma PDX_less: "unat (PDX la) < 1024" and PTX_less: "unat (PTX la) < 1024"
  by (simp_all add: address_fields take_bit_eq_mod unat_mod)

lemma aligned_add:
  assumes "unat (a :: u32) mod 4096 = 0" "unat b < 4096"
  shows "unat (a + b) = unat a + unat b" "drop_bit 12 (a + b) = drop_bit 12 a" "unat (PGOFF (a + b)) = unat b"
proof -
  obtain k where k: "unat a = 4096 * k" using assms(1) by (metis dvd_def mod_0_imp_dvd)
  then have "k < 1048576" using unat_u32_less [of a] by simp
  then have "4096 * k + unat b < 4294967296" using assms(2) by linarith
  then show sum: "unat (a + b) = unat a + unat b" using k by (intro unat_add_no_overflow) simp
  have "(unat a + unat b) div 4096 = k" using k assms(2) by simp
  then have "unat (drop_bit 12 (a + b)) = unat (drop_bit 12 a)" using k sum by (simp add: unat_drop_bit_u32)
  then show "drop_bit 12 (a + b) = drop_bit 12 a" by (simp only: word_unat_eq_iff)
  show "unat (PGOFF (a + b)) = unat b" using assms(2) k sum by (simp add: unat_PGOFF)
qed

lemma PTE_ADDR_eq: "PTE_ADDR w = push_bit 12 (drop_bit 12 w)"
  unfolding PTE_ADDR_def low_masks by (rule bit_word_eqI) (auto simp: bit_and_iff bit_not_iff bit_mask_iff bit_push_bit_iff bit_drop_bit_eq)

lemma unat_PTE_ADDR: "unat (PTE_ADDR w) = unat w div 4096 * 4096"
  using unat_ROUNDDOWN [of w 12] by (simp add: PTE_ADDR_eq ROUNDDOWN_2N_def)

lemma kern_offset_aligned:
  assumes "unat (a :: u32) mod 4096 = 0"
  shows "unat (a - KERNBASE) mod 4096 = 0"
proof -
  have "a - KERNBASE = a + 0x80000000" by (simp add: KERNBASE_def)
  then have "unat (a - KERNBASE) mod 4096 = (unat a + 2147483648) mod 4294967296 mod 4096"
    by (simp only: unat_word_ariths(1)) simp
  also have "\<dots> = (unat a + 2147483648) mod 4096" by (rule mod_mod_cancel) simp
  also have "\<dots> = (unat a mod 4096 + 2147483648 mod 4096) mod 4096" by (rule mod_add_eq [symmetric])
  finally show ?thesis using assms by simp
qed

text \<open>The pointer to an entry: the page of the table and the index in it.\<close>

lemma entry_pointer:
  shows "unat (PPN (PDE_ADDR w + 4 * PTX la)) = frame w" "unat (PGOFF (PDE_ADDR w + 4 * PTX la)) div 4 = unat (PTX la)"
proof -
  note x = PTX_less [of la]
  then have x4: "unat (4 * PTX la) = 4 * unat (PTX la)" by (simp add: unat_mult_no_overflow)
  have al: "unat (PTE_ADDR w) mod 4096 = 0" by (simp add: unat_PTE_ADDR)
  have "drop_bit 12 (PTE_ADDR w - KERNBASE + 4 * PTX la) = drop_bit 12 (PTE_ADDR w - KERNBASE)"
    using x x4 by (intro aligned_add(2) kern_offset_aligned [OF al]) simp
  moreover have "PDE_ADDR w + 4 * PTX la - KERNBASE = PTE_ADDR w - KERNBASE + 4 * PTX la"
    unfolding PDE_ADDR_def by (rule add_diff_eq [symmetric, THEN trans]) simp
  ultimately show "unat (PPN (PDE_ADDR w + 4 * PTX la)) = frame w"
    unfolding PPN_def frame_def by (simp only:)
  show "unat (PGOFF (PDE_ADDR w + 4 * PTX la)) div 4 = unat (PTX la)"
    using aligned_add(3) [OF al, of "4 * PTX la"] x x4 by (simp add: PDE_ADDR_def)
qed

lemma unat_page2pa_offset: "p < 524288 \<Longrightarrow> unat (page2pa p - KERNBASE) = p * 4096"
  by (simp add: page2pa_def PGSHIFT_def push_bit_eq_mult unat_mult_no_overflow)

text \<open>An entry made for a page names the page and is present.\<close>

lemma entry_of_page:
  assumes "p < 524288" "unat f < 4096"
  shows "frame (page2pa p OR f) = p" "present (page2pa p OR f) \<longleftrightarrow> present f"
    "unat (PPN (page2pa p)) = p" "KERNBASE \<le> page2pa p"
proof -
  have "unat (drop_bit 12 f) = 0" using assms(2) unfolding unat_drop_bit_u32 by simp
  then have f: "drop_bit 12 f = 0" by (simp only: unat_eq_zero)
  show ppn: "unat (PPN (page2pa p)) = p"
    using unat_page2pa_offset [OF assms(1)] by (simp add: PPN_def unat_drop_bit_u32)
  have al: "unat (page2pa p) = 2147483648 + p * 4096"
    using assms(1) by (simp add: page2pa_def PGSHIFT_def KERNBASE_def push_bit_eq_mult unat_add_no_overflow unat_mult_no_overflow)
  then have "PTE_ADDR (page2pa p) = page2pa p" by (simp add: word_unat_eq_iff unat_PTE_ADDR)
  moreover have "PTE_ADDR (page2pa p OR f) = PTE_ADDR (page2pa p)"
    using f by (simp add: PTE_ADDR_eq)
  ultimately show "frame (page2pa p OR f) = p" using ppn by (simp add: frame_def)
  have "\<not> bit (page2pa p) 0" by (simp add: page2pa_def PGSHIFT_def KERNBASE_def bit_0 even_push_bit_iff)
  then show "present (page2pa p OR f) \<longleftrightarrow> present f" by (simp add: present_bit bit_or_iff)
  show "KERNBASE \<le> page2pa p" using al by (simp add: KERNBASE_def word_le_nat_alt)
qed

section \<open>Pages of the allocator\<close>

definition held :: "paging \<Rightarrow> nat \<Rightarrow> bool" where
  "held s p \<longleftrightarrow> (\<exists>z. allocated (bud s) z {p})"

lemma held_npage: "held s p \<Longrightarrow> p < npage (bud s)"
  by (auto simp: held_def allocated_def usable_def)

lemma held_not_free: "held s p \<Longrightarrow> p \<notin> free_pgs (bud s)"
  by (auto simp: held_def allocated_def)

lemma SetPageProperty_ref [simp]: "pg_ref (SetPageProperty pg) = pg_ref pg"
  by (simp add: SetPageProperty_def)

lemma link_block_ref: "pg_ref (page (link_block p k s) q) = pg_ref (page s q)"
  by simp

lemma unlink_block_ref: "pg_ref (page (unlink_block p k s) q) = pg_ref (page s q)"
  by (simp add: unlink_block_def)

lemma ClearPageProperty_ref [simp]: "pg_ref (ClearPageProperty pg) = pg_ref pg"
  by (simp add: ClearPageProperty_def)

lemma split_block_ref [simp]: "pg_ref (page (split_block p k c s) q) = pg_ref (page s q)"
  by (induction p k c s rule: split_block.induct) simp_all

lemma merge_loop_ref: "pg_ref (page (snd (snd (merge_loop z i k s))) q) = pg_ref (page s q)"
proof (induction z i k s rule: merge_loop.induct)
  case (1 z i k s)
  then show ?case by (subst merge_loop.simps) (auto simp: Let_def)
qed

lemma buddy_alloc_ref:
  assumes "buddy_alloc_pages 1 s = Some (r, s')"
  shows "pg_ref (page s' q) = pg_ref (page s q)"
proof -
  have "getorder 1 = Some 0" by (simp add: getorder_def getorder_from.simps)
  then show ?thesis using assms
    by (auto simp: buddy_alloc_pages_def buddy_alloc_pages_sub_def Let_def split: option.splits)
qed

lemma buddy_free_ref:
  assumes "buddy_free_pages p 1 s = Some s'"
  shows "pg_ref (page s' q) = (if q = p then 0 else pg_ref (page s q))"
proof -
  let ?t = "upd_page p (\<lambda>pg. set_page_ref 0 (pg\<lparr>pg_flags := 0\<rparr>)) s"
  let ?z = "pg_zone_num (page s p)"
  have "s' = (case merge_loop ?z (page2idx p s) 0 ?t of (i, k, u) \<Rightarrow> link_block (idx2page ?z i u) k u)"
    using assms(1) by (auto simp: buddy_free_pages_def buddy_free_pages_sub_def Let_def split: if_splits prod.splits)
  then show ?thesis using merge_loop_ref [of ?z "page2idx p s" 0 ?t q] by (auto simp: set_page_ref_def split: prod.splits)
qed

text \<open>What taking and giving back a page, and changing a reference count, do to the rest of the state.\<close>

lemma no_free_lists: "\<forall>j. free_list b j = [] \<Longrightarrow> free_pgs b = {}"
  by (simp add: free_pgs_def)

lemma alloc_page_cases:
  assumes "buddy_inv (bud s)"
  obtains "alloc_page s = Some (None, s)" "free_pgs (bud s) = {}"
  | p s' where "alloc_page s = Some (Some p, s')" "buddy_inv (bud s')" "p \<in> free_pgs (bud s)"
    "free_pgs (bud s') = free_pgs (bud s) - {p}" "held s' p" "\<And>q. held s q \<Longrightarrow> held s' q"
    "\<And>q. page_ref q s' = page_ref q s" "kmem s' = kmem s" "npage (bud s') = npage (bud s)"
proof -
  obtain st b where s: "pmm s = (st, b)" by fastforce
  consider "buddy_alloc_pages 1 b = Some (None, b)" "free_pgs b = {}"
    | p b' z where "buddy_alloc_pages 1 b = Some (Some p, b')" "buddy_inv b'" "same_zones b b'" "p \<in> free_pgs b"
      "free_pgs b' = free_pgs b - {p}" "allocated b' z {p}"
    using buddy_alloc_pages_spec [of b 1] assms s no_free_lists [of b] by auto
  then show thesis
  proof cases
    case 1
    then have "alloc_page s = Some (None, s)"
      using s by (simp add: alloc_page_def alloc_pages_def critical_eq buddy_pmm_manager_def)
    then show thesis using 1(2) s by (intro that(1)) simp_all
  next
    case (2 p b' z)
    let ?s = "s\<lparr>pmm := (st, b')\<rparr>"
    have "alloc_page s = Some (Some p, ?s)"
      using s 2(1) by (simp add: alloc_page_def alloc_pages_def critical_eq buddy_pmm_manager_def)
    moreover have "held ?s q" if "held s q" for q
      using that allocated_alloc [of b 1 "Some p" b'] assms s 2(1) by (auto simp: held_def)
    moreover have "held ?s p" using 2(6) by (auto simp: held_def)
    moreover have "page_ref q ?s = page_ref q s" for q using buddy_alloc_ref [OF 2(1)] s by (simp add: page_ref_def)
    moreover have "npage b' = npage b" using 2(3) by (simp add: same_zones_def)
    ultimately show thesis using s 2(2,4,5) by (intro that(2) [of p ?s]) simp_all
  qed
qed

lemma free_page_spec:
  assumes "buddy_inv (bud s)" "held s p"
  obtains s' where "free_page p s = Some s'" "buddy_inv (bud s')" "free_pgs (bud s') = insert p (free_pgs (bud s))"
    "\<And>q. q \<noteq> p \<Longrightarrow> held s q \<Longrightarrow> held s' q" "\<And>q. page_ref q s' = (if q = p then 0 else page_ref q s)" "kmem s' = kmem s"
    "npage (bud s') = npage (bud s)"
proof -
  obtain st b where s: "pmm s = (st, b)" by fastforce
  obtain z where "allocated b z {p..<p + 1}" using assms(2) s by (auto simp: held_def)
  then obtain b' where b': "buddy_free_pages p 1 b = Some b'" "buddy_inv b'" "same_zones b b'"
      "free_pgs b' = insert p (free_pgs b)"
    using buddy_free_pages_spec [of b z p 1] assms(1) s by auto
  let ?s = "s\<lparr>pmm := (st, b')\<rparr>"
  have "free_page p s = Some ?s"
    using s b'(1) by (simp add: free_page_def free_pages_def critical_eq buddy_pmm_manager_def)
  moreover have "held ?s q" if "q \<noteq> p" "held s q" for q
    using that s b'(4) same_zones_usable [OF b'(3)] by (auto simp: held_def allocated_def)
  moreover have "page_ref q ?s = (if q = p then 0 else page_ref q s)" for q
    using buddy_free_ref [OF b'(1)] s by (simp add: page_ref_def)
  moreover have "npage b' = npage b" using b'(3) by (simp add: same_zones_def)
  ultimately show thesis using s b'(2,4) by (intro that [of ?s]) simp_all
qed

definition set_ref :: "nat \<Rightarrow> int \<Rightarrow> paging \<Rightarrow> paging" where
  "set_ref p r s = s\<lparr>pmm := (fst (pmm s), upd_page p (\<lambda>pg. set_page_ref r pg) (bud s))\<rparr>"

lemma page_ref_ops: "page_ref_inc p s = set_ref p (page_ref p s + 1) s" "page_ref_dec p s = set_ref p (page_ref p s - 1) s"
  by (simp_all add: page_ref_inc_def page_ref_dec_def set_ref_def page_ref_def upd_page_def)

lemma set_ref_same:
  "buddy_inv (bud (set_ref p r s)) = buddy_inv (bud s)" "free_pgs (bud (set_ref p r s)) = free_pgs (bud s)"
  "held (set_ref p r s) q = held s q" "page_ref q (set_ref p r s) = (if q = p then r else page_ref q s)"
  "kmem (set_ref p r s) = kmem s" "npage (bud (set_ref p r s)) = npage (bud s)"
proof -
  have v: "same_view (bud s) (bud (set_ref p r s))"
    by (simp add: set_ref_def same_view_def same_zones_def)
  then have z: "same_zones (bud s) (bud (set_ref p r s))" by (simp add: same_view_def)
  show f: "buddy_inv (bud (set_ref p r s)) = buddy_inv (bud s)" "free_pgs (bud (set_ref p r s)) = free_pgs (bud s)"
    using same_view_inv [OF v] by simp_all
  show "held (set_ref p r s) q = held s q" by (simp add: held_def allocated_def f same_zones_usable [OF z])
qed (simp_all add: set_ref_def page_ref_def set_page_ref_def)

section \<open>The tables as one map\<close>

definition pte :: "paging \<Rightarrow> nat \<Rightarrow> nat \<Rightarrow> nat \<Rightarrow> u32" where
  "pte s D i j = (if present (kmem s D i) then kmem s (frame (kmem s D i)) j else 0)"

definition walk :: "paging \<Rightarrow> nat \<Rightarrow> u32 \<Rightarrow> u32" where
  "walk s D la = pte s D (unat (PDX la)) (unat (PTX la))"

text \<open>What a page is used for in the tables of a directory.\<close>

datatype use = Dir | Table nat | Data nat nat

definition used :: "paging \<Rightarrow> nat \<Rightarrow> use set" where
  "used s D = {Dir} \<union> {Table i | i. i < 1024 \<and> present (kmem s D i)}
     \<union> {Data i j | i j. i < 1024 \<and> j < 1024 \<and> present (pte s D i j)}"

fun owner :: "paging \<Rightarrow> nat \<Rightarrow> use \<Rightarrow> nat" where
  "owner s D Dir = D"
| "owner s D (Table i) = frame (kmem s D i)"
| "owner s D (Data i j) = frame (pte s D i j)"

lemma used_simps [simp]:
  "Dir \<in> used s D" "Table i \<in> used s D \<longleftrightarrow> i < 1024 \<and> present (kmem s D i)"
  "Data i j \<in> used s D \<longleftrightarrow> i < 1024 \<and> j < 1024 \<and> present (pte s D i j)"
  by (auto simp: used_def)

fun is_data :: "use \<Rightarrow> bool" where
  "is_data (Data i j) = True"
| "is_data _ = False"

text \<open>How often a page is mapped, entries of \<open>E\<close> not counted.\<close>

definition maps :: "use set \<Rightarrow> paging \<Rightarrow> nat \<Rightarrow> nat \<Rightarrow> nat" where
  "maps E s D q = card {u \<in> used s D - E. is_data u \<and> owner s D u = q}"

text \<open>The directory and the tables are pages of their own; a page may be mapped at several addresses. Every page in use is taken
  from the allocator, and the count of a mapped page is at least the number of its mappings (other address spaces may map it too). An
  entry that is not present is zero. The uses in \<open>E\<close> are exempt from being taken and counted.\<close>

definition pt_inv_except :: "use set \<Rightarrow> paging \<Rightarrow> nat \<Rightarrow> bool" where
  "pt_inv_except E s D \<longleftrightarrow> buddy_inv (bud s) \<and> npage (bud s) \<le> 524288
     \<and> (\<forall>q \<in> free_pgs (bud s). 0 \<le> page_ref q s)
     \<and> (\<forall>u \<in> used s D. \<forall>v \<in> used s D. owner s D u = owner s D v \<and> u \<noteq> v \<longrightarrow> is_data u \<and> is_data v)
     \<and> (\<forall>u \<in> used s D - E. held s (owner s D u))
     \<and> (\<forall>u \<in> used s D - E. is_data u \<longrightarrow> int (maps E s D (owner s D u)) \<le> page_ref (owner s D u) s)
     \<and> (\<forall>i < 1024. \<forall>j < 1024. present (pte s D i j) \<or> pte s D i j = 0)"

abbreviation pt_inv :: "paging \<Rightarrow> nat \<Rightarrow> bool" where
  "pt_inv \<equiv> pt_inv_except {}"

lemma owner_cong: "kmem t = kmem s \<Longrightarrow> owner t D = owner s D" "kmem t = kmem s \<Longrightarrow> used t D = used s D"
  "kmem t = kmem s \<Longrightarrow> pte t D = pte s D" "kmem t = kmem s \<Longrightarrow> walk t D = walk s D"
proof -
  assume k: "kmem t = kmem s"
  show p: "pte t D = pte s D" by (simp add: pte_def fun_eq_iff k)
  show "owner t D = owner s D"
  proof
    fix u show "owner t D u = owner s D u" by (cases u) (simp_all add: p k)
  qed
  show "used t D = used s D" by (simp add: used_def p k)
  show "walk t D = walk s D" by (simp add: walk_def fun_eq_iff p)
qed

text \<open>Changes of the allocator's state alone.\<close>

lemma maps_cong:
  assumes "kmem t = kmem s"
  shows "maps E t D = maps E s D"
  unfolding maps_def [abs_def] owner_cong [OF assms] ..

lemma pt_inv_alloc_change:
  assumes "pt_inv_except E s D" "kmem t = kmem s" "buddy_inv (bud t)" "npage (bud t) = npage (bud s)"
    "\<forall>q \<in> free_pgs (bud t). 0 \<le> page_ref q t"
    "\<And>u. u \<in> used s D - F \<Longrightarrow> held t (owner s D u)"
    "\<And>u. u \<in> used s D - F \<Longrightarrow> is_data u \<Longrightarrow> int (maps F s D (owner s D u)) \<le> page_ref (owner s D u) t"
  shows "pt_inv_except F t D"
  using assms unfolding pt_inv_except_def owner_cong [OF assms(2)] maps_cong [OF assms(2)] by simp

text \<open>Counting mappings.\<close>

lemma finite_used: "finite (used s D)"
proof (rule finite_subset)
  show "used s D \<subseteq> insert Dir (Table ` {..<1024} \<union> case_prod Data ` ({..<1024} \<times> {..<1024}))"
    by (auto simp: used_def)
qed simp

lemma maps_mono: "E \<subseteq> F \<Longrightarrow> maps F s D q \<le> maps E s D q"
  unfolding maps_def by (intro card_mono) (auto intro: finite_subset [OF _ finite_used])

lemma maps_one:
  assumes "Data i j \<in> used s D"
  shows "maps {} s D q = maps {Data i j} s D q + (if q = owner s D (Data i j) then 1 else 0)"
proof -
  define A where "A = {u \<in> used s D - {Data i j}. is_data u \<and> owner s D u = q}"
  have A: "finite A" "Data i j \<notin> A" "maps {Data i j} s D q = card A"
    using finite_subset [OF _ finite_used, of A s D] by (auto simp: A_def maps_def)
  have "{u \<in> used s D - {}. is_data u \<and> owner s D u = q} = (if q = owner s D (Data i j) then insert (Data i j) A else A)"
    using assms by (auto simp: A_def simp del: owner.simps used_simps)
  then have "maps {} s D q = card (if q = owner s D (Data i j) then insert (Data i j) A else A)" by (simp only: maps_def)
  then show ?thesis using A by (simp del: owner.simps)
qed

lemma maps_pos: "u \<in> used s D - E \<Longrightarrow> is_data u \<Longrightarrow> 1 \<le> maps E s D (owner s D u)"
  using card_gt_0_iff [of "{v \<in> used s D - E. is_data v \<and> owner s D v = owner s D u}"] finite_subset [OF _ finite_used [of s D]]
  by (fastforce simp: maps_def Suc_le_eq simp del: owner.simps used_simps)

text \<open>Writing an entry of a table.\<close>

lemma table_not_dir:
  assumes "pt_inv_except E s D" "i < 1024" "present (kmem s D i)"
  shows "frame (kmem s D i) \<noteq> D" "k < 1024 \<Longrightarrow> present (kmem s D k) \<Longrightarrow> frame (kmem s D k) = frame (kmem s D i) \<longleftrightarrow> k = i"
proof -
  have apart: "owner s D u \<noteq> owner s D v" if "u \<in> used s D" "v \<in> used s D" "u \<noteq> v" "\<not> is_data u" for u v
    using assms(1) that unfolding pt_inv_except_def by blast
  show "frame (kmem s D i) \<noteq> D"
    using apart [of "Table i" Dir] assms(2,3) by auto
  show "frame (kmem s D k) = frame (kmem s D i) \<longleftrightarrow> k = i" if "k < 1024" "present (kmem s D k)"
    using apart [of "Table k" "Table i"] assms(2,3) that by auto
qed

lemma put_word_kmem [simp]: "kmem (put_word q j w s) r = (if r = q then (kmem s q)(j := w) else kmem s r)"
  "pmm (put_word q j w s) = pmm s"
  by (simp_all add: put_word_def)

lemma held_put_word [simp]: "held (put_word q j w s) = held s" "page_ref p (put_word q j w s) = page_ref p s"
  by (simp_all add: held_def page_ref_def fun_eq_iff)

lemma pte_put:
  assumes "pt_inv_except E s D" "i < 1024" "present (kmem s D i)" "k < 1024"
  shows "pte (put_word (frame (kmem s D i)) j w s) D k l = (if k = i \<and> l = j then w else pte s D k l)"
  using table_not_dir(1) [OF assms(1-3)] table_not_dir(2) [OF assms(1-3), of k] assms(3,4) by (auto simp: pte_def)

lemma used_put:
  assumes "pt_inv_except E s D" "i < 1024" "j < 1024" "present (kmem s D i)"
    and t: "t = put_word (frame (kmem s D i)) j w s"
  shows "used t D = (if present w then insert (Data i j) (used s D) else used s D - {Data i j})"
    and "u \<in> used t D \<Longrightarrow> owner t D u = (if u = Data i j then frame w else owner s D u)"
proof -
  have dir: "kmem t D = kmem s D" using table_not_dir(1) [OF assms(1,2,4)] by (simp add: t)
  have pte: "k < 1024 \<Longrightarrow> pte t D k l = (if k = i \<and> l = j then w else pte s D k l)" for k l
    using pte_put [OF assms(1,2,4)] by (simp add: t)
  show "used t D = (if present w then insert (Data i j) (used s D) else used s D - {Data i j})"
    using assms(2,3) by (auto simp: used_def dir pte split: if_splits)
  show "owner t D u = (if u = Data i j then frame w else owner s D u)" if "u \<in> used t D"
    using that by (cases u) (auto simp: dir pte used_def)
qed

lemma maps_put:
  assumes "pt_inv_except E s D" "i < 1024" "j < 1024" "present (kmem s D i)" "t = put_word (frame (kmem s D i)) j w s"
  shows "maps {} t D q = maps {Data i j} s D q + (if present w \<and> q = frame w then 1 else 0)"
proof -
  note U = used_put [OF assms]
  have own: "owner t D u = owner s D u" if "u \<in> used s D - {Data i j}" for u
    using that U(2) [of u] U(1) by (auto simp del: owner.simps used_simps split: if_splits)
  have X: "used t D - {Data i j} = used s D - {Data i j}" unfolding U(1) by (simp del: used_simps)
  have "{u \<in> used t D - {Data i j}. is_data u \<and> owner t D u = q} = {u \<in> used s D - {Data i j}. is_data u \<and> owner s D u = q}"
    unfolding X by (rule Collect_cong) (metis own)
  then have m: "maps {Data i j} t D q = maps {Data i j} s D q" by (simp only: maps_def)
  show ?thesis
  proof (cases "present w")
    case True
    then have "Data i j \<in> used t D" "owner t D (Data i j) = frame w" using U(1) U(2) [of "Data i j"] by (auto simp del: owner.simps used_simps)
    then show ?thesis using maps_one [of i j t D q] m True by (simp del: owner.simps used_simps)
  next
    case False
    then have "Data i j \<notin> used t D" using U(1) by (simp del: used_simps)
    then have "maps {} t D q = maps {Data i j} t D q" by (simp add: maps_def del: owner.simps used_simps)
    then show ?thesis using m False by simp
  qed
qed

lemma pt_inv_put:
  assumes inv: "pt_inv_except E s D" and ij: "i < 1024" "j < 1024" "present (kmem s D i)" and E: "E \<subseteq> {Data i j}"
    and w: "present w \<or> w = 0"
    and fresh: "present w \<Longrightarrow> held s (frame w) \<and> frame w \<notin> owner s D ` (used s D - {u. is_data u})
      \<and> int (maps {Data i j} s D (frame w)) + 1 \<le> page_ref (frame w) s"
  shows "pt_inv (put_word (frame (kmem s D i)) j w s) D"
proof -
  let ?t = "put_word (frame (kmem s D i)) j w s"
  note U = used_put [OF inv ij refl, where w = w] and M = maps_put [OF inv ij refl, where w = w]
  have apart: "is_data u \<and> is_data v" if "u \<in> used s D" "v \<in> used s D" "owner s D u = owner s D v" "u \<noteq> v" for u v
    using inv that unfolding pt_inv_except_def by blast
  have new: "is_data u" if "present w" "u \<in> used s D" "owner s D u = frame w" for u
    using fresh [OF that(1)] that(2,3) imageI [of u "used s D - {u. is_data u}" "owner s D"] by auto
  have "is_data u \<and> is_data v" if "u \<in> used ?t D" "v \<in> used ?t D" "owner ?t D u = owner ?t D v" "u \<noteq> v" for u v
    using that U(2) [of u] U(2) [of v] U(1) new [of u] new [of v] apart [of u v]
    by (auto simp del: owner.simps used_simps split: if_splits)
  moreover have "held ?t (owner ?t D u)" if "u \<in> used ?t D" for u
    using that U(2) [OF that] U(1) fresh inv E by (auto simp: pt_inv_except_def split: if_splits)
  moreover have "int (maps {} ?t D (owner ?t D u)) \<le> page_ref (owner ?t D u) ?t" if "u \<in> used ?t D" "is_data u" for u
  proof (cases "present w \<and> owner ?t D u = frame w")
    case True
    then show ?thesis using fresh M [of "frame w"] by (simp del: owner.simps used_simps)
  next
    case False
    then have u: "u \<in> used s D - {Data i j}" "owner ?t D u = owner s D u"
      using that U(1) U(2) [OF that(1)] by (auto simp del: owner.simps used_simps split: if_splits)
    then have "int (maps E s D (owner s D u)) \<le> page_ref (owner s D u) s"
      using inv that(2) E unfolding pt_inv_except_def by blast
    moreover have "maps {Data i j} s D (owner s D u) \<le> maps E s D (owner s D u)" by (rule maps_mono [OF E])
    ultimately show ?thesis using M [of "owner s D u"] False u(2) by (auto simp del: owner.simps used_simps)
  qed
  moreover have "present (pte ?t D k l) \<or> pte ?t D k l = 0" if "k < 1024" "l < 1024" for k l
    using inv that w unfolding pte_put [OF inv ij(1,3) that(1)] by (auto simp: pt_inv_except_def)
  ultimately show ?thesis using inv unfolding pt_inv_except_def by (simp del: owner.simps used_simps)
qed

lemma walk_put:
  assumes "pt_inv_except E s D" "present (kmem s D (unat (PDX la)))"
  shows "walk (put_word (frame (kmem s D (unat (PDX la)))) (unat (PTX la)) w s) D la' =
    (if PDX la' = PDX la \<and> PTX la' = PTX la then w else walk s D la')"
  using pte_put [OF assms(1) PDX_less assms(2) PDX_less] by (auto simp: walk_def word_unat_eq_iff)

section \<open>Finding and making tables\<close>

lemma pt_invD:
  assumes "pt_inv s D"
  shows "buddy_inv (bud s)" "npage (bud s) \<le> 524288" "u \<in> used s D \<Longrightarrow> held s (owner s D u)"
    "q \<in> free_pgs (bud s) \<Longrightarrow> 0 \<le> page_ref q s"
    "u \<in> used s D \<Longrightarrow> is_data u \<Longrightarrow> int (maps {} s D (owner s D u)) \<le> page_ref (owner s D u) s"
    "i < 1024 \<Longrightarrow> j < 1024 \<Longrightarrow> present (pte s D i j) \<or> pte s D i j = 0"
    "u \<in> used s D \<Longrightarrow> v \<in> used s D \<Longrightarrow> owner s D u = owner s D v \<Longrightarrow> u \<noteq> v \<Longrightarrow> is_data u \<and> is_data v"
  using assms unfolding pt_inv_except_def by blast+

lemma maps_le_ref:
  assumes "pt_inv s D" "0 \<le> page_ref q s"
  shows "int (maps {} s D q) \<le> page_ref q s"
proof (cases "\<exists>u \<in> used s D. is_data u \<and> owner s D u = q")
  case True
  then show ?thesis using pt_invD(5) [OF assms(1)] by blast
next
  case False
  then have "{u \<in> used s D - {}. is_data u \<and> owner s D u = q} = {}" by blast
  then have "maps {} s D q = 0" by (simp only: maps_def card.empty)
  then show ?thesis using assms(2) by simp
qed

lemma present_table:
  assumes "pt_inv s D" "present (kmem s D (unat (PDX la)))"
  shows "get_pte D la create s = Some (Some (frame (kmem s D (unat (PDX la))), unat (PTX la)), s)"
proof -
  have "held s (owner s D (Table (unat (PDX la))))"
    using assms(2) by (intro pt_invD(3) [OF assms(1)]) (simp add: PDX_less)
  then have "frame (kmem s D (unat (PDX la))) < npage (bud s)" using held_npage by simp
  then show ?thesis using assms(2) by (simp add: get_pte_def KADDR_def entry_pointer present_def)
qed

lemma absent_table: "\<not> present (kmem s D (unat (PDX la))) \<Longrightarrow> get_pte D la False s = Some (None, s)"
  by (simp add: get_pte_def present_def)

lemma owner_held: "pt_inv s D \<Longrightarrow> q \<in> free_pgs (bud s) \<Longrightarrow> q \<notin> owner s D ` used s D"
  using pt_invD(3) held_not_free by blast

definition table_entry :: "nat \<Rightarrow> u32" where
  "table_entry p = page2pa p OR (PTE_U OR PTE_P OR PTE_W)"

lemma table_entry: "p < 524288 \<Longrightarrow> frame (table_entry p) = p" "p < 524288 \<Longrightarrow> present (table_entry p)"
  using entry_of_page(1,2) [of p 7] by (simp_all add: table_entry_def PTE_U_def PTE_P_def PTE_W_def present_bit)

text \<open>A fresh, cleared page entered as a table changes no entry.\<close>

lemma new_table_state:
  assumes inv: "pt_inv s D" and d: "d < 1024" "\<not> present (kmem s D d)" and p: "p \<in> free_pgs (bud s)" "p < 524288"
    and k: "kmem t = (kmem s)(p := (\<lambda>_. 0), D := (kmem s D)(d := table_entry p))"
  shows "i < 1024 \<Longrightarrow> pte t D i j = pte s D i j" "used t D = insert (Table d) (used s D)"
    "u \<in> used s D \<Longrightarrow> owner t D u = owner s D u" "owner t D (Table d) = p"
proof -
  have pD: "p \<noteq> D" "i < 1024 \<Longrightarrow> present (kmem s D i) \<Longrightarrow> frame (kmem s D i) \<noteq> p \<and> frame (kmem s D i) \<noteq> D" for i
    using owner_held [OF inv p(1)] imageI [of Dir "used s D" "owner s D"] imageI [of "Table i" "used s D" "owner s D"]
      table_not_dir(1) [OF inv] by auto
  show pte: "pte t D i j = pte s D i j" if "i < 1024" for i j
    using pD that d(2) table_entry [OF p(2)] by (auto simp: pte_def k)
  show "owner t D (Table d) = p" using table_entry(1) [OF p(2)] by (simp add: k)
  show "used t D = insert (Table d) (used s D)"
    using d table_entry(2) [OF p(2)] pte by (auto simp: used_def k split: if_splits)
  show "owner t D u = owner s D u" if "u \<in> used s D"
    using that d(2) pte by (cases u) (auto simp: k)
qed

lemma bud_cong: "bud t = bud s \<Longrightarrow> page_ref q t = page_ref q s" "bud t = bud s \<Longrightarrow> held t q = held s q"
  by (simp_all add: held_def page_ref_def)

lemma pt_invI:
  assumes "buddy_inv (bud s)" "npage (bud s) \<le> 524288" "\<And>q. q \<in> free_pgs (bud s) \<Longrightarrow> 0 \<le> page_ref q s"
    "\<And>u v. u \<in> used s D \<Longrightarrow> v \<in> used s D \<Longrightarrow> owner s D u = owner s D v \<Longrightarrow> u \<noteq> v \<Longrightarrow> is_data u \<and> is_data v"
    "\<And>u. u \<in> used s D \<Longrightarrow> held s (owner s D u)"
    "\<And>u. u \<in> used s D \<Longrightarrow> is_data u \<Longrightarrow> int (maps {} s D (owner s D u)) \<le> page_ref (owner s D u) s"
    "\<And>i j. i < 1024 \<Longrightarrow> j < 1024 \<Longrightarrow> present (pte s D i j) \<or> pte s D i j = 0"
  shows "pt_inv s D"
  using assms unfolding pt_inv_except_def by blast

lemma new_table_spec:
  assumes inv: "pt_inv s D" and d: "d < 1024" "\<not> present (kmem s D d)"
  obtains "new_table D d s = Some (False, s)" "free_pgs (bud s) = {}"
  | p t where "new_table D d s = Some (True, t)" "p \<in> free_pgs (bud s)" "p < 524288"
    "kmem t = (kmem s)(p := (\<lambda>_. 0), D := (kmem s D)(d := table_entry p))" "pt_inv t D"
    "\<And>q. held s q \<Longrightarrow> held t q \<and> page_ref q t = page_ref q s" "free_pgs (bud t) = free_pgs (bud s) - {p}"
proof (rule alloc_page_cases [OF pt_invD(1) [OF inv]])
  assume "alloc_page s = Some (None, s)" "free_pgs (bud s) = {}"
  then show thesis by (intro that(1)) (simp_all add: new_table_def)
next
  fix p s1 assume a: "alloc_page s = Some (Some p, s1)" "buddy_inv (bud s1)" "p \<in> free_pgs (bud s)"
    "free_pgs (bud s1) = free_pgs (bud s) - {p}" "held s1 p" "\<And>q. held s q \<Longrightarrow> held s1 q"
    "\<And>q. page_ref q s1 = page_ref q s" "kmem s1 = kmem s" "npage (bud s1) = npage (bud s)"
  let ?s = "set_ref p (page_ref p s + 1) s1"
  define t where "t = put_word D d (table_entry p) (put_page p (\<lambda>_. 0) ?s)"
  have small: "p < npage (bud s1)" "p < 524288"
    using held_npage [OF a(5)] a(9) pt_invD(2) [OF inv] by simp_all
  have new: "new_table D d s = Some (True, t)"
    using a(1,7) small entry_of_page(3,4) [OF small(2), of 0]
    by (simp add: new_table_def page_ref_ops page2kva_def KADDR_def PADDR_w_def set_ref_same table_entry_def t_def)
  have pD: "p \<noteq> D" using owner_held [OF inv a(3)] imageI [of Dir "used s D" "owner s D"] by auto
  have k: "kmem t = (kmem s)(p := (\<lambda>_. 0), D := (kmem s D)(d := table_entry p))"
    using pD by (auto simp: fun_eq_iff put_page_def set_ref_same a(8) t_def)
  have bud: "bud t = bud ?s" by (simp add: put_page_def put_word_def t_def)
  have ref: "page_ref q t = (if q = p then page_ref p s + 1 else page_ref q s)" "held t q = held s1 q" for q
  proof -
    have "page_ref q t = page_ref q ?s" "held t q = held ?s q" by (rule bud_cong [OF bud])+
    then show "page_ref q t = (if q = p then page_ref p s + 1 else page_ref q s)" "held t q = held s1 q"
      by (simp_all only: set_ref_same a(7))
  qed
  note T = new_table_state [OF inv d a(3) small(2) k]
  have old: "held t (owner s D u)" "owner s D u \<noteq> p" if "u \<in> used s D" for u
    using that ref(2) a(6) pt_invD(3) [OF inv that] owner_held [OF inv a(3)] by auto
  have "is_data u \<and> is_data v" if "u \<in> used t D" "v \<in> used t D" "owner t D u = owner t D v" "u \<noteq> v" for u v
    using that T(2) T(3) [of u] T(3) [of v] T(4) old(2) [of u] old(2) [of v] pt_invD(7) [OF inv, of u v]
    by (auto simp del: owner.simps used_simps)
  moreover have "held t (owner t D u)" if "u \<in> used t D" for u
    using that T(2,3,4) old(1) a(5) ref(2) by (auto simp del: owner.simps used_simps)
  moreover have "int (maps {} t D (owner t D u)) \<le> page_ref (owner t D u) t" if "u \<in> used t D" "is_data u" for u
  proof -
    have u: "u \<in> used s D" using that T(2) by auto
    have "{v \<in> used t D. is_data v \<and> owner t D v = q} = {v \<in> used s D. is_data v \<and> owner s D v = q}" for q
      using T(2,3) by (auto simp del: owner.simps used_simps)
    then have "maps {} t D q = maps {} s D q" for q by (simp add: maps_def del: owner.simps used_simps)
    then show ?thesis using T(3) [OF u] old(2) [OF u] ref(1) pt_invD(5) [OF inv u that(2)] by (simp del: owner.simps used_simps)
  qed
  moreover have "present (pte t D i j) \<or> pte t D i j = 0" if "i < 1024" "j < 1024" for i j
    using T(1) [OF that(1)] pt_invD(6) [OF inv that] by simp
  moreover have "0 \<le> page_ref q t" if "q \<in> free_pgs (bud s) - {p}" for q using that ref(1) pt_invD(4) [OF inv] by simp
  moreover have "buddy_inv (bud t)" "npage (bud t) = npage (bud s)" "free_pgs (bud t) = free_pgs (bud s) - {p}"
    using a(2,4,9) unfolding bud set_ref_same by simp_all
  ultimately have "pt_inv t D" using pt_invD(2) [OF inv] by (intro pt_invI) simp_all
  moreover have "held t q \<and> page_ref q t = page_ref q s" if "held s q" for q
    using that ref a(6) held_not_free [OF that] a(3) by auto
  ultimately show thesis using new a(3,4) small k \<open>free_pgs (bud t) = _\<close> by (intro that(2) [of t p]) simp_all
qed

text \<open>Flushing writes an invalid pair in each of the 128 entries and touches nothing else.\<close>

definition tlb_clear :: "paging \<Rightarrow> bool" where
  "tlb_clear s \<longleftrightarrow> (\<forall>i < 128. tlb_low0 (tlb s i) = 0 \<and> tlb_low1 (tlb s i) = 0)"

lemma tlb_fold:
  "pmm (fold (\<lambda>i. write_one_tlb i (f i) 0 0) xs s) = pmm s \<and> kmem (fold (\<lambda>i. write_one_tlb i (f i) 0 0) xs s) = kmem s
    \<and> (\<forall>i. i \<in> set xs \<or> tlb_low0 (tlb s i) = 0 \<and> tlb_low1 (tlb s i) = 0 \<longrightarrow>
        tlb_low0 (tlb (fold (\<lambda>i. write_one_tlb i (f i) 0 0) xs s) i) = 0
      \<and> tlb_low1 (tlb (fold (\<lambda>i. write_one_tlb i (f i) 0 0) xs s) i) = 0)"
  by (induction xs arbitrary: s) (auto simp: write_one_tlb_def)

lemma tlb_invalidate_all [simp]: "pmm (tlb_invalidate_all s) = pmm s" "kmem (tlb_invalidate_all s) = kmem s" "tlb_clear (tlb_invalidate_all s)"
  using tlb_fold [of "\<lambda>i. 0x80000000 + push_bit 20 (of_nat i)" "[0..<128]" s]
  by (simp_all add: tlb_invalidate_all_def tlb_clear_def)

lemma pt_inv_flush: "pt_inv (tlb_invalidate_all s) D = pt_inv s D"
  unfolding pt_inv_except_def owner_cong [OF tlb_invalidate_all(2)] by (simp add: held_def page_ref_def maps_cong [OF tlb_invalidate_all(2)])

lemma get_pte_create:
  assumes inv: "pt_inv s D"
  obtains "get_pte D la True s = Some (None, s)" "\<not> present (kmem s D (unat (PDX la)))" "free_pgs (bud s) = {}"
  | t where "get_pte D la True s = Some (Some (frame (kmem t D (unat (PDX la))), unat (PTX la)), t)"
    "present (kmem t D (unat (PDX la)))" "pt_inv t D" "walk t D = walk s D"
    "\<And>q. held s q \<Longrightarrow> held t q \<and> page_ref q t = page_ref q s"
    "\<And>q X. held s q \<Longrightarrow> q \<notin> owner s D ` (used s D - X) \<Longrightarrow> q \<notin> owner t D ` (used t D - X)"
    "free_pgs (bud t) = free_pgs (bud s) - (if present (kmem s D (unat (PDX la))) then {} else {frame (kmem t D (unat (PDX la)))})"
    "present (kmem s D (unat (PDX la))) \<or> frame (kmem t D (unat (PDX la))) \<in> free_pgs (bud s)"
proof (cases "present (kmem s D (unat (PDX la)))")
  case True
  then show thesis using present_table [OF inv True, of True] inv by (intro that(2) [of s]) auto
next
  case False
  show thesis
  proof (rule new_table_spec [OF inv PDX_less False])
    assume "new_table D (unat (PDX la)) s = Some (False, s)" "free_pgs (bud s) = {}"
    then show thesis using False by (intro that(1)) (simp_all add: get_pte_def present_def)
  next
    fix p t assume t: "new_table D (unat (PDX la)) s = Some (True, t)" "p \<in> free_pgs (bud s)" "p < 524288"
      "kmem t = (kmem s)(p := (\<lambda>_. 0), D := (kmem s D)(unat (PDX la) := table_entry p))" "pt_inv t D"
      "\<And>q. held s q \<Longrightarrow> held t q \<and> page_ref q t = page_ref q s" "free_pgs (bud t) = free_pgs (bud s) - {p}"
    note T = new_table_state [OF inv PDX_less False t(2-4)]
    have pr: "present (kmem t D (unat (PDX la)))" using table_entry(2) [OF t(3)] by (simp add: t(4))
    have "get_pte D la True s = get_pte D la True t"
      using False t(1) pr by (simp add: get_pte_def present_def)
    then have "get_pte D la True s = Some (Some (frame (kmem t D (unat (PDX la))), unat (PTX la)), t)"
      using present_table [OF t(5) pr] by simp
    moreover have "walk t D = walk s D" using T(1) [OF PDX_less] by (simp add: walk_def fun_eq_iff)
    moreover have "q \<notin> owner t D ` (used t D - X)" if "held s q" "q \<notin> owner s D ` (used s D - X)" for q X
    proof
      assume "q \<in> owner t D ` (used t D - X)"
      then obtain u where u: "u \<in> used t D" "u \<notin> X" "q = owner t D u" by blast
      show False
      proof (cases "u \<in> used s D")
        case True
        then show False using u that(2) T(3) [OF True] by (auto simp del: owner.simps)
      next
        case False
        then have "q = p" using u(1,3) T(2,4) by (auto simp del: owner.simps used_simps)
        then show False using held_not_free [OF that(1)] t(2) by simp
      qed
    qed
    moreover have "frame (kmem t D (unat (PDX la))) = p" using table_entry(1) [OF t(3)] by (simp add: t(4))
    ultimately show thesis using pr t False by (intro that(2) [of t]) auto
  qed
qed

section \<open>Removing and inserting pages\<close>

lemma pte2page_present: "pt_inv s D \<Longrightarrow> Data i j \<in> used s D \<Longrightarrow> pte2page (pte s D i j) s = Some (frame (pte s D i j))"
  using held_npage [OF pt_invD(3), of s D "Data i j"] by (simp add: pte2page_def pa2page_def frame_def present_def)

text \<open>Dropping one reference, with the page given back when it was the last one.\<close>

lemma drop_ref:
  assumes "pt_inv s D" "Data i j \<in> used s D" "p = frame (pte s D i j)" "s1 = page_ref_dec p s"
  obtains t where "(if page_ref p s1 = 0 then free_page p s1 else Some s1) = Some t" "pt_inv_except {Data i j} t D" "kmem t = kmem s"
    "\<And>q. held s q \<Longrightarrow> page_ref q t = page_ref q s - (if q = p then 1 else 0)" "\<And>q. held s q \<Longrightarrow> q \<noteq> p \<or> page_ref p s \<noteq> 1 \<Longrightarrow> held t q"
    "free_pgs (bud t) = (if page_ref p s = 1 then insert p (free_pgs (bud s)) else free_pgs (bud s))"
proof -
  let ?u = "Data i j"
  have p: "owner s D ?u = p" using assms(3) by simp
  have h: "held s p" using pt_invD(3) [OF assms(1,2)] p by simp
  have cnt: "int (maps {?u} s D p) + 1 \<le> page_ref p s" using pt_invD(5) [OF assms(1,2)] maps_one [OF assms(2), of p] p by simp
  have s1: "s1 = set_ref p (page_ref p s - 1) s" by (simp add: assms(4) page_ref_ops)
  note S = set_ref_same [where s = s and p = p and r = "page_ref p s - 1", folded s1]
  have other: "owner s D u \<noteq> p" if "u \<in> used s D - {?u}" "\<not> is_data u \<or> page_ref p s = 1" for u
  proof
    assume eq: "owner s D u = p"
    then have "is_data u" using pt_invD(7) [OF assms(1), of u ?u] that(1) assms(2) p by auto
    then have "1 \<le> maps {?u} s D p" using maps_pos [OF that(1)] eq by simp
    then show False using cnt that(2) \<open>is_data u\<close> by simp
  qed
  have refs: "int (maps {?u} s D (owner s D u)) \<le> page_ref (owner s D u) s - (if owner s D u = p then 1 else 0)"
    if "u \<in> used s D - {?u}" "is_data u" for u
    using cnt pt_invD(5) [OF assms(1), of u] that maps_mono [of "{}" "{?u}" s D "owner s D u"] by (auto simp del: owner.simps used_simps)
  have free: "0 \<le> page_ref q s" "q \<noteq> p" if "q \<in> free_pgs (bud s)" for q
    using pt_invD(4) [OF assms(1) that] held_not_free [OF h] that by auto
  show thesis
  proof (cases "page_ref p s = 1")
    case True
    obtain t where t: "free_page p s1 = Some t" "buddy_inv (bud t)" "free_pgs (bud t) = insert p (free_pgs (bud s1))"
        "\<And>q. q \<noteq> p \<Longrightarrow> held s1 q \<Longrightarrow> held t q" "\<And>q. page_ref q t = (if q = p then 0 else page_ref q s1)" "kmem t = kmem s1"
        "npage (bud t) = npage (bud s1)"
      using free_page_spec [of s1 p] S h pt_invD(1) [OF assms(1)] by metis
    have "pt_inv_except {?u} t D"
    proof (rule pt_inv_alloc_change [OF assms(1)])
      show "held t (owner s D u)" if "u \<in> used s D - {?u}" for u
        using t(4) other [OF that] True S(3) pt_invD(3) [OF assms(1)] that by blast
      show "int (maps {?u} s D (owner s D u)) \<le> page_ref (owner s D u) t" if "u \<in> used s D - {?u}" "is_data u" for u
        using refs [OF that] t(5) S(4) other [OF that(1)] True by (simp del: owner.simps used_simps)
    qed (use t S free in auto)
    then show thesis using True t S by (intro that [of t]) auto
  next
    case False
    have "pt_inv_except {?u} s1 D"
    proof (rule pt_inv_alloc_change [OF assms(1)])
      show "held s1 (owner s D u)" if "u \<in> used s D - {?u}" for u using S(3) pt_invD(3) [OF assms(1)] that by blast
      show "int (maps {?u} s D (owner s D u)) \<le> page_ref (owner s D u) s1" if "u \<in> used s D - {?u}" "is_data u" for u
        using refs [OF that] S(4) by (auto simp del: owner.simps used_simps split: if_splits)
    qed (use S free pt_invD(1) [OF assms(1)] in auto)
    then show thesis using False S by (intro that [of s1]) auto
  qed
qed

lemma page_remove_pte_spec:
  assumes inv: "pt_inv s D" and ij: "i < 1024" "j < 1024" "present (kmem s D i)" and pr: "present (pte s D i j)"
  obtains t where "page_remove_pte (Some (frame (kmem s D i), j)) s = Some t" "pt_inv t D" "kmem t D = kmem s D"
    "\<And>k l. k < 1024 \<Longrightarrow> pte t D k l = (if k = i \<and> l = j then 0 else pte s D k l)"
    "\<And>q. held s q \<Longrightarrow> page_ref q t = page_ref q s - (if q = frame (pte s D i j) then 1 else 0)"
    "\<And>q. held s q \<Longrightarrow> q \<noteq> frame (pte s D i j) \<or> page_ref (frame (pte s D i j)) s \<noteq> 1 \<Longrightarrow> held t q"
    "free_pgs (bud t) = (if page_ref (frame (pte s D i j)) s = 1 then insert (frame (pte s D i j)) (free_pgs (bud s)) else free_pgs (bud s))"
    "tlb_clear t" "used t D = used s D - {Data i j}" "\<And>u. u \<in> used t D \<Longrightarrow> owner t D u = owner s D u"
proof -
  let ?q = "frame (kmem s D i)" and ?p = "frame (pte s D i j)"
  have u: "Data i j \<in> used s D" using ij pr by simp
  have w: "kmem s ?q j = pte s D i j" using ij(3) by (simp add: pte_def)
  obtain t where t: "(if page_ref ?p (page_ref_dec ?p s) = 0 then free_page ?p (page_ref_dec ?p s) else Some (page_ref_dec ?p s)) = Some t"
      "pt_inv_except {Data i j} t D" "kmem t = kmem s" "\<And>q. held s q \<Longrightarrow> page_ref q t = page_ref q s - (if q = ?p then 1 else 0)"
      "\<And>q. held s q \<Longrightarrow> q \<noteq> ?p \<or> page_ref ?p s \<noteq> 1 \<Longrightarrow> held t q"
      "free_pgs (bud t) = (if page_ref ?p s = 1 then insert ?p (free_pgs (bud s)) else free_pgs (bud s))"
    by (rule drop_ref [OF inv u refl refl]) (rule that)
  define v where "v = put_word ?q j 0 t"
  have prt: "present (kmem t D i)" "?q = frame (kmem t D i)" using ij(3) t(3) by simp_all
  have v: "v = put_word (frame (kmem t D i)) j 0 t" by (simp add: v_def t(3))
  have inv': "pt_inv v D"
    unfolding v by (rule pt_inv_put [OF t(2) ij(1,2) prt(1)]) (simp_all add: present_def)
  note U = used_put [OF t(2) ij(1,2) prt(1) v] and P = pte_put [OF t(2) ij(1) prt(1), of _ j 0, folded v]
  have z: "\<not> present 0" by (simp add: present_def)
  have "page_remove_pte (Some (?q, j)) s = Some (tlb_invalidate_all v)"
    using t(1) pr w pte2page_present [OF inv u] by (simp add: page_remove_pte_def present_def Let_def v_def)
  then show thesis
  proof (rule that)
    show "pt_inv (tlb_invalidate_all v) D" using inv' by (simp add: pt_inv_flush)
    show "kmem (tlb_invalidate_all v) D = kmem s D" using table_not_dir(1) [OF inv ij(1,3)] t(3) by (simp add: v_def)
    show "pte (tlb_invalidate_all v) D k l = (if k = i \<and> l = j then 0 else pte s D k l)" if "k < 1024" for k l
      using P [OF that] unfolding owner_cong(3) [OF tlb_invalidate_all(2)] by (simp add: owner_cong(3) [OF t(3)])
    show "used (tlb_invalidate_all v) D = used s D - {Data i j}"
      using U(1) z unfolding owner_cong(2) [OF tlb_invalidate_all(2)] by (simp add: owner_cong(2) [OF t(3)])
    show "owner (tlb_invalidate_all v) D u = owner s D u" if "u \<in> used (tlb_invalidate_all v) D" for u
      using U(2) [of u] that U(1) z unfolding owner_cong(1,2) [OF tlb_invalidate_all(2)] owner_cong(1,2) [OF t(3)]
      by (auto simp del: owner.simps used_simps)
    show "page_ref q (tlb_invalidate_all v) = page_ref q s - (if q = ?p then 1 else 0)" if "held s q" for q
      using t(4) [OF that] by (simp add: page_ref_def v_def)
    show "held (tlb_invalidate_all v) q" if "held s q" "q \<noteq> ?p \<or> page_ref ?p s \<noteq> 1" for q
      using t(5) [OF that] by (simp add: held_def v_def)
  qed (simp_all add: v_def t(6))
qed

text \<open>A page that may be entered: taken from the allocator and neither the directory nor one of the tables. It may be mapped elsewhere already.\<close>

definition enterable :: "paging \<Rightarrow> nat \<Rightarrow> nat \<Rightarrow> bool" where
  "enterable s D pg \<longleftrightarrow> held s pg \<and> pg \<notin> owner s D ` (used s D - {u. is_data u})"

lemma entry_flags: "unat perm < 4096 \<Longrightarrow> unat (PTE_P OR perm) < 4096"
proof -
  assume "unat perm < 4096"
  then have "drop_bit 12 perm = 0" using unat_drop_bit_u32 [of 12 perm] by (simp add: word_unat_eq_iff)
  then have "drop_bit 12 (PTE_P OR perm) = 0" by (simp add: PTE_P_def)
  then have "unat (PTE_P OR perm) div 4096 = 0" using unat_drop_bit_u32 [of 12 "PTE_P OR perm"] by simp
  then show ?thesis by (simp add: div_eq_0_iff)
qed

lemma enter_entry:
  assumes inv: "pt_inv s D" and d: "present (kmem s D (unat (PDX la)))" and e: "enterable s D pg"
    and cnt: "int (maps {Data (unat (PDX la)) (unat (PTX la))} s D pg) + 1 \<le> page_ref pg s" and perm: "unat perm < 4096"
  defines "t \<equiv> put_word (frame (kmem s D (unat (PDX la)))) (unat (PTX la)) (page2pa pg OR PTE_P OR perm) s"
  shows "pt_inv t D" "walk t D la' = (if PDX la' = PDX la \<and> PTX la' = PTX la then page2pa pg OR PTE_P OR perm else walk s D la')"
proof -
  have small: "pg < 524288" using held_npage e pt_invD(2) [OF inv] by (fastforce simp: enterable_def)
  have w: "frame (page2pa pg OR PTE_P OR perm) = pg" "present (page2pa pg OR PTE_P OR perm)"
    using entry_of_page(1,2) [OF small entry_flags [OF perm]] by (simp_all add: or.assoc present_bit bit_or_iff PTE_P_def)
  show "pt_inv t D" unfolding t_def
    using e w cnt by (intro pt_inv_put [OF inv PDX_less PTX_less d]) (simp_all add: enterable_def)
  show "walk t D la' = (if PDX la' = PDX la \<and> PTX la' = PTX la then page2pa pg OR PTE_P OR perm else walk s D la')"
    unfolding t_def by (rule walk_put [OF inv d])
qed

lemma pt_inv_count:
  assumes "pt_inv s D" "held s pg" "page_ref pg s \<le> r"
  shows "pt_inv (set_ref pg r s) D" "enterable (set_ref pg r s) D pg = enterable s D pg"
    "walk (set_ref pg r s) D = walk s D" "used (set_ref pg r s) D = used s D" "owner (set_ref pg r s) D = owner s D"
proof -
  note k = set_ref_same(5) [where p = pg and r = r and s = s]
  show "walk (set_ref pg r s) D = walk s D" "used (set_ref pg r s) D = used s D" "owner (set_ref pg r s) D = owner s D"
    by (simp_all add: owner_cong [OF k])
  then show "enterable (set_ref pg r s) D pg = enterable s D pg" by (simp add: enterable_def set_ref_same)
  have "int (maps {} s D (owner s D u)) \<le> page_ref (owner s D u) (set_ref pg r s)" if "u \<in> used s D" "is_data u" for u
    using pt_invD(5) [OF assms(1) that] assms(3) by (auto simp: set_ref_same simp del: owner.simps used_simps)
  then show "pt_inv (set_ref pg r s) D"
    using assms pt_invD [OF assms(1)] held_not_free [OF assms(2)]
    by (intro pt_inv_alloc_change [OF assms(1) k]) (auto simp: set_ref_same simp del: owner.simps used_simps)
qed

lemma set_ref_twice: "set_ref p r (set_ref p r' s) = set_ref p r s"
  by (simp add: set_ref_def upd_page_def set_page_ref_def)

text \<open>The entry of an address after the replaced page, if any, has been let go.\<close>

definition replaced :: "paging \<Rightarrow> nat \<Rightarrow> u32 \<Rightarrow> nat \<Rightarrow> nat \<Rightarrow> bool" where
  "replaced s D la pg q \<longleftrightarrow> present (walk s D la) \<and> frame (walk s D la) = q \<and> q \<noteq> pg"

definition already :: "paging \<Rightarrow> nat \<Rightarrow> u32 \<Rightarrow> nat \<Rightarrow> bool" where
  "already s D la pg \<longleftrightarrow> present (walk s D la) \<and> frame (walk s D la) = pg"

text \<open>How entering a page changes the count of a page: one mapping more unless it was there, one less for the page it replaces.\<close>

definition ref_after :: "paging \<Rightarrow> nat \<Rightarrow> u32 \<Rightarrow> nat \<Rightarrow> nat \<Rightarrow> int" where
  "ref_after s D la pg q = page_ref q s + (if q = pg \<and> \<not> already s D la pg then 1 else 0) - (if replaced s D la pg q then 1 else 0)"

definition lost :: "paging \<Rightarrow> nat \<Rightarrow> u32 \<Rightarrow> nat \<Rightarrow> nat set" where
  "lost s D la pg = {q. replaced s D la pg q \<and> page_ref q s = 1}"

lemmas entry_change_defs = replaced_def already_def ref_after_def lost_def

lemma make_room:
  assumes inv: "pt_inv s D" and d: "present (kmem s D (unat (PDX la)))" and e: "enterable s D pg" and ref: "0 \<le> page_ref pg s"
    and q: "q = frame (kmem s D (unat (PDX la)))" and j: "j = unat (PTX la)" and s1: "s1 = page_ref_inc pg s"
  obtains t where
    "(if kmem s1 q j AND PTE_P \<noteq> 0
      then do { p \<leftarrow> pte2page (kmem s1 q j) s1; if p = pg then Some (page_ref_dec pg s1) else page_remove_pte (Some (q, j)) s1 }
      else Some s1) = Some t"
    "pt_inv t D" "kmem t D = kmem s D" "enterable t D pg" "int (maps {Data (unat (PDX la)) j} t D pg) + 1 \<le> page_ref pg t"
    "\<And>r. held s r \<Longrightarrow> page_ref r t = ref_after s D la pg r" "\<And>r. held s r \<Longrightarrow> r \<notin> lost s D la pg \<Longrightarrow> held t r"
    "\<And>la'. \<not> (PDX la' = PDX la \<and> PTX la' = PTX la) \<Longrightarrow> walk t D la' = walk s D la'"
    "free_pgs (bud t) = free_pgs (bud s) \<union> lost s D la pg"
proof -
  let ?d = "unat (PDX la)"
  have h: "held s pg" using e by (simp add: enterable_def)
  have cnt: "int (maps {} s D pg) \<le> page_ref pg s" by (rule maps_le_ref [OF inv ref])
  have less: "maps {Data ?d j} s D pg \<le> maps {} s D pg" by (rule maps_mono) simp
  have s1': "s1 = set_ref pg (page_ref pg s + 1) s" by (simp add: s1 page_ref_ops)
  note C = pt_inv_count [OF inv h, of "page_ref pg s + 1", folded s1', simplified]
  note S = set_ref_same [where s = s and p = pg and r = "page_ref pg s + 1", folded s1']
  have w: "kmem s1 q j = walk s D la" "pte s1 D ?d j = walk s D la"
    using d by (simp_all add: S(5) q j walk_def pte_def)
  show thesis
  proof (cases "present (walk s D la)")
    case False
    then show thesis using w C S e ref cnt less maps_cong [OF S(5)]
      by (intro that [of s1]) (auto simp: present_def entry_change_defs)
  next
    case True
    then have u: "Data ?d j \<in> used s1 D" using w(2) PDX_less PTX_less j by simp
    then have us: "Data ?d j \<in> used s D" "owner s D (Data ?d j) = frame (walk s D la)" using C(4) w(2) owner_cong(3) [OF S(5)] by simp_all
    have pg: "pte2page (kmem s1 q j) s1 = Some (frame (walk s D la))"
      using pte2page_present [OF C(1) u] w by simp
    show thesis
    proof (cases "frame (walk s D la) = pg")
      case same: True
      let ?t = "set_ref pg (page_ref pg s) s"
      have dec: "page_ref_dec pg s1 = ?t"
        by (simp add: page_ref_ops s1' set_ref_twice set_ref_same)
      note T = set_ref_same [where s = s and p = pg and r = "page_ref pg s"]
      have "int (maps {Data ?d j} s D pg) + 1 \<le> page_ref pg s" using cnt maps_one [OF us(1), of pg] us(2) same by simp
      then show thesis
        using True same pg w dec pt_inv_count [OF inv h, of "page_ref pg s"] e T maps_cong [OF T(5)]
        by (intro that [of ?t]) (auto simp: present_def entry_change_defs)
    next
      case other: False
      have d1: "present (kmem s1 D ?d)" "q = frame (kmem s1 D ?d)" using d q by (simp_all add: S(5))
      have pr: "present (pte s1 D ?d j)" and jl: "j < 1024" using True w j PTX_less by simp_all
      obtain t where t: "page_remove_pte (Some (q, j)) s1 = Some t" "pt_inv t D" "kmem t D = kmem s1 D"
          "\<And>k l. k < 1024 \<Longrightarrow> pte t D k l = (if k = ?d \<and> l = j then 0 else pte s1 D k l)"
          "\<And>r. held s1 r \<Longrightarrow> page_ref r t = page_ref r s1 - (if r = frame (pte s1 D ?d j) then 1 else 0)"
          "\<And>r. held s1 r \<Longrightarrow> r \<noteq> frame (pte s1 D ?d j) \<or> page_ref (frame (pte s1 D ?d j)) s1 \<noteq> 1 \<Longrightarrow> held t r"
          "free_pgs (bud t) = (if page_ref (frame (pte s1 D ?d j)) s1 = 1 then insert (frame (pte s1 D ?d j)) (free_pgs (bud s1)) else free_pgs (bud s1))"
          "tlb_clear t" "used t D = used s1 D - {Data ?d j}" "\<And>u. u \<in> used t D \<Longrightarrow> owner t D u = owner s1 D u"
        by (rule page_remove_pte_spec [OF C(1) PDX_less jl d1(1) pr, folded d1(2)]) (rule that)
      have pgt: "held t pg" "page_ref pg t = page_ref pg s + 1" using t(5,6) [of pg] w other h S by auto
      have own: "owner t D u = owner s D u" "u \<in> used s D" if "u \<in> used t D" for u
        using that t(9) t(10) [OF that] C(4,5) by (auto simp del: owner.simps used_simps)
      have "owner t D ` (used t D - {u. is_data u}) \<subseteq> owner s D ` (used s D - {u. is_data u})" using own by (auto simp del: owner.simps used_simps)
      then have en: "enterable t D pg" using e pgt(1) by (auto simp: enterable_def)
      have "{u \<in> used t D - {Data ?d j}. is_data u \<and> owner t D u = pg} \<subseteq> {u \<in> used s D - {}. is_data u \<and> owner s D u = pg}"
        using own by (auto simp del: owner.simps used_simps)
      then have "maps {Data ?d j} t D pg \<le> maps {} s D pg"
        unfolding maps_def by (intro card_mono) (auto intro: finite_subset [OF _ finite_used])
      then have m: "int (maps {Data ?d j} t D pg) + 1 \<le> page_ref pg t" using cnt pgt(2) by simp
      have wk: "walk t D la' = walk s D la'" if "\<not> (PDX la' = PDX la \<and> PTX la' = PTX la)" for la'
        using t(4) [OF PDX_less] that C(3) j by (auto simp: walk_def fun_eq_iff word_unat_eq_iff)
      have r: "page_ref (frame (walk s D la)) s1 = page_ref (frame (walk s D la)) s" using other S(4) by simp
      have "page_ref r t = ref_after s D la pg r" if "held s r" for r
        using t(5) [of r] S(3,4) that True other w(2) by (auto simp: entry_change_defs)
      moreover have "held t r" if "held s r" "r \<notin> lost s D la pg" for r
        using t(6) [of r] S(3) that True other w(2) r by (auto simp: entry_change_defs)
      moreover have "free_pgs (bud t) = free_pgs (bud s) \<union> lost s D la pg"
        using t(7) S(2) True other w(2) r by (auto simp: entry_change_defs)
      ultimately show thesis
        using True other pg w t(1-3) S(5) en m wk by (intro that [of t]) (auto simp: present_def)
    qed
  qed
qed

lemma page_insert_spec:
  assumes inv: "pt_inv s D" and e: "enterable s D pg" and ref: "0 \<le> page_ref pg s" and perm: "unat perm < 4096"
  obtains "page_insert D pg la perm s = Some (- E_NO_MEM, s)" "\<not> present (kmem s D (unat (PDX la)))" "free_pgs (bud s) = {}"
  | t where "page_insert D pg la perm s = Some (0, t)"
    "present (kmem s D (unat (PDX la))) \<or> frame (kmem t D (unat (PDX la))) \<in> free_pgs (bud s)" "pt_inv t D" "tlb_clear t"
    "\<And>la'. walk t D la' = (if PDX la' = PDX la \<and> PTX la' = PTX la then page2pa pg OR PTE_P OR perm else walk s D la')"
    "\<And>q. held s q \<Longrightarrow> page_ref q t = ref_after s D la pg q" "\<And>q. held s q \<Longrightarrow> q \<notin> lost s D la pg \<Longrightarrow> held t q"
    "free_pgs (bud t) = free_pgs (bud s) - (if present (kmem s D (unat (PDX la))) then {} else {frame (kmem t D (unat (PDX la)))}) \<union> lost s D la pg"
proof (rule get_pte_create [OF inv, of la])
  assume "get_pte D la True s = Some (None, s)" "\<not> present (kmem s D (unat (PDX la)))" "free_pgs (bud s) = {}"
  then show thesis by (intro that(1)) (simp_all add: page_insert_def)
next
  let ?d = "unat (PDX la)" and ?j = "unat (PTX la)"
  have h: "held s pg" using e by (simp add: enterable_def)
  fix s1 assume g: "get_pte D la True s = Some (Some (frame (kmem s1 D ?d), ?j), s1)" "present (kmem s1 D ?d)" "pt_inv s1 D"
    "walk s1 D = walk s D" "\<And>q. held s q \<Longrightarrow> held s1 q \<and> page_ref q s1 = page_ref q s"
    "\<And>q X. held s q \<Longrightarrow> q \<notin> owner s D ` (used s D - X) \<Longrightarrow> q \<notin> owner s1 D ` (used s1 D - X)"
    "free_pgs (bud s1) = free_pgs (bud s) - (if present (kmem s D ?d) then {} else {frame (kmem s1 D ?d)})"
    "present (kmem s D ?d) \<or> frame (kmem s1 D ?d) \<in> free_pgs (bud s)"
  have e1: "enterable s1 D pg" "page_ref pg s1 = page_ref pg s" using e g(5,6) [OF h] by (auto simp: enterable_def)
  obtain s2 where s2: "(if kmem (page_ref_inc pg s1) (frame (kmem s1 D ?d)) ?j AND PTE_P \<noteq> 0
      then do { p \<leftarrow> pte2page (kmem (page_ref_inc pg s1) (frame (kmem s1 D ?d)) ?j) (page_ref_inc pg s1);
        if p = pg then Some (page_ref_dec pg (page_ref_inc pg s1)) else page_remove_pte (Some (frame (kmem s1 D ?d), ?j)) (page_ref_inc pg s1) }
      else Some (page_ref_inc pg s1)) = Some s2"
    "pt_inv s2 D" "kmem s2 D = kmem s1 D" "enterable s2 D pg" "int (maps {Data ?d ?j} s2 D pg) + 1 \<le> page_ref pg s2"
    "\<And>r. held s1 r \<Longrightarrow> page_ref r s2 = ref_after s1 D la pg r" "\<And>r. held s1 r \<Longrightarrow> r \<notin> lost s1 D la pg \<Longrightarrow> held s2 r"
    "\<And>la'. \<not> (PDX la' = PDX la \<and> PTX la' = PTX la) \<Longrightarrow> walk s2 D la' = walk s1 D la'"
    "free_pgs (bud s2) = free_pgs (bud s1) \<union> lost s1 D la pg"
    by (rule make_room [OF g(3,2) e1(1) _ refl refl refl]) (use ref e1(2) that in auto)
  define t where "t = put_word (frame (kmem s1 D ?d)) ?j (page2pa pg OR PTE_P OR perm) s2"
  have E: "pt_inv t D" "\<And>la'. walk t D la' = (if PDX la' = PDX la \<and> PTX la' = PTX la then page2pa pg OR PTE_P OR perm else walk s2 D la')"
    using enter_entry [OF s2(2) _ s2(4,5) perm] g(2) s2(3) by (simp_all add: t_def)
  have dir: "kmem (tlb_invalidate_all t) D = kmem s1 D" using table_not_dir(1) [OF g(3) PDX_less g(2)] s2(3) by (simp add: t_def)
  have ins: "page_insert D pg la perm s = Some (0, tlb_invalidate_all t)"
    unfolding page_insert_def g(1) using s2(1) by (simp add: Let_def t_def tlb_invalidate_def)
  have old: "page_ref (frame (walk s D la)) s1 = page_ref (frame (walk s D la)) s" if "present (walk s D la)"
    using g(5) pt_invD(3) [OF inv, of "Data ?d ?j"] that PDX_less PTX_less by (simp add: walk_def)
  have l: "lost s1 D la pg = lost s D la pg" using old by (auto simp: entry_change_defs g(4))
  have r: "ref_after s1 D la pg q = ref_after s D la pg q" if "held s q" for q
    using g(5) [OF that] by (simp add: entry_change_defs g(4))
  show thesis
  proof (rule that(2) [OF ins])
    show "pt_inv (tlb_invalidate_all t) D" using E(1) by (simp add: pt_inv_flush)
    show "walk (tlb_invalidate_all t) D la' = (if PDX la' = PDX la \<and> PTX la' = PTX la then page2pa pg OR PTE_P OR perm else walk s D la')" for la'
      using E(2) s2(8) g(4) by (simp add: owner_cong(4) [OF tlb_invalidate_all(2)])
    show "page_ref q (tlb_invalidate_all t) = ref_after s D la pg q" if "held s q" for q
      using s2(6) [of q] g(5) [OF that] r [OF that] by (simp add: page_ref_def t_def)
    show "held (tlb_invalidate_all t) q" if "held s q" "q \<notin> lost s D la pg" for q
      using s2(7) [of q] g(5) [OF that(1)] l that(2) by (simp add: held_def t_def)
    show "free_pgs (bud (tlb_invalidate_all t)) = free_pgs (bud s) - (if present (kmem s D ?d) then {} else {frame (kmem (tlb_invalidate_all t) D ?d)}) \<union> lost s D la pg"
      using s2(9) g(7) l dir by (simp add: t_def)
  qed (use g(8) dir in simp_all)
qed

section \<open>Ranges\<close>

lemma unat_PDX: "unat (PDX la) = unat la div 4194304"
proof -
  have "unat la div 4194304 < 1024" using unat_u32_less [of la] by (simp add: div_less_iff_less_mult)
  then show ?thesis by (simp add: address_fields take_bit_eq_mod unat_mod unat_drop_bit_u32)
qed

lemma unat_PTX: "unat (PTX la) = unat la div 4096 mod 1024"
  by (simp add: address_fields take_bit_eq_mod unat_mod unat_drop_bit_u32)

lemma same_page: "PDX a = PDX b \<and> PTX a = PTX b \<longleftrightarrow> unat a div 4096 = unat b div 4096"
proof -
  have split: "unat x div 4194304 = unat x div 4096 div 1024" for x :: u32
    by (simp add: div_mult2_eq [symmetric])
  have "unat a div 4096 = unat b div 4096"
    if "unat a div 4096 div 1024 = unat b div 4096 div 1024" "unat a div 4096 mod 1024 = unat b div 4096 mod 1024"
    using that by (metis div_mult_mod_eq)
  then show ?thesis unfolding word_unat_eq_iff unat_PDX unat_PTX split by auto
qed

lemma in_page: "unat a mod 4096 = 0 \<Longrightarrow> unat x div 4096 = unat a div 4096 \<longleftrightarrow> unat a \<le> unat x \<and> unat x < unat a + 4096" for a x :: u32
proof -
  assume "unat a mod 4096 = 0"
  then obtain k where k: "unat a = 4096 * k" by (metis dvd_def mod_0_imp_dvd)
  have "unat x div 4096 = k \<longleftrightarrow> 4096 * k \<le> unat x \<and> unat x < 4096 * k + 4096"
    using div_nat_eqI [of 4096 k "unat x"] by (auto simp: dividend_less_times_div)
  then show ?thesis using k by simp
qed

definition walk_cleared :: "paging \<Rightarrow> paging \<Rightarrow> nat \<Rightarrow> nat \<Rightarrow> nat \<Rightarrow> bool" where
  "walk_cleared s t D a b \<longleftrightarrow> (\<forall>la. walk t D la = (if a \<le> unat la \<and> unat la < b then 0 else walk s D la))"

lemma walk_cleared_trans: "walk_cleared s t D a b \<Longrightarrow> walk_cleared t u D b c \<Longrightarrow> a \<le> b \<Longrightarrow> b \<le> c \<Longrightarrow> walk_cleared s u D a c"
  unfolding walk_cleared_def by (metis (no_types, lifting) le_trans less_le_trans linorder_not_less)

text \<open>One turn of the loop clears the entries from an address to the next one it looks at.\<close>

lemma unmap_step:
  assumes inv: "pt_inv s D" and al: "unat start mod 4096 = 0" and hi: "unat start < 2147483648"
  obtains nxt t where "do {
      (ptep, s) \<leftarrow> get_pte D start False s;
      (case ptep of
        None \<Rightarrow> Some (ROUNDDOWN_2N (start + PTSIZE) PTSHIFT, s)
      | Some (q, i) \<Rightarrow> do {
          s \<leftarrow> (if kmem s q i \<noteq> 0 then page_remove_pte ptep s else Some s);
          Some (start + PGSIZE, s)
        })
    } = Some (nxt, t)"
    "pt_inv t D" "walk_cleared s t D (unat start) (unat nxt)" "unat start < unat nxt" "unat nxt mod 4096 = 0"
    "free_pgs (bud s) \<subseteq> free_pgs (bud t)" "walk t D = walk s D \<or> unat nxt = unat start + 4096"
proof (cases "present (kmem s D (unat (PDX start)))")
  case False
  let ?n = "ROUNDDOWN_2N (start + PTSIZE) PTSHIFT"
  have "unat (start + PTSIZE) = unat start + 4194304"
    using hi unat_add_no_overflow [of start PTSIZE] by (simp add: PTSIZE_def PGSIZE_def)
  then have n: "unat ?n = (unat start div 4194304 + 1) * 4194304"
    by (simp add: unat_ROUNDDOWN PTSHIFT_def div_add_self2)
  have lt: "unat start < unat ?n" unfolding n using dividend_less_times_div [of 4194304 "unat start"] by simp
  have "walk s D la = 0" if "unat start \<le> unat la" "unat la < unat ?n" for la
  proof -
    have "unat la div 4194304 < unat start div 4194304 + 1" using that(2) unfolding n by (rule less_mult_imp_div_less)
    moreover have "unat start div 4194304 \<le> unat la div 4194304" using that(1) by (rule div_le_mono)
    ultimately have "unat (PDX la) = unat (PDX start)" by (simp add: unat_PDX)
    then show ?thesis using False by (simp add: walk_def pte_def)
  qed
  then have "walk_cleared s s D (unat start) (unat ?n)" by (simp add: walk_cleared_def)
  moreover have "unat ?n mod 4096 = 0"
    unfolding n using mod_mult_self2_is_0 [of "(unat start div 4194304 + 1) * 1024" 4096] by (simp add: mult.assoc)
  ultimately show thesis using inv lt absent_table [OF False] by (intro that [of ?n s]) simp_all
next
  case True
  let ?d = "unat (PDX start)" and ?j = "unat (PTX start)"
  have n: "unat (start + PGSIZE) = unat start + 4096"
    using hi unat_add_no_overflow [of start PGSIZE] by (simp add: PGSIZE_def)
  then have n4: "unat (start + PGSIZE) mod 4096 = 0" using al by simp
  have page: "unat start \<le> unat la \<and> unat la < unat (start + PGSIZE) \<longleftrightarrow> PDX la = PDX start \<and> PTX la = PTX start" for la
    using in_page [OF al, of la] n same_page [of la start] by simp
  have g: "get_pte D start False s = Some (Some (frame (kmem s D ?d), ?j), s)" by (rule present_table [OF inv True])
  have w: "kmem s (frame (kmem s D ?d)) ?j = pte s D ?d ?j" using True by (simp add: pte_def)
  show thesis
  proof (cases "pte s D ?d ?j = 0")
    case zero: True
    then have "walk_cleared s s D (unat start) (unat (start + PGSIZE))"
      unfolding walk_cleared_def page by (auto simp: walk_def)
    then show thesis using zero inv g w n n4 by (intro that [of "start + PGSIZE" s]) simp_all
  next
    case False
    then have pr: "present (pte s D ?d ?j)" using pt_invD(6) [OF inv PDX_less PTX_less] by blast
    obtain t where t: "page_remove_pte (Some (frame (kmem s D ?d), ?j)) s = Some t" "pt_inv t D"
        "\<And>k l. k < 1024 \<Longrightarrow> pte t D k l = (if k = ?d \<and> l = ?j then 0 else pte s D k l)"
        "free_pgs (bud s) \<subseteq> free_pgs (bud t)"
      by (rule page_remove_pte_spec [OF inv PDX_less PTX_less True pr]) (use that in \<open>auto split: if_splits\<close>)
    then have "walk_cleared s t D (unat start) (unat (start + PGSIZE))"
      unfolding walk_cleared_def page by (auto simp: walk_def t(3) [OF PDX_less] word_unat_eq_iff)
    then show thesis using False g w n n4 t by (intro that [of "start + PGSIZE" t]) simp_all
  qed
qed

lemma next_page_le: "(a :: nat) < b \<Longrightarrow> a mod 4096 = 0 \<Longrightarrow> b mod 4096 = 0 \<Longrightarrow> a + 4096 \<le> b"
proof -
  assume "a < b" "a mod 4096 = 0" "b mod 4096 = 0"
  then obtain k l where "a = 4096 * k" "b = 4096 * l" by (metis dvd_def mod_0_imp_dvd)
  then show ?thesis using \<open>a < b\<close> by simp
qed

lemma unmap_loop_spec:
  assumes "pt_inv s D" "unat start mod 4096 = 0" "start < e" "unat e \<le> 2147483648" "unat e mod 4096 = 0"
  shows "\<exists>t. unmap_loop D start e s = Some t \<and> pt_inv t D \<and> walk_cleared s t D (unat start) (unat e)
    \<and> free_pgs (bud s) \<subseteq> free_pgs (bud t)"
  using assms
proof (induction "unat e - unat start" arbitrary: start s rule: less_induct)
  case less
  have lt: "unat start < unat e" using less.prems(3) by (simp add: word_less_nat_alt)
  then have hi: "unat start < 2147483648" using less.prems(4) by simp
  obtain nxt t where t: "do {
      (ptep, s) \<leftarrow> get_pte D start False s;
      (case ptep of
        None \<Rightarrow> Some (ROUNDDOWN_2N (start + PTSIZE) PTSHIFT, s)
      | Some (q, i) \<Rightarrow> do {
          s \<leftarrow> (if kmem s q i \<noteq> 0 then page_remove_pte ptep s else Some s);
          Some (start + PGSIZE, s)
        })
    } = Some (nxt, t)"
    "pt_inv t D" "walk_cleared s t D (unat start) (unat nxt)" "unat start < unat nxt" "unat nxt mod 4096 = 0"
    "free_pgs (bud s) \<subseteq> free_pgs (bud t)" "walk t D = walk s D \<or> unat nxt = unat start + 4096"
    by (rule unmap_step [OF less.prems(1,2) hi]) (rule that)
  have step: "unmap_loop D start e s = (if nxt \<noteq> 0 \<and> nxt < e then unmap_loop D nxt e t else Some t)"
    using t(1) by (subst unmap_loop.simps) (auto simp: bind_eq_Some_conv split: prod.splits)
  show ?case
  proof (cases "nxt < e")
    case True
    moreover have "nxt \<noteq> 0" using t(4) by auto
    moreover obtain u where u: "unmap_loop D nxt e t = Some u" "pt_inv u D" "walk_cleared t u D (unat nxt) (unat e)"
        "free_pgs (bud t) \<subseteq> free_pgs (bud u)"
      using less.hyps [OF diff_less_mono2 [OF t(4)] t(2,5) True less.prems(4,5)] lt by blast
    ultimately show ?thesis
      using step walk_cleared_trans [OF t(3) u(3)] t(4,6) by (auto simp: word_less_nat_alt)
  next
    case False
    then have le: "unat e \<le> unat nxt" by (simp add: word_less_nat_alt)
    have "walk_cleared s t D (unat start) (unat e)"
    proof (cases "walk t D = walk s D")
      case True
      then show ?thesis using t(3) le unfolding walk_cleared_def by (metis less_le_trans)
    next
      case False
      then have "unat nxt = unat start + 4096" using t(7) by simp
      moreover have "unat start + 4096 \<le> unat e" using lt less.prems(2,5) by (rule next_page_le)
      ultimately show ?thesis using t(3) le by (simp add: order_antisym)
    qed
    then show ?thesis using step False t(2,6) by simp
  qed
qed

section \<open>Page faults\<close>

lemma alloc_page_inv:
  assumes inv: "pt_inv s D"
  obtains "alloc_page s = Some (None, s)" "free_pgs (bud s) = {}"
  | p t where "alloc_page s = Some (Some p, t)" "p \<in> free_pgs (bud s)" "pt_inv t D" "kmem t = kmem s"
    "enterable t D p" "0 \<le> page_ref p t" "\<And>q. held s q \<Longrightarrow> held t q" "\<And>q. page_ref q t = page_ref q s"
proof (rule alloc_page_cases [OF pt_invD(1) [OF inv]])
  assume "alloc_page s = Some (None, s)" "free_pgs (bud s) = {}"
  then show thesis by (rule that(1))
next
  fix p t assume a: "alloc_page s = Some (Some p, t)" "buddy_inv (bud t)" "p \<in> free_pgs (bud s)"
    "free_pgs (bud t) = free_pgs (bud s) - {p}" "held t p" "\<And>q. held s q \<Longrightarrow> held t q"
    "\<And>q. page_ref q t = page_ref q s" "kmem t = kmem s" "npage (bud t) = npage (bud s)"
  have "pt_inv t D"
    using a pt_invD [OF inv] by (intro pt_inv_alloc_change [OF inv]) (auto simp del: owner.simps used_simps)
  moreover have "enterable t D p"
    using owner_held [OF inv a(3)] a(5) unfolding enterable_def owner_cong [OF a(8)] by blast
  ultimately show thesis using a pt_invD(4) [OF inv a(3)] by (intro that(2) [of p t]) simp_all
qed

text \<open>Where there is a table, a page for an unmapped address is found exactly when any page is free.\<close>

lemma pgdir_alloc_page_spec:
  assumes inv: "pt_inv s D" and perm: "unat perm < 4096" and zero: "walk s D la = 0" and d: "present (kmem s D (unat (PDX la)))"
  obtains "pgdir_alloc_page D la perm s = Some (None, s)" "free_pgs (bud s) = {}"
  | p t where "pgdir_alloc_page D la perm s = Some (Some p, t)" "p \<in> free_pgs (bud s)" "pt_inv t D" "page_ref p t = page_ref p s + 1"
    "\<And>la'. walk t D la' = (if PDX la' = PDX la \<and> PTX la' = PTX la then page2pa p OR PTE_P OR perm else walk s D la')"
    "\<And>q. held s q \<Longrightarrow> held t q \<and> page_ref q t = page_ref q s"
proof (rule alloc_page_inv [OF inv])
  assume "alloc_page s = Some (None, s)" "free_pgs (bud s) = {}"
  then show thesis by (intro that(1)) (simp_all add: pgdir_alloc_page_def)
next
  fix p s1 assume a: "alloc_page s = Some (Some p, s1)" "p \<in> free_pgs (bud s)" "pt_inv s1 D" "kmem s1 = kmem s"
    "enterable s1 D p" "0 \<le> page_ref p s1" "\<And>q. held s q \<Longrightarrow> held s1 q" "\<And>q. page_ref q s1 = page_ref q s"
  have z: "\<not> present (walk s1 D la)" using zero owner_cong(4) [OF a(4)] by (simp add: present_def)
  show thesis
  proof (rule page_insert_spec [OF a(3,5,6) perm])
    assume "\<not> present (kmem s1 D (unat (PDX la)))"
    then show thesis using d a(4) by simp
  next
    fix t assume t: "page_insert D p la perm s1 = Some (0, t)" "pt_inv t D"
      "\<And>la'. walk t D la' = (if PDX la' = PDX la \<and> PTX la' = PTX la then page2pa p OR PTE_P OR perm else walk s1 D la')"
      "\<And>q. held s1 q \<Longrightarrow> page_ref q t = ref_after s1 D la p q" "\<And>q. held s1 q \<Longrightarrow> q \<notin> lost s1 D la p \<Longrightarrow> held t q"
    have hp: "held s1 p" using a(5) by (simp add: enterable_def)
    have "pgdir_alloc_page D la perm s = Some (Some p, t)" using a(1) t(1) by (simp add: pgdir_alloc_page_def swap_init_ok_def)
    then show thesis
    proof (rule that(2) [OF _ a(2) t(2)])
      show "page_ref p t = page_ref p s + 1" using t(4) [OF hp] a(8) z by (simp add: entry_change_defs)
      show "held t q \<and> page_ref q t = page_ref q s" if "held s q" for q
        using t(4,5) [of q] a(7) [OF that] a(8) z held_not_free [OF that] a(2) by (auto simp: entry_change_defs)
    qed (use t(3) owner_cong(4) [OF a(4)] in simp)
  qed
qed

lemma rounded_page: "PDX (ROUNDDOWN_2N a PGSHIFT) = PDX a \<and> PTX (ROUNDDOWN_2N a PGSHIFT) = PTX a"
  unfolding same_page by (simp add: unat_ROUNDDOWN PGSHIFT_def)

text \<open>The part of the handler that runs once the fault is known to be allowed.\<close>

text \<open>The number of pages the handler needs: one, and another one when there is no table for the address.\<close>

definition pages_needed :: "paging \<Rightarrow> nat \<Rightarrow> u32 \<Rightarrow> nat" where
  "pages_needed s D addr = (if bit (kmem s D (unat (PDX addr))) 0 then 1 else 2)"

lemma fault_body:
  assumes inv: "pt_inv s D" and la: "la = ROUNDDOWN_2N addr PGSHIFT"
  obtains r t where "do {
      (ptep, s) \<leftarrow> get_pte D la True s;
      (case ptep of
        None \<Rightarrow> Some (- E_NO_MEM, mm, num, s)
      | Some (q, i) \<Rightarrow>
          if kmem s q i = 0
          then do {
            (pg, s) \<leftarrow> pgdir_alloc_page D la (fault_perm v) s;
            Some (if pg = None then - E_NO_MEM else 0, mm, num, s)
          }
          else do { kassert (swap_init_ok = 0); Some (- E_NO_MEM, mm, num, s) })
    } = Some (r, mm, num, t)" "pt_inv t D" "\<And>q. held s q \<Longrightarrow> held t q \<and> page_ref q t = page_ref q s"
    "r = 0 \<longleftrightarrow> walk s D addr = 0 \<and> pages_needed s D addr \<le> card (free_pgs (bud s))" "r = 0 \<or> r = - E_NO_MEM \<and> walk t D = walk s D"
    "r = 0 \<Longrightarrow> \<exists>p \<in> free_pgs (bud s). \<forall>la'. walk t D la' =
          (if PDX la' = PDX addr \<and> PTX la' = PTX addr then page2pa p OR PTE_P OR fault_perm v else walk s D la')"
proof (rule get_pte_create [OF inv, of la])
  have r: "PDX la = PDX addr" "PTX la = PTX addr" using rounded_page by (simp_all add: la)
  have fin: "finite (free_pgs (bud s))" by (rule finite_free_pgs [OF pt_invD(1) [OF inv]])
  {
    assume "get_pte D la True s = Some (None, s)" "\<not> present (kmem s D (unat (PDX la)))" "free_pgs (bud s) = {}"
    then show thesis using inv by (intro that [of "- E_NO_MEM" s]) (simp_all add: error_codes pages_needed_def)
  next
    fix s1 assume g: "get_pte D la True s = Some (Some (frame (kmem s1 D (unat (PDX la))), unat (PTX la)), s1)"
      "present (kmem s1 D (unat (PDX la)))" "pt_inv s1 D" "walk s1 D = walk s D" "\<And>q. held s q \<Longrightarrow> held s1 q \<and> page_ref q s1 = page_ref q s"
      "free_pgs (bud s1) = free_pgs (bud s) - (if present (kmem s D (unat (PDX la))) then {} else {frame (kmem s1 D (unat (PDX la)))})"
      "present (kmem s D (unat (PDX la))) \<or> frame (kmem s1 D (unat (PDX la))) \<in> free_pgs (bud s)"
    have perm: "unat (fault_perm v) < 4096" by (simp add: fault_perm_def PTE_U_def PTE_W_def)
    have w: "kmem s1 (frame (kmem s1 D (unat (PDX la)))) (unat (PTX la)) = walk s D addr"
      using g(2) r unfolding g(4) [symmetric] by (simp add: walk_def pte_def)
    have need: "pages_needed s D addr \<le> card (free_pgs (bud s)) \<longleftrightarrow> free_pgs (bud s1) \<noteq> {}"
    proof (cases "present (kmem s D (unat (PDX la)))")
      case True
      then show ?thesis using fin r g(6) by (simp add: pages_needed_def present_bit Suc_le_eq card_gt_0_iff)
    next
      case False
      then have "card (free_pgs (bud s)) = Suc (card (free_pgs (bud s1)))" using g(6,7) fin card.remove [of "free_pgs (bud s)"] by auto
      moreover have "finite (free_pgs (bud s1))" using g(6) fin by simp
      ultimately show ?thesis using False r by (simp add: pages_needed_def present_bit Suc_le_eq card_gt_0_iff)
    qed
    show thesis
    proof (cases "walk s D addr = 0")
      case True
      then have z: "walk s1 D la = 0" unfolding g(4) [symmetric] using r by (simp add: walk_def)
      show thesis
      proof (rule pgdir_alloc_page_spec [OF g(3) perm z g(2)])
        assume "pgdir_alloc_page D la (fault_perm v) s1 = Some (None, s1)" "free_pgs (bud s1) = {}"
        then show thesis using g(1,3,4,5) w True need by (intro that [of "- E_NO_MEM" s1]) (simp_all add: error_codes)
      next
        fix p t assume t: "pgdir_alloc_page D la (fault_perm v) s1 = Some (Some p, t)" "p \<in> free_pgs (bud s1)" "pt_inv t D"
          "\<And>la'. walk t D la' = (if PDX la' = PDX la \<and> PTX la' = PTX la then page2pa p OR PTE_P OR fault_perm v else walk s1 D la')"
          "\<And>q. held s1 q \<Longrightarrow> held t q \<and> page_ref q t = page_ref q s1"
        have "p \<in> free_pgs (bud s)" using t(2) g(6) by (auto split: if_splits)
        then show thesis using g(1,4,5) w True need t r by (intro that [of 0 t]) (auto split: if_splits)
      qed
    next
      case False
      then show thesis using g(1,3,4,5) w by (intro that [of "- E_NO_MEM" s1]) (simp_all add: swap_init_ok_def error_codes)
    qed
  }
qed

section \<open>Properties\<close>


text \<open>C24: Unmapping a range of whole pages of the user part ends, clears exactly the entries of the addresses in the
  range, whichever tables exist, leaves the tables well formed and takes no page away from the allocator.\<close>

theorem unmap_range_exact:
  assumes "pt_inv s D" "start mod PGSIZE = 0" "e mod PGSIZE = 0" "USER_ACCESS start e"
  shows "\<exists>t. unmap_range D start e s = Some t \<and> pt_inv t D \<and> free_pgs (bud s) \<subseteq> free_pgs (bud t)
    \<and> (\<forall>la. walk t D la = (if start \<le> la \<and> la < e then 0 else walk s D la))"
proof -
  have al: "unat start mod 4096 = 0" "unat e mod 4096 = 0"
    using assms(2,3) unat_mod [of start PGSIZE] unat_mod [of e PGSIZE] by (simp_all add: PGSIZE_def)
  have "start < e" "unat e \<le> 2147483648" using assms(4) by (simp_all add: USER_ACCESS_def USERTOP_def word_le_nat_alt)
  then show ?thesis using unmap_loop_spec [OF assms(1) al(1) _ _ al(2)] assms(2-4)
    by (auto simp: unmap_range_def walk_cleared_def word_le_nat_alt word_less_nat_alt)
qed

text \<open>Which access an area grants, said without the code: the area contains the address; a write, bit 1 of the error code, needs bit 1 of the flags;
  a read needs bit 0 or bit 2 of the flags, and a read of a page that is present, bit 0 of the error code, is never granted.\<close>

definition access_granted :: "u32 \<Rightarrow> u32 \<Rightarrow> vma \<Rightarrow> bool" where
  "access_granted error_code addr v \<longleftrightarrow> unat (vm_start v) \<le> unat addr \<and> unat addr < unat (vm_end v)
     \<and> (if bit error_code 1 then bit (vm_flags v) 1 else \<not> bit error_code 0 \<and> (bit (vm_flags v) 0 \<or> bit (vm_flags v) 2))"

lemma fault_allowed_bits:
  "fault_allowed error_code v \<longleftrightarrow>
     (if bit error_code 1 then bit (vm_flags v) 1 else \<not> bit error_code 0 \<and> (bit (vm_flags v) 0 \<or> bit (vm_flags v) 2))"
proof -
  have three: "(3 :: u32) = mask 2" by (simp add: mask_eq_exp_minus_1)
  have bits: "bit (error_code AND 3) n \<longleftrightarrow> bit error_code n \<and> n < 2" for n
    unfolding three by (auto simp: bit_and_iff bit_mask_iff dest: bit_imp_le_length)
  have one: "error_code AND 3 = 1 \<longleftrightarrow> bit error_code 0 \<and> \<not> bit error_code 1"
  proof
    show "bit error_code 0 \<and> \<not> bit error_code 1" if "error_code AND 3 = 1" using bits [of 0] bits [of 1] unfolding that by simp
    show "error_code AND 3 = 1" if "bit error_code 0 \<and> \<not> bit error_code 1"
      by (rule bit_word_eqI) (use that in \<open>auto simp: bits bit_1_iff less_2_cases_iff\<close>)
  qed
  have zero: "error_code AND 3 = 0 \<longleftrightarrow> \<not> bit error_code 0 \<and> \<not> bit error_code 1"
  proof
    show "\<not> bit error_code 0 \<and> \<not> bit error_code 1" if "error_code AND 3 = 0" using bits [of 0] bits [of 1] unfolding that by simp
    show "error_code AND 3 = 0" if "\<not> bit error_code 0 \<and> \<not> bit error_code 1"
      by (rule bit_word_eqI) (use that in \<open>auto simp: bits dest!: less_2_cases\<close>)
  qed
  have "vm_flags v AND (VM_READ OR VM_EXEC) = (vm_flags v AND VM_READ) OR (vm_flags v AND VM_EXEC)" by (simp add: bit.conj_disj_distrib)
  then have "vm_flags v AND (VM_READ OR VM_EXEC) \<noteq> 0 \<longleftrightarrow> vm_flags v AND VM_READ \<noteq> 0 \<or> vm_flags v AND VM_EXEC \<noteq> 0"
    by (simp only: or_eq_0_iff de_Morgan_conj)
  then show ?thesis unfolding fault_allowed_def Let_def one zero VM_bits by auto
qed

lemma fault_perm_bits: "page2pa p OR PTE_P OR fault_perm v = page2pa p OR (if bit (vm_flags v) 1 then 7 else 5)"
  by (simp add: fault_perm_def VM_bits PTE_P_def PTE_U_def PTE_W_def or.assoc)

lemma granted_iff: "access_granted error_code addr v \<longleftrightarrow> covers addr v \<and> fault_allowed error_code v"
  unfolding access_granted_def fault_allowed_bits covers_def word_le_nat_alt word_less_nat_alt by blast

text \<open>C23: The page-fault handler always returns. It answers that the access is invalid exactly when no area contains the address and grants
  the access. Otherwise it succeeds exactly when the address was not mapped and there are enough free pages, one for the address and one
  for a missing table; then that page of addresses, and no other, is mapped to a page that was free, present, for the user, and writable
  exactly when the area is. In every other case it reports a lack of memory and the tables say what they said before. No count of a page in use changes.\<close>

theorem do_pgfault_exact:
  assumes "mm_inv mm" "pgdir mm = Some D" "pt_inv s D"
  shows "\<exists>r mm' t. do_pgfault (Some mm) error_code addr (n, s) = Some (r, Some mm', n + 1, t)
    \<and> mm_inv mm' \<and> mmap_list mm' = mmap_list mm \<and> pt_inv t D \<and> (\<forall>q. held s q \<longrightarrow> held t q \<and> page_ref q t = page_ref q s)
    \<and> r = (if \<not> (\<exists>v \<in> set (mmap_list mm). access_granted error_code addr v) then - E_INVAL
           else if walk s D addr = 0 \<and> pages_needed s D addr \<le> card (free_pgs (bud s)) then 0 else - E_NO_MEM)
    \<and> (if r = 0 then \<exists>v \<in> set (mmap_list mm). access_granted error_code addr v \<and> (\<exists>p \<in> free_pgs (bud s). \<forall>la.
          walk t D la = (if PDX la = PDX addr \<and> PTX la = PTX addr then page2pa p OR (if bit (vm_flags v) 1 then 7 else 5) else walk s D la))
       else walk t D = walk s D)"
proof -
  obtain x mm' where f: "find_vma addr mm = (x, mm')" by fastforce
  note spec = find_vma_spec [OF assms(1), of addr, unfolded f, simplified]
  have same: "mmap_list mm' = mmap_list mm" "pgdir mm' = Some D" using assms(2) by (subst spec(2), simp)+
  have cov: "(\<exists>v \<in> set (mmap_list mm). access_granted error_code addr v)
      \<longleftrightarrow> (case x of Some v \<Rightarrow> vm_start v \<le> addr \<and> fault_allowed error_code v | None \<Rightarrow> False)"
    unfolding spec(1) granted_iff by (rule covering_area [OF assms(1)])
  show ?thesis
  proof (cases "case x of Some v \<Rightarrow> vm_start v \<le> addr \<and> fault_allowed error_code v | None \<Rightarrow> False")
    case False
    then have "do_pgfault (Some mm) error_code addr (n, s) = Some (- E_INVAL, Some mm', n + 1, s)"
      using f by (auto simp: do_pgfault_def not_le split: option.splits)
    then show ?thesis using False cov spec(3) same assms(3) by (simp add: error_codes)
  next
    case True
    then obtain v where v: "x = Some v" "vm_start v \<le> addr" "fault_allowed error_code v" by (auto split: option.splits)
    have v': "v \<in> set (mmap_list mm)" "access_granted error_code addr v"
      using v spec(1) find_vma_loop_set find_vma_loop_end by (auto simp: covers_def granted_iff)
    have body: "do_pgfault (Some mm) error_code addr (n, s) = do {
        (ptep, s) \<leftarrow> get_pte D (ROUNDDOWN_2N addr PGSHIFT) True s;
        (case ptep of
          None \<Rightarrow> Some (- E_NO_MEM, Some mm', n + 1, s)
        | Some (q, i) \<Rightarrow>
            if kmem s q i = 0
            then do {
              (pg, s) \<leftarrow> pgdir_alloc_page D (ROUNDDOWN_2N addr PGSHIFT) (fault_perm v) s;
              Some (if pg = None then - E_NO_MEM else 0, Some mm', n + 1, s)
            }
            else do { kassert (swap_init_ok = 0); Some (- E_NO_MEM, Some mm', n + 1, s) })
      }"
      using f v same(2) leD [OF v(2)] by (simp add: do_pgfault_def Let_def)
    show ?thesis
    proof (rule fault_body [OF assms(3) refl, of addr "Some mm'" "n + 1" v, folded body])
      fix r t assume t: "do_pgfault (Some mm) error_code addr (n, s) = Some (r, Some mm', n + 1, t)" "pt_inv t D"
        "\<And>q. held s q \<Longrightarrow> held t q \<and> page_ref q t = page_ref q s"
        "r = 0 \<longleftrightarrow> walk s D addr = 0 \<and> pages_needed s D addr \<le> card (free_pgs (bud s))" "r = 0 \<or> r = - E_NO_MEM \<and> walk t D = walk s D"
        "r = 0 \<Longrightarrow> \<exists>p \<in> free_pgs (bud s). \<forall>la. walk t D la =
          (if PDX la = PDX addr \<and> PTX la = PTX addr then page2pa p OR PTE_P OR fault_perm v else walk s D la)"
      have "\<exists>v \<in> set (mmap_list mm). access_granted error_code addr v" using v' by blast
      then have r: "r = (if \<not> (\<exists>v \<in> set (mmap_list mm). access_granted error_code addr v) then - E_INVAL
           else if walk s D addr = 0 \<and> pages_needed s D addr \<le> card (free_pgs (bud s)) then 0 else - E_NO_MEM)"
        using t(4,5) by auto
      show ?thesis
      proof (intro exI conjI, rule t(1))
        show "if r = 0 then \<exists>v \<in> set (mmap_list mm). access_granted error_code addr v \<and> (\<exists>p \<in> free_pgs (bud s). \<forall>la.
            walk t D la = (if PDX la = PDX addr \<and> PTX la = PTX addr then page2pa p OR (if bit (vm_flags v) 1 then 7 else 5) else walk s D la))
          else walk t D = walk s D"
        proof (cases "r = 0")
          case True
          from v' t(6) [OF True, unfolded fault_perm_bits] show ?thesis unfolding if_P [OF True] by blast
        qed (use t(5) in simp)
      qed (use spec(3) same(1) t(2,3) r in auto)
    qed
  qed
qed

text \<open>A machine of eight pages, none free: page 0 is a directory, page 1 its only table, with page 2 mapped at \<^verbatim>\<open>0x10400000\<close>.\<close>

definition demo_buddy :: buddy where
  "demo_buddy = \<lparr>page = (\<lambda>_. \<lparr>pg_ref = 1, pg_flags = 0, pg_property = 0, pg_zone_num = 0\<rparr>), npage = 8,
     free_list = (\<lambda>_. []), nr_free = (\<lambda>_. 0), mem_base = (\<lambda>_. 0), zones_used = 1\<rparr>"

definition demo_paging :: paging where
  "demo_paging = \<lparr>pmm = (0, demo_buddy),
     kmem = (\<lambda>p i. if p = 0 \<and> i = 65 then table_entry 1 else if p = 1 \<and> i = 0 then page2pa 2 OR PTE_P OR PTE_U else 0),
     tlb = (\<lambda>_. \<lparr>tlb_hi = 0, tlb_low0 = 0, tlb_low1 = 0\<rparr>), refill_index = 0\<rparr>"

lemma demo_buddy_facts: "buddy_inv demo_buddy" "free_pgs demo_buddy = {}" "allocated demo_buddy 0 {p} \<longleftrightarrow> p < 8"
proof -
  have flags: "\<not> PageProperty (page demo_buddy q)" "\<not> PageReserved (page demo_buddy q)" for q
    by (simp_all add: demo_buddy_def PageProperty_def PageReserved_def test_bit_at_def)
  show "free_pgs demo_buddy = {}" by (simp add: free_pgs_def demo_buddy_def)
  then show "allocated demo_buddy 0 {p} \<longleftrightarrow> p < 8" using flags by (simp add: allocated_def usable_def) (simp add: demo_buddy_def)
  show "buddy_inv demo_buddy" using flags by (simp add: buddy_inv_def) (simp add: demo_buddy_def)
qed

lemma demo_tables:
  "present (kmem demo_paging 0 i) \<longleftrightarrow> i = 65" "frame (kmem demo_paging 0 65) = 1"
  "present (pte demo_paging 0 i j) \<longleftrightarrow> i = 65 \<and> j = 0" "frame (pte demo_paging 0 65 0) = 2"
  "pte demo_paging 0 i j \<noteq> 0 \<Longrightarrow> i = 65 \<and> j = 0"
proof -
  have z: "\<not> present 0" by (simp add: present_def)
  have e: "frame (page2pa 2 OR PTE_P OR PTE_U) = 2" "present (page2pa 2 OR PTE_P OR PTE_U)"
    using entry_of_page(1,2) [of 2 5] by (simp_all add: PTE_P_def PTE_U_def present_bit or.assoc)
  show pd: "present (kmem demo_paging 0 i) \<longleftrightarrow> i = 65" "frame (kmem demo_paging 0 65) = 1" for i
    using table_entry [of 1] z by (simp_all add: demo_paging_def)
  show "present (pte demo_paging 0 i j) \<longleftrightarrow> i = 65 \<and> j = 0" "frame (pte demo_paging 0 65 0) = 2"
    "pte demo_paging 0 i j \<noteq> 0 \<Longrightarrow> i = 65 \<and> j = 0"
    using e z table_entry(1) [of 1] by (auto simp: pte_def pd) (auto simp: demo_paging_def z split: if_splits)
qed

lemma demo_used: "used demo_paging 0 = {Dir, Table 65, Data 65 0}"
  by (auto simp: used_def demo_tables)

lemma demo_held: "held demo_paging p \<longleftrightarrow> p < 8"
proof -
  have z: "allocated demo_buddy z {p} \<Longrightarrow> z = 0" for z by (auto simp: allocated_def usable_def demo_buddy_def)
  show ?thesis using demo_buddy_facts(3) z by (auto simp: held_def demo_paging_def)
qed

lemma demo_pt_inv: "pt_inv demo_paging 0"
proof (rule pt_invI)
  show "is_data u \<and> is_data v" if "u \<in> used demo_paging 0" "v \<in> used demo_paging 0" "owner demo_paging 0 u = owner demo_paging 0 v" "u \<noteq> v" for u v
    using that by (auto simp: demo_used demo_tables)
  show "held demo_paging (owner demo_paging 0 u)" if "u \<in> used demo_paging 0" for u
    using that by (auto simp: demo_used demo_held demo_tables)
  show "int (maps {} demo_paging 0 (owner demo_paging 0 u)) \<le> page_ref (owner demo_paging 0 u) demo_paging" for u
  proof -
    have "{v \<in> used demo_paging 0 - {}. is_data v \<and> owner demo_paging 0 v = q} \<subseteq> {Data 65 0}" for q by (auto simp: demo_used)
    then have "maps {} demo_paging 0 q \<le> 1" for q unfolding maps_def using card_mono [of "{Data 65 0}"] by simp
    then show ?thesis by (simp add: page_ref_def demo_paging_def demo_buddy_def del: owner.simps)
  qed
  show "present (pte demo_paging 0 i j) \<or> pte demo_paging 0 i j = 0" for i j using demo_tables(3,5) [of i j] by blast
qed (use demo_buddy_facts in \<open>simp_all add: demo_paging_def page_ref_def\<close>, simp_all add: demo_buddy_def)

lemma demo_addr: "PDX 0x10400000 = 65" "PTX 0x10400000 = 0" "PDX 0x10401000 = 65" "PTX 0x10401000 = 1"
  by (simp_all add: PDX_def PTX_def)


theorem unmap_range_exact_witness:
  "pt_inv demo_paging 0 \<and> walk demo_paging 0 0x10400000 \<noteq> 0
    \<and> (\<exists>t. unmap_range 0 0x10400000 0x10401000 demo_paging = Some t \<and> walk t 0 0x10400000 = 0)"
proof -
  have "walk demo_paging 0 0x10400000 \<noteq> 0"
    using demo_tables(3) [of 65 0] by (auto simp: walk_def demo_addr present_def)
  moreover have "(0x10400000 :: u32) mod PGSIZE = 0" "(0x10401000 :: u32) mod PGSIZE = 0" "USER_ACCESS 0x10400000 0x10401000"
    by (simp_all add: PGSIZE_def USER_ACCESS_def USERBASE_def USERTOP_def)
  ultimately show ?thesis using unmap_range_exact [OF demo_pt_inv, of "0x10400000" "0x10401000"] demo_pt_inv by auto
qed

text \<open>The same machine with pages 3 and 5 free: a read in an area without a table takes both.\<close>

definition demo_spare :: paging where
  "demo_spare = demo_paging\<lparr>pmm := (0, demo_buddy\<lparr>page := (\<lambda>q. \<lparr>pg_ref = 1, pg_flags = (if q = 3 \<or> q = 5 then 2 else 0), pg_property = 0, pg_zone_num = 0\<rparr>),
     free_list := (\<lambda>k. if k = 0 then [3, 5] else []), nr_free := (\<lambda>k. if k = 0 then 2 else 0)\<rparr>)\<rparr>"

lemma demo_spare_facts: "buddy_inv (bud demo_spare)" "free_pgs (bud demo_spare) = {3, 5}" "held demo_spare p \<longleftrightarrow> p < 8 \<and> p \<noteq> 3 \<and> p \<noteq> 5"
proof -
  let ?b = "bud demo_spare"
  have flags: "PageProperty (page ?b q) \<longleftrightarrow> q = 3 \<or> q = 5" "\<not> PageReserved (page ?b q)" for q
    by (auto simp: demo_spare_def PageProperty_def PageReserved_def test_bit_at_def)
  have lists: "set (free_list ?b k) = (if k = 0 then {3, 5} else {})" for k by (auto simp: demo_spare_def)
  show free: "free_pgs ?b = {3, 5}" by (auto simp: free_pgs_def lists block_def)
  have page: "pg_zone_num (page ?b q) = 0" "pg_property (page ?b q) = 0" "npage ?b = 8" "mem_base ?b = (\<lambda>_. 0)" for q
    by (simp_all add: demo_spare_def demo_buddy_def)
  show "held demo_spare p \<longleftrightarrow> p < 8 \<and> p \<noteq> 3 \<and> p \<noteq> 5"
    using free flags page by (auto simp: held_def allocated_def usable_def)
  have n: "distinct (free_list ?b k)" "nr_free ?b k = of_nat (length (free_list ?b k))" for k by (simp_all add: demo_spare_def)
  show "buddy_inv ?b" unfolding buddy_inv_def lists usable_def aligned_def page
    using flags n by (auto simp: block_def)
qed

lemma demo_spare_inv: "pt_inv demo_spare 0"
proof (rule pt_inv_alloc_change [OF demo_pt_inv])
  show k: "kmem demo_spare = kmem demo_paging" by (simp add: demo_spare_def)
  show "held demo_spare (owner demo_paging 0 u)" if "u \<in> used demo_paging 0 - {}" for u
    using that by (auto simp: demo_used demo_spare_facts demo_tables)
  show "int (maps {} demo_paging 0 (owner demo_paging 0 u)) \<le> page_ref (owner demo_paging 0 u) demo_spare" if "u \<in> used demo_paging 0 - {}" "is_data u" for u
    using pt_invD(5) [OF demo_pt_inv, of u] that by (simp add: page_ref_def demo_spare_def demo_paging_def demo_buddy_def del: owner.simps used_simps)
qed (use demo_spare_facts in \<open>auto simp: page_ref_def\<close>, auto simp: demo_spare_def demo_paging_def demo_buddy_def)

theorem do_pgfault_exact_witness:
  "mm_inv (demo_mm\<lparr>pgdir := Some 0\<rparr>) \<and> pt_inv demo_spare 0
    \<and> (\<exists>mm' t p. do_pgfault (Some (demo_mm\<lparr>pgdir := Some 0\<rparr>)) 0 0x10001234 (7, demo_spare) = Some (0, Some mm', 8, t)
        \<and> p \<in> {3, 5} \<and> walk t 0 0x10001000 = page2pa p OR 5)
    \<and> (\<exists>mm' t. do_pgfault (Some (demo_mm\<lparr>pgdir := Some 0\<rparr>)) 2 0x10001234 (7, demo_spare) = Some (- E_INVAL, Some mm', 8, t))"
proof -
  let ?mm = "demo_mm\<lparr>pgdir := Some 0\<rparr>"
  have m: "mm_inv ?mm" using demo_mm_inv by (simp add: mm_inv_def)
  have g: "(\<exists>v \<in> set (mmap_list ?mm). access_granted 0 0x10001234 v \<and> P v) \<longleftrightarrow> P \<lparr>vm_start = 0x10001000, vm_end = 0x10003000, vm_flags = VM_READ\<rparr>"
      "\<not> (\<exists>v \<in> set (mmap_list ?mm). access_granted 2 0x10001234 v)" for P
    by (simp_all add: demo_mm_def access_granted_def VM_READ_def)
  have a: "PDX 0x10001234 = 64" "PTX 0x10001234 = 1" "PDX 0x10001000 = 64" "PTX 0x10001000 = 1" by (simp_all add: PDX_def PTX_def)
  have k: "kmem demo_spare = kmem demo_paging" by (simp add: demo_spare_def)
  have w: "walk demo_spare 0 0x10001234 = 0" "pages_needed demo_spare 0 0x10001234 = 2"
    using demo_tables(5) [of 64 1] demo_tables(1) [of 64] unfolding owner_cong(4) [OF k]
    by (auto simp: walk_def a pages_needed_def k present_bit)
  have c: "card (free_pgs (bud demo_spare)) = 2" by (simp add: demo_spare_facts)
  obtain mm' t where t: "do_pgfault (Some ?mm) 0 0x10001234 (7, demo_spare) = Some (0, Some mm', 8, t)"
      "\<exists>v \<in> set (mmap_list ?mm). access_granted 0 0x10001234 v \<and> (\<exists>p \<in> free_pgs (bud demo_spare). \<forall>la. walk t 0 la
        = (if PDX la = PDX 0x10001234 \<and> PTX la = PTX 0x10001234 then page2pa p OR (if bit (vm_flags v) 1 then 7 else 5) else walk demo_spare 0 la))"
  proof -
    have g0: "(\<exists>v \<in> set (mmap_list ?mm). access_granted 0 0x10001234 v) \<longleftrightarrow> True" using g(1) [of "\<lambda>_. True"] by blast
    have pd: "pgdir ?mm = Some 0" by simp
    show ?thesis using do_pgfault_exact [OF m pd demo_spare_inv, of 0 "0x10001234" 7, unfolded g0 w c] that by (elim exE conjE) simp
  qed
  have "\<exists>p \<in> {3, 5}. walk t 0 0x10001000 = page2pa p OR 5"
    using t(2) [unfolded g(1) demo_spare_facts(2)] a by (auto simp: VM_READ_def)
  then have "\<exists>mm' t p. do_pgfault (Some ?mm) 0 0x10001234 (7, demo_spare) = Some (0, Some mm', 8, t)
      \<and> p \<in> {3, 5} \<and> walk t 0 0x10001000 = page2pa p OR 5" using t(1) by blast
  moreover have "\<exists>mm' t. do_pgfault (Some ?mm) 2 0x10001234 (7, demo_spare) = Some (- E_INVAL, Some mm', 8, t)"
    using do_pgfault_exact [OF m _ demo_spare_inv, of 2 "0x10001234" 7] g(2) by auto
  ultimately show ?thesis using m demo_spare_inv by blast
qed

text \<open>When the table for an address is missing, \<^verbatim>\<open>copy_range\<close> moves on by the size of a table without going back to
  the boundary of one, and so passes over pages at the beginning of the next table: here the page mapped at
  \<^verbatim>\<open>0x10400000\<close> lies in the range and is not copied, and the result is success.\<close>

theorem copy_range_skips:
  "walk demo_paging 0 0x10400000 \<noteq> 0 \<and> copy_range 3 0 0x10001000 0x10401000 demo_paging = Some (0, demo_paging)"
proof -
  have "PDX 0x10001000 = 64" by (simp add: PDX_def)
  then have g: "get_pte 0 0x10001000 False demo_paging = Some (None, demo_paging)"
    by (intro absent_table) (simp add: demo_tables)
  have "walk demo_paging 0 0x10400000 \<noteq> 0"
    using demo_tables(3) [of 65 0] by (auto simp: walk_def demo_addr present_def)
  moreover have "copy_loop 3 0 0x10001000 0x10401000 demo_paging = Some (0, demo_paging)"
    using g by (subst copy_loop.simps) (simp add: PTSIZE_def PGSIZE_def PGSHIFT_def ROUNDDOWN_2N_def)
  ultimately show ?thesis
    by (simp add: copy_range_def PGSIZE_def USER_ACCESS_def USERBASE_def USERTOP_def)
qed

end
