(* ===== verification/Sfs_Block.thy ===== *)
theory Sfs_Block
  imports Bitmap
begin

text \<open>
  The simple file system below its directories: block transfers (\<^verbatim>\<open>kern/fs/sfs/sfs_io.c\<close>), the allocation of blocks and
  the map from the blocks of a file to the blocks of the disk (\<^verbatim>\<open>kern/fs/sfs/sfs_inode.c\<close>). The disk is a map from block
  numbers to bytes, and a transfer outside the device fails as \<^verbatim>\<open>disk0_io\<close> does. The functions run under the semaphores
  of the file system and the inode, so they are sequential. A 32-bit number in a block is four bytes, the lowest first.

  A call returns \<open>Inr\<close> of what it stores through its pointers, or \<open>Inl\<close> of a non-zero return code; a panic is \<open>None\<close>.
\<close>

section \<open>Results\<close>

type_synonym ('a, 's) io = "'s \<Rightarrow> ((int + 'a) \<times> 's) option"

definition ret :: "'a \<Rightarrow> ('a, 's) io" where "ret a = (\<lambda>s. Some (Inr a, s))"

definition fail :: "int \<Rightarrow> ('a, 's) io" where "fail e = (\<lambda>s. Some (Inl e, s))"

text \<open>Look at the result of a call whatever it is, or go on only after success.\<close>

definition io_try :: "('a, 's) io \<Rightarrow> (int + 'a \<Rightarrow> ('b, 's) io) \<Rightarrow> ('b, 's) io" where
  "io_try m h = (\<lambda>s. case m s of None \<Rightarrow> None | Some (r, s) \<Rightarrow> h r s)"

definition io_then :: "('a, 's) io \<Rightarrow> ('a \<Rightarrow> ('b, 's) io) \<Rightarrow> ('b, 's) io" where
  "io_then m f = io_try m (\<lambda>r. case r of Inl e \<Rightarrow> fail e | Inr a \<Rightarrow> f a)"

definition io_assert :: "('s \<Rightarrow> bool option) \<Rightarrow> (unit, 's) io" where
  "io_assert b = (\<lambda>s. case b s of Some True \<Rightarrow> Some (Inr (), s) | _ \<Rightarrow> None)"

section \<open>The code\<close>

definition SFS_BLKSIZE :: nat where "SFS_BLKSIZE = 4096"
definition SFS_NDIRECT :: nat where "SFS_NDIRECT = 12"
definition SFS_BLK_NENTRY :: nat where "SFS_BLK_NENTRY = 1024"

type_synonym blk = "nat \<Rightarrow> u8"

record sfs_super =
  sb_magic :: u32
  sb_blocks :: u32
  sb_unused :: u32
  sb_info :: "u8 list"

record sfs_fs =
  super :: sfs_super
  freemap :: bitmap
  super_dirty :: bool
  d_blocks :: u32
  disk :: "u32 \<Rightarrow> blk"

definition bytes4 :: "u32 \<Rightarrow> u8 list" where
  "bytes4 w = [ucast w, ucast (drop_bit 8 w), ucast (drop_bit 16 w), ucast (drop_bit 24 w)]"

definition word4 :: "u8 list \<Rightarrow> u32" where
  "word4 bs = ucast (bs ! 0) OR push_bit 8 (ucast (bs ! 1)) OR push_bit 16 (ucast (bs ! 2)) OR push_bit 24 (ucast (bs ! 3))"

subsection \<open>Transfers\<close>

text \<open>\<^verbatim>\<open>sfs_rwblock_nolock\<close> for the two directions.\<close>

definition rd_block :: "u32 \<Rightarrow> bool \<Rightarrow> (blk, 'a sfs_fs_scheme) io" where
  "rd_block blkno check s = do {
     kassert ((blkno \<noteq> 0 \<or> \<not> check) \<and> blkno < sb_blocks (super s));
     Some (if blkno < d_blocks s then Inr (disk s blkno) else Inl (- E_INVAL), s)
   }"

definition wr_block :: "u32 \<Rightarrow> bool \<Rightarrow> blk \<Rightarrow> (unit, 'a sfs_fs_scheme) io" where
  "wr_block blkno check b s = do {
     kassert ((blkno \<noteq> 0 \<or> \<not> check) \<and> blkno < sb_blocks (super s));
     Some (if blkno < d_blocks s then (Inr (), s\<lparr>disk := (disk s)(blkno := b)\<rparr>) else (Inl (- E_INVAL), s))
   }"

fun sfs_rblock :: "u32 \<Rightarrow> nat \<Rightarrow> (blk list, 'a sfs_fs_scheme) io" where
  "sfs_rblock blkno 0 = ret []"
| "sfs_rblock blkno (Suc n) = io_then (rd_block blkno True) (\<lambda>b. io_then (sfs_rblock (blkno + 1) n) (\<lambda>bs. ret (b # bs)))"

fun sfs_wblock :: "blk list \<Rightarrow> u32 \<Rightarrow> (unit, 'a sfs_fs_scheme) io" where
  "sfs_wblock [] blkno = ret ()"
| "sfs_wblock (b # bs) blkno = io_then (wr_block blkno True b) (\<lambda>_. sfs_wblock bs (blkno + 1))"

definition sfs_rbuf :: "nat \<Rightarrow> u32 \<Rightarrow> nat \<Rightarrow> (u8 list, 'a sfs_fs_scheme) io" where
  "sfs_rbuf len blkno offset = io_then (io_assert (\<lambda>_. Some (offset < SFS_BLKSIZE \<and> offset + len \<le> SFS_BLKSIZE))) (\<lambda>_.
     io_then (rd_block blkno True) (\<lambda>b. ret (map (\<lambda>i. b (offset + i)) [0..<len])))"

definition put_bytes :: "blk \<Rightarrow> nat \<Rightarrow> u8 list \<Rightarrow> blk" where
  "put_bytes b offset bs = (\<lambda>i. if offset \<le> i \<and> i < offset + length bs then bs ! (i - offset) else b i)"

definition sfs_wbuf :: "u8 list \<Rightarrow> u32 \<Rightarrow> nat \<Rightarrow> (unit, 'a sfs_fs_scheme) io" where
  "sfs_wbuf bs blkno offset = io_then (io_assert (\<lambda>_. Some (offset < SFS_BLKSIZE \<and> offset + length bs \<le> SFS_BLKSIZE))) (\<lambda>_.
     io_then (rd_block blkno True) (\<lambda>b. wr_block blkno True (put_bytes b offset bs)))"

definition super_block :: "sfs_super \<Rightarrow> blk" where
  "super_block sb = put_bytes (\<lambda>_. 0) 0 (bytes4 (sb_magic sb) @ bytes4 (sb_blocks sb) @ bytes4 (sb_unused sb) @ sb_info sb)"

definition sfs_sync_super :: "(unit, 'a sfs_fs_scheme) io" where
  "sfs_sync_super s = wr_block 0 False (super_block (super s)) s"

text \<open>The words of the free map as blocks from block 2 on.\<close>

definition map_block :: "u32 list \<Rightarrow> nat \<Rightarrow> blk" where
  "map_block ws k = (\<lambda>i. let j = k * SFS_BLK_NENTRY + i div 4 in if j < length ws then bytes4 (ws ! j) ! (i mod 4) else 0)"

definition sfs_sync_freemap :: "(unit, 'a sfs_fs_scheme) io" where
  "sfs_sync_freemap s =
     (let nblks = ROUNDUP_DIV_2N (sb_blocks (super s)) 15
      in sfs_wblock (map (map_block (fst (bitmap_getdata (freemap s)))) [0..<unat nblks]) 2 s)"

text \<open>For no block at all \<^verbatim>\<open>sfs_clear_block\<close> returns a variable that has not been set.\<close>

fun clear_loop :: "u32 \<Rightarrow> nat \<Rightarrow> (unit, 'a sfs_fs_scheme) io" where
  "clear_loop blkno 0 = ret ()"
| "clear_loop blkno (Suc n) = io_then (wr_block blkno True (\<lambda>_. 0)) (\<lambda>_. clear_loop (blkno + 1) n)"

definition sfs_clear_block :: "u32 \<Rightarrow> nat \<Rightarrow> (unit, 'a sfs_fs_scheme) io" where
  "sfs_clear_block blkno nblks = (if nblks = 0 then (\<lambda>_. None) else clear_loop blkno nblks)"

subsection \<open>Blocks\<close>

definition sfs_block_inuse :: "u32 \<Rightarrow> 'a sfs_fs_scheme \<Rightarrow> bool option" where
  "sfs_block_inuse ino s =
     (if ino \<noteq> 0 \<and> ino < sb_blocks (super s) then map_option Not (bitmap_test (freemap s) ino) else None)"

definition sfs_block_alloc :: "(u32, 'a sfs_fs_scheme) io" where
  "sfs_block_alloc s = (case bitmap_alloc (freemap s) of
     None \<Rightarrow> None
   | Some (r, ino, bm) \<Rightarrow>
       if r \<noteq> 0 then Some (Inl r, s\<lparr>freemap := bm\<rparr>)
       else do {
         ino \<leftarrow> ino;
         kassert (sb_unused (super s) > 0);
         let s = s\<lparr>freemap := bm, super := (super s)\<lparr>sb_unused := sb_unused (super s) - 1\<rparr>, super_dirty := True\<rparr>;
         io_then (io_assert (sfs_block_inuse ino)) (\<lambda>_. io_then (sfs_clear_block ino 1) (\<lambda>_. ret ino)) s
       })"

definition sfs_block_free :: "u32 \<Rightarrow> (unit, 'a sfs_fs_scheme) io" where
  "sfs_block_free ino = io_then (io_assert (sfs_block_inuse ino)) (\<lambda>_ s. do {
     bm \<leftarrow> bitmap_free (freemap s) ino;
     Some (Inr (), s\<lparr>freemap := bm, super := (super s)\<lparr>sb_unused := sb_unused (super s) + 1\<rparr>, super_dirty := True\<rparr>)
   })"

subsection \<open>The block map of a file\<close>

record sfs_disk_inode =
  din_size :: u32
  din_type :: "16 word"
  din_nlinks :: "16 word"
  din_blocks :: u32
  direct :: "u32 list"
  indirect :: u32

text \<open>The file system together with the inode at hand.\<close>

record sfs_sin = sfs_fs +
  din :: sfs_disk_inode
  ino :: u32
  dirty :: bool
  reclaim_count :: int

text \<open>The two labels \<^verbatim>\<open>failed_cleanup\<close> and what follows the lookup of an entry that has to be made.\<close>

definition bmap_cleanup :: "u32 \<Rightarrow> u32 \<Rightarrow> int \<Rightarrow> ('b, 'a sfs_fs_scheme) io" where
  "bmap_cleanup ent0 ent e = (if ent \<noteq> ent0 then io_then (sfs_block_free ent) (\<lambda>_. fail e) else fail e)"

definition bmap_new :: "u32 \<Rightarrow> u32 \<Rightarrow> nat \<Rightarrow> (u32 \<times> u32, 'a sfs_fs_scheme) io" where
  "bmap_new ent0 ent index = io_try sfs_block_alloc (\<lambda>r. case r of
     Inl e \<Rightarrow> bmap_cleanup ent0 ent e
   | Inr i \<Rightarrow> io_try (sfs_wbuf (bytes4 i) ent (index * 4)) (\<lambda>r. case r of
         Inl e \<Rightarrow> io_then (sfs_block_free i) (\<lambda>_. bmap_cleanup ent0 ent e)
       | Inr _ \<Rightarrow> ret (ent, i)))"

definition sfs_bmap_get_sub :: "u32 \<Rightarrow> nat \<Rightarrow> bool \<Rightarrow> (u32 \<times> u32, 'a sfs_fs_scheme) io" where
  "sfs_bmap_get_sub ent0 index create = io_then (io_assert (\<lambda>_. Some (index < SFS_BLK_NENTRY))) (\<lambda>_.
     if ent0 \<noteq> 0
     then io_then (sfs_rbuf 4 ent0 (index * 4)) (\<lambda>bs.
            if word4 bs \<noteq> 0 \<or> \<not> create then ret (ent0, word4 bs) else bmap_new ent0 ent0 index)
     else if \<not> create then ret (ent0, 0)
     else io_then sfs_block_alloc (\<lambda>ent. bmap_new ent0 ent index))"

definition check_inuse :: "u32 \<Rightarrow> (u32, 'a sfs_fs_scheme) io" where
  "check_inuse i = io_then (io_assert (\<lambda>s. if i = 0 then Some True else sfs_block_inuse i s)) (\<lambda>_. ret i)"

text \<open>Beyond the direct and the indirect blocks the code tests a variable that has not been set; no result is given there.\<close>

definition sfs_bmap_get :: "nat \<Rightarrow> bool \<Rightarrow> (u32, sfs_sin) io" where
  "sfs_bmap_get index create s =
     (if index < SFS_NDIRECT
      then do {
        i \<leftarrow> fetch (direct (din s)) index;
        if i = 0 \<and> create
        then io_then sfs_block_alloc (\<lambda>i s. do {
               d \<leftarrow> store (direct (din s)) index i;
               check_inuse i (s\<lparr>din := (din s)\<lparr>direct := d\<rparr>, dirty := True\<rparr>)
             }) s
        else check_inuse i s
      }
      else if index - SFS_NDIRECT < SFS_BLK_NENTRY
      then io_then (sfs_bmap_get_sub (indirect (din s)) (index - SFS_NDIRECT) create) (\<lambda>(ent, i) s.
             if ent \<noteq> indirect (din s)
             then do {
               kassert (indirect (din s) = 0);
               check_inuse i (s\<lparr>din := (din s)\<lparr>indirect := ent\<rparr>, dirty := True\<rparr>)
             }
             else check_inuse i s) s
      else None)"

definition sfs_bmap_free_sub :: "u32 \<Rightarrow> nat \<Rightarrow> (unit, 'a sfs_fs_scheme) io" where
  "sfs_bmap_free_sub ent index =
     io_then (io_assert (\<lambda>s. do { b \<leftarrow> sfs_block_inuse ent s; Some (b \<and> index < SFS_BLK_NENTRY) })) (\<lambda>_.
     io_then (sfs_rbuf 4 ent (index * 4)) (\<lambda>bs.
       if word4 bs \<noteq> 0
       then io_then (sfs_wbuf (bytes4 0) ent (index * 4)) (\<lambda>_. sfs_block_free (word4 bs))
       else ret ()))"

definition sfs_bmap_free :: "nat \<Rightarrow> (unit, sfs_sin) io" where
  "sfs_bmap_free index s =
     (if index < SFS_NDIRECT
      then do {
        i \<leftarrow> fetch (direct (din s)) index;
        if i \<noteq> 0
        then io_then (sfs_block_free i) (\<lambda>_ s. do {
               d \<leftarrow> store (direct (din s)) index 0;
               Some (Inr (), s\<lparr>din := (din s)\<lparr>direct := d\<rparr>, dirty := True\<rparr>)
             }) s
        else ret () s
      }
      else if index - SFS_NDIRECT < SFS_BLK_NENTRY
      then if indirect (din s) \<noteq> 0 then sfs_bmap_free_sub (indirect (din s)) (index - SFS_NDIRECT) s else ret () s
      else ret () s)"

definition sfs_bmap_load :: "nat \<Rightarrow> (u32, sfs_sin) io" where
  "sfs_bmap_load index s = do {
     kassert (index \<le> unat (din_blocks (din s)));
     let create = (index = unat (din_blocks (din s)));
     io_then (sfs_bmap_get index create) (\<lambda>i. io_then (io_assert (sfs_block_inuse i)) (\<lambda>_ s.
       ret i (if create then s\<lparr>din := (din s)\<lparr>din_blocks := din_blocks (din s) + 1\<rparr>\<rparr> else s))) s
   }"

definition sfs_bmap_truncate :: "(unit, sfs_sin) io" where
  "sfs_bmap_truncate s = do {
     kassert (din_blocks (din s) \<noteq> 0);
     io_then (sfs_bmap_free (unat (din_blocks (din s) - 1))) (\<lambda>_ s.
       ret () (s\<lparr>din := (din s)\<lparr>din_blocks := din_blocks (din s) - 1\<rparr>, dirty := True\<rparr>)) s
   }"

section \<open>Consistent file systems\<close>

definition fs_ok :: "'a sfs_fs_scheme \<Rightarrow> bool" where
  "fs_ok s \<longleftrightarrow> bitmap_wf (freemap s) \<and> sb_blocks (super s) \<le> d_blocks s \<and> sb_blocks (super s) \<le> nbits (freemap s)
     \<and> free_set (freemap s) \<subseteq> {0<..<unat (sb_blocks (super s))} \<and> sb_unused (super s) = of_nat (card (free_set (freemap s)))"

definition taken :: "'a sfs_fs_scheme \<Rightarrow> u32 \<Rightarrow> bool" where
  "taken s b \<longleftrightarrow> b \<noteq> 0 \<and> b < sb_blocks (super s) \<and> unat b \<notin> free_set (freemap s)"

lemmas io_defs = ret_def fail_def io_try_def io_then_def io_assert_def

lemma io_thenE:
  assumes "io_then m f s = Some (r, t)"
  obtains e where "m s = Some (Inl e, t)" "r = Inl e" | a u where "m s = Some (Inr a, u)" "f a u = Some (r, t)"
  using assms by (auto simp: io_defs split: option.splits prod.splits sum.splits)

lemma io_then_Inr: "m s = Some (Inr a, t) \<Longrightarrow> io_then m f s = f a t"
  by (simp add: io_defs)

lemma io_then_Inl: "m s = Some (Inl e, t) \<Longrightarrow> io_then m f s = Some (Inl e, t)"
  by (simp add: io_defs)

lemma io_try_eq: "m s = Some (r, t) \<Longrightarrow> io_try m f s = f r t"
  by (simp add: io_defs)

lemma io_assert_True: "b s = Some True \<Longrightarrow> io_then (io_assert b) f s = f () s"
  by (simp add: io_defs)

lemma bytes4_word4: "word4 (bytes4 w) = w"
proof (rule bit_word_eqI)
  fix n :: nat assume n: "n < LENGTH(32)"
  have "n < 8 \<or> 8 \<le> n \<and> n < 16 \<or> 16 \<le> n \<and> n < 24 \<or> 24 \<le> n" by linarith
  then show "bit (word4 (bytes4 w)) n = bit w n" using n
    by (elim disjE) (auto simp: word4_def bytes4_def bit_simps)
qed

lemma length_bytes4 [simp]: "length (bytes4 w) = 4"
  by (simp add: bytes4_def)

lemma taken_inuse:
  assumes "fs_ok s" "taken s b"
  shows "sfs_block_inuse b s = Some True"
proof -
  have "unat b < unat (nbits (freemap s))"
    using assms by (auto simp: fs_ok_def taken_def word_less_nat_alt word_le_nat_alt)
  then show ?thesis using assms bp.test_iff [of "freemap s" b] by (simp add: fs_ok_def taken_def sfs_block_inuse_def)
qed

lemma taken_transfer:
  assumes "fs_ok s" "taken s b"
  shows "rd_block b True s = Some (Inr (disk s b), s)" "wr_block b True c s = Some (Inr (), s\<lparr>disk := (disk s)(b := c)\<rparr>)"
  using assms by (auto simp: rd_block_def wr_block_def taken_def fs_ok_def intro: less_le_trans)

lemma taken_buf:
  assumes "fs_ok s" "taken s b"
  shows "off < 4096 \<Longrightarrow> off + len \<le> 4096 \<Longrightarrow> sfs_rbuf len b off s = Some (Inr (map (\<lambda>i. disk s b (off + i)) [0..<len]), s)"
    "off < 4096 \<Longrightarrow> off + length bs \<le> 4096 \<Longrightarrow>
      sfs_wbuf bs b off s = Some (Inr (), s\<lparr>disk := (disk s)(b := put_bytes (disk s b) off bs)\<rparr>)"
  using taken_transfer [OF assms] by (simp_all add: sfs_rbuf_def sfs_wbuf_def io_defs SFS_BLKSIZE_def)

lemma fs_ok_disk [simp]: "fs_ok (s\<lparr>disk := d\<rparr>) = fs_ok s" "taken (s\<lparr>disk := d\<rparr>) = taken s"
  by (simp_all add: fs_ok_def taken_def fun_eq_iff)

lemma sfs_block_alloc_spec:
  assumes "fs_ok s"
  obtains "free_set (freemap s) = {}" "sfs_block_alloc s = Some (Inl (- E_NO_MEM), s)"
  | i t where "sfs_block_alloc s = Some (Inr i, t)" "unat i \<in> free_set (freemap s)" "fs_ok t"
    "free_set (freemap t) = free_set (freemap s) - {unat i}" "disk t = (disk s)(i := (\<lambda>_. 0))"
    "sb_blocks (super t) = sb_blocks (super s)" "sfs_fs.more t = sfs_fs.more s"
proof -
  have wf: "bitmap_wf (freemap s)" using assms by (simp add: fs_ok_def)
  show thesis
  proof (rule bp.alloc_cases [OF wf])
    assume "free_set (freemap s) = {}" "bitmap_alloc (freemap s) = Some (- E_NO_MEM, None, freemap s)"
    then show thesis by (intro that(1)) (simp_all add: sfs_block_alloc_def error_codes)
  next
    fix i bm assume a: "bitmap_alloc (freemap s) = Some (0, Some i, bm)" "bitmap_wf bm" "unat i \<in> free_set (freemap s)"
      "free_set bm = free_set (freemap s) - {unat i}" "unat (nbits bm) = unat (nbits (freemap s))"
    let ?t = "s\<lparr>freemap := bm, super := (super s)\<lparr>sb_unused := sb_unused (super s) - 1\<rparr>, super_dirty := True\<rparr>"
    have fin: "finite (free_set (freemap s))" using bp.frees_finite [OF wf] .
    have pos: "0 < card (free_set (freemap s))" using a(3) fin by (auto simp: card_gt_0_iff)
    have small: "card (free_set (freemap s)) < 4294967296"
    proof -
      have "card (free_set (freemap s)) \<le> card {0<..<unat (sb_blocks (super s))}"
        using assms by (intro card_mono) (simp_all add: fs_ok_def)
      then show ?thesis using unat_u32_less [of "sb_blocks (super s)"] by simp
    qed
    have unused: "sb_unused (super s) > 0"
      using assms pos small by (simp add: fs_ok_def word_less_nat_alt)
    have "(of_nat (card (free_set (freemap s))) :: u32) - 1 = of_nat (card (free_set bm))"
      using a(3,4) fin pos by (simp add: card_Diff_singleton of_nat_diff)
    moreover have "nbits bm = nbits (freemap s)" using a(5) by (simp only: word_unat_eq_iff)
    ultimately have ok: "fs_ok ?t" using assms a(2,4) by (auto simp: fs_ok_def)
    have tk: "taken ?t i" using assms a(3,4) by (auto simp: taken_def fs_ok_def word_less_nat_alt)
    have "sfs_block_alloc s = Some (Inr i, ?t\<lparr>disk := (disk s)(i := (\<lambda>_. 0))\<rparr>)"
      using a(1) unused taken_inuse [OF ok tk] taken_transfer(2) [OF ok tk, of "\<lambda>_. 0"]
      by (simp add: sfs_block_alloc_def io_defs sfs_clear_block_def)
    then show thesis by (rule that(2)) (use a(3,4) ok in simp_all)
  qed
qed

lemma sfs_block_free_spec:
  assumes ok: "fs_ok s" and tk: "taken s i"
  obtains t where "sfs_block_free i s = Some (Inr (), t)" "fs_ok t"
    "free_set (freemap t) = insert (unat i) (free_set (freemap s))" "disk t = disk s"
    "sb_blocks (super t) = sb_blocks (super s)" "sfs_fs.more t = sfs_fs.more s"
proof -
  have wf: "bitmap_wf (freemap s)" using ok by (simp add: fs_ok_def)
  have i: "unat i < unat (nbits (freemap s))" "unat i \<notin> free_set (freemap s)"
    using ok tk by (auto simp: fs_ok_def taken_def word_less_nat_alt word_le_nat_alt)
  obtain bm where bm: "bitmap_free (freemap s) i = Some bm" "bitmap_wf bm"
      "free_set bm = insert (unat i) (free_set (freemap s))" "unat (nbits bm) = unat (nbits (freemap s))"
    using bp.release_used [OF wf i] by blast
  let ?t = "s\<lparr>freemap := bm, super := (super s)\<lparr>sb_unused := sb_unused (super s) + 1\<rparr>, super_dirty := True\<rparr>"
  have "(of_nat (card (free_set (freemap s))) :: u32) + 1 = of_nat (card (free_set bm))"
    using bm(3) i(2) bp.frees_finite [OF wf] by simp
  moreover have "0 < unat i" "unat i < unat (sb_blocks (super s))" using tk by (simp_all add: taken_def word_less_nat_alt unat_gt_0)
  moreover have "nbits bm = nbits (freemap s)" using bm(4) by (simp only: word_unat_eq_iff)
  ultimately have "fs_ok ?t" using ok bm by (auto simp: fs_ok_def)
  moreover have "sfs_block_free i s = Some (Inr (), ?t)"
    using bm(1) taken_inuse [OF ok tk] by (simp add: sfs_block_free_def io_defs)
  ultimately show thesis using bm(3) by (intro that [of ?t]) simp_all
qed

section \<open>The blocks of a file\<close>

abbreviation nblk :: "sfs_sin \<Rightarrow> nat" where "nblk s \<equiv> unat (din_blocks (din s))"

definition entry_at :: "sfs_sin \<Rightarrow> u32 \<Rightarrow> nat \<Rightarrow> u32" where
  "entry_at s b j = word4 (map (\<lambda>k. disk s b (j * 4 + k)) [0..<4])"

definition blockno :: "sfs_sin \<Rightarrow> nat \<Rightarrow> u32" where
  "blockno s i = (if i < 12 then direct (din s) ! i else if indirect (din s) = 0 then 0 else entry_at s (indirect (din s)) (i - 12))"

datatype buse = Inode | Indirect | Block nat

definition buses :: "sfs_sin \<Rightarrow> buse set" where
  "buses s = {Inode} \<union> (if indirect (din s) = 0 then {} else {Indirect}) \<union> {Block i | i. i < nblk s}"

fun bno :: "sfs_sin \<Rightarrow> buse \<Rightarrow> u32" where
  "bno s Inode = ino s"
| "bno s Indirect = indirect (din s)"
| "bno s (Block i) = blockno s i"

lemma buses_simps [simp]: "Inode \<in> buses s" "Indirect \<in> buses s \<longleftrightarrow> indirect (din s) \<noteq> 0" "Block i \<in> buses s \<longleftrightarrow> i < nblk s"
  by (auto simp: buses_def)

text \<open>The inode, the indirect block and the blocks of the file are different blocks in use, and there is nothing behind the
  last block.\<close>

definition bmap_inv :: "sfs_sin \<Rightarrow> bool" where
  "bmap_inv s \<longleftrightarrow> fs_ok s \<and> length (direct (din s)) = 12 \<and> nblk s \<le> 1036 \<and> (12 < nblk s \<longrightarrow> indirect (din s) \<noteq> 0)
     \<and> inj_on (bno s) (buses s) \<and> (\<forall>u \<in> buses s. taken s (bno s u))
     \<and> (\<forall>i. nblk s \<le> i \<and> i < 1036 \<longrightarrow> blockno s i = 0)"

lemma bmap_invD:
  assumes "bmap_inv s"
  shows "fs_ok s" "length (direct (din s)) = 12" "nblk s \<le> 1036" "12 < nblk s \<Longrightarrow> indirect (din s) \<noteq> 0"
    "inj_on (bno s) (buses s)" "u \<in> buses s \<Longrightarrow> taken s (bno s u)" "nblk s \<le> i \<Longrightarrow> i < 1036 \<Longrightarrow> blockno s i = 0"
  using assms by (simp_all add: bmap_inv_def)

lemma sin_more:
  assumes "sfs_fs.more (t :: sfs_sin) = sfs_fs.more s"
  shows "din t = din s" "ino t = ino s" "dirty t = dirty s" "reclaim_count t = reclaim_count s"
  using assms by (cases s, cases t, simp)+

text \<open>Reading the map never changes anything and finds the block.\<close>

lemma entry_read:
  assumes "fs_ok s" "taken s b" "j < 1024"
  shows "sfs_rbuf 4 b (j * 4) s = Some (Inr (map (\<lambda>k. disk s b (j * 4 + k)) [0..<4]), s)"
  using taken_buf(1) [OF assms(1,2), of "j * 4" 4] assms(3) by simp

lemma check_inuse_ok: "fs_ok s \<Longrightarrow> i = 0 \<or> taken s i \<Longrightarrow> check_inuse i s = Some (Inr i, s)"
  using taken_inuse [of s i] by (auto simp: check_inuse_def io_defs)

lemma bmap_get_existing:
  assumes inv: "bmap_inv s" and i: "i < 1036" and c: "\<not> create \<or> i < nblk s"
  shows "sfs_bmap_get i create s = Some (Inr (blockno s i), s)"
proof -
  have b: "blockno s i = 0 \<or> taken s (blockno s i)"
    using bmap_invD(6) [OF inv, of "Block i"] bmap_invD(7) [OF inv, of i] i by (cases "i < nblk s") auto
  have nz: "blockno s i \<noteq> 0" if "i < nblk s" using bmap_invD(6) [OF inv, of "Block i"] that by (simp add: taken_def)
  note chk = check_inuse_ok [OF bmap_invD(1) [OF inv] b]
  show ?thesis
  proof (cases "i < 12")
    case True
    then show ?thesis using chk nz c bmap_invD(2) [OF inv] by (auto simp: sfs_bmap_get_def SFS_NDIRECT_def blockno_def)
  next
    case False
    let ?e = "indirect (din s)"
    have j: "i - 12 < 1024" using i False by simp
    have sub: "sfs_bmap_get_sub ?e (i - 12) create s = Some (Inr (?e, blockno s i), s)"
    proof (cases "?e = 0")
      case True
      then have "\<not> create" using c bmap_invD(4) [OF inv] False by auto
      then show ?thesis using True False j by (simp add: sfs_bmap_get_sub_def SFS_BLK_NENTRY_def io_defs blockno_def)
    next
      case e: False
      then have "taken s ?e" using bmap_invD(6) [OF inv, of Indirect] by simp
      then show ?thesis
        using e False c nz j entry_read [OF bmap_invD(1) [OF inv], of ?e "i - 12"]
        by (auto simp: sfs_bmap_get_sub_def SFS_BLK_NENTRY_def io_defs blockno_def entry_at_def)
    qed
    show ?thesis using False j chk
      by (simp add: sfs_bmap_get_def SFS_NDIRECT_def SFS_BLK_NENTRY_def io_defs sub)
  qed
qed

lemma bmap_load_existing:
  assumes "bmap_inv s" "i < nblk s"
  shows "sfs_bmap_load i s = Some (Inr (blockno s i), s)"
proof -
  have "i < 1036" using assms(2) bmap_invD(3) [OF assms(1)] by simp
  then have "sfs_bmap_get i False s = Some (Inr (blockno s i), s)" using bmap_get_existing [OF assms(1)] by simp
  moreover have "sfs_block_inuse (blockno s i) s = Some True"
    using taken_inuse [OF bmap_invD(1) [OF assms(1)]] bmap_invD(6) [OF assms(1), of "Block i"] assms(2) by simp
  ultimately show ?thesis using assms(2) by (simp add: sfs_bmap_load_def io_defs)
qed

text \<open>A file that grows by a block taken from the free ones, and perhaps by an indirect block.\<close>

lemma bmap_inv_extend:
  assumes inv: "bmap_inv s" and ok: "fs_ok t" and sb: "sb_blocks (super t) = sb_blocks (super s)" and ino: "ino t = ino s"
    and len: "length (direct (din t)) = 12" and n: "nblk t = Suc (nblk s)" "nblk t \<le> 1036"
    and ind: "indirect (din t) = indirect (din s) \<or> indirect (din s) = 0 \<and> unat (indirect (din t)) \<in> free_set (freemap s) \<and> indirect (din t) \<noteq> b"
    and need: "12 < nblk t \<Longrightarrow> indirect (din t) \<noteq> 0"
    and blk: "\<And>i. i < 1036 \<Longrightarrow> blockno t i = (if i = nblk s then b else blockno s i)"
    and b: "unat b \<in> free_set (freemap s)" "unat b \<notin> free_set (freemap t)" "unat (indirect (din t)) \<notin> free_set (freemap t)"
    and fr: "free_set (freemap t) \<subseteq> free_set (freemap s)"
  shows "bmap_inv t"
proof -
  have old: "taken t c" if "taken s c" for c using that fr sb by (auto simp: taken_def)
  have new: "taken t c" if "unat c \<in> free_set (freemap s)" "unat c \<notin> free_set (freemap t)" for c
    using that bmap_invD(1) [OF inv] sb by (auto simp: taken_def fs_ok_def word_less_nat_alt)
  have uses: "u = Block (nblk s) \<and> bno t u = b \<or> u = Indirect \<and> indirect (din s) = 0 \<and> unat (bno t u) \<in> free_set (freemap s) \<and> bno t u \<noteq> b
      \<or> u \<in> buses s \<and> bno t u = bno s u" if "u \<in> buses t" for u
    using that n ind ino blk by (cases u) (auto simp: less_Suc_eq)
  have old_not_free: "unat (bno s u) \<notin> free_set (freemap s)" if "u \<in> buses s" for u
    using bmap_invD(6) [OF inv that] by (simp add: taken_def)
  have "inj_on (bno t) (buses t)"
  proof (rule inj_onI)
    fix u v assume uv: "u \<in> buses t" "v \<in> buses t" "bno t u = bno t v"
    show "u = v"
      using uses [OF uv(1)] uses [OF uv(2)] uv(3) b(1) old_not_free [of u] old_not_free [of v] inj_onD [OF bmap_invD(5) [OF inv], of u v]
      by (elim disjE conjE) simp_all
  qed
  moreover have "taken t (bno t u)" if "u \<in> buses t" for u
    using uses [OF that] new [OF b(1,2)] new [OF _ b(3)] old bmap_invD(6) [OF inv, of u] by auto
  moreover have "blockno t i = 0" if "nblk t \<le> i" "i < 1036" for i
    using blk [OF that(2)] bmap_invD(7) [OF inv, of i] that n by simp
  ultimately show ?thesis using ok len n need by (simp add: bmap_inv_def)
qed

text \<open>How many blocks the file can have: those it has and the free ones, less one for the table of the indirect blocks when the file
  has none and needs one.\<close>

definition room :: "sfs_sin \<Rightarrow> nat" where
  "room s = (let n = nblk s + card (free_set (freemap s)) in if indirect (din s) = 0 \<and> 12 < n then n - 1 else n)"

lemma finite_free_set: "finite (free_set bm)"
  by (simp add: free_set_def)

lemma nblk_le_room: "bmap_inv s \<Longrightarrow> nblk s \<le> room s"
  using bmap_invD(4) [of s] by (cases "12 < nblk s") (auto simp: room_def Let_def)

lemma room_step:
  assumes "b \<in> free_set (freemap s)" "nblk t = Suc (nblk s)"
    and "indirect (din t) = indirect (din s) \<and> free_set (freemap t) = free_set (freemap s) - {b}
      \<or> indirect (din s) = 0 \<and> indirect (din t) \<noteq> 0 \<and> nblk s = 12 \<and> e \<in> free_set (freemap s) - {b} \<and> free_set (freemap t) = free_set (freemap s) - {b, e}"
  shows "room t = room s"
proof -
  let ?F = "free_set (freemap s)"
  have one: "card (?F - {b}) = card ?F - 1" "0 < card ?F" using assms(1) finite_free_set card_gt_0_iff by (auto simp: card_Diff_singleton)
  have two: "card (?F - {b, e}) = card ?F - 2" "2 \<le> card ?F" if "e \<in> ?F - {b}"
    using that assms(1) card_mono [OF finite_free_set, of "{b, e}" "freemap s"] card_Diff_subset [of "{b, e}" ?F] by auto
  from assms(3) show ?thesis
  proof (elim disjE conjE)
    assume "indirect (din t) = indirect (din s)" "free_set (freemap t) = ?F - {b}"
    moreover have "Suc (nblk s) + (card ?F - 1) = nblk s + card ?F" using one(2) by simp
    ultimately show ?thesis by (simp only: room_def Let_def assms(2) one(1))
  next
    assume "indirect (din s) = 0" "indirect (din t) \<noteq> 0" "nblk s = 12" "free_set (freemap t) = ?F - {b, e}" "e \<in> ?F - {b}"
    then show ?thesis using two one(2) assms(2) by (simp add: room_def)
  qed
qed

text \<open>What growing by the block \<open>b\<close> leaves alone: the rest of the map, and every block in use but the indirect one.\<close>

definition grown :: "sfs_sin \<Rightarrow> u32 \<Rightarrow> sfs_sin \<Rightarrow> bool" where
  "grown s b t \<longleftrightarrow> bmap_inv t \<and> nblk t = Suc (nblk s) \<and> ino t = ino s \<and> din_size (din t) = din_size (din s) \<and> din_type (din t) = din_type (din s) \<and> room t = room s
     \<and> unat b \<in> free_set (freemap s) \<and> free_set (freemap t) \<subseteq> free_set (freemap s) \<and> sb_blocks (super t) = sb_blocks (super s)
     \<and> (\<forall>i < 1036. blockno t i = (if i = nblk s then b else blockno s i)) \<and> disk t b = (\<lambda>_. 0)
     \<and> (\<forall>c. taken s c \<and> c \<noteq> indirect (din s) \<longrightarrow> disk t c = disk s c)"

text \<open>What a failed attempt leaves: at most the contents of free blocks differ.\<close>

definition same_file :: "sfs_sin \<Rightarrow> sfs_sin \<Rightarrow> bool" where
  "same_file s t \<longleftrightarrow> bmap_inv t \<and> din t = din s \<and> ino t = ino s \<and> free_set (freemap t) = free_set (freemap s)
     \<and> sb_blocks (super t) = sb_blocks (super s) \<and> (\<forall>c. taken s c \<longrightarrow> disk t c = disk s c)"

lemma same_file_refl: "bmap_inv s \<Longrightarrow> same_file s s"
  by (simp add: same_file_def)

lemma same_file_inv:
  assumes inv: "bmap_inv s" and t: "fs_ok t" "din t = din s" "ino t = ino s" "free_set (freemap t) = free_set (freemap s)"
    "sb_blocks (super t) = sb_blocks (super s)" "\<And>c. taken s c \<Longrightarrow> disk t c = disk s c"
  shows "same_file s t"
proof -
  have "blockno t i = blockno s i" for i
    using bmap_invD(6) [OF inv, of Indirect] t(6) by (simp add: blockno_def entry_at_def t(2))
  moreover have "bno t u = bno s u" for u using calculation t by (cases u) simp_all
  moreover have "buses t = buses s" by (simp add: buses_def t(2))
  moreover have "taken t c = taken s c" for c by (simp add: taken_def t)
  ultimately show ?thesis using inv t by (simp add: same_file_def bmap_inv_def inj_on_def)
qed

lemma upt4: "[0..<4] = [0, 1, 2, 3 :: nat]"
  by (simp add: upt_rec)

lemma entry_put:
  "word4 (map (\<lambda>i. put_bytes c (k * 4) (bytes4 b) (j * 4 + i)) [0..<4]) = (if j = k then b else word4 (map (\<lambda>i. c (j * 4 + i)) [0..<4]))"
proof (cases "j = k")
  case True
  then have "map (\<lambda>i. put_bytes c (k * 4) (bytes4 b) (j * 4 + i)) [0..<4] = bytes4 b"
    by (simp add: upt4 put_bytes_def) (simp add: bytes4_def)
  then show ?thesis using True by (simp only: bytes4_word4 if_True refl)
next
  case False
  then have "put_bytes c (k * 4) (bytes4 b) (j * 4 + i) = c (j * 4 + i)" if "i < 4" for i
    using that by (auto simp: put_bytes_def)
  then have "map (\<lambda>i. put_bytes c (k * 4) (bytes4 b) (j * 4 + i)) [0..<4] = map (\<lambda>i. c (j * 4 + i)) [0..<4]"
    by (intro map_cong refl) (simp only: set_upt atLeastLessThan_iff)
  then show ?thesis using False by (simp only: if_False)
qed

lemma word4_zero: "word4 (map (\<lambda>_. 0) [0..<4]) = 0"
  by (simp add: word4_def)

lemma grow_direct:
  assumes inv: "bmap_inv s" and n: "nblk s < 12"
  shows "(\<exists>b t. sfs_bmap_load (nblk s) s = Some (Inr b, t) \<and> grown s b t)
    \<or> sfs_bmap_load (nblk s) s = Some (Inl (- E_NO_MEM), s) \<and> free_set (freemap s) = {}"
proof (rule sfs_block_alloc_spec [OF bmap_invD(1) [OF inv]])
  have z: "direct (din s) ! nblk s = 0" using bmap_invD(7) [OF inv, of "nblk s"] n by (simp add: blockno_def)
  note fetch = bmap_invD(2) [OF inv]
  {
    assume a: "free_set (freemap s) = {}" "sfs_block_alloc s = Some (Inl (- E_NO_MEM), s)"
    then show ?thesis using z n fetch by (simp add: sfs_bmap_load_def sfs_bmap_get_def SFS_NDIRECT_def io_defs)
  next
    fix b t0 assume a: "sfs_block_alloc s = Some (Inr b, t0)" "unat b \<in> free_set (freemap s)" "fs_ok t0"
      "free_set (freemap t0) = free_set (freemap s) - {unat b}" "disk t0 = (disk s)(b := (\<lambda>_. 0))"
      "sb_blocks (super t0) = sb_blocks (super s)" "sfs_fs.more t0 = sfs_fs.more s"
    note m = sin_more [OF a(7)]
    let ?d = "(din s)\<lparr>direct := (direct (din s))[nblk s := b]\<rparr>"
    let ?t1 = "t0\<lparr>din := ?d, dirty := True\<rparr>"
    define t where "t = t0\<lparr>din := ?d\<lparr>din_blocks := din_blocks (din s) + 1\<rparr>, dirty := True\<rparr>"
    have tk: "taken ?t1 b" using a(2,4,6) bmap_invD(1) [OF inv] by (auto simp: taken_def fs_ok_def word_less_nat_alt)
    have ok: "fs_ok ?t1" "fs_ok t" using a(3) by (simp_all add: fs_ok_def t_def)
    have load: "sfs_bmap_load (nblk s) s = Some (Inr b, t)"
      using z n fetch a(1) m check_inuse_ok [OF ok(1), of b] taken_inuse [OF ok(1) tk] tk
      by (simp add: sfs_bmap_load_def sfs_bmap_get_def SFS_NDIRECT_def io_defs t_def)
    have suc: "nblk t = Suc (nblk s)"
      using n unat_add_no_overflow [of "din_blocks (din s)" 1] by (simp add: t_def)
    have ent: "indirect (din s) \<noteq> 0 \<Longrightarrow> indirect (din s) \<noteq> b"
      using bmap_invD(6) [OF inv, of Indirect] a(2) by (auto simp: taken_def)
    have blk: "blockno t i = (if i = nblk s then b else blockno s i)" if "i < 1036" for i
      using that n ent fetch a(5) by (auto simp: blockno_def t_def entry_at_def nth_list_update)
    have "bmap_inv t"
    proof (rule bmap_inv_extend [OF inv ok(2), of b])
      show "unat (indirect (din t)) \<notin> free_set (freemap t)"
        using bmap_invD(6) [OF inv, of Indirect] bmap_invD(1) [OF inv] a(4) by (cases "indirect (din s) = 0") (auto simp: taken_def fs_ok_def t_def)
    qed (use a m n suc blk fetch in \<open>auto simp: t_def\<close>)
    moreover have "room t = room s" using a m by (intro room_step [OF a(2) suc]) (simp add: t_def)
    ultimately have "grown s b t" using a m n suc blk by (auto simp: grown_def taken_def t_def)
    then show ?thesis using load by blast
  }
qed

lemma bmap_new_spec:
  assumes ok: "fs_ok s" and ent: "taken s ent" and k: "k < 1024"
  obtains "free_set (freemap s) = {}" "bmap_new org ent k s = bmap_cleanup org ent (- E_NO_MEM) s"
  | b t where "bmap_new org ent k s = Some (Inr (ent, b), t)" "unat b \<in> free_set (freemap s)" "b \<noteq> ent" "fs_ok t"
    "free_set (freemap t) = free_set (freemap s) - {unat b}"
    "disk t = (disk s)(b := (\<lambda>_. 0), ent := put_bytes (disk s ent) (k * 4) (bytes4 b))"
    "sb_blocks (super t) = sb_blocks (super s)" "sfs_fs.more t = sfs_fs.more s"
proof (rule sfs_block_alloc_spec [OF ok])
  assume "free_set (freemap s) = {}" "sfs_block_alloc s = Some (Inl (- E_NO_MEM), s)"
  then show thesis by (intro that(1)) (simp_all add: bmap_new_def io_try_def)
next
  fix b t assume a: "sfs_block_alloc s = Some (Inr b, t)" "unat b \<in> free_set (freemap s)" "fs_ok t"
    "free_set (freemap t) = free_set (freemap s) - {unat b}" "disk t = (disk s)(b := (\<lambda>_. 0))"
    "sb_blocks (super t) = sb_blocks (super s)" "sfs_fs.more t = sfs_fs.more s"
  have neq: "b \<noteq> ent" using a(2) ent by (auto simp: taken_def)
  have "taken t ent" using ent a(4,6) by (simp add: taken_def)
  then have "sfs_wbuf (bytes4 b) ent (k * 4) t = Some (Inr (), t\<lparr>disk := (disk t)(ent := put_bytes (disk t ent) (k * 4) (bytes4 b))\<rparr>)"
    using taken_buf(2) [OF a(3), of ent "k * 4" "bytes4 b"] k by simp
  then have "bmap_new org ent k s = Some (Inr (ent, b), t\<lparr>disk := (disk t)(ent := put_bytes (disk t ent) (k * 4) (bytes4 b))\<rparr>)"
    using a(1) by (simp add: bmap_new_def io_defs)
  then show thesis by (rule that(2)) (use a neq in simp_all)
qed

text \<open>The end of \<^verbatim>\<open>sfs_bmap_load_nolock\<close> for a new block behind the direct ones.\<close>

lemma sin_eta: "(t :: sfs_sin)\<lparr>din := (din t)\<lparr>indirect := indirect (din t), din_blocks := n\<rparr>, dirty := dirty t\<rparr> = t\<lparr>din := (din t)\<lparr>din_blocks := n\<rparr>\<rparr>"
  by simp

lemma grow_through_table:
  assumes inv: "bmap_inv s" and n: "12 \<le> nblk s" "nblk s < 1036"
    and sub: "sfs_bmap_get_sub (indirect (din s)) (nblk s - 12) True s = Some (Inr (e, b), t0)"
    and e: "e = indirect (din s) \<or> indirect (din s) = 0 \<and> unat e \<in> free_set (freemap s)" "e \<noteq> 0" "b \<noteq> e"
    and b: "unat b \<in> free_set (freemap s)" "fs_ok t0" "free_set (freemap t0) = free_set (freemap s) - {unat b, unat e}"
    and d: "\<And>j. j < 1024 \<Longrightarrow> entry_at t0 e j = (if j = nblk s - 12 then b else blockno s (12 + j))"
    and disk: "disk t0 b = (\<lambda>_. 0)" "\<And>c. taken s c \<Longrightarrow> c \<noteq> indirect (din s) \<Longrightarrow> disk t0 c = disk s c"
    and m: "sb_blocks (super t0) = sb_blocks (super s)" "sfs_fs.more t0 = sfs_fs.more s"
  shows "\<exists>t. sfs_bmap_load (nblk s) s = Some (Inr b, t) \<and> grown s b t"
proof -
  note M = sin_more [OF m(2)]
  define t where "t = t0\<lparr>din := (din s)\<lparr>indirect := e, din_blocks := din_blocks (din s) + 1\<rparr>,
    dirty := (dirty s \<or> e \<noteq> indirect (din s))\<rparr>"
  have j: "nblk s - 12 < 1024" using n by simp
  let ?t1 = "if e \<noteq> indirect (din s) then t0\<lparr>din := (din s)\<lparr>indirect := e\<rparr>, dirty := True\<rparr> else t0"
  have tk: "taken ?t1 b" using b bmap_invD(1) [OF inv] m(1) by (auto simp: taken_def fs_ok_def word_less_nat_alt)
  have ok: "fs_ok ?t1" "fs_ok t" using b(2) by (simp_all add: fs_ok_def t_def)
  have "sfs_bmap_get (nblk s) True s = Some (Inr b, ?t1)"
    using n(1) j sub e(1) M check_inuse_ok [OF ok(1), of b] tk
    by (cases "e = indirect (din s)") (simp_all add: sfs_bmap_get_def SFS_NDIRECT_def SFS_BLK_NENTRY_def io_defs)
  then have load: "sfs_bmap_load (nblk s) s = Some (Inr b, t)"
    using taken_inuse [OF ok(1) tk] M sin_eta [of t0]
    by (cases "e = indirect (din s)") (simp_all add: sfs_bmap_load_def io_defs t_def)
  have suc: "nblk t = Suc (nblk s)"
    using n unat_add_no_overflow [of "din_blocks (din s)" 1] by (simp add: t_def)
  have "entry_at t = entry_at t0" by (simp add: entry_at_def fun_eq_iff t_def)
  then have blk: "blockno t i = (if i = nblk s then b else blockno s i)" if "i < 1036" for i
    using that n(1) e(2) d [of "i - 12"] by (auto simp: blockno_def t_def)
  have "bmap_inv t"
    by (rule bmap_inv_extend [OF inv ok(2), of b])
      (use b e m(1) M n suc blk bmap_invD(2) [OF inv] in \<open>auto simp: t_def\<close>)
  moreover have "room t = room s"
  proof (rule room_step [OF b(1) suc, of "unat e"])
    have "unat e \<noteq> unat b" using e(3) by (simp add: word_unat_eq_iff)
    moreover have "unat e \<notin> free_set (freemap s)" if "e = indirect (din s)"
      using bmap_invD(6) [OF inv, of Indirect] that e(2) by (simp add: taken_def)
    moreover have "nblk s = 12" if "indirect (din s) = 0" using bmap_invD(4) [OF inv] n(1) that by linarith
    ultimately show "indirect (din t) = indirect (din s) \<and> free_set (freemap t) = free_set (freemap s) - {unat b}
      \<or> indirect (din s) = 0 \<and> indirect (din t) \<noteq> 0 \<and> nblk s = 12 \<and> unat e \<in> free_set (freemap s) - {unat b}
        \<and> free_set (freemap t) = free_set (freemap s) - {unat b, unat e}"
      using e b(3) by (auto simp: t_def)
  qed
  ultimately have "grown s b t" using b e m(1) M suc blk disk by (auto simp: grown_def t_def)
  then show ?thesis using load by blast
qed

lemma free_nonzero: "fs_ok s \<Longrightarrow> unat b \<in> free_set (freemap s) \<Longrightarrow> b \<noteq> 0"
  by (auto simp: fs_ok_def)

lemma grow_failed:
  assumes "12 \<le> nblk s" "nblk s < 1036"
    and "sfs_bmap_get_sub (indirect (din s)) (nblk s - 12) True s = Some (Inl x, t)"
  shows "sfs_bmap_load (nblk s) s = Some (Inl x, t)"
proof -
  have "nblk s - 12 < 1024" using assms by simp
  then show ?thesis using assms
    by (simp add: sfs_bmap_load_def sfs_bmap_get_def SFS_NDIRECT_def SFS_BLK_NENTRY_def io_defs)
qed

lemma grow_indirect:
  assumes inv: "bmap_inv s" and n: "12 \<le> nblk s" "nblk s < 1036" and e: "indirect (din s) \<noteq> 0"
  shows "(\<exists>b t. sfs_bmap_load (nblk s) s = Some (Inr b, t) \<and> grown s b t)
    \<or> sfs_bmap_load (nblk s) s = Some (Inl (- E_NO_MEM), s) \<and> free_set (freemap s) = {}"
proof -
  let ?e = "indirect (din s)" and ?k = "nblk s - 12"
  note ok = bmap_invD(1) [OF inv]
  have k: "?k < 1024" using n by simp
  have tk: "taken s ?e" using bmap_invD(6) [OF inv, of Indirect] e by simp
  have z: "word4 (map (\<lambda>i. disk s ?e (?k * 4 + i)) [0..<4]) = 0"
    using bmap_invD(7) [OF inv, of "nblk s"] n e by (simp add: blockno_def entry_at_def)
  have sub: "sfs_bmap_get_sub ?e ?k True s = bmap_new ?e ?e ?k s"
    using e k z entry_read [OF ok tk k] by (simp add: sfs_bmap_get_sub_def SFS_BLK_NENTRY_def io_defs)
  show ?thesis
  proof (rule bmap_new_spec [OF ok tk k, where org = ?e])
    assume "free_set (freemap s) = {}" "bmap_new ?e ?e ?k s = bmap_cleanup ?e ?e (- E_NO_MEM) s"
    then show ?thesis using grow_failed [OF n, of "- E_NO_MEM" s] sub by (simp add: bmap_cleanup_def fail_def)
  next
    fix b t assume t: "bmap_new ?e ?e ?k s = Some (Inr (?e, b), t)" "unat b \<in> free_set (freemap s)" "b \<noteq> ?e" "fs_ok t"
      "free_set (freemap t) = free_set (freemap s) - {unat b}"
      "disk t = (disk s)(b := (\<lambda>_. 0), ?e := put_bytes (disk s ?e) (?k * 4) (bytes4 b))"
      "sb_blocks (super t) = sb_blocks (super s)" "sfs_fs.more t = sfs_fs.more s"
    have ent: "entry_at t ?e j = (if j = ?k then b else blockno s (12 + j))" for j
      using e entry_put [of "disk s ?e" ?k b j] t(6) by (simp add: entry_at_def blockno_def)
    have fr: "free_set (freemap t) = free_set (freemap s) - {unat b, unat ?e}" using t(5) tk by (auto simp: taken_def)
    have db: "disk t b = (\<lambda>_. 0)" using t(3,6) by simp
    have dc: "disk t c = disk s c" if "taken s c" "c \<noteq> ?e" for c using that t(2,6) by (auto simp: taken_def)
    show ?thesis
      using grow_through_table [OF inv n trans [OF sub t(1)] disjI1 [OF refl] e t(3,2,4) fr ent db dc t(7,8)] by blast
  qed
qed

text \<open>The first block behind the direct ones takes an indirect block as well; if only one block is left the attempt gives it back.\<close>

lemma grow_first_indirect:
  assumes inv: "bmap_inv s" and n: "nblk s = 12" and e: "indirect (din s) = 0"
  shows "(\<exists>b t. sfs_bmap_load (nblk s) s = Some (Inr b, t) \<and> grown s b t)
    \<or> (\<exists>t. sfs_bmap_load (nblk s) s = Some (Inl (- E_NO_MEM), t) \<and> same_file s t) \<and> card (free_set (freemap s)) \<le> 1"
proof (rule sfs_block_alloc_spec [OF bmap_invD(1) [OF inv]])
  note n' = n [THEN eq_imp_le [OF sym]] 
  have small: "nblk s < 1036" using n by simp
  have sub: "sfs_bmap_get_sub (indirect (din s)) (nblk s - 12) True s = io_then sfs_block_alloc (\<lambda>ent. bmap_new 0 ent 0) s"
    using e n by (simp add: sfs_bmap_get_sub_def SFS_BLK_NENTRY_def io_defs)
  {
    assume "free_set (freemap s) = {}" "sfs_block_alloc s = Some (Inl (- E_NO_MEM), s)"
    then show ?thesis using grow_failed [OF n' small, of "- E_NO_MEM" s] sub same_file_refl [OF inv] by (auto simp: io_defs)
  next
    fix x s1 assume a: "sfs_block_alloc s = Some (Inr x, s1)" "unat x \<in> free_set (freemap s)" "fs_ok s1"
      "free_set (freemap s1) = free_set (freemap s) - {unat x}" "disk s1 = (disk s)(x := (\<lambda>_. 0))"
      "sb_blocks (super s1) = sb_blocks (super s)" "sfs_fs.more s1 = sfs_fs.more s"
    have x0: "x \<noteq> 0" using free_nonzero [OF bmap_invD(1) [OF inv] a(2)] .
    have tk: "taken s1 x" using a(2,4,6) bmap_invD(1) [OF inv] by (auto simp: taken_def fs_ok_def word_less_nat_alt)
    have go: "io_then sfs_block_alloc (\<lambda>ent. bmap_new 0 ent 0) s = bmap_new 0 x 0 s1" using a(1) by (simp add: io_defs)
    show ?thesis
    proof (rule bmap_new_spec [OF a(3) tk, of 0 0])
      assume none: "free_set (freemap s1) = {}" "bmap_new 0 x 0 s1 = bmap_cleanup 0 x (- E_NO_MEM) s1"
      obtain t where t: "sfs_block_free x s1 = Some (Inr (), t)" "fs_ok t" "free_set (freemap t) = insert (unat x) (free_set (freemap s1))"
          "disk t = disk s1" "sb_blocks (super t) = sb_blocks (super s1)" "sfs_fs.more t = sfs_fs.more s1"
        by (rule sfs_block_free_spec [OF a(3) tk]) (rule that)
      have "same_file s t"
        using t a sin_more [of t s] by (intro same_file_inv [OF inv]) (auto simp: taken_def)
      moreover have "card (free_set (freemap s)) \<le> 1"
        using none(1) a(4) card_mono [of "{unat x}" "free_set (freemap s)"] by auto
      ultimately show ?thesis
        using grow_failed [OF n' small, of "- E_NO_MEM" t] sub go none(2) t(1) x0 by (auto simp: bmap_cleanup_def io_defs)
    next
      fix b t assume t: "bmap_new 0 x 0 s1 = Some (Inr (x, b), t)" "unat b \<in> free_set (freemap s1)" "b \<noteq> x" "fs_ok t"
        "free_set (freemap t) = free_set (freemap s1) - {unat b}"
        "disk t = (disk s1)(b := (\<lambda>_. 0), x := put_bytes (disk s1 x) (0 * 4) (bytes4 b))"
        "sb_blocks (super t) = sb_blocks (super s1)" "sfs_fs.more t = sfs_fs.more s1"
      have ent: "entry_at t x j = (if j = nblk s - 12 then b else blockno s (12 + j))" for j
        using entry_put [of "\<lambda>_. 0" 0 b j] word4_zero t(6) a(5) n e by (simp add: entry_at_def blockno_def)
      have db: "disk t b = (\<lambda>_. 0)" using t(3,6) by simp
      have dc: "disk t c = disk s c" if "taken s c" "c \<noteq> indirect (din s)" for c using that t(2,6) a(2,4,5) by (auto simp: taken_def)
      have b: "unat b \<in> free_set (freemap s)" "free_set (freemap t) = free_set (freemap s) - {unat b, unat x}"
        using t(2,5) a(4) by auto
      have m: "sb_blocks (super t) = sb_blocks (super s)" "sfs_fs.more t = sfs_fs.more s" using t(7,8) a(6,7) by simp_all
      have x: "x = indirect (din s) \<or> indirect (din s) = 0 \<and> unat x \<in> free_set (freemap s)" using e a(2) by simp
      show ?thesis
        using grow_through_table [OF inv n' small trans [OF sub trans [OF go t(1)]] x x0 t(3) b(1) t(4) b(2) ent db dc m] by blast
    qed simp
  }
qed

end
