(* ===== verification/Sfs_Map.thy ===== *)
theory Sfs_Map
  imports Sfs_Block
begin

text \<open>The block map of a file under growth by one block and under truncation by one block.\<close>

section \<open>Growing and shrinking\<close>

lemma bmap_append:
  assumes inv: "bmap_inv s" and n: "nblk s < 1036"
  obtains b t where "sfs_bmap_load (nblk s) s = Some (Inr b, t)" "grown s b t"
  | t where "sfs_bmap_load (nblk s) s = Some (Inl (- E_NO_MEM), t)" "same_file s t" "room s = nblk s"
proof -
  have none: "room s = nblk s" if "free_set (freemap s) = {}" using bmap_invD(4) [OF inv] that by (cases "12 < nblk s") (simp_all add: room_def)
  have "(\<exists>b t. sfs_bmap_load (nblk s) s = Some (Inr b, t) \<and> grown s b t)
    \<or> (\<exists>t. sfs_bmap_load (nblk s) s = Some (Inl (- E_NO_MEM), t) \<and> same_file s t) \<and> room s = nblk s"
  proof (cases "nblk s < 12")
    case True
    then show ?thesis using grow_direct [OF inv] same_file_refl [OF inv] none by force
  next
    case n12: False
    show ?thesis
    proof (cases "indirect (din s) = 0")
      case True
      then have n: "nblk s = 12" using bmap_invD(4) [OF inv] n12 by linarith
      then have "card (free_set (freemap s)) \<le> 1 \<Longrightarrow> room s = nblk s" using True by (auto simp: room_def Let_def)
      then show ?thesis using grow_first_indirect [OF inv n True] by blast
    next
      case False
      then show ?thesis using grow_indirect [OF inv _ n False] n12 same_file_refl [OF inv] none by force
    qed
  qed
  then show thesis using that by blast
qed

definition shrunk :: "sfs_sin \<Rightarrow> sfs_sin \<Rightarrow> bool" where
  "shrunk s t \<longleftrightarrow> bmap_inv t \<and> nblk s = Suc (nblk t) \<and> ino t = ino s \<and> reclaim_count t = reclaim_count s \<and> dirty t
     \<and> din_size (din t) = din_size (din s) \<and> din_type (din t) = din_type (din s) \<and> din_nlinks (din t) = din_nlinks (din s)
     \<and> indirect (din t) = indirect (din s) \<and> sb_blocks (super t) = sb_blocks (super s)
     \<and> free_set (freemap t) = insert (unat (blockno s (nblk t))) (free_set (freemap s))
     \<and> (\<forall>i < 1036. blockno t i = (if i = nblk t then 0 else blockno s i))
     \<and> (\<forall>c. c \<noteq> indirect (din s) \<longrightarrow> disk t c = disk s c)"

lemma bmap_inv_shrink:
  assumes inv: "bmap_inv s" and ok: "fs_ok t" and m: "ino t = ino s" "sb_blocks (super t) = sb_blocks (super s)"
    "indirect (din t) = indirect (din s)" "length (direct (din t)) = 12"
    and n: "nblk s = Suc (nblk t)"
    and fr: "free_set (freemap t) = insert (unat (blockno s (nblk t))) (free_set (freemap s))"
    and blk: "\<And>i. i < 1036 \<Longrightarrow> blockno t i = (if i = nblk t then 0 else blockno s i)"
  shows "bmap_inv t"
proof -
  have n': "nblk t < 1036" using bmap_invD(3) [OF inv] n by simp
  have same: "bno t u = bno s u" and old: "u \<in> buses s" and other: "u \<noteq> Block (nblk t)" if "u \<in> buses t" for u
    using that n n' m blk by (cases u; simp)+
  have "bno s u \<noteq> blockno s (nblk t)" if "u \<in> buses t" for u
    using inj_onD [OF bmap_invD(5) [OF inv], of u "Block (nblk t)"] old [OF that] other [OF that] n by auto
  then have "taken t (bno t u)" if "u \<in> buses t" for u
    using bmap_invD(6) [OF inv old [OF that]] same [OF that] that m(2) fr by (simp add: taken_def word_unat_eq_iff [symmetric])
  moreover have "inj_on (bno t) (buses t)"
    using inj_onD [OF bmap_invD(5) [OF inv]] same old by (intro inj_onI) (metis same old)
  moreover have "blockno t i = 0" if "nblk t \<le> i" "i < 1036" for i
    using blk [OF that(2)] bmap_invD(7) [OF inv, of i] that n by (cases "i = nblk t") simp_all
  ultimately show ?thesis using ok m n bmap_invD(3,4) [OF inv] by (simp add: bmap_inv_def)
qed

lemma unat_minus_1: "unat (w :: u32) = Suc n \<Longrightarrow> unat (w - 1) = n"
  by (metis Suc_neq_Zero add_diff_cancel_left' plus_1_eq_Suc unat_0 unat_minus_one)

lemma free_direct:
  assumes inv: "bmap_inv s" and n: "nblk s = Suc k" "k < 12"
  obtains t where "sfs_bmap_free k s = Some (Inr (), t)" "fs_ok t"
    "free_set (freemap t) = insert (unat (blockno s k)) (free_set (freemap s))" "disk t = disk s"
    "sb_blocks (super t) = sb_blocks (super s)" "ino t = ino s" "reclaim_count t = reclaim_count s"
    "din t = (din s)\<lparr>direct := (direct (din s))[k := 0]\<rparr>"
proof -
  have b: "direct (din s) ! k = blockno s k" using n by (simp add: blockno_def)
  have tk: "taken s (blockno s k)" using bmap_invD(6) [OF inv, of "Block k"] n by simp
  obtain t where t: "sfs_block_free (blockno s k) s = Some (Inr (), t)" "fs_ok t"
      "free_set (freemap t) = insert (unat (blockno s k)) (free_set (freemap s))" "disk t = disk s"
      "sb_blocks (super t) = sb_blocks (super s)" "sfs_fs.more t = sfs_fs.more s"
    by (rule sfs_block_free_spec [OF bmap_invD(1) [OF inv] tk]) (rule that)
  let ?t = "t\<lparr>din := (din s)\<lparr>direct := (direct (din s))[k := 0]\<rparr>, dirty := True\<rparr>"
  have "sfs_bmap_free k s = Some (Inr (), ?t)"
    using n(2) b tk t(1) sin_more [OF t(6)] bmap_invD(2) [OF inv]
    by (simp add: sfs_bmap_free_def SFS_NDIRECT_def io_defs taken_def)
  then show thesis by (rule that) (use t sin_more [OF t(6)] in \<open>simp_all add: fs_ok_def\<close>)
qed

lemma free_indirect:
  assumes inv: "bmap_inv s" and n: "nblk s = Suc k" "\<not> k < 12"
  obtains t where "sfs_bmap_free k s = Some (Inr (), t)" "fs_ok t"
    "free_set (freemap t) = insert (unat (blockno s k)) (free_set (freemap s))"
    "disk t = (disk s)(indirect (din s) := put_bytes (disk s (indirect (din s))) ((k - 12) * 4) (bytes4 0))"
    "sb_blocks (super t) = sb_blocks (super s)" "ino t = ino s" "reclaim_count t = reclaim_count s" "din t = din s"
proof -
  let ?e = "indirect (din s)" and ?j = "k - 12"
  note ok = bmap_invD(1) [OF inv]
  have e: "?e \<noteq> 0" using bmap_invD(4) [OF inv] n by simp
  have j: "?j < 1024" using bmap_invD(3) [OF inv] n by simp
  have te: "taken s ?e" using bmap_invD(6) [OF inv, of Indirect] e by simp
  have tk: "taken s (blockno s k)" using bmap_invD(6) [OF inv, of "Block k"] n by simp
  have b: "word4 (map (\<lambda>i. disk s ?e (?j * 4 + i)) [0..<4]) = blockno s k" using n e by (simp add: blockno_def entry_at_def)
  let ?s = "s\<lparr>disk := (disk s)(?e := put_bytes (disk s ?e) (?j * 4) (bytes4 0))\<rparr>"
  have w: "sfs_wbuf (bytes4 0) ?e (?j * 4) s = Some (Inr (), ?s)" using taken_buf(2) [OF ok te, of "?j * 4" "bytes4 0"] j by simp
  have "fs_ok ?s" "taken ?s (blockno s k)" using ok tk by simp_all
  then obtain t where t: "sfs_block_free (blockno s k) ?s = Some (Inr (), t)" "fs_ok t"
      "free_set (freemap t) = insert (unat (blockno s k)) (free_set (freemap ?s))" "disk t = disk ?s"
      "sb_blocks (super t) = sb_blocks (super ?s)" "sfs_fs.more t = sfs_fs.more ?s"
    by (rule sfs_block_free_spec) (rule that)
  have "sfs_bmap_free_sub ?e ?j s = Some (Inr (), t)"
    using e j b w t(1) tk taken_inuse [OF ok te] entry_read [OF ok te j]
    by (simp add: sfs_bmap_free_sub_def SFS_BLK_NENTRY_def io_defs taken_def)
  then have "sfs_bmap_free k s = Some (Inr (), t)"
    using n(2) e j by (simp add: sfs_bmap_free_def SFS_NDIRECT_def SFS_BLK_NENTRY_def)
  then show thesis by (rule that) (use t sin_more [OF t(6)] in simp_all)
qed

lemma bmap_truncate_spec:
  assumes inv: "bmap_inv s" and n: "nblk s \<noteq> 0"
  obtains t where "sfs_bmap_truncate s = Some (Inr (), t)" "shrunk s t"
proof -
  note finish = that
  obtain k where k: "nblk s = Suc k" using n by (cases "nblk s") simp_all
  have k': "unat (din_blocks (din s) - 1) = k" "din_blocks (din s) \<noteq> 0" using unat_minus_1 [OF k] n by auto
  have step: thesis if a: "sfs_bmap_free k s = Some (Inr (), u)" "fs_ok u"
      "free_set (freemap u) = insert (unat (blockno s k)) (free_set (freemap s))" "sb_blocks (super u) = sb_blocks (super s)" "ino u = ino s"
      "reclaim_count u = reclaim_count s" "\<And>c. c \<noteq> indirect (din s) \<Longrightarrow> disk u c = disk s c"
      "din u = (din s)\<lparr>direct := d\<rparr>" "length d = 12"
      "\<And>t. din t = (din u)\<lparr>din_blocks := din_blocks (din s) - 1\<rparr> \<Longrightarrow> disk t = disk u \<Longrightarrow> \<forall>i < 1036. blockno t i = (if i = k then 0 else blockno s i)"
    for u d
  proof -
    define t where "t = u\<lparr>din := (din u)\<lparr>din_blocks := din_blocks (din s) - 1\<rparr>, dirty := True\<rparr>"
    have run: "sfs_bmap_truncate s = Some (Inr (), t)"
      using a(1,8) k' by (simp add: sfs_bmap_truncate_def io_defs t_def)
    have blk: "\<forall>i < 1036. blockno t i = (if i = k then 0 else blockno s i)" using a(10) [of t] by (simp add: t_def)
    have nt: "nblk t = k" using k' by (simp add: t_def)
    have "fs_ok t" using a(2) by (simp add: t_def fs_ok_def)
    then have "bmap_inv t"
      using a blk k nt by (intro bmap_inv_shrink [OF inv]) (simp_all add: t_def)
    then show thesis using a blk k nt by (intro finish [OF run]) (simp add: shrunk_def t_def)
  qed
  show thesis
  proof (cases "k < 12")
    case True
    show ?thesis
    proof (rule free_direct [OF inv k True])
      fix u assume "sfs_bmap_free k s = Some (Inr (), u)" "fs_ok u"
        "free_set (freemap u) = insert (unat (blockno s k)) (free_set (freemap s))" "disk u = disk s"
        "sb_blocks (super u) = sb_blocks (super s)" "ino u = ino s" "reclaim_count u = reclaim_count s"
        "din u = (din s)\<lparr>direct := (direct (din s))[k := 0]\<rparr>"
      then show ?thesis using True bmap_invD(2) [OF inv]
        by (intro step [where u = u and d = "(direct (din s))[k := 0]"]) (auto simp: blockno_def entry_at_def nth_list_update)
    qed
  next
    case False
    show ?thesis
    proof (rule free_indirect [OF inv k False])
      fix u assume u: "sfs_bmap_free k s = Some (Inr (), u)" "fs_ok u"
        "free_set (freemap u) = insert (unat (blockno s k)) (free_set (freemap s))"
        "disk u = (disk s)(indirect (din s) := put_bytes (disk s (indirect (din s))) ((k - 12) * 4) (bytes4 0))"
        "sb_blocks (super u) = sb_blocks (super s)" "ino u = ino s" "reclaim_count u = reclaim_count s" "din u = din s"
      have "blockno t i = (if i = k then 0 else blockno s i)"
        if "din t = (din u)\<lparr>din_blocks := din_blocks (din s) - 1\<rparr>" "disk t = disk u" for t i
        using that u(4,8) False bmap_invD(4) [OF inv] k entry_put [of "disk s (indirect (din s))" "k - 12" 0 "i - 12"]
        by (auto simp: blockno_def entry_at_def)
      then show ?thesis using u bmap_invD(2) [OF inv] by (intro step [where u = u and d = "direct (din s)"]) simp_all
    qed
  qed
qed

section \<open>A small file system\<close>

text \<open>Five blocks: the super block, an inode, the free map and two free blocks.\<close>

definition demo_map :: bitmap where
  "demo_map = \<lparr>nbits = 32768, nwords = 1024, words = 24 # replicate 1023 0\<rparr>"

definition demo_super :: sfs_super where
  "demo_super = \<lparr>sb_magic = 0x2f8dbe2a, sb_blocks = 5, sb_unused = 2, sb_info = replicate 32 0\<rparr>"

definition demo_fs :: sfs_fs where
  "demo_fs = \<lparr>super = demo_super, freemap = demo_map, super_dirty = False, d_blocks = 8, disk = \<lambda>_ _. 0\<rparr>"

definition demo_file :: sfs_sin where
  "demo_file = \<lparr>super = demo_super, freemap = demo_map, super_dirty = False, d_blocks = 8, disk = \<lambda>_ _. 0,
     din = \<lparr>din_size = 0, din_type = 1, din_nlinks = 1, din_blocks = 0, direct = replicate 12 0, indirect = 0\<rparr>,
     ino = 1, dirty = False, reclaim_count = 1\<rparr>"

lemma bit_24: "bit (24 :: u32) i \<longleftrightarrow> i = 3 \<or> i = 4"
proof -
  have "(24 :: u32) = push_bit 3 1 OR push_bit 4 1" by simp
  then show ?thesis by (simp only: bit_or_iff bit_push_bit_iff bit_1_iff) auto
qed

lemma demo_map_avail: "avail demo_map i \<longleftrightarrow> i = 3 \<or> i = 4"
proof (cases "i < 32")
  case True
  then have "avail demo_map i \<longleftrightarrow> bit (24 :: u32) i" by (simp add: avail_def demo_map_def)
  then show ?thesis using bit_24 by blast
next
  case False
  then have "i div 32 \<noteq> 0" by (simp add: div_eq_0_iff)
  then show ?thesis using False by (auto simp: avail_def demo_map_def nth_Cons split: nat.split)
qed

lemma demo_map_free: "free_set demo_map = {3, 4}"
  by (auto simp: free_set_def demo_map_avail) (auto simp: demo_map_def)

lemma demo_map_wf: "bitmap_wf demo_map"
  by (auto simp: bitmap_wf_def demo_map_avail) (auto simp: demo_map_def)

lemma demo_fs_ok: "fs_ok demo_fs" "fs_ok demo_file"
  by (simp_all add: fs_ok_def demo_fs_def demo_file_def demo_map_free demo_map_wf) (simp_all add: demo_super_def demo_map_def)

lemma demo_file_inv: "bmap_inv demo_file"
proof -
  have uses: "buses demo_file = {Inode}" by (auto simp: buses_def demo_file_def)
  have "taken demo_file 1" by (simp add: taken_def demo_file_def demo_map_free demo_super_def)
  then show ?thesis using demo_fs_ok(2) by (simp add: bmap_inv_def uses) (auto simp: demo_file_def blockno_def nth_replicate)
qed

end
