(* ===== verification/Sfs_File.thy ===== *)
theory Sfs_File
  imports Sfs_Map
begin

text \<open>
  Regular files of the simple file system (\<^verbatim>\<open>kern/fs/sfs/sfs_inode.c\<close>): reading and writing a range of bytes, changing the
  length, writing the inode back and dropping it. A transfer gives the return code and the bytes transferred, whose number is what
  the code stores through \<^verbatim>\<open>alenp\<close>; the caller's buffer is a list of bytes. A file is seen as its bytes: reading
  gives them, writing replaces them, whatever blocks they are in.
\<close>

section \<open>The code\<close>

definition SFS_MAX_FILE_SIZE :: u32 where "SFS_MAX_FILE_SIZE = 1024 * 1024 * 128"
definition SFS_TYPE_FILE :: "16 word" where "SFS_TYPE_FILE = 1"
definition SFS_TYPE_DIR :: "16 word" where "SFS_TYPE_DIR = 2"
definition SFS_TYPE_LINK :: "16 word" where "SFS_TYPE_LINK = 3"

subsection \<open>Transfers of bytes\<close>

text \<open>The two function pointers of \<^verbatim>\<open>sfs_io_nolock\<close>.\<close>

definition sfs_buf_op :: "bool \<Rightarrow> u8 list \<Rightarrow> u32 \<Rightarrow> nat \<Rightarrow> (u8 list, 'a sfs_fs_scheme) io" where
  "sfs_buf_op wr buf blkno offset =
     (if wr then io_then (sfs_wbuf buf blkno offset) (\<lambda>_. ret buf) else sfs_rbuf (length buf) blkno offset)"

definition sfs_block_op :: "bool \<Rightarrow> u8 list \<Rightarrow> u32 \<Rightarrow> (u8 list, 'a sfs_fs_scheme) io" where
  "sfs_block_op wr buf blkno =
     (if wr then io_then (sfs_wblock [put_bytes (\<lambda>_. 0) 0 buf] blkno) (\<lambda>_. ret buf)
      else io_then (sfs_rblock blkno 1) (\<lambda>bs. ret (concat (map (\<lambda>b. map b [0..<SFS_BLKSIZE]) bs))))"

type_synonym io_result = "sfs_sin \<Rightarrow> ((int \<times> u8 list) \<times> sfs_sin) option"

definition io_done :: io_result where "io_done s = Some ((0, []), s)"

text \<open>One transfer; after a failure the code jumps to the label \<^verbatim>\<open>out\<close>.\<close>

definition io_step :: "(u8 list, sfs_sin) io \<Rightarrow> io_result \<Rightarrow> io_result" where
  "io_step m k s = (case m s of
     None \<Rightarrow> None
   | Some (Inl e, s) \<Rightarrow> Some ((e, []), s)
   | Some (Inr bs, s) \<Rightarrow> map_option (\<lambda>((r, cs), s). ((r, bs @ cs), s)) (k s))"

definition io_tail :: "bool \<Rightarrow> nat \<Rightarrow> nat \<Rightarrow> u8 list \<Rightarrow> io_result" where
  "io_tail wr endpos blkno buf =
     (let size = endpos mod SFS_BLKSIZE
      in if size \<noteq> 0 then io_step (io_then (sfs_bmap_load blkno) (\<lambda>i. sfs_buf_op wr (take size buf) i 0)) io_done else io_done)"

fun io_blocks :: "bool \<Rightarrow> nat \<Rightarrow> nat \<Rightarrow> nat \<Rightarrow> u8 list \<Rightarrow> io_result" where
  "io_blocks wr endpos blkno 0 buf = io_tail wr endpos blkno buf"
| "io_blocks wr endpos blkno (Suc n) buf =
     io_step (io_then (sfs_bmap_load blkno) (sfs_block_op wr (take SFS_BLKSIZE buf))) (io_blocks wr endpos (blkno + 1) n (drop SFS_BLKSIZE buf))"

definition io_range :: "bool \<Rightarrow> nat \<Rightarrow> nat \<Rightarrow> u8 list \<Rightarrow> io_result" where
  "io_range wr offset endpos buf =
     (let blkno = offset div SFS_BLKSIZE; nblks = endpos div SFS_BLKSIZE - blkno; blkoff = offset mod SFS_BLKSIZE
      in if blkoff \<noteq> 0
         then let size = (if nblks \<noteq> 0 then SFS_BLKSIZE - blkoff else endpos - offset)
              in io_step (io_then (sfs_bmap_load blkno) (\<lambda>i. sfs_buf_op wr (take size buf) i blkoff))
                   (if nblks = 0 then io_done else io_blocks wr endpos (blkno + 1) (nblks - 1) (drop size buf))
         else io_blocks wr endpos blkno nblks buf)"

definition sfs_io_nolock :: "bool \<Rightarrow> u8 list \<Rightarrow> u32 \<Rightarrow> io_result" where
  "sfs_io_nolock wr buf offset s = do {
     kassert (din_type (din s) \<noteq> SFS_TYPE_DIR);
     let endpos = offset + of_nat (length buf);
     if offset <s 0 \<or> SFS_MAX_FILE_SIZE \<le> offset \<or> endpos <s offset then Some ((- E_INVAL, []), s)
     else if offset = endpos then Some ((0, []), s)
     else let endpos = min endpos SFS_MAX_FILE_SIZE
       in if \<not> wr \<and> din_size (din s) \<le> offset then Some ((0, []), s)
       else let endpos = (if wr then endpos else min endpos (din_size (din s)))
         in do {
           ((r, bs), s) \<leftarrow> io_range wr (unat offset) (unat endpos) buf s;
           let en = offset + of_nat (length bs);
           Some ((r, bs), if din_size (din s) < en then s\<lparr>din := (din s)\<lparr>din_size := en\<rparr>, dirty := True\<rparr> else s)
         }
   }"

section \<open>The bytes of a file\<close>

definition fbyte :: "sfs_sin \<Rightarrow> nat \<Rightarrow> u8" where
  "fbyte s p = disk s (blockno s (p div 4096)) (p mod 4096)"

definition blocks_for :: "nat \<Rightarrow> nat" where "blocks_for len = (len + 4095) div 4096"

text \<open>The file \<open>t\<close> is \<open>s\<close> with \<open>bs\<close> put at \<open>off\<close>; blocks it has grown by hold zeros otherwise.\<close>

definition wrote :: "sfs_sin \<Rightarrow> nat \<Rightarrow> u8 list \<Rightarrow> sfs_sin \<Rightarrow> bool" where
  "wrote s off bs t \<longleftrightarrow> bmap_inv t \<and> ino t = ino s \<and> din_size (din t) = din_size (din s) \<and> din_type (din t) = din_type (din s)
     \<and> room t = room s \<and> nblk t = max (nblk s) (blocks_for (off + length bs))
     \<and> (\<forall>p < nblk t * 4096. fbyte t p =
          (if off \<le> p \<and> p < off + length bs then bs ! (p - off) else if p < nblk s * 4096 then fbyte s p else 0))"

lemma blocks_for_le: "blocks_for n \<le> k \<longleftrightarrow> n \<le> k * 4096"
proof -
  have "Suc k \<le> (n + 4095) div 4096 \<longleftrightarrow> Suc k * 4096 \<le> n + 4095" by (rule less_eq_div_iff_mult_less_eq) simp
  then show ?thesis unfolding blocks_for_def by (simp add: not_less_eq_eq [symmetric])
qed

lemma in_blocks: "p < n * 4096 \<longleftrightarrow> p div 4096 < (n :: nat)"
  by (simp add: div_less_iff_less_mult)

lemma wrote_same:
  assumes "same_file s t" "bmap_inv s" "off \<le> nblk s * 4096"
  shows "wrote s off [] t"
proof -
  have "fbyte t p = fbyte s p" if "p < nblk s * 4096" for p
  proof -
    have "taken s (blockno s (p div 4096))" using bmap_invD(6) [OF assms(2), of "Block (p div 4096)"] that by (simp add: in_blocks)
    moreover have "blockno t i = blockno s i" for i
      using assms(1) bmap_invD(6) [OF assms(2), of Indirect] by (simp add: same_file_def blockno_def entry_at_def)
    ultimately show ?thesis using assms(1) by (simp add: same_file_def fbyte_def)
  qed
  moreover have "blocks_for off \<le> nblk s" using assms(3) by (simp add: blocks_for_le)
  ultimately show ?thesis using assms(1) by (auto simp: wrote_def same_file_def max_def room_def)
qed

lemma wrote_trans:
  assumes a: "wrote s off bs t" and b: "wrote t (off + length bs) cs u"
  shows "wrote s off (bs @ cs) u"
proof -
  have nt: "nblk s \<le> nblk t" "off + length bs \<le> nblk t * 4096" "nblk t \<le> nblk u"
    using a b blocks_for_le [of "off + length bs" "nblk t"] by (auto simp: wrote_def)
  have "blocks_for (off + length bs) \<le> blocks_for (off + length bs + length cs)" by (simp add: blocks_for_def div_le_mono)
  then have "nblk u = max (nblk s) (blocks_for (off + length (bs @ cs)))" using a b by (simp add: wrote_def add.assoc max_def)
  moreover have "fbyte u p = (if off \<le> p \<and> p < off + length (bs @ cs) then (bs @ cs) ! (p - off) else if p < nblk s * 4096 then fbyte s p else 0)"
    if p: "p < nblk u * 4096" for p
  proof (cases "p < off + length bs")
    case True
    then have "fbyte u p = fbyte t p" "p < nblk t * 4096" using b p nt by (auto simp: wrote_def)
    then show ?thesis using a True by (auto simp: wrote_def nth_append)
  next
    case False
    have "fbyte u p = (if p < off + length bs + length cs then cs ! (p - (off + length bs)) else if p < nblk t * 4096 then fbyte t p else 0)"
      using b p False by (simp add: wrote_def)
    moreover have "fbyte t p = (if p < nblk s * 4096 then fbyte s p else 0)" if "p < nblk t * 4096" using a that False by (simp add: wrote_def)
    moreover have "p < nblk s * 4096 \<Longrightarrow> p < nblk t * 4096" using nt(1) by linarith
    ultimately show ?thesis using False by (auto simp: nth_append)
  qed
  ultimately show ?thesis using a b by (simp add: wrote_def)
qed

text \<open>Finding the block to be written makes it when it is the next one.\<close>

definition loaded :: "sfs_sin \<Rightarrow> nat \<Rightarrow> u32 \<Rightarrow> sfs_sin \<Rightarrow> bool" where
  "loaded s k i t \<longleftrightarrow> bmap_inv t \<and> ino t = ino s \<and> din_size (din t) = din_size (din s) \<and> din_type (din t) = din_type (din s)
     \<and> room t = room s \<and> nblk t = max (nblk s) (Suc k) \<and> blockno t k = i
     \<and> (\<forall>p < nblk t * 4096. fbyte t p = (if p < nblk s * 4096 then fbyte s p else 0))"

lemma grown_loaded:
  assumes inv: "bmap_inv s" and n: "nblk s < 1036" and g: "grown s b t"
  shows "loaded s (nblk s) b t"
proof -
  have "fbyte t p = (if p < nblk s * 4096 then fbyte s p else 0)" if "p < nblk t * 4096" for p
  proof -
    let ?k = "p div 4096"
    have k: "?k < Suc (nblk s)" "?k < 1036" using that n g by (simp_all add: in_blocks grown_def)
    have "taken s (blockno s ?k)" "blockno s ?k \<noteq> indirect (din s)" if "?k < nblk s"
      using bmap_invD(6) [OF inv, of "Block ?k"] inj_onD [OF bmap_invD(5) [OF inv], of "Block ?k" Indirect] that
      by (auto simp: taken_def)
    then show ?thesis using g k by (auto simp: in_blocks fbyte_def grown_def less_Suc_eq)
  qed
  then show ?thesis using g n by (simp add: loaded_def grown_def)
qed

lemma bmap_load_cases:
  assumes inv: "bmap_inv s" and k: "k \<le> nblk s" "k < 1036"
  obtains i t where "sfs_bmap_load k s = Some (Inr i, t)" "loaded s k i t"
  | t where "sfs_bmap_load k s = Some (Inl (- E_NO_MEM), t)" "same_file s t" "room s = k" "k = nblk s"
proof (cases "k < nblk s")
  case True
  then show thesis using bmap_load_existing [OF inv True] inv by (intro that(1)) (auto simp: loaded_def max_def)
next
  case False
  then have k': "k = nblk s" using k(1) by simp
  show thesis
    by (rule bmap_append [OF inv]) (use that grown_loaded [OF inv] k k' in auto)
qed

lemma data_write:
  fixes c :: blk
  assumes inv: "bmap_inv t" and k: "k < nblk t"
  defines "t' \<equiv> t\<lparr>disk := (disk t)(blockno t k := c)\<rparr>"
  shows "bmap_inv t'" "p < nblk t * 4096 \<Longrightarrow> fbyte t' p = (if p div 4096 = k then c (p mod 4096) else fbyte t p)"
proof -
  define b where "b = blockno t k"
  have t': "t' = t\<lparr>disk := (disk t)(b := c)\<rparr>" by (simp add: t'_def b_def)
  have "indirect (din t) \<noteq> 0 \<Longrightarrow> b \<noteq> indirect (din t)"
    using inj_onD [OF bmap_invD(5) [OF inv], of "Block k" Indirect] k by (auto simp: b_def)
  then have blk: "blockno t' = blockno t" by (auto simp: t' blockno_def entry_at_def fun_eq_iff)
  have same: "bno t' u = bno t u" for u using blk by (cases u) (simp_all add: t'_def)
  have "fs_ok t'" "taken t' = taken t" "din t' = din t" "buses t' = buses t" by (simp_all add: t'_def buses_def bmap_invD(1) [OF inv])
  then show "bmap_inv t'" using inv by (simp add: bmap_inv_def blk same inj_on_def)
  show "fbyte t' p = (if p div 4096 = k then c (p mod 4096) else fbyte t p)" if "p < nblk t * 4096"
    using that inj_onD [OF bmap_invD(5) [OF inv], of "Block (p div 4096)" "Block k"] k
    by (auto simp: fbyte_def blk in_blocks) (auto simp: t'_def)
qed

section \<open>Writing\<close>

definition writes :: "io_result \<Rightarrow> nat \<Rightarrow> u8 list \<Rightarrow> sfs_sin \<Rightarrow> bool" where
  "writes k off buf s \<longleftrightarrow> (\<exists>r bs t. k s = Some ((r, bs), t) \<and> wrote s off bs t
     \<and> (r = 0 \<and> bs = buf \<or> r = - E_NO_MEM \<and> (\<exists>cs. cs \<noteq> [] \<and> buf = bs @ cs) \<and> off + length bs = room s * 4096))"

definition puts :: "(u32 \<Rightarrow> (u8 list, sfs_sin) io) \<Rightarrow> nat \<Rightarrow> u8 list \<Rightarrow> bool" where
  "puts op b bs \<longleftrightarrow> (\<forall>t i. fs_ok t \<and> taken t i \<longrightarrow> (\<exists>c. op i t = Some (Inr bs, t\<lparr>disk := (disk t)(i := c)\<rparr>)
     \<and> (\<forall>q < 4096. c q = (if b \<le> q \<and> q < b + length bs then bs ! (q - b) else disk t i q))))"

lemma puts_buf: "b < 4096 \<Longrightarrow> b + length bs \<le> 4096 \<Longrightarrow> puts (\<lambda>i. sfs_buf_op True bs i b) b bs"
  unfolding puts_def by (auto simp: sfs_buf_op_def io_defs taken_buf(2) put_bytes_def)

lemma puts_block: "length bs = 4096 \<Longrightarrow> puts (sfs_block_op True bs) 0 bs"
  unfolding puts_def by (auto simp: sfs_block_op_def io_defs taken_transfer(2) put_bytes_def)

lemma put_wrote:
  assumes l: "loaded s k i t" and op: "puts op b bs" and bs: "bs \<noteq> []" "b + length bs \<le> 4096"
  obtains u where "op i t = Some (Inr bs, u)" "wrote s (k * 4096 + b) bs u"
proof -
  have inv: "bmap_inv t" and k: "k < nblk t" and i: "i = blockno t k" using l by (auto simp: loaded_def)
  have "taken t i" using bmap_invD(6) [OF inv, of "Block k"] k i by simp
  then obtain c where c: "op i t = Some (Inr bs, t\<lparr>disk := (disk t)(i := c)\<rparr>)"
      "\<And>q. q < 4096 \<Longrightarrow> c q = (if b \<le> q \<and> q < b + length bs then bs ! (q - b) else disk t i q)"
    using op bmap_invD(1) [OF inv] unfolding puts_def by blast
  define u where "u = t\<lparr>disk := (disk t)(i := c)\<rparr>"
  have u: "bmap_inv u" "\<And>p. p < nblk t * 4096 \<Longrightarrow> fbyte u p = (if p div 4096 = k then c (p mod 4096) else fbyte t p)"
    using data_write [OF inv k, where c = c] by (simp_all add: u_def i)
  have pos: "0 < length bs" using bs(1) by simp
  let ?n = "k * 4096 + b + length bs"
  have "\<not> blocks_for ?n \<le> k" "blocks_for ?n \<le> Suc k" unfolding blocks_for_le using pos bs(2) by simp_all
  then have "blocks_for ?n = Suc k" by simp
  moreover have "fbyte u p = (if k * 4096 + b \<le> p \<and> p < k * 4096 + b + length bs then bs ! (p - (k * 4096 + b)) else if p < nblk s * 4096 then fbyte s p else 0)"
    if p: "p < nblk t * 4096" for p
  proof (cases "p div 4096 = k")
    case True
    then have "p = k * 4096 + p mod 4096" using div_mult_mod_eq [of p 4096] by simp
    moreover have "fbyte t p = disk t i (p mod 4096)" using True i by (simp add: fbyte_def)
    moreover have "(k * 4096 + b \<le> p \<and> p < ?n) = (b \<le> p mod 4096 \<and> p mod 4096 < b + length bs)"
      "p - (k * 4096 + b) = p mod 4096 - b" using calculation(1) by linarith+
    ultimately show ?thesis using u(2) [OF p] True c(2) [of "p mod 4096"] l p by (simp add: loaded_def)
  next
    case False
    have "p div 4096 = k" if "k * 4096 + b \<le> p" "p < ?n"
      using that bs(2) by (intro div_nat_eqI) simp_all
    then have "(k * 4096 + b \<le> p \<and> p < ?n) = False" using False by blast
    moreover have "fbyte u p = fbyte t p" using u(2) [OF p] False by simp
    ultimately show ?thesis using l p by (simp only: loaded_def if_False)
  qed
  moreover have "room u = room t" by (simp add: u_def room_def)
  ultimately have "wrote s (k * 4096 + b) bs u" using l u(1) by (simp add: wrote_def loaded_def u_def)
  then show thesis using that c(1) by (simp add: u_def)
qed

lemma writes_step:
  assumes inv: "bmap_inv s" and off: "k * 4096 + b \<le> nblk s * 4096" "k < 1036" and op: "puts op b bs" and bs: "bs \<noteq> []" "b + length bs \<le> 4096"
    and rest: "\<And>t. wrote s (k * 4096 + b) bs t \<Longrightarrow> writes K (k * 4096 + b + length bs) cs t"
  shows "writes (io_step (io_then (sfs_bmap_load k) op) K) (k * 4096 + b) (bs @ cs) s"
proof -
  have "k \<le> nblk s" using off(1) by linarith
  then show ?thesis
  proof (rule bmap_load_cases [OF inv _ off(2)])
    fix t assume f: "sfs_bmap_load k s = Some (Inl (- E_NO_MEM), t)" "same_file s t" "room s = k" "k = nblk s"
    then have "b = 0" using off(1) by simp
    then show ?thesis using f wrote_same [OF f(2) inv off(1)] bs(1) by (auto simp: writes_def io_step_def io_defs)
  next
    fix i t assume l: "sfs_bmap_load k s = Some (Inr i, t)" "loaded s k i t"
    obtain u where u: "op i t = Some (Inr bs, u)" "wrote s (k * 4096 + b) bs u" by (rule put_wrote [OF l(2) op bs])
    obtain r ds v where v: "K u = Some ((r, ds), v)" "wrote u (k * 4096 + b + length bs) ds v"
        "r = 0 \<and> ds = cs \<or> r = - E_NO_MEM \<and> (\<exists>es. es \<noteq> [] \<and> cs = ds @ es) \<and> k * 4096 + b + length bs + length ds = room u * 4096"
      using rest [OF u(2)] unfolding writes_def by blast
    have "io_step (io_then (sfs_bmap_load k) op) K s = Some ((r, bs @ ds), v)"
      using l(1) u(1) v(1) by (simp add: io_step_def io_defs)
    moreover have "room u = room s" using u(2) by (simp add: wrote_def)
    ultimately show ?thesis using wrote_trans [OF u(2) v(2)] v(3) unfolding writes_def by (auto simp: add.assoc)
  qed
qed

lemma wrote_end: "wrote s off bs t \<Longrightarrow> bmap_inv t \<and> off + length bs \<le> nblk t * 4096"
  using blocks_for_le [of "off + length bs" "nblk t"] by (simp add: wrote_def)

lemma writes_done: "bmap_inv s \<Longrightarrow> off \<le> nblk s * 4096 \<Longrightarrow> writes io_done off [] s"
  using wrote_same [OF same_file_refl] by (simp add: writes_def io_done_def)

lemma io_tail_writes:
  assumes inv: "bmap_inv s" and k: "k \<le> nblk s" "k * 4096 + length buf \<le> 1036 * 4096" and len: "length buf = e mod 4096"
  shows "writes (io_tail True e k buf) (k * 4096) buf s"
proof (cases "e mod 4096 = 0")
  case True
  then show ?thesis using writes_done [OF inv] k len by (simp add: io_tail_def SFS_BLKSIZE_def)
next
  case False
  have lt: "e mod 4096 < 4096" by simp
  have "writes (io_step (io_then (sfs_bmap_load k) (\<lambda>i. sfs_buf_op True buf i 0)) io_done) (k * 4096 + 0) (buf @ []) s"
  proof (rule writes_step [OF inv])
    show "puts (\<lambda>i. sfs_buf_op True buf i 0) 0 buf" using puts_buf [of 0 buf] len lt by simp
    show "writes io_done (k * 4096 + 0 + length buf) [] t" if "wrote s (k * 4096 + 0) buf t" for t
      using writes_done [of t] wrote_end [OF that] by simp
  qed (use k len False lt in auto)
  then show ?thesis using False len by (simp add: io_tail_def SFS_BLKSIZE_def Let_def)
qed

lemma io_blocks_writes:
  assumes "bmap_inv s" "k \<le> nblk s" "k * 4096 + length buf \<le> 1036 * 4096" "length buf = n * 4096 + e mod 4096"
  shows "writes (io_blocks True e k n buf) (k * 4096) buf s"
  using assms
proof (induction n arbitrary: k buf s)
  case 0
  then show ?case using io_tail_writes by simp
next
  case (Suc n)
  have len: "length (take 4096 buf) = 4096" using Suc.prems(4) by simp
  have "writes (io_step (io_then (sfs_bmap_load k) (sfs_block_op True (take 4096 buf))) (io_blocks True e (k + 1) n (drop 4096 buf)))
      (k * 4096 + 0) (take 4096 buf @ drop 4096 buf) s"
  proof (rule writes_step [OF Suc.prems(1)])
    show "puts (sfs_block_op True (take 4096 buf)) 0 (take 4096 buf)" using puts_block len by simp
    fix t assume t: "wrote s (k * 4096 + 0) (take 4096 buf) t"
    have "bmap_inv t" "k + 1 \<le> nblk t" using wrote_end [OF t] len by simp_all
    then have "writes (io_blocks True e (k + 1) n (drop 4096 buf)) ((k + 1) * 4096) (drop 4096 buf) t"
      using Suc.prems(3,4) by (intro Suc.IH) simp_all
    then show "writes (io_blocks True e (k + 1) n (drop 4096 buf)) (k * 4096 + 0 + length (take 4096 buf)) (drop 4096 buf) t"
      using len by (simp add: algebra_simps)
  qed (use Suc.prems len in auto)
  then show ?case by (simp add: SFS_BLKSIZE_def)
qed

lemma io_range_split:
  assumes "off < e"
  obtains k b n where "off = k * 4096 + b" "b < 4096" "e = (k + n) * 4096 + e mod 4096"
    "\<And>wr buf. b = 0 \<Longrightarrow> io_range wr off e buf = io_blocks wr e k n buf"
    "\<And>wr buf. b \<noteq> 0 \<Longrightarrow> n = 0 \<Longrightarrow>
      io_range wr off e buf = io_step (io_then (sfs_bmap_load k) (\<lambda>i. sfs_buf_op wr (take (e - off) buf) i b)) io_done"
    "\<And>wr buf. b \<noteq> 0 \<Longrightarrow> n \<noteq> 0 \<Longrightarrow>
      io_range wr off e buf = io_step (io_then (sfs_bmap_load k) (\<lambda>i. sfs_buf_op wr (take (4096 - b) buf) i b))
        (io_blocks wr e (k + 1) (n - 1) (drop (4096 - b) buf))"
proof -
  have "off div 4096 \<le> e div 4096" using assms by (simp add: div_le_mono)
  then have e: "e = (off div 4096 + (e div 4096 - off div 4096)) * 4096 + e mod 4096" by simp
  have o: "off = off div 4096 * 4096 + off mod 4096" "off mod 4096 < 4096" by simp_all
  show thesis by (rule that [OF o e]) (simp_all add: io_range_def SFS_BLKSIZE_def Let_def)
qed

lemma io_range_writes:
  assumes inv: "bmap_inv s" and off: "off \<le> nblk s * 4096" "off < e" "e \<le> 1036 * 4096" and len: "length buf = e - off"
  shows "writes (io_range True off e buf) off buf s"
proof -
  obtain k b n where o: "off = k * 4096 + b" "b < 4096" and e: "e = (k + n) * 4096 + e mod 4096"
    and zero: "b = 0 \<Longrightarrow> io_range True off e buf = io_blocks True e k n buf"
    and short: "b \<noteq> 0 \<Longrightarrow> n = 0 \<Longrightarrow>
      io_range True off e buf = io_step (io_then (sfs_bmap_load k) (\<lambda>i. sfs_buf_op True (take (e - off) buf) i b)) io_done"
    and long: "b \<noteq> 0 \<Longrightarrow> n \<noteq> 0 \<Longrightarrow>
      io_range True off e buf = io_step (io_then (sfs_bmap_load k) (\<lambda>i. sfs_buf_op True (take (4096 - b) buf) i b))
        (io_blocks True e (k + 1) (n - 1) (drop (4096 - b) buf))"
    by (rule io_range_split [OF off(2)]) (rule that)
  define m where "m = e mod 4096"
  have m: "m < 4096" "e = (k + n) * 4096 + m" using e by (simp_all add: m_def)
  show ?thesis
  proof (cases "b = 0")
    case True
    then have "k \<le> nblk s" "k * 4096 + length buf \<le> 1036 * 4096" "length buf = n * 4096 + e mod 4096"
      using off len o m unfolding m_def [symmetric] by simp_all
    then show ?thesis using io_blocks_writes [OF inv] True o zero by simp
  next
    case False
    show ?thesis
    proof (cases "n = 0")
      case True
      have "writes (io_step (io_then (sfs_bmap_load k) (\<lambda>i. sfs_buf_op True buf i b)) io_done) (k * 4096 + b) (buf @ []) s"
      proof (rule writes_step [OF inv])
        show "puts (\<lambda>i. sfs_buf_op True buf i b) b buf" using True o m off(2) len by (intro puts_buf) simp_all
        show "writes io_done (k * 4096 + b + length buf) [] t" if "wrote s (k * 4096 + b) buf t" for t
          using writes_done [of t] wrote_end [OF that] by simp
      qed (use True off len o m in auto)
      then show ?thesis using True False o len short by simp
    next
      case n: False
      let ?f = "take (4096 - b) buf" and ?r = "drop (4096 - b) buf"
      have lens: "length ?f = 4096 - b" "length ?r = (n - 1) * 4096 + m" using n o m len by (cases n; simp)+
      have "writes (io_step (io_then (sfs_bmap_load k) (\<lambda>i. sfs_buf_op True ?f i b)) (io_blocks True e (k + 1) (n - 1) ?r)) (k * 4096 + b) (?f @ ?r) s"
      proof (rule writes_step [OF inv])
        show "puts (\<lambda>i. sfs_buf_op True ?f i b) b ?f" using lens(1) o(2) by (intro puts_buf) simp_all
        fix t assume t: "wrote s (k * 4096 + b) ?f t"
        have "bmap_inv t" "k + 1 \<le> nblk t" using wrote_end [OF t] lens(1) o(2) by simp_all
        moreover have "(k + 1) * 4096 + length ?r \<le> 1036 * 4096" using lens(2) n m off(3) by (cases n) simp_all
        ultimately have "writes (io_blocks True e (k + 1) (n - 1) ?r) ((k + 1) * 4096) ?r t"
          using lens(2) by (intro io_blocks_writes) (simp_all only: m_def)
        moreover have "k * 4096 + b + length ?f = (k + 1) * 4096" using lens(1) o(2) by simp
        ultimately show "writes (io_blocks True e (k + 1) (n - 1) ?r) (k * 4096 + b + length ?f) ?r t" by (simp only:)
      qed (use off o m lens n in auto)
      then show ?thesis using n False o long by simp
    qed
  qed
qed

section \<open>Reading\<close>

definition reads :: "io_result \<Rightarrow> nat \<Rightarrow> nat \<Rightarrow> sfs_sin \<Rightarrow> bool" where
  "reads k off n s \<longleftrightarrow> k s = Some ((0, map (fbyte s) [off..<off + n]), s)"

lemma reads_done: "reads io_done off 0 s"
  by (simp add: reads_def io_done_def)

lemma fbyte_map:
  assumes "b + n \<le> 4096"
  shows "map (\<lambda>j. disk s (blockno s k) (b + j)) [0..<n] = map (fbyte s) [k * 4096 + b..<k * 4096 + b + n]"
proof (rule nth_equalityI)
  fix j assume "j < length (map (\<lambda>j. disk s (blockno s k) (b + j)) [0..<n])"
  then have j: "j < n" by simp
  have "(k * 4096 + b + j) div 4096 = k" using assms j by (intro div_nat_eqI) simp_all
  moreover have "(k * 4096 + b + j) mod 4096 = b + j" using assms j by (simp add: add.assoc)
  ultimately show "map (\<lambda>j. disk s (blockno s k) (b + j)) [0..<n] ! j = map (fbyte s) [k * 4096 + b..<k * 4096 + b + n] ! j"
    using j by (simp add: fbyte_def)
qed simp

lemma reads_step:
  assumes inv: "bmap_inv s" and k: "k < nblk s" and b: "b + n \<le> 4096"
    and op: "\<And>i. taken s i \<Longrightarrow> op i s = Some (Inr (map (\<lambda>j. disk s i (b + j)) [0..<n]), s)"
    and rest: "reads K (k * 4096 + b + n) m s"
  shows "reads (io_step (io_then (sfs_bmap_load k) op) K) (k * 4096 + b) (n + m) s"
proof -
  have "taken s (blockno s k)" using bmap_invD(6) [OF inv, of "Block k"] k by simp
  then have "op (blockno s k) s = Some (Inr (map (fbyte s) [k * 4096 + b..<k * 4096 + b + n]), s)"
    using op fbyte_map [OF b] by simp
  moreover have "[k * 4096 + b..<k * 4096 + b + (n + m)] = [k * 4096 + b..<k * 4096 + b + n] @ [k * 4096 + b + n..<k * 4096 + b + n + m]"
    using upt_add_eq_append [of "k * 4096 + b" "k * 4096 + b + n" m] by (simp add: add.assoc)
  ultimately show ?thesis
    using bmap_load_existing [OF inv k] rest by (simp add: reads_def io_step_def io_defs)
qed

lemma reads_buf:
  assumes "bmap_inv s" "b < 4096" "b + length bs \<le> 4096" "taken s i"
  shows "sfs_buf_op False bs i b s = Some (Inr (map (\<lambda>j. disk s i (b + j)) [0..<length bs]), s)"
  using taken_buf(1) [OF bmap_invD(1) [OF assms(1)] assms(4)] assms by (simp add: sfs_buf_op_def)

lemma reads_block:
  assumes "bmap_inv s" "taken s i"
  shows "sfs_block_op False bs i s = Some (Inr (map (\<lambda>j. disk s i (0 + j)) [0..<4096]), s)"
  using taken_transfer(1) [OF bmap_invD(1) [OF assms(1)] assms(2)] by (simp add: sfs_block_op_def io_defs SFS_BLKSIZE_def)

lemma io_tail_reads:
  assumes inv: "bmap_inv s" and k: "k * 4096 + e mod 4096 \<le> nblk s * 4096" and len: "e mod 4096 \<le> length buf"
  shows "reads (io_tail False e k buf) (k * 4096) (e mod 4096) s"
proof (cases "e mod 4096 = 0")
  case True
  then show ?thesis using reads_done by (simp add: io_tail_def SFS_BLKSIZE_def)
next
  case False
  have lt: "e mod 4096 < 4096" by simp
  have k': "k < nblk s" using k False by linarith
  have "reads (io_step (io_then (sfs_bmap_load k) (\<lambda>i. sfs_buf_op False (take (e mod 4096) buf) i 0)) io_done) (k * 4096 + 0) (e mod 4096 + 0) s"
  proof (rule reads_step [OF inv k'])
    show "0 + e mod 4096 \<le> 4096" using lt by simp
    show "reads io_done (k * 4096 + 0 + e mod 4096) 0 s" by (rule reads_done)
    show "sfs_buf_op False (take (e mod 4096) buf) i 0 s = Some (Inr (map (\<lambda>j. disk s i (0 + j)) [0..<e mod 4096]), s)" if "taken s i" for i
      using reads_buf [OF inv, of 0 "take (e mod 4096) buf" i] that lt len by (simp add: min_absorb2)
  qed
  then show ?thesis using False by (simp add: io_tail_def SFS_BLKSIZE_def Let_def)
qed

lemma io_blocks_reads:
  assumes "bmap_inv s" "(k + n) * 4096 + e mod 4096 \<le> nblk s * 4096" "n * 4096 + e mod 4096 \<le> length buf"
  shows "reads (io_blocks False e k n buf) (k * 4096) (n * 4096 + e mod 4096) s"
  using assms
proof (induction n arbitrary: k buf)
  case 0
  then show ?case using io_tail_reads by simp
next
  case (Suc n)
  have "reads (io_blocks False e (k + 1) n (drop 4096 buf)) ((k + 1) * 4096) (n * 4096 + e mod 4096) s"
    using Suc.prems by (intro Suc.IH) (simp_all add: algebra_simps)
  then have "reads (io_step (io_then (sfs_bmap_load k) (sfs_block_op False (take 4096 buf))) (io_blocks False e (k + 1) n (drop 4096 buf)))
      (k * 4096 + 0) (4096 + (n * 4096 + e mod 4096)) s"
    using Suc.prems reads_block [OF Suc.prems(1)] by (intro reads_step) (simp_all add: algebra_simps)
  then show ?case by (simp add: SFS_BLKSIZE_def add.assoc)
qed

lemma io_range_reads:
  assumes inv: "bmap_inv s" and off: "off < e" "e \<le> nblk s * 4096" and len: "e - off \<le> length buf"
  shows "reads (io_range False off e buf) off (e - off) s"
proof -
  obtain k b n where o: "off = k * 4096 + b" "b < 4096" and e: "e = (k + n) * 4096 + e mod 4096"
    and zero: "b = 0 \<Longrightarrow> io_range False off e buf = io_blocks False e k n buf"
    and short: "b \<noteq> 0 \<Longrightarrow> n = 0 \<Longrightarrow>
      io_range False off e buf = io_step (io_then (sfs_bmap_load k) (\<lambda>i. sfs_buf_op False (take (e - off) buf) i b)) io_done"
    and long: "b \<noteq> 0 \<Longrightarrow> n \<noteq> 0 \<Longrightarrow>
      io_range False off e buf = io_step (io_then (sfs_bmap_load k) (\<lambda>i. sfs_buf_op False (take (4096 - b) buf) i b))
        (io_blocks False e (k + 1) (n - 1) (drop (4096 - b) buf))"
    by (rule io_range_split [OF off(1)]) (rule that)
  define m where "m = e mod 4096"
  have m: "m < 4096" "e = (k + n) * 4096 + m" using e by (simp_all add: m_def)
  show ?thesis
  proof (cases "b = 0")
    case True
    then have p: "(k + n) * 4096 + e mod 4096 \<le> nblk s * 4096" "n * 4096 + e mod 4096 \<le> length buf" "e - off = n * 4096 + e mod 4096"
      using o m off len unfolding m_def [symmetric] by simp_all
    then show ?thesis using io_blocks_reads [OF inv p(1,2)] zero [OF True] True o(1) by simp
  next
    case b: False
    show ?thesis
    proof (cases "n = 0")
      case True
      have "reads (io_step (io_then (sfs_bmap_load k) (\<lambda>i. sfs_buf_op False (take (e - off) buf) i b)) io_done) (k * 4096 + b) (e - off + 0) s"
        using reads_buf [OF inv o(2), of "take (e - off) buf"] True off o m len
        by (intro reads_step [OF inv] reads_done) (simp_all add: min_absorb2)
      then show ?thesis using short [OF b True] o(1) by simp
    next
      case n: False
      have d: "e - off = 4096 - b + ((n - 1) * 4096 + m)" using n o m by (cases n) simp_all
      have "(k + 1 + (n - 1)) * 4096 + e mod 4096 \<le> nblk s * 4096" "(n - 1) * 4096 + e mod 4096 \<le> length (drop (4096 - b) buf)"
        using n off o m len d unfolding m_def [symmetric] by (cases n; simp)+
      then have "reads (io_blocks False e (k + 1) (n - 1) (drop (4096 - b) buf)) ((k + 1) * 4096) ((n - 1) * 4096 + m) s"
        unfolding m_def by (rule io_blocks_reads [OF inv])
      moreover have "(k + 1) * 4096 = k * 4096 + b + (4096 - b)" using o(2) by simp
      ultimately have "reads (io_step (io_then (sfs_bmap_load k) (\<lambda>i. sfs_buf_op False (take (4096 - b) buf) i b))
          (io_blocks False e (k + 1) (n - 1) (drop (4096 - b) buf))) (k * 4096 + b) (4096 - b + ((n - 1) * 4096 + m)) s"
        using reads_buf [OF inv o(2), of "take (4096 - b) buf"] n off o m len d
        by (intro reads_step [OF inv]) (simp_all add: min_absorb2 add.commute [of "k * 4096"])
      then show ?thesis using long [OF b n] d o(1) by simp
    qed
  qed
qed

section \<open>Files as lists of bytes\<close>

definition contents :: "sfs_sin \<Rightarrow> u8 list" where
  "contents s = map (fbyte s) [0..<unat (din_size (din s))]"

definition file_wf :: "sfs_sin \<Rightarrow> bool" where
  "file_wf s \<longleftrightarrow> bmap_inv s \<and> nblk s = blocks_for (unat (din_size (din s)))"

lemma length_contents [simp]: "length (contents s) = unat (din_size (din s))"
  by (simp add: contents_def)

lemma file_wf_size:
  assumes "file_wf s"
  shows "unat (din_size (din s)) \<le> nblk s * 4096" "nblk s * 4096 \<le> 4243456"
  using assms blocks_for_le [of "unat (din_size (din s))" "nblk s"] bmap_invD(3) [of s] by (simp_all add: file_wf_def)

lemma small_sless: "a < 2147483648 \<Longrightarrow> b < 2147483648 \<Longrightarrow> ((of_nat a :: u32) <s of_nat b) = (a < b)"
  by (simp add: word_sless_alt signed_of_nat signed_take_bit_int_eq_self)

lemma small_of_nat:
  assumes "a < 2147483648" "b < 2147483648"
  shows "unat (of_nat a :: u32) = a" "((of_nat a :: u32) \<le> of_nat b) = (a \<le> b)" "((of_nat a :: u32) = of_nat b) = (a = b)"
  using assms by (simp_all add: word_le_nat_alt unat_of_nat word_unat_eq_iff)

lemma min_of_nat: "a < 2147483648 \<Longrightarrow> b < 2147483648 \<Longrightarrow> min (of_nat a) (of_nat b) = (of_nat (min a b) :: u32)"
  using small_of_nat(2) [of a b] by (simp add: min_def)

lemma small_guards:
  assumes "off < 134217728" "off + n < 2147483648"
  shows "\<not> ((of_nat off :: u32) <s 0 \<or> SFS_MAX_FILE_SIZE \<le> of_nat off \<or> of_nat off + of_nat n <s (of_nat off :: u32))"
proof -
  have "\<not> (of_nat (off + n) <s (of_nat off :: u32))" "\<not> ((of_nat off :: u32) <s of_nat 0)"
    using assms small_sless [of "off + n" off] small_sless [of off 0] by auto
  moreover have "\<not> ((of_nat 134217728 :: u32) \<le> of_nat off)" using assms by (subst small_of_nat) simp_all
  ultimately show ?thesis by (simp add: SFS_MAX_FILE_SIZE_def)
qed

lemma sfs_read_contents:
  assumes wf: "file_wf s" and ty: "din_type (din s) \<noteq> SFS_TYPE_DIR" and off: "off < 134217728" "off + length buf < 2147483648"
  shows "sfs_io_nolock False buf (of_nat off) s = Some ((0, take (length buf) (drop off (contents s))), s)"
proof -
  let ?z = "unat (din_size (din s))"
  have inv: "bmap_inv s" using wf by (simp add: file_wf_def)
  have z: "?z \<le> 4243456" "?z \<le> nblk s * 4096" using file_wf_size [OF wf] by simp_all
  have dz: "din_size (din s) = of_nat ?z" by simp
  have sum: "of_nat off + of_nat (length buf) = (of_nat (off + length buf) :: u32)" by simp
  note guard = small_guards [OF off]
  show ?thesis
  proof (cases "buf = [] \<or> ?z \<le> off")
    case True
    have "din_size (din s) \<le> of_nat off \<longleftrightarrow> ?z \<le> off" using off(1) z(1) by (subst dz, subst small_of_nat) simp_all
    then show ?thesis using True guard ty by (auto simp: sfs_io_nolock_def)
  next
    case False
    define e where "e = min (off + length buf) ?z"
    have e: "off < e" "e \<le> nblk s * 4096" "e - off \<le> length buf" using False z by (auto simp: e_def)
    let ?m = "min (off + length buf) 134217728"
    have "min (of_nat (off + length buf)) (of_nat 134217728) = (of_nat ?m :: u32)" by (rule min_of_nat [OF off(2)]) simp
    moreover have "min (of_nat ?m) (of_nat ?z) = (of_nat (min ?m ?z) :: u32)" using z(1) by (intro min_of_nat) auto
    moreover have "min (min (off + length buf) 134217728) ?z = e" using z(1) by (simp add: e_def)
    ultimately have "min (min (of_nat (off + length buf)) SFS_MAX_FILE_SIZE) (din_size (din s)) = of_nat e"
      by (simp add: SFS_MAX_FILE_SIZE_def del: of_nat_add)
    moreover have "unat (of_nat e :: u32) = e" "unat (of_nat off :: u32) = off" using off e z unfolding e_def by (simp_all add: unat_of_nat)
    moreover have "of_nat off \<noteq> (of_nat (off + length buf) :: u32)" using False off by (subst small_of_nat) simp_all
    moreover have "\<not> din_size (din s) \<le> of_nat off" using off(1) z(1) False by (subst dz, subst small_of_nat) simp_all
    moreover have "map (fbyte s) [off..<e] = take (length buf) (drop off (contents s))"
      using e by (intro nth_equalityI) (auto simp: contents_def e_def)
    moreover have "off + (e - off) = e" "e = off + min (?z - off) (length buf)" using e(1) False by (auto simp: e_def min_def)
    then have "of_nat off + of_nat (min (?z - off) (length buf)) = (of_nat e :: u32)" "off + (e - off) = e" by (metis of_nat_add)+
    moreover have "(of_nat e :: u32) \<le> of_nat ?z" using z(1) by (subst small_of_nat) (simp_all add: e_def)
    ultimately show ?thesis
      using io_range_reads [OF inv e] guard ty by (simp add: sfs_io_nolock_def reads_def not_less Let_def)
  qed
qed

lemma same_map:
  assumes "disk t = disk s" "freemap t = freemap s" "super t = super s" "d_blocks t = d_blocks s" "ino t = ino s"
    "din_blocks (din t) = din_blocks (din s)" "direct (din t) = direct (din s)" "indirect (din t) = indirect (din s)"
  shows "bmap_inv t = bmap_inv s" "blockno t = blockno s" "fbyte t = fbyte s"
proof -
  show blk: "blockno t = blockno s" using assms by (simp add: fun_eq_iff blockno_def entry_at_def)
  then show "fbyte t = fbyte s" using assms by (simp add: fun_eq_iff fbyte_def)
  have "bno t x = bno s x" for x using blk assms by (cases x) simp_all
  moreover have "buses t = buses s" "taken t = taken s" "fs_ok t = fs_ok s" using assms by (simp_all add: buses_def taken_def fs_ok_def fun_eq_iff)
  ultimately show "bmap_inv t = bmap_inv s" using blk assms by (simp add: bmap_inv_def inj_on_def)
qed

lemma wrote_contents:
  assumes wf: "file_wf s" and w: "wrote s off bs t" and off: "off \<le> unat (din_size (din s))" "off + length bs \<le> 4243456"
  defines "en \<equiv> of_nat off + of_nat (length bs)"
  defines "u \<equiv> if din_size (din t) < en then t\<lparr>din := (din t)\<lparr>din_size := en\<rparr>, dirty := True\<rparr> else t"
  shows "file_wf u" "contents u = take off (contents s) @ bs @ drop (off + length bs) (contents s)" "din_type (din u) = din_type (din s)" "ino u = ino s"
proof -
  let ?z = "unat (din_size (din s))"
  have z: "?z \<le> nblk s * 4096" "?z \<le> 4243456" using file_wf_size [OF wf] by simp_all
  have l: "en = of_nat (off + length bs)" "unat en = off + length bs" using off by (simp_all add: en_def unat_of_nat del: of_nat_add flip: of_nat_add)
  have size: "unat (din_size (din u)) = max ?z (off + length bs)"
    using w l by (auto simp: u_def wrote_def word_less_nat_alt)
  have same: "fbyte u = fbyte t" "nblk u = nblk t" "bmap_inv u"
    using same_map [of u t] w by (auto simp: u_def wrote_def)
  have nt: "nblk t = max (nblk s) (blocks_for (off + length bs))" using w by (simp add: wrote_def)
  then show "file_wf u"
    using wf same size by (simp add: file_wf_def max_def blocks_for_def div_le_mono) (auto dest: div_le_mono [of _ _ 4096])
  show "din_type (din u) = din_type (din s)" "ino u = ino s" using w by (simp_all add: u_def wrote_def)
  have "max ?z (off + length bs) \<le> nblk t * 4096" using nt z(1) blocks_for_le [of "off + length bs" "nblk t"] by auto
  then have byte: "fbyte t p = (if off \<le> p \<and> p < off + length bs then bs ! (p - off) else fbyte s p)" if "p < max ?z (off + length bs)" for p
    using w z(1) that off(1) unfolding wrote_def by auto
  show "contents u = take off (contents s) @ bs @ drop (off + length bs) (contents s)"
    using size same(1) off(1) byte by (intro nth_equalityI) (auto simp: contents_def nth_append)
qed

lemma sfs_write_contents:
  assumes wf: "file_wf s" and ty: "din_type (din s) \<noteq> SFS_TYPE_DIR" and off: "off \<le> unat (din_size (din s))" "off + length buf \<le> 4243456"
  obtains r bs t where "sfs_io_nolock True buf (of_nat off) s = Some ((r, bs), t)" "file_wf t" "din_type (din t) = din_type (din s)" "ino t = ino s"
    "contents t = take off (contents s) @ bs @ drop (off + length bs) (contents s)"
    "r = (if off + length buf \<le> room s * 4096 then 0 else - E_NO_MEM)" "bs = take (room s * 4096 - off) buf"
proof (cases "buf = []")
  case True
  have "off < 134217728" "off + length buf < 2147483648" using off by simp_all
  then have "sfs_io_nolock True buf (of_nat off) s = Some ((0, []), s)"
    using True ty small_guards [of off "length buf"] by (simp add: sfs_io_nolock_def)
  moreover have "off \<le> room s * 4096" using nblk_le_room [of s] wf off(1) file_wf_size [OF wf] by (simp add: file_wf_def)
  ultimately show thesis by (intro that [of 0 "[]" s]) (use True wf off in simp_all)
next
  case False
  have inv: "bmap_inv s" using wf by (simp add: file_wf_def)
  let ?e = "off + length buf"
  have "off \<le> nblk s * 4096" "off < ?e" "?e \<le> 1036 * 4096" "length buf = ?e - off" using off file_wf_size [OF wf] False by simp_all
  then have "writes (io_range True off ?e buf) off buf s" by (rule io_range_writes [OF inv])
  then obtain r bs t where t: "io_range True off ?e buf s = Some ((r, bs), t)" "wrote s off bs t"
      "r = 0 \<and> bs = buf \<or> r = - E_NO_MEM \<and> (\<exists>cs. cs \<noteq> [] \<and> buf = bs @ cs) \<and> off + length bs = room s * 4096"
    unfolding writes_def by blast
  have "room t = room s" "off + length bs \<le> nblk t * 4096" "nblk t \<le> room t"
    using t(2) wrote_end [OF t(2)] nblk_le_room [of t] by (simp_all add: wrote_def)
  then have "off + length bs \<le> room s * 4096" using mult_le_mono1 [of "nblk t" "room t" 4096] by linarith
  then have exact: "r = (if off + length buf \<le> room s * 4096 then 0 else - E_NO_MEM)" "bs = take (room s * 4096 - off) buf"
    using t(3) by (auto simp: neq_Nil_conv)
  let ?l = "of_nat off + of_nat (length bs) :: u32"
  let ?u = "if din_size (din t) < ?l then t\<lparr>din := (din t)\<lparr>din_size := ?l\<rparr>, dirty := True\<rparr> else t"
  have small: "off < 134217728" "off + length buf < 2147483648" using off by simp_all
  have "length bs \<le> length buf" using t(3) by auto
  then have bound: "off + length bs \<le> 4243456" using off(2) by simp
  have "min (of_nat off + of_nat (length buf)) SFS_MAX_FILE_SIZE = (of_nat ?e :: u32)"
    using min_of_nat [OF small(2), of 134217728] off(2) by (simp add: SFS_MAX_FILE_SIZE_def min_absorb1)
  moreover have "unat (of_nat ?e :: u32) = ?e" "unat (of_nat off :: u32) = off" using small by (simp_all add: unat_of_nat del: of_nat_add)
  moreover have "of_nat off \<noteq> (of_nat ?e :: u32)" using small False by (subst small_of_nat) simp_all
  ultimately have "sfs_io_nolock True buf (of_nat off) s = Some ((r, bs), ?u)"
    using small_guards [OF small] ty t(1) by (simp add: sfs_io_nolock_def Let_def)
  then show thesis by (rule that) (use wrote_contents [OF wf t(2) off(1) bound] exact in simp_all)
qed

section \<open>Properties\<close>

text \<open>C1: reading and writing a file treat it as a list of bytes. Writing at a position in the file, up to the 1036 blocks that the
  map of a file reaches, replaces the bytes there and lengthens the file if needed. It succeeds exactly when the blocks of the file and the
  free blocks of the disk hold all the data, the table of the indirect blocks counted; otherwise it reports \<^verbatim>\<open>-E_NO_MEM\<close> and
  the longest prefix that they hold is in the file. The file stays well-formed either way, and reading any range of what it has become
  gives exactly those bytes of it that are in the range, and changes nothing.\<close>

theorem sfs_io_exact:
  assumes "file_wf s" "din_type (din s) \<noteq> SFS_TYPE_DIR" "off \<le> length (contents s)" "off + length buf \<le> 1036 * 4096"
  shows "\<exists>r bs t. sfs_io_nolock True buf (of_nat off) s = Some ((r, bs), t)
    \<and> r = (if off + length buf \<le> room s * 4096 then 0 else - E_NO_MEM) \<and> bs = take (room s * 4096 - off) buf
    \<and> (r = 0 \<and> bs = buf \<or> r = - E_NO_MEM \<and> (\<exists>cs. cs \<noteq> [] \<and> buf = bs @ cs))
    \<and> file_wf t \<and> contents t = take off (contents s) @ bs @ drop (off + length bs) (contents s)
    \<and> (\<forall>pos buf'. pos < 134217728 \<and> pos + length buf' < 2147483648 \<longrightarrow>
        sfs_io_nolock False buf' (of_nat pos) t = Some ((0, take (length buf') (drop pos (contents t))), t))"
proof -
  have "off \<le> unat (din_size (din s))" "off + length buf \<le> 4243456" using assms(3,4) by simp_all
  then obtain r bs t where t: "sfs_io_nolock True buf (of_nat off) s = Some ((r, bs), t)" "file_wf t" "din_type (din t) = din_type (din s)" "ino t = ino s"
      "contents t = take off (contents s) @ bs @ drop (off + length bs) (contents s)"
      "r = (if off + length buf \<le> room s * 4096 then 0 else - E_NO_MEM)" "bs = take (room s * 4096 - off) buf"
    by (rule sfs_write_contents [OF assms(1,2)]) (rule that)
  have "sfs_io_nolock False buf' (of_nat pos) t = Some ((0, take (length buf') (drop pos (contents t))), t)"
    if "pos < 134217728 \<and> pos + length buf' < 2147483648" for pos buf'
    using sfs_read_contents [OF t(2), of pos buf'] t(3) assms(2) that by simp
  moreover have "r = 0 \<and> bs = buf \<or> r = - E_NO_MEM \<and> (\<exists>cs. cs \<noteq> [] \<and> buf = bs @ cs)"
  proof (cases "off + length buf \<le> room s * 4096")
    case False
    then have "drop (room s * 4096 - off) buf \<noteq> []" using nblk_le_room [of s] assms(1,3) file_wf_size [OF assms(1)] by (auto simp: file_wf_def)
    then show ?thesis using False t(6,7) append_take_drop_id [of "room s * 4096 - off" buf] by metis
  qed (use t(6,7) in simp)
  ultimately show ?thesis using t by blast
qed

lemma demo_file_wf: "file_wf demo_file" "din_type (din demo_file) \<noteq> SFS_TYPE_DIR" "contents demo_file = []"
  using demo_file_inv by (simp_all add: file_wf_def blocks_for_def contents_def) (simp_all add: demo_file_def SFS_TYPE_DIR_def)

lemma demo_file_room: "room demo_file = 2"
proof -
  have "free_set (freemap demo_file) = {3, 4}" using demo_map_free by (simp add: demo_file_def)
  then show ?thesis by (simp add: room_def Let_def) (simp add: demo_file_def)
qed

theorem sfs_io_exact_witness:
  "\<exists>t. sfs_io_nolock True [72, 105] (of_nat 0) demo_file = Some ((0, [72, 105]), t)
    \<and> file_wf t \<and> contents t = [72, 105] \<and> sfs_io_nolock False [0, 0, 0] (of_nat 1) t = Some ((0, [105]), t)"
proof -
  obtain t where t: "sfs_io_nolock True [72, 105] (of_nat 0) demo_file = Some ((0, [72, 105]), t)" "file_wf t" "contents t = [72, 105]"
      "\<And>pos buf'. pos < 134217728 \<and> pos + length buf' < 2147483648 \<Longrightarrow>
        sfs_io_nolock False buf' (of_nat pos) t = Some ((0, take (length buf') (drop pos (contents t))), t)"
    using sfs_io_exact [OF demo_file_wf(1,2), of 0 "[72, 105]"] unfolding demo_file_wf(3) demo_file_room by auto
  have "sfs_io_nolock False [0, 0, 0] (of_nat 1) t = Some ((0, [105]), t)" using t(4) [of 1 "[0, 0, 0]"] t(3) by simp
  then show ?thesis using t(1-3) by blast
qed

end
