(* ===== verification/Sfs_Inode.thy ===== *)
theory Sfs_Inode
  imports Sfs_File
begin

text \<open>
  The other operations on an inode of the simple file system (\<^verbatim>\<open>kern/fs/sfs/sfs_inode.c\<close>): changing the length of a file,
  seeking, opening, the status, and the inode on disk.
\<close>

section \<open>The code\<close>

definition O_RDONLY :: u32 where "O_RDONLY = 0"
definition O_ACCMODE :: u32 where "O_ACCMODE = 3"
definition O_APPEND :: u32 where "O_APPEND = 0x20"

definition S_IFREG :: u32 where "S_IFREG = 0x1000"
definition S_IFDIR :: u32 where "S_IFDIR = 0x2000"
definition S_IFLNK :: u32 where "S_IFLNK = 0x3000"

record stat =
  st_mode :: u32
  st_nlinks :: u32
  st_blocks :: u32
  st_size :: u32

definition sfs_opendir :: "u32 \<Rightarrow> (unit, sfs_sin) io" where
  "sfs_opendir open_flags =
     (if open_flags AND O_ACCMODE \<noteq> O_RDONLY then fail (- E_ISDIR)
      else if open_flags AND O_APPEND \<noteq> 0 then fail (- E_ISDIR)
      else ret ())"

definition sfs_openfile :: "u32 \<Rightarrow> (unit, sfs_sin) io" where
  "sfs_openfile open_flags = ret ()"

definition sfs_gettype :: "(u32, sfs_sin) io" where
  "sfs_gettype s =
     (if din_type (din s) = SFS_TYPE_DIR then ret S_IFDIR s
      else if din_type (din s) = SFS_TYPE_FILE then ret S_IFREG s
      else if din_type (din s) = SFS_TYPE_LINK then ret S_IFLNK s
      else None)"

definition sfs_fstat :: "(stat, sfs_sin) io" where
  "sfs_fstat = io_then sfs_gettype (\<lambda>mode s.
     ret \<lparr>st_mode = mode, st_nlinks = ucast (din_nlinks (din s)), st_blocks = din_blocks (din s), st_size = din_size (din s)\<rparr> s)"

subsection \<open>The length of a file\<close>

fun extend_loop :: "nat \<Rightarrow> nat \<Rightarrow> (unit, sfs_sin) io" where
  "extend_loop nblks 0 = ret ()"
| "extend_loop nblks (Suc n) = io_then (sfs_bmap_load nblks) (\<lambda>_. extend_loop (nblks + 1) n)"

fun truncate_loop :: "nat \<Rightarrow> (unit, sfs_sin) io" where
  "truncate_loop 0 = ret ()"
| "truncate_loop (Suc n) = io_then sfs_bmap_truncate (\<lambda>_. truncate_loop n)"

definition sfs_truncfile :: "u32 \<Rightarrow> (unit, sfs_sin) io" where
  "sfs_truncfile len s =
     (if len <s 0 \<or> SFS_MAX_FILE_SIZE < len then fail (- E_INVAL) s
      else let tblks = ROUNDUP_DIV_2N len 12 in
        if din_size (din s) = len then io_assert (\<lambda>s. Some (tblks = din_blocks (din s))) s
        else let nblks = din_blocks (din s) in
          io_then (if nblks < tblks then extend_loop (unat nblks) (unat (tblks - nblks))
                   else if tblks < nblks then truncate_loop (unat (nblks - tblks))
                   else ret ())
            (\<lambda>_. io_then (io_assert (\<lambda>s. Some (din_blocks (din s) = tblks)))
               (\<lambda>_ s. ret () (s\<lparr>din := (din s)\<lparr>din_size := len\<rparr>, dirty := True\<rparr>))) s)"

definition sfs_tryseek :: "u32 \<Rightarrow> (unit, sfs_sin) io" where
  "sfs_tryseek pos s =
     (if pos <s 0 \<or> SFS_MAX_FILE_SIZE \<le> pos then fail (- E_INVAL) s
      else if din_size (din s) < pos then sfs_truncfile pos s
      else ret () s)"

subsection \<open>The inode on disk\<close>

text \<open>The 64 bytes of \<^verbatim>\<open>struct sfs_disk_inode\<close>.\<close>

definition bytes2 :: "16 word \<Rightarrow> u8 list" where "bytes2 w = [ucast w, ucast (drop_bit 8 w)]"

definition word2 :: "u8 list \<Rightarrow> 16 word" where "word2 bs = ucast (bs ! 0) OR push_bit 8 (ucast (bs ! 1))"

definition din_bytes :: "sfs_disk_inode \<Rightarrow> u8 list" where
  "din_bytes d = bytes4 (din_size d) @ bytes2 (din_type d) @ bytes2 (din_nlinks d) @ bytes4 (din_blocks d)
     @ concat (map bytes4 (direct d)) @ bytes4 (indirect d)"

definition din_of :: "u8 list \<Rightarrow> sfs_disk_inode" where
  "din_of bs = \<lparr>din_size = word4 (take 4 bs), din_type = word2 (take 2 (drop 4 bs)), din_nlinks = word2 (take 2 (drop 6 bs)),
     din_blocks = word4 (take 4 (drop 8 bs)), direct = map (\<lambda>i. word4 (take 4 (drop (12 + 4 * i) bs))) [0..<12],
     indirect = word4 (take 4 (drop 60 bs))\<rparr>"

definition sfs_fsync :: "(unit, sfs_sin) io" where
  "sfs_fsync s =
     (if dirty s
      then io_try (sfs_wbuf (din_bytes (din s)) (ino s) 0)
             (\<lambda>r. case r of Inl e \<Rightarrow> (\<lambda>s. Some (Inl e, s\<lparr>dirty := True\<rparr>)) | Inr _ \<Rightarrow> ret ()) (s\<lparr>dirty := False\<rparr>)
      else ret () s)"

definition sfs_close :: "(unit, sfs_sin) io" where "sfs_close = sfs_fsync"

section \<open>Cutting a file\<close>

definition cut :: "sfs_sin \<Rightarrow> nat \<Rightarrow> sfs_sin \<Rightarrow> bool" where
  "cut s n t \<longleftrightarrow> bmap_inv t \<and> nblk t = n \<and> ino t = ino s \<and> reclaim_count t = reclaim_count s
     \<and> din_size (din t) = din_size (din s) \<and> din_type (din t) = din_type (din s) \<and> din_nlinks (din t) = din_nlinks (din s)
     \<and> indirect (din t) = indirect (din s) \<and> sb_blocks (super t) = sb_blocks (super s)
     \<and> free_set (freemap t) = free_set (freemap s) \<union> {unat (blockno s i) | i. n \<le> i \<and> i < nblk s}
     \<and> (\<forall>i < n. blockno t i = blockno s i) \<and> (\<forall>c. c \<noteq> indirect (din s) \<longrightarrow> disk t c = disk s c)"

lemma truncate_loop_cut:
  "bmap_inv s \<Longrightarrow> n \<le> nblk s \<Longrightarrow> \<exists>t. truncate_loop n s = Some (Inr (), t) \<and> cut s (nblk s - n) t"
proof (induction n arbitrary: s)
  case 0
  then show ?case by (auto simp: ret_def cut_def)
next
  case (Suc n)
  obtain u where u: "sfs_bmap_truncate s = Some (Inr (), u)" "shrunk s u"
    using bmap_truncate_spec [OF Suc.prems(1)] Suc.prems(2) by (metis Suc_le_D nat.distinct(1))
  have inv: "bmap_inv u" and n: "nblk s = Suc (nblk u)" using u(2) by (simp_all add: shrunk_def)
  obtain t where t: "truncate_loop n u = Some (Inr (), t)" "cut u (nblk u - n) t"
    using Suc.IH [OF inv] Suc.prems(2) n by auto
  have small: "nblk u < 1036" using bmap_invD(3) [OF Suc.prems(1)] n by simp
  have same: "blockno u i = blockno s i" if "i < nblk u" for i using u(2) that small by (simp add: shrunk_def)
  have "{unat (blockno s i) | i. nblk u - n \<le> i \<and> i < Suc (nblk u)}
      = insert (unat (blockno s (nblk u))) {unat (blockno u i) | i. nblk u - n \<le> i \<and> i < nblk u}" (is "?A = insert _ ?B")
  proof -
    have "?B = {unat (blockno s i) | i. nblk u - n \<le> i \<and> i < nblk u}" using same by (metis (no_types, opaque_lifting))
    then show ?thesis by (auto simp: less_Suc_eq)
  qed
  then have "cut s (nblk s - Suc n) t" using t(2) u(2) same n by (auto simp: cut_def shrunk_def)
  then show ?case using u(1) t(1) by (simp add: io_defs)
qed

section \<open>Extending a file\<close>

definition extended :: "sfs_sin \<Rightarrow> nat \<Rightarrow> sfs_sin \<Rightarrow> bool" where
  "extended s n t \<longleftrightarrow> bmap_inv t \<and> din_size (din t) = din_size (din s) \<and> din_type (din t) = din_type (din s) \<and> nblk t = nblk s + n
     \<and> (\<forall>p < nblk t * 4096. fbyte t p = (if p < nblk s * 4096 then fbyte s p else 0))"

lemma extended_0: "bmap_inv s \<Longrightarrow> same_file s t \<Longrightarrow> extended s 0 t"
  using wrote_same [of s t 0] by (simp add: extended_def wrote_def blocks_for_def)

lemma extended_Suc:
  assumes "loaded s (nblk s) i u" "extended u n t"
  shows "extended s (Suc n) t"
  using assms by (auto simp: extended_def loaded_def)

lemma extend_loop_extended:
  assumes "bmap_inv s" "nblk s + n \<le> 1036"
  shows "\<exists>r m t. extend_loop (nblk s) n s = Some (r, t) \<and> extended s m t \<and> (r = Inr () \<and> m = n \<or> r = Inl (- E_NO_MEM) \<and> m < n)"
  using assms
proof (induction n arbitrary: s)
  case 0
  then show ?case using extended_0 [OF _ same_file_refl] by (auto simp: ret_def)
next
  case (Suc n)
  show ?case
  proof (rule bmap_append [OF Suc.prems(1)])
    show "nblk s < 1036" using Suc.prems(2) by simp
  next
    fix i u assume u: "sfs_bmap_load (nblk s) s = Some (Inr i, u)" "grown s i u"
    have l: "loaded s (nblk s) i u" using grown_loaded [OF Suc.prems(1) _ u(2)] Suc.prems(2) by simp
    then have "bmap_inv u" "nblk u = nblk s + 1" by (simp_all add: loaded_def)
    then obtain r m t where "extend_loop (nblk s + 1) n u = Some (r, t)" "extended u m t"
        "r = Inr () \<and> m = n \<or> r = Inl (- E_NO_MEM) \<and> m < n"
      using Suc.IH [of u] Suc.prems(2) by auto
    then show ?thesis using u(1) extended_Suc [OF l] by (auto simp: io_defs)
  next
    fix u assume "sfs_bmap_load (nblk s) s = Some (Inl (- E_NO_MEM), u)" "same_file s u"
    then show ?thesis using extended_0 [OF Suc.prems(1)] by (auto simp: io_defs)
  qed
qed

section \<open>Changing the length\<close>

lemma unat_tblks: "len \<le> 4243456 \<Longrightarrow> unat (ROUNDUP_DIV_2N (of_nat len) 12) = blocks_for len"
  using unat_ROUNDUP_DIV [of 12 "of_nat len"] small_of_nat(1) [of len 0] by (simp add: blocks_for_def)

lemma trunc_guard: "len \<le> 4243456 \<Longrightarrow> \<not> ((of_nat len :: u32) <s 0 \<or> SFS_MAX_FILE_SIZE < of_nat len)"
  using small_sless [of len 0] small_of_nat(2) [of len 134217728] by (auto simp: SFS_MAX_FILE_SIZE_def not_less)

lemma sized_wf:
  assumes "bmap_inv t" "nblk t = blocks_for len" "len \<le> 4243456"
  defines "u \<equiv> t\<lparr>din := (din t)\<lparr>din_size := of_nat len\<rparr>, dirty := True\<rparr>"
  shows "file_wf u" "contents u = map (fbyte t) [0..<len]" "freemap u = freemap t" "din_type (din u) = din_type (din t)"
  using assms(1-3) same_map [of u t] small_of_nat(1) [of len 0] by (simp_all add: u_def file_wf_def contents_def)

lemma truncfile_cut:
  assumes wf: "file_wf s" and len: "len \<le> unat (din_size (din s))"
  obtains t where "sfs_truncfile (of_nat len) s = Some (Inr (), t)" "file_wf t" "contents t = take len (contents s)"
    "free_set (freemap t) = free_set (freemap s) \<union> {unat (blockno s i) | i. blocks_for len \<le> i \<and> i < nblk s}"
    "ino t = ino s" "indirect (din t) = indirect (din s)" "din_nlinks (din t) = din_nlinks (din s)" "din_type (din t) = din_type (din s)"
proof -
  let ?z = "unat (din_size (din s))" and ?tb = "ROUNDUP_DIV_2N (of_nat len) 12"
  have small: "?z \<le> 4243456" "len \<le> 4243456" using file_wf_size [OF wf] len by simp_all
  have inv: "bmap_inv s" and n: "nblk s = blocks_for ?z" using wf by (simp_all add: file_wf_def)
  note tb = unat_tblks [OF small(2)] and guard = trunc_guard [OF small(2)]
  have le: "blocks_for len \<le> nblk s" using len n by (simp add: blocks_for_def div_le_mono)
  show thesis
  proof (cases "len = ?z")
    case True
    then have "?tb = din_blocks (din s)" using tb n by (simp add: word_unat_eq_iff)
    then have "sfs_truncfile (of_nat len) s = Some (Inr (), s)" using True guard by (simp add: sfs_truncfile_def io_assert_def)
    then show ?thesis by (rule that) (use True wf n in auto)
  next
    case False
    define k where "k = nblk s - blocks_for len"
    obtain t where t: "truncate_loop k s = Some (Inr (), t)" "cut s (nblk s - k) t"
      using truncate_loop_cut [OF inv, of k] by (auto simp: k_def)
    have nt: "nblk s - k = blocks_for len" using le by (simp add: k_def)
    then have t': "bmap_inv t" "nblk t = blocks_for len" using t(2) by (simp_all add: cut_def)
    have db: "din_blocks (din t) = ?tb" using t'(2) tb by (simp add: word_unat_eq_iff)
    have ge: "\<not> din_blocks (din s) < ?tb" "?tb \<le> din_blocks (din s)" using le tb by (simp_all add: word_less_nat_alt word_le_nat_alt)
    have loop: "(if din_blocks (din s) < ?tb then extend_loop (nblk s) (unat (?tb - din_blocks (din s)))
        else if ?tb < din_blocks (din s) then truncate_loop (unat (din_blocks (din s) - ?tb)) else ret ()) s = Some (Inr (), t)"
    proof (cases "?tb = din_blocks (din s)")
      case True
      then have "k = 0" using tb by (simp add: k_def)
      then show ?thesis using True t(1) by simp
    next
      case False
      then have "?tb < din_blocks (din s)" using ge(2) by simp
      moreover have "unat (din_blocks (din s) - ?tb) = k" using ge(2) tb by (simp add: unat_sub k_def)
      ultimately show ?thesis using ge(1) t(1) by simp
    qed
    let ?u = "t\<lparr>din := (din t)\<lparr>din_size := of_nat len\<rparr>, dirty := True\<rparr>"
    have ne: "din_size (din s) \<noteq> of_nat len" using False small small_of_nat(1) [of len 0] by auto
    have "sfs_truncfile (of_nat len) s = Some (Inr (), ?u)"
      using guard ne loop db unfolding sfs_truncfile_def Let_def by (simp add: io_then_Inr) (simp add: io_defs)
    moreover have "fbyte t p = fbyte s p" if "p < len" for p
    proof -
      have "len \<le> blocks_for len * 4096" using blocks_for_le by blast
      then have p: "p div 4096 < blocks_for len" using that by (simp flip: in_blocks)
      then have "blockno s (p div 4096) \<noteq> indirect (din s)"
        using inj_onD [OF bmap_invD(5) [OF inv], of "Block (p div 4096)" Indirect] bmap_invD(6) [OF inv, of "Block (p div 4096)"] le
        by (auto simp: taken_def)
      then show ?thesis using t(2) p nt by (simp add: cut_def fbyte_def)
    qed
    ultimately show ?thesis
      using sized_wf [OF t' small(2)] t(2) nt len by (intro that [of ?u]) (simp_all add: cut_def contents_def take_map take_upt)
  qed
qed

lemma truncfile_panics:
  assumes "bmap_inv t" "unat (din_size (din t)) \<le> 4243456" "nblk t \<noteq> blocks_for (unat (din_size (din t)))"
  shows "sfs_truncfile (din_size (din t)) t = None"
  using unat_tblks [OF assms(2)] trunc_guard [OF assms(2)] assms(3) by (auto simp: sfs_truncfile_def io_assert_def split: bool.split)

lemma truncfile_extend:
  assumes wf: "file_wf s" and len: "unat (din_size (din s)) < len" "len \<le> 4243456"
  obtains t where "sfs_truncfile (of_nat len) s = Some (Inr (), t)" "file_wf t" "length (contents t) = len"
      "take (length (contents s)) (contents t) = contents s"
  | t where "sfs_truncfile (of_nat len) s = Some (Inl (- E_NO_MEM), t)" "bmap_inv t" "contents t = contents s" "nblk s \<le> nblk t"
      "din_size (din t) = din_size (din s)"
proof -
  let ?z = "unat (din_size (din s))" and ?tb = "ROUNDUP_DIV_2N (of_nat len) 12"
  have inv: "bmap_inv s" and n: "nblk s = blocks_for ?z" using wf by (simp_all add: file_wf_def)
  note tb = unat_tblks [OF len(2)] and guard = trunc_guard [OF len(2)] and z = file_wf_size [OF wf]
  have le: "nblk s \<le> blocks_for len" using len n by (simp add: blocks_for_def div_le_mono)
  have "blocks_for len \<le> 1036" using len(2) by (simp add: blocks_for_le)
  then obtain r m t where t: "extend_loop (nblk s) (blocks_for len - nblk s) s = Some (r, t)" "extended s m t"
      "r = Inr () \<and> m = blocks_for len - nblk s \<or> r = Inl (- E_NO_MEM) \<and> m < blocks_for len - nblk s"
    using extend_loop_extended [OF inv, of "blocks_for len - nblk s"] le by auto
  have ge: "\<not> ?tb < din_blocks (din s)" "din_blocks (din s) \<le> ?tb" using le tb by (simp_all add: word_less_nat_alt word_le_nat_alt)
  have loop: "(if din_blocks (din s) < ?tb then extend_loop (nblk s) (unat (?tb - din_blocks (din s)))
      else if ?tb < din_blocks (din s) then truncate_loop (unat (din_blocks (din s) - ?tb)) else ret ()) s = Some (r, t)"
    using ge t(1) tb by (auto simp: unat_sub)
  have ne: "din_size (din s) \<noteq> of_nat len" using len small_of_nat(1) [of len 0] by auto
  have bytes: "fbyte t p = fbyte s p" if "p < ?z" for p
    using t(2) that z(1) by (auto simp: extended_def)
  show thesis using t(3)
  proof (elim disjE conjE)
    assume r: "r = Inr ()" "m = blocks_for len - nblk s"
    let ?u = "t\<lparr>din := (din t)\<lparr>din_size := of_nat len\<rparr>, dirty := True\<rparr>"
    have t': "bmap_inv t" "nblk t = blocks_for len" using t(2) r(2) le by (simp_all add: extended_def)
    then have "din_blocks (din t) = ?tb" using tb by (simp add: word_unat_eq_iff)
    then have "sfs_truncfile (of_nat len) s = Some (Inr (), ?u)"
      using guard ne loop r(1) unfolding sfs_truncfile_def Let_def by (simp add: io_then_Inr) (simp add: io_defs)
    then show thesis using sized_wf [OF t' len(2)] len(1) bytes
      by (intro that(1) [of ?u]) (simp_all add: contents_def take_map take_upt)
  next
    assume r: "r = Inl (- E_NO_MEM)" "m < blocks_for len - nblk s"
    have "sfs_truncfile (of_nat len) s = Some (Inl (- E_NO_MEM), t)"
      using guard ne loop r(1) unfolding sfs_truncfile_def Let_def by (simp add: io_then_Inl)
    then show thesis using t(2) bytes by (intro that(2) [of t]) (simp_all add: extended_def contents_def)
  qed
qed

section \<open>Writing back\<close>

lemma length_din_bytes: "length (direct d) = 12 \<Longrightarrow> length (din_bytes d) = 64"
  by (simp add: din_bytes_def bytes2_def length_concat comp_def sum_list_triv)

lemma fsync_exact:
  assumes "fs_ok s" "taken s (ino s)" "length (direct (din s)) = 12"
  shows "sfs_fsync s = Some (Inr (), if dirty s
    then s\<lparr>disk := (disk s)(ino s := put_bytes (disk s (ino s)) 0 (din_bytes (din s))), dirty := False\<rparr> else s)"
proof (cases "dirty s")
  case True
  let ?s = "s\<lparr>dirty := False\<rparr>"
  have "fs_ok ?s" "taken ?s (ino s)" using assms by (simp_all add: fs_ok_def taken_def)
  then have "sfs_wbuf (din_bytes (din s)) (ino s) 0 ?s
      = Some (Inr (), ?s\<lparr>disk := (disk ?s)(ino s := put_bytes (disk ?s (ino s)) 0 (din_bytes (din s)))\<rparr>)"
    using taken_buf(2) [of ?s "ino s" 0 "din_bytes (din s)"] length_din_bytes [OF assms(3)] by simp
  then show ?thesis using True by (simp add: sfs_fsync_def io_try_def ret_def)
next
  case False
  then show ?thesis by (simp add: sfs_fsync_def ret_def)
qed

lemma fsync_runs:
  assumes "fs_ok s" "taken s (ino s)" "length (direct (din s)) = 12"
  shows "\<exists>d b. sfs_fsync s = Some (Inr (), s\<lparr>disk := d, dirty := b\<rparr>)"
proof (cases "dirty s")
  case True
  then show ?thesis using fsync_exact [OF assms]
    by (intro exI [of _ "(disk s)(ino s := put_bytes (disk s (ino s)) 0 (din_bytes (din s)))"] exI [of _ False]) simp
next
  case False
  then show ?thesis using fsync_exact [OF assms] by (intro exI [of _ "disk s"] exI [of _ "dirty s"]) simp
qed

text \<open>Written back and read again, the inode is the same.\<close>

lemma word2_bytes2: "word2 (bytes2 w) = w"
proof (rule bit_word_eqI)
  fix n :: nat assume n: "n < LENGTH(16)"
  have "n < 8 \<or> 8 \<le> n" by linarith
  then show "bit (word2 (bytes2 w)) n = bit w n" using n by (elim disjE) (auto simp: word2_def bytes2_def bit_simps)
qed

lemma take_bytes4: "take 4 (bytes4 w @ xs) = bytes4 w" "drop 4 (bytes4 w @ xs) = xs"
  by (simp_all add: bytes4_def)

lemma concat_bytes4: "i < length ws \<Longrightarrow> take 4 (drop (4 * i) (concat (map bytes4 ws) @ xs)) = bytes4 (ws ! i)"
proof (induction ws arbitrary: i)
  case (Cons w ws)
  show ?case
  proof (cases i)
    case 0
    then show ?thesis using take_bytes4(1) [of w] by simp
  next
    case (Suc j)
    then have "drop (4 * i) (concat (map bytes4 (w # ws)) @ xs) = drop (4 * j) (drop 4 (bytes4 w @ (concat (map bytes4 ws) @ xs)))" by simp
    then show ?thesis using Cons Suc unfolding take_bytes4(2) by simp
  qed
qed simp

lemma din_of_bytes:
  assumes "length (direct d) = 12"
  shows "din_of (din_bytes d) = d"
proof -
  let ?t = "bytes4 (din_blocks d) @ concat (map bytes4 (direct d)) @ bytes4 (indirect d)"
  have b: "din_bytes d = bytes4 (din_size d) @ bytes2 (din_type d) @ bytes2 (din_nlinks d) @ ?t" by (simp add: din_bytes_def)
  have d4: "drop 4 (din_bytes d) = bytes2 (din_type d) @ bytes2 (din_nlinks d) @ ?t" unfolding b by (rule take_bytes4(2))
  have "drop 6 (din_bytes d) = drop 2 (drop 4 (din_bytes d))" "drop 8 (din_bytes d) = drop 4 (drop 4 (din_bytes d))" by simp_all
  then have d6: "drop 6 (din_bytes d) = bytes2 (din_nlinks d) @ ?t" and d8: "drop 8 (din_bytes d) = ?t" unfolding d4 by (simp_all add: bytes2_def)
  have d12: "drop (12 + k) (din_bytes d) = drop k (concat (map bytes4 (direct d)) @ bytes4 (indirect d))" for k
  proof -
    have "drop (12 + k) (din_bytes d) = drop k (drop 4 (drop 8 (din_bytes d)))" by (simp add: add.commute)
    then show ?thesis unfolding d8 take_bytes4(2) .
  qed
  have "direct (din_of (din_bytes d)) = direct d"
    unfolding din_of_def using assms by (intro nth_equalityI) (simp_all add: d12 concat_bytes4 bytes4_word4 del: take_append drop_append)
  moreover have "length (concat (map bytes4 (direct d))) = 48" using assms by (simp add: length_concat comp_def sum_list_triv)
  then have "drop 60 (din_bytes d) = bytes4 (indirect d)" using d12 [of 48] by simp
  moreover have "take 4 (din_bytes d) = bytes4 (din_size d)" "take 2 (drop 4 (din_bytes d)) = bytes2 (din_type d)"
      "take 2 (drop 6 (din_bytes d)) = bytes2 (din_nlinks d)" "take 4 (drop 8 (din_bytes d)) = bytes4 (din_blocks d)"
    unfolding d4 d6 d8 by (simp_all add: b take_bytes4) (simp_all add: bytes2_def)
  ultimately show ?thesis by (simp add: din_of_def bytes4_word4 word2_bytes2)
qed

section \<open>Properties\<close>

text \<open>C14: changing the length of a well-formed file. A shorter length keeps the bytes before it and gives exactly the blocks behind
  it back; a greater length keeps all the bytes. If the disk fills up on the way the call reports \<^verbatim>\<open>-E_NO_MEM\<close> with the
  bytes as before, but keeps the blocks it already got: a later call with the length the file has then fails its assertion.\<close>

theorem sfs_truncfile_exact:
  assumes "file_wf s" "len \<le> 1036 * 4096"
  shows "if len \<le> length (contents s)
    then \<exists>t. sfs_truncfile (of_nat len) s = Some (Inr (), t) \<and> file_wf t \<and> contents t = take len (contents s)
      \<and> free_set (freemap t) = free_set (freemap s) \<union> {unat (blockno s i) | i. blocks_for len \<le> i \<and> i < nblk s}
    else (\<exists>t. sfs_truncfile (of_nat len) s = Some (Inr (), t) \<and> file_wf t \<and> length (contents t) = len
        \<and> take (length (contents s)) (contents t) = contents s)
      \<or> (\<exists>t. sfs_truncfile (of_nat len) s = Some (Inl (- E_NO_MEM), t) \<and> contents t = contents s \<and> nblk s \<le> nblk t
        \<and> (nblk s < nblk t \<longrightarrow> sfs_truncfile (din_size (din t)) t = None))"
proof (cases "len \<le> length (contents s)")
  case True
  then have "len \<le> unat (din_size (din s))" by simp
  then show ?thesis using True by (simp only: if_True) (rule truncfile_cut [OF assms(1)], auto)
next
  case False
  then have len: "unat (din_size (din s)) < len" "len \<le> 4243456" using assms(2) by simp_all
  have panics: "sfs_truncfile (din_size (din t)) t = None"
    if "bmap_inv t" "din_size (din t) = din_size (din s)" "nblk s < nblk t" for t
    using truncfile_panics [OF that(1)] that(2,3) len assms(1) by (simp add: file_wf_def)
  show ?thesis using False by (simp only: if_False) (rule truncfile_extend [OF assms(1) len], use panics in blast, use panics in blast)
qed

theorem sfs_truncfile_exact_witness:
  "\<exists>t. sfs_truncfile (of_nat 0) demo_file = Some (Inr (), t) \<and> file_wf t \<and> contents t = []"
  using sfs_truncfile_exact [OF demo_file_wf(1), of 0] by (auto simp: demo_file_wf(3))

end
