(* ===== verification/Vfs.thy ===== *)
theory Vfs
  imports Sfs_Inode
begin

text \<open>
  The virtual file system (\<^verbatim>\<open>kern/fs/vfs/\<close>): the table of devices, paths, the current directory and opening. The operations of
  \<^verbatim>\<open>struct inode_ops\<close> and \<^verbatim>\<open>struct fs\<close> are function pointers; here they are the record \<open>vnode_ops\<close> over a state of the file
  systems below. A handler that is missing has no result. Nodes, file systems and file tables are numbers; the semaphores of this layer
  guard calls that are atomic here.
\<close>

section \<open>The code\<close>

definition O_WRONLY :: u32 where "O_WRONLY = 1"
definition O_RDWR :: u32 where "O_RDWR = 2"
definition O_CREAT :: u32 where "O_CREAT = 4"
definition O_EXCL :: u32 where "O_EXCL = 8"
definition O_TRUNC :: u32 where "O_TRUNC = 0x10"
definition FS_MAX_DNAME_LEN :: nat where "FS_MAX_DNAME_LEN = 31"
definition MAX_INODE_COUNT :: int where "MAX_INODE_COUNT = 0x10000"
definition S_ISDIR :: "u32 \<Rightarrow> bool" where "S_ISDIR mode \<longleftrightarrow> mode AND 0x7000 = S_IFDIR"

record 's vnode_ops =
  ref_count :: "'s \<Rightarrow> nat \<Rightarrow> int"
  open_count :: "'s \<Rightarrow> nat \<Rightarrow> int"
  in_fs :: "'s \<Rightarrow> nat \<Rightarrow> nat option"
  vop_ref_inc :: "nat \<Rightarrow> 's \<Rightarrow> 's"
  vop_ref_dec :: "nat \<Rightarrow> 's \<Rightarrow> 's option"
  vop_open_inc :: "nat \<Rightarrow> 's \<Rightarrow> 's"
  vop_open_dec :: "nat \<Rightarrow> 's \<Rightarrow> 's option"
  vop_open :: "nat \<Rightarrow> u32 \<Rightarrow> (unit, 's) io"
  vop_read :: "nat \<Rightarrow> nat \<Rightarrow> u32 \<Rightarrow> 's \<Rightarrow> ((int \<times> u8 list) \<times> 's) option"
  vop_write :: "nat \<Rightarrow> u8 list \<Rightarrow> u32 \<Rightarrow> 's \<Rightarrow> ((int \<times> nat) \<times> 's) option"
  vop_fstat :: "nat \<Rightarrow> (stat, 's) io"
  vop_fsync :: "nat \<Rightarrow> (unit, 's) io"
  vop_namefile :: "nat \<Rightarrow> nat \<Rightarrow> (u8 list, 's) io"
  vop_getdirentry :: "nat \<Rightarrow> u32 \<Rightarrow> (u8 list, 's) io"
  vop_gettype :: "nat \<Rightarrow> (u32, 's) io"
  vop_tryseek :: "nat \<Rightarrow> u32 \<Rightarrow> (unit, 's) io"
  vop_truncate :: "nat \<Rightarrow> u32 \<Rightarrow> (unit, 's) io"
  vop_create :: "nat \<Rightarrow> u8 list \<Rightarrow> bool \<Rightarrow> (nat, 's) io"
  vop_lookup :: "nat \<Rightarrow> u8 list \<Rightarrow> (nat, 's) io"

record 's fs_ops =
  fs_sync :: "nat \<Rightarrow> (unit, 's) io"
  fs_get_root :: "nat \<Rightarrow> 's \<Rightarrow> (nat \<times> 's) option"
  fs_unmount :: "nat \<Rightarrow> (unit, 's) io"
  fs_cleanup :: "nat \<Rightarrow> 's \<Rightarrow> 's option"

record vfs_dev =
  devname :: "u8 list"
  devnode :: "nat option"
  dev_fs :: "nat option"
  mountable :: bool

datatype fd_status = FD_NONE | FD_INIT | FD_OPENED | FD_CLOSED

record file_desc =
  f_status :: fd_status
  f_readable :: bool
  f_writable :: bool
  f_fd :: int
  f_pos :: u32
  f_node :: "nat option"
  f_count :: int

record fs_struct =
  fs_pwd :: "nat option"
  filemap :: "file_desc list"
  fs_count :: int

text \<open>\<open>fs_ids\<close> are the addresses of the file tables that are allocated, \<open>cur_fs\<close> is the one of the running process.\<close>

record 's vfs =
  under :: 's
  bootfs_node :: "nat option"
  vdev_list :: "vfs_dev list"
  fs_tab :: "nat \<Rightarrow> fs_struct"
  fs_ids :: "nat list"
  cur_fs :: "nat option"

subsection \<open>Calls through the tables of operations\<close>

definition inode_check :: "'s vnode_ops \<Rightarrow> nat \<Rightarrow> 's \<Rightarrow> bool" where
  "inode_check ops n u \<longleftrightarrow> open_count ops u n \<le> ref_count ops u n \<and> 0 \<le> open_count ops u n
     \<and> ref_count ops u n < MAX_INODE_COUNT \<and> open_count ops u n < MAX_INODE_COUNT"

definition on_under :: "('s \<Rightarrow> ('b \<times> 's) option) \<Rightarrow> 's vfs \<Rightarrow> ('b \<times> 's vfs) option" where
  "on_under f s = map_option (\<lambda>(r, u). (r, s\<lparr>under := u\<rparr>)) (f (under s))"

definition vop :: "'s vnode_ops \<Rightarrow> nat \<Rightarrow> ('s \<Rightarrow> ('b \<times> 's) option) \<Rightarrow> 's vfs \<Rightarrow> ('b \<times> 's vfs) option" where
  "vop ops n f s = do { kassert (inode_check ops n (under s)); on_under f s }"

definition ref_up :: "'s vnode_ops \<Rightarrow> nat \<Rightarrow> 's vfs \<Rightarrow> 's vfs" where
  "ref_up ops n s = s\<lparr>under := vop_ref_inc ops n (under s)\<rparr>"

definition ref_down :: "'s vnode_ops \<Rightarrow> nat \<Rightarrow> 's vfs \<Rightarrow> 's vfs option" where
  "ref_down ops n s = map_option (\<lambda>u. s\<lparr>under := u\<rparr>) (vop_ref_dec ops n (under s))"

definition open_up :: "'s vnode_ops \<Rightarrow> nat \<Rightarrow> 's vfs \<Rightarrow> 's vfs" where
  "open_up ops n s = s\<lparr>under := vop_open_inc ops n (under s)\<rparr>"

definition open_down :: "'s vnode_ops \<Rightarrow> nat \<Rightarrow> 's vfs \<Rightarrow> 's vfs option" where
  "open_down ops n s = map_option (\<lambda>u. s\<lparr>under := u\<rparr>) (vop_open_dec ops n (under s))"

subsection \<open>The table of devices\<close>

fun cleanup_devs :: "'s fs_ops \<Rightarrow> vfs_dev list \<Rightarrow> 's vfs \<Rightarrow> 's vfs option" where
  "cleanup_devs fops [] s = Some s"
| "cleanup_devs fops (d # ds) s = (case dev_fs d of
     None \<Rightarrow> cleanup_devs fops ds s
   | Some f \<Rightarrow> do { u \<leftarrow> fs_cleanup fops f (under s); cleanup_devs fops ds (s\<lparr>under := u\<rparr>) })"

definition vfs_cleanup :: "'s fs_ops \<Rightarrow> 's vfs \<Rightarrow> 's vfs option" where
  "vfs_cleanup fops s = cleanup_devs fops (vdev_list s) s"

definition vfs_get_root :: "'s vnode_ops \<Rightarrow> 's fs_ops \<Rightarrow> u8 list \<Rightarrow> (nat, 's vfs) io" where
  "vfs_get_root ops fops name s = (case find (\<lambda>d. devname d = name) (vdev_list s) of
     None \<Rightarrow> fail (- E_NO_DEV) s
   | Some d \<Rightarrow> (case dev_fs d of
       Some f \<Rightarrow> map_option (\<lambda>(n, s). (Inr n, s)) (on_under (fs_get_root fops f) s)
     | None \<Rightarrow>
         if \<not> mountable d
         then (case devnode d of None \<Rightarrow> None | Some n \<Rightarrow> ret n (ref_up ops n s))
         else fail (- E_NA_DEV) s))"

definition vfs_get_devname :: "nat \<Rightarrow> 's vfs \<Rightarrow> u8 list option" where
  "vfs_get_devname f s = map_option devname (find (\<lambda>d. dev_fs d = Some f) (vdev_list s))"

definition check_devname_conflict :: "u8 list \<Rightarrow> 's vfs \<Rightarrow> bool" where
  "check_devname_conflict name s \<longleftrightarrow> \<not> (\<exists>d \<in> set (vdev_list s). devname d = name)"

text \<open>\<open>is_dev\<close> tells which nodes are of type \<^verbatim>\<open>device\<close>; the two allocations are arguments.\<close>

definition vfs_do_add :: "(nat \<Rightarrow> bool) \<Rightarrow> bool \<Rightarrow> bool \<Rightarrow> u8 list \<Rightarrow> nat option \<Rightarrow> nat option \<Rightarrow> bool \<Rightarrow> (unit, 's vfs) io" where
  "vfs_do_add is_dev name_alloc vdev_alloc name node f mnt s = do {
     kassert (case node of None \<Rightarrow> \<not> mnt | Some n \<Rightarrow> is_dev n);
     if FS_MAX_DNAME_LEN < length name then fail (- E_TOO_BIG) s
     else if \<not> name_alloc then fail (- E_NO_MEM) s
     else if \<not> vdev_alloc then fail (- E_NO_MEM) s
     else if \<not> check_devname_conflict name s then fail (- E_EXISTS) s
     else ret () (s\<lparr>vdev_list := \<lparr>devname = name, devnode = node, dev_fs = f, mountable = mnt\<rparr> # vdev_list s\<rparr>)
   }"

definition vfs_add_fs :: "(nat \<Rightarrow> bool) \<Rightarrow> bool \<Rightarrow> bool \<Rightarrow> u8 list \<Rightarrow> nat \<Rightarrow> (unit, 's vfs) io" where
  "vfs_add_fs is_dev na va name f = vfs_do_add is_dev na va name None (Some f) False"

definition vfs_add_dev :: "(nat \<Rightarrow> bool) \<Rightarrow> bool \<Rightarrow> bool \<Rightarrow> u8 list \<Rightarrow> nat \<Rightarrow> bool \<Rightarrow> (unit, 's vfs) io" where
  "vfs_add_dev is_dev na va name n mnt = vfs_do_add is_dev na va name (Some n) None mnt"

text \<open>The position of a mountable device.\<close>

fun find_mount :: "u8 list \<Rightarrow> vfs_dev list \<Rightarrow> nat option" where
  "find_mount name [] = None"
| "find_mount name (d # ds) = (if mountable d \<and> devname d = name then Some 0 else map_option Suc (find_mount name ds))"

definition set_dev_fs :: "nat \<Rightarrow> nat option \<Rightarrow> 's vfs \<Rightarrow> 's vfs" where
  "set_dev_fs i f s = s\<lparr>vdev_list := (vdev_list s)[i := (vdev_list s ! i)\<lparr>dev_fs := f\<rparr>]\<rparr>"

definition vfs_mount :: "u8 list \<Rightarrow> (nat option \<Rightarrow> (nat, 's) io) \<Rightarrow> (unit, 's vfs) io" where
  "vfs_mount name mountfunc s = (case find_mount name (vdev_list s) of
     None \<Rightarrow> fail (- E_NO_DEV) s
   | Some i \<Rightarrow>
       if dev_fs (vdev_list s ! i) \<noteq> None then fail (- E_BUSY) s
       else io_then (on_under (mountfunc (devnode (vdev_list s ! i)))) (\<lambda>f s. ret () (set_dev_fs i (Some f) s)) s)"

definition vfs_unmount :: "'s fs_ops \<Rightarrow> u8 list \<Rightarrow> (unit, 's vfs) io" where
  "vfs_unmount fops name s = (case find_mount name (vdev_list s) of
     None \<Rightarrow> fail (- E_NO_DEV) s
   | Some i \<Rightarrow> (case dev_fs (vdev_list s ! i) of
       None \<Rightarrow> fail (- E_INVAL) s
     | Some f \<Rightarrow> io_then (on_under (fs_sync fops f)) (\<lambda>_.
         io_then (on_under (fs_unmount fops f)) (\<lambda>_ s. ret () (set_dev_fs i None s))) s))"

fun unmount_devs :: "'s fs_ops \<Rightarrow> nat \<Rightarrow> nat \<Rightarrow> 's vfs \<Rightarrow> 's vfs option" where
  "unmount_devs fops i 0 s = Some s"
| "unmount_devs fops i (Suc k) s = (case (mountable (vdev_list s ! i), dev_fs (vdev_list s ! i)) of
     (True, Some f) \<Rightarrow> do {
       (_, s) \<leftarrow> io_then (on_under (fs_sync fops f)) (\<lambda>_.
         io_then (on_under (fs_unmount fops f)) (\<lambda>_ s. ret () (set_dev_fs i None s))) s;
       unmount_devs fops (i + 1) k s
     }
   | _ \<Rightarrow> unmount_devs fops (i + 1) k s)"

definition vfs_unmount_all :: "'s fs_ops \<Rightarrow> (unit, 's vfs) io" where
  "vfs_unmount_all fops s = do { s \<leftarrow> unmount_devs fops 0 (length (vdev_list s)) s; ret () s }"

subsection \<open>The current directory\<close>

definition get_cwd :: "'s vfs \<Rightarrow> nat option option" where
  "get_cwd s = map_option (\<lambda>i. fs_pwd (fs_tab s i)) (cur_fs s)"

definition set_cwd :: "nat option \<Rightarrow> 's vfs \<Rightarrow> 's vfs option" where
  "set_cwd d s = map_option (\<lambda>i. s\<lparr>fs_tab := (fs_tab s)(i := (fs_tab s i)\<lparr>fs_pwd := d\<rparr>)\<rparr>) (cur_fs s)"

definition vfs_get_curdir :: "'s vnode_ops \<Rightarrow> (nat, 's vfs) io" where
  "vfs_get_curdir ops s = do {
     d \<leftarrow> get_cwd s;
     case d of Some n \<Rightarrow> ret n (ref_up ops n s) | None \<Rightarrow> fail (- E_NOENT) s
   }"

definition vfs_set_curdir :: "'s vnode_ops \<Rightarrow> nat option \<Rightarrow> (unit, 's vfs) io" where
  "vfs_set_curdir ops dir s = do {
     old \<leftarrow> get_cwd s;
     if old = dir then ret () s
     else io_then
       (case dir of
          None \<Rightarrow> ret ()
        | Some n \<Rightarrow> io_then (vop ops n (vop_gettype ops n)) (\<lambda>type s.
            if \<not> S_ISDIR type then fail (- E_NOTDIR) s else ret () (ref_up ops n s)))
       (\<lambda>_ s. do {
          s \<leftarrow> set_cwd dir s;
          s \<leftarrow> (case old of None \<Rightarrow> Some s | Some o' \<Rightarrow> ref_down ops o' s);
          ret () s
        }) s
   }"

subsection \<open>Paths\<close>

text \<open>The first colon or slash of a path: \<open>True\<close> for a colon, and its position.\<close>

fun path_sep :: "u8 list \<Rightarrow> nat \<Rightarrow> (bool \<times> nat) option" where
  "path_sep [] i = None"
| "path_sep (c # cs) i = (if c = 58 then Some (True, i) else if c = 47 then Some (False, i) else path_sep cs (i + 1))"

definition skip_slashes :: "u8 list \<Rightarrow> u8 list" where "skip_slashes = dropWhile (\<lambda>c. c = 47)"

definition vfs_get_bootfs :: "'s vnode_ops \<Rightarrow> (nat, 's vfs) io" where
  "vfs_get_bootfs ops s = (case bootfs_node s of Some n \<Rightarrow> ret n (ref_up ops n s) | None \<Rightarrow> fail (- E_NOENT) s)"

definition get_device :: "'s vnode_ops \<Rightarrow> 's fs_ops \<Rightarrow> u8 list \<Rightarrow> (u8 list \<times> nat, 's vfs) io" where
  "get_device ops fops path s = (case path_sep path 0 of
     Some (True, Suc c) \<Rightarrow>
       io_then (vfs_get_root ops fops (take (Suc c) path)) (\<lambda>n. ret (skip_slashes (drop (c + 2) path), n)) s
   | Some (False, 0) \<Rightarrow>
       io_then (vfs_get_bootfs ops) (\<lambda>n. ret (skip_slashes (tl path), n)) s
   | Some (True, 0) \<Rightarrow>
       io_then (vfs_get_curdir ops) (\<lambda>n s. do {
         f \<leftarrow> in_fs ops (under s) n;
         (root, s) \<leftarrow> on_under (fs_get_root fops f) s;
         s \<leftarrow> ref_down ops n s;
         ret (skip_slashes (tl path), root) s
       }) s
   | _ \<Rightarrow> io_then (vfs_get_curdir ops) (\<lambda>n. ret (path, n)) s)"

text \<open>The call overwrites the colon behind a device name with the end of the string.\<close>

definition path_after :: "u8 list \<Rightarrow> u8 list" where
  "path_after path = (case path_sep path 0 of Some (True, Suc c) \<Rightarrow> take (Suc c) path | _ \<Rightarrow> path)"

definition vfs_lookup :: "'s vnode_ops \<Rightarrow> 's fs_ops \<Rightarrow> u8 list \<Rightarrow> (nat, 's vfs) io" where
  "vfs_lookup ops fops path = io_then (get_device ops fops path) (\<lambda>(sub, n) s.
     if sub \<noteq> [] then do {
       (r, s) \<leftarrow> vop ops n (vop_lookup ops n sub) s;
       s \<leftarrow> ref_down ops n s;
       Some (r, s)
     }
     else ret n s)"

definition vfs_lookup_parent :: "'s vnode_ops \<Rightarrow> 's fs_ops \<Rightarrow> u8 list \<Rightarrow> (nat \<times> u8 list, 's vfs) io" where
  "vfs_lookup_parent ops fops path = io_then (get_device ops fops path) (\<lambda>(sub, n). ret (n, sub))"

definition vfs_chdir :: "'s vnode_ops \<Rightarrow> 's fs_ops \<Rightarrow> u8 list \<Rightarrow> (unit, 's vfs) io" where
  "vfs_chdir ops fops path = io_then (vfs_lookup ops fops path) (\<lambda>n s. do {
     (r, s) \<leftarrow> vfs_set_curdir ops (Some n) s;
     s \<leftarrow> ref_down ops n s;
     Some (r, s)
   })"

text \<open>The bytes go to a buffer of \<open>len\<close> bytes: as much as fits is copied, and less than all is an error.\<close>

definition vfs_getcwd :: "'s vnode_ops \<Rightarrow> nat \<Rightarrow> (u8 list, 's vfs) io" where
  "vfs_getcwd ops len = io_then (vfs_get_curdir ops) (\<lambda>n s. do {
     f \<leftarrow> in_fs ops (under s) n;
     name \<leftarrow> vfs_get_devname f s;
     (r, s) \<leftarrow> (if len < length name + 1 then fail (- E_NO_MEM) s
        else io_then (vop ops n (vop_namefile ops n (len - (length name + 1)))) (\<lambda>bs. ret (name @ [58] @ bs)) s);
     s \<leftarrow> ref_down ops n s;
     Some (r, s)
   })"

definition change_bootfs :: "'s vnode_ops \<Rightarrow> nat option \<Rightarrow> 's vfs \<Rightarrow> 's vfs option" where
  "change_bootfs ops node s = (case bootfs_node s of
     None \<Rightarrow> Some (s\<lparr>bootfs_node := node\<rparr>)
   | Some o' \<Rightarrow> ref_down ops o' (s\<lparr>bootfs_node := node\<rparr>))"

definition vfs_set_bootfs :: "'s vnode_ops \<Rightarrow> 's fs_ops \<Rightarrow> u8 list option \<Rightarrow> (unit, 's vfs) io" where
  "vfs_set_bootfs ops fops fsname s = (case fsname of
     None \<Rightarrow> do { s \<leftarrow> change_bootfs ops None s; ret () s }
   | Some name \<Rightarrow>
       if \<not> (58 \<in> set name \<and> dropWhile (\<lambda>c. c \<noteq> 58) name = [58]) then fail (- E_INVAL) s
       else io_then (vfs_chdir ops fops name) (\<lambda>_.
         io_then (vfs_get_curdir ops) (\<lambda>n s. do { s \<leftarrow> change_bootfs ops (Some n) s; ret () s })) s)"

subsection \<open>Opening and closing\<close>

definition vfs_close :: "'s vnode_ops \<Rightarrow> nat \<Rightarrow> 's vfs \<Rightarrow> 's vfs option" where
  "vfs_close ops n s = do { s \<leftarrow> open_down ops n s; ref_down ops n s }"

text \<open>The part of \<^verbatim>\<open>vfs_open\<close> behind the search.\<close>

definition open_node :: "'s vnode_ops \<Rightarrow> u32 \<Rightarrow> nat \<Rightarrow> (nat, 's vfs) io" where
  "open_node ops flags n s = do {
     (r, s) \<leftarrow> vop ops n (vop_open ops n flags) s;
     case r of
       Inl e \<Rightarrow> do { s \<leftarrow> ref_down ops n s; fail e s }
     | Inr _ \<Rightarrow> do {
         let s = open_up ops n s;
         if flags AND O_TRUNC \<noteq> 0 \<or> flags AND O_CREAT \<noteq> 0
         then do {
           (r, s) \<leftarrow> vop ops n (vop_truncate ops n 0) s;
           case r of
             Inl e \<Rightarrow> do { s \<leftarrow> open_down ops n s; s \<leftarrow> ref_down ops n s; fail e s }
           | Inr _ \<Rightarrow> ret n s
         }
         else ret n s
       }
   }"

text \<open>When \<^verbatim>\<open>vop_create\<close> fails its result is overwritten and the node used next was never set.\<close>

definition vfs_open :: "'s vnode_ops \<Rightarrow> 's fs_ops \<Rightarrow> u8 list \<Rightarrow> u32 \<Rightarrow> (nat, 's vfs) io" where
  "vfs_open ops fops path flags =
     (let acc = flags AND O_ACCMODE; can_write = (acc = O_WRONLY \<or> acc = O_RDWR);
          excl = (flags AND O_EXCL \<noteq> 0); create = (flags AND O_CREAT \<noteq> 0)
      in if \<not> (acc = O_RDONLY \<or> acc = O_WRONLY \<or> acc = O_RDWR) then fail (- E_INVAL)
      else if flags AND O_TRUNC \<noteq> 0 \<and> \<not> can_write then fail (- E_INVAL)
      else io_try (vfs_lookup ops fops path) (\<lambda>r. case r of
        Inl e \<Rightarrow>
          if e = - 16 \<and> create
          then io_then (vfs_lookup_parent ops fops (path_after path)) (\<lambda>(dir, name).
            io_try (vop ops dir (vop_create ops dir name excl)) (\<lambda>r. case r of
              Inl _ \<Rightarrow> (\<lambda>_. None)
            | Inr n \<Rightarrow> open_node ops flags n))
          else fail e
      | Inr n \<Rightarrow> if excl \<and> create then fail (- E_EXISTS) else open_node ops flags n))"

text \<open>What the layer does not support.\<close>

definition vfs_unlink :: "u8 list \<Rightarrow> int" where "vfs_unlink path = - E_UNIMP"
definition vfs_rename :: "u8 list \<Rightarrow> u8 list \<Rightarrow> int" where "vfs_rename old new = - E_UNIMP"
definition vfs_link :: "u8 list \<Rightarrow> u8 list \<Rightarrow> int" where "vfs_link old new = - E_UNIMP"

section \<open>What the layer promises about the counts\<close>

text \<open>How far a call moves the reference counts and the open counts of the nodes.\<close>

definition one :: "nat \<Rightarrow> nat \<Rightarrow> int" where "one n k = (if k = n then 1 else 0)"

abbreviation none :: "nat \<Rightarrow> int" where "none \<equiv> \<lambda>_. 0"

definition moves_u :: "'s vnode_ops \<Rightarrow> ('s \<Rightarrow> bool) \<Rightarrow> (nat \<Rightarrow> int) \<Rightarrow> (nat \<Rightarrow> int) \<Rightarrow> 's \<Rightarrow> 's \<Rightarrow> bool" where
  "moves_u ops good dr dop u v \<longleftrightarrow> good v \<and> (\<forall>k. ref_count ops v k = ref_count ops u k + dr k) \<and> (\<forall>k. open_count ops v k = open_count ops u k + dop k)"

text \<open>The reference a call hands out with its result.\<close>

definition given :: "int + nat \<Rightarrow> nat \<Rightarrow> int" where
  "given r = (case r of Inl _ \<Rightarrow> none | Inr n \<Rightarrow> one n)"

definition moves :: "'s vnode_ops \<Rightarrow> ('s \<Rightarrow> bool) \<Rightarrow> (nat \<Rightarrow> int) \<Rightarrow> (nat \<Rightarrow> int) \<Rightarrow> 's vfs \<Rightarrow> 's vfs \<Rightarrow> bool" where
  "moves ops good dr dop s t \<longleftrightarrow> moves_u ops good dr dop (under s) (under t) \<and> t = s\<lparr>under := under t\<rparr>"

text \<open>The nodes the layer holds itself are referenced.\<close>

definition holds_refs :: "'s vnode_ops \<Rightarrow> ('s \<Rightarrow> bool) \<Rightarrow> 's vfs \<Rightarrow> bool" where
  "holds_refs ops good s \<longleftrightarrow> good (under s) \<and> (\<forall>n. get_cwd s = Some (Some n) \<or> bootfs_node s = Some n
     \<or> (\<exists>d \<in> set (vdev_list s). devnode d = Some n) \<longrightarrow> 0 < ref_count ops (under s) n)"

lemma given_simps [simp]: "given (Inl e) = none" "given (Inr n) = one n"
  by (simp_all add: given_def)

lemma one_simps [simp]: "one n n = 1" "k \<noteq> n \<Longrightarrow> one n k = 0" "0 \<le> one n k"
  by (simp_all add: one_def)

lemma find_member: "find P xs = Some x \<Longrightarrow> x \<in> set xs"
  by (auto simp: find_Some_iff)

text \<open>The contract between this layer and a file system below it.\<close>

locale vnodes =
  fixes ops :: "'s vnode_ops" and fops :: "'s fs_ops" and good :: "'s \<Rightarrow> bool"
  assumes nonneg: "good u \<Longrightarrow> 0 \<le> ref_count ops u n"
    and ref_inc: "good u \<Longrightarrow> 0 < ref_count ops u n \<Longrightarrow> moves_u ops good (one n) none u (vop_ref_inc ops n u)"
    and ref_dec: "good u \<Longrightarrow> vop_ref_dec ops n u = Some v \<Longrightarrow> moves_u ops good (\<lambda>k. - one n k) none u v"
    and open_inc: "good u \<Longrightarrow> 0 < ref_count ops u n \<Longrightarrow> moves_u ops good none (one n) u (vop_open_inc ops n u)"
    and open_dec: "good u \<Longrightarrow> 0 < ref_count ops u n \<Longrightarrow> vop_open_dec ops n u = Some v \<Longrightarrow> moves_u ops good none (\<lambda>k. - one n k) u v"
    and open_quiet: "good u \<Longrightarrow> vop_open ops n flags u = Some (ru, v) \<Longrightarrow> moves_u ops good none none u v"
    and read_quiet: "good u \<Longrightarrow> vop_read ops n len pos u = Some (rr, v) \<Longrightarrow> moves_u ops good none none u v"
    and write_quiet: "good u \<Longrightarrow> vop_write ops n bs pos u = Some (rw, v) \<Longrightarrow> moves_u ops good none none u v"
    and fstat_quiet: "good u \<Longrightarrow> vop_fstat ops n u = Some (rs, v) \<Longrightarrow> moves_u ops good none none u v"
    and fsync_quiet: "good u \<Longrightarrow> vop_fsync ops n u = Some (ru, v) \<Longrightarrow> moves_u ops good none none u v"
    and namefile_quiet: "good u \<Longrightarrow> 0 < ref_count ops u n \<Longrightarrow> vop_namefile ops n len u = Some (rb, v) \<Longrightarrow> moves_u ops good none none u v"
    and getdirentry_quiet: "good u \<Longrightarrow> vop_getdirentry ops n pos u = Some (rb, v) \<Longrightarrow> moves_u ops good none none u v"
    and gettype_quiet: "good u \<Longrightarrow> vop_gettype ops n u = Some (rt, v) \<Longrightarrow> moves_u ops good none none u v"
    and tryseek_quiet: "good u \<Longrightarrow> vop_tryseek ops n pos u = Some (ru, v) \<Longrightarrow> moves_u ops good none none u v"
    and truncate_quiet: "good u \<Longrightarrow> vop_truncate ops n pos u = Some (ru, v) \<Longrightarrow> moves_u ops good none none u v"
    and create_gives: "good u \<Longrightarrow> 0 < ref_count ops u n \<Longrightarrow> vop_create ops n bs excl u = Some (rn, v) \<Longrightarrow> moves_u ops good (given rn) none u v"
    and lookup_gives: "good u \<Longrightarrow> 0 < ref_count ops u n \<Longrightarrow> vop_lookup ops n bs u = Some (rn, v) \<Longrightarrow> moves_u ops good (given rn) none u v"
    and root_gives: "good u \<Longrightarrow> fs_get_root fops f u = Some (n, v) \<Longrightarrow> moves_u ops good (one n) none u v"
begin

lemma moves_trans: "moves ops good d e s t \<Longrightarrow> moves ops good d' e' t w \<Longrightarrow> moves ops good (\<lambda>k. d k + d' k) (\<lambda>k. e k + e' k) s w"
  unfolding moves_def moves_u_def by (metis (no_types, lifting) add.assoc vfs.surjective vfs.update_convs(1))

lemma moves_cong: "moves ops good d e s t \<Longrightarrow> (\<And>k. d' k = d k) \<Longrightarrow> (\<And>k. e' k = e k) \<Longrightarrow> moves ops good d' e' s t"
  by (simp add: moves_def moves_u_def)

lemma moves_refl: "good (under s) \<Longrightarrow> moves ops good none none s s"
  by (simp add: moves_def moves_u_def)

lemma moves_good: "moves ops good d e s t \<Longrightarrow> good (under t)"
  by (simp add: moves_def moves_u_def)

lemma moves_ref: "moves ops good d e s t \<Longrightarrow> ref_count ops (under t) k = ref_count ops (under s) k + d k"
  by (simp add: moves_def moves_u_def)

lemma moves_given_pos: "moves ops good (one n) e s t \<Longrightarrow> holds_refs ops good s \<Longrightarrow> 0 < ref_count ops (under t) n"
  using moves_ref [of "one n" e s t n] nonneg [of "under s" n] by (simp add: holds_refs_def)

lemma moves_frame:
  assumes "moves ops good d e s t"
  shows "bootfs_node t = bootfs_node s" "vdev_list t = vdev_list s" "fs_tab t = fs_tab s" "fs_ids t = fs_ids s" "cur_fs t = cur_fs s"
proof -
  obtain v where "t = s\<lparr>under := v\<rparr>" using assms by (auto simp: moves_def)
  then show "bootfs_node t = bootfs_node s" "vdev_list t = vdev_list s" "fs_tab t = fs_tab s" "fs_ids t = fs_ids s" "cur_fs t = cur_fs s" by simp_all
qed

lemma holds_refs_moves:
  assumes "holds_refs ops good s" "moves ops good d e s t" "\<And>k. 0 \<le> d k"
  shows "holds_refs ops good t"
proof -
  have "0 < ref_count ops (under s) k \<Longrightarrow> 0 < ref_count ops (under t) k" for k using moves_ref [OF assms(2), of k] assms(3) [of k] by simp
  then show ?thesis using assms(1) moves_frame [OF assms(2)] moves_good [OF assms(2)] by (simp add: holds_refs_def get_cwd_def)
qed

lemma moves_under: "moves_u ops good d e (under s) v \<Longrightarrow> moves ops good d e s (s\<lparr>under := v\<rparr>)"
  by (simp add: moves_def)

lemma ref_up_moves: "good (under s) \<Longrightarrow> 0 < ref_count ops (under s) n \<Longrightarrow> moves ops good (one n) none s (ref_up ops n s)"
  by (simp add: ref_up_def moves_under ref_inc)

lemma ref_down_moves: "good (under s) \<Longrightarrow> ref_down ops n s = Some t \<Longrightarrow> moves ops good (\<lambda>k. - one n k) none s t"
  by (auto simp: ref_down_def intro: moves_under ref_dec)

lemma open_up_moves: "good (under s) \<Longrightarrow> 0 < ref_count ops (under s) n \<Longrightarrow> moves ops good none (one n) s (open_up ops n s)"
  by (simp add: open_up_def moves_under open_inc)

lemma open_down_moves:
  "good (under s) \<Longrightarrow> 0 < ref_count ops (under s) n \<Longrightarrow> open_down ops n s = Some t \<Longrightarrow> moves ops good none (\<lambda>k. - one n k) s t"
  by (auto simp: open_down_def intro: moves_under open_dec)

lemma on_under_moves:
  assumes "on_under f s = Some (r, t)" "\<And>v. f (under s) = Some (r, v) \<Longrightarrow> moves_u ops good d e (under s) v"
  shows "moves ops good d e s t"
  using assms by (auto simp: on_under_def intro: moves_under)

lemma vop_moves:
  assumes "vop ops n f s = Some (r, t)" "\<And>v. f (under s) = Some (r, v) \<Longrightarrow> moves_u ops good d e (under s) v"
  shows "moves ops good d e s t"
  using assms(1) on_under_moves [OF _ assms(2)] by (auto simp: vop_def split: if_splits)

end

context vnodes
begin

lemma get_root_moves:
  assumes "vfs_get_root ops fops name s = Some (r, t)" "holds_refs ops good s"
  shows "moves ops good (given r) none s t"
proof -
  have g: "good (under s)" using assms(2) by (simp add: holds_refs_def)
  have "moves ops good (one n) none s t" if "on_under (fs_get_root fops f) s = Some (n, t)" for f n
    using that by (rule on_under_moves) (rule root_gives [OF g])
  moreover have "moves ops good (one n) none s (ref_up ops n s)" if "find (\<lambda>d. devname d = name) (vdev_list s) = Some d" "devnode d = Some n" for d n
    by (rule ref_up_moves [OF g]) (use assms(2) find_member [OF that(1)] that(2) in \<open>auto simp: holds_refs_def\<close>)
  ultimately show ?thesis
    using assms(1) moves_refl [OF g] by (auto simp: vfs_get_root_def io_defs split: option.splits if_splits)
qed

lemma get_curdir_moves:
  assumes "vfs_get_curdir ops s = Some (r, t)" "holds_refs ops good s"
  shows "moves ops good (given r) none s t"
  using assms moves_refl [of s] ref_up_moves [of s] by (auto simp: vfs_get_curdir_def holds_refs_def io_defs bind_eq_Some_conv split: option.splits)

lemma get_bootfs_moves:
  assumes "vfs_get_bootfs ops s = Some (r, t)" "holds_refs ops good s"
  shows "moves ops good (given r) none s t"
  using assms moves_refl [of s] ref_up_moves [of s] by (auto simp: vfs_get_bootfs_def holds_refs_def io_defs split: option.splits)

lemma get_device_moves:
  assumes "get_device ops fops path s = Some (r, t)" "holds_refs ops good s"
  shows "moves ops good (given (map_sum id snd r)) none s t"
proof -
  have direct: "moves ops good (given (map_sum id snd r)) none s t"
    if "io_then m (\<lambda>n. ret (sub, n)) s = Some (r, t)" "\<And>q. m s = Some (q, t) \<Longrightarrow> moves ops good (given q) none s t" for m sub
    using that by (auto elim!: io_thenE simp: ret_def)
  have root: "moves ops good (given (map_sum id snd r)) none s t"
    if "io_then (vfs_get_curdir ops) (\<lambda>n s. do {
         f \<leftarrow> in_fs ops (under s) n;
         (root, s) \<leftarrow> on_under (fs_get_root fops f) s;
         s \<leftarrow> ref_down ops n s;
         ret (sub, root) s
       }) s = Some (r, t)" for sub
    using that
  proof (rule io_thenE)
    fix n u assume u: "vfs_get_curdir ops s = Some (Inr n, u)" "(do {
         f \<leftarrow> in_fs ops (under u) n;
         (root, s) \<leftarrow> on_under (fs_get_root fops f) u;
         s \<leftarrow> ref_down ops n s;
         ret (sub, root) s
       }) = Some (r, t)"
    have mu: "moves ops good (one n) none s u" using get_curdir_moves [OF u(1) assms(2)] by simp
    obtain f k v where v: "on_under (fs_get_root fops f) u = Some (k, v)" "ref_down ops n v = Some t" "r = Inr (sub, k)"
      using u(2) by (auto simp: bind_eq_Some_conv ret_def)
    have mv: "moves ops good (one k) none u v"
      using v(1) by (rule on_under_moves) (rule root_gives [OF moves_good [OF mu]])
    note mt = ref_down_moves [OF moves_good [OF mv] v(2)]
    show ?thesis by (rule moves_cong [OF moves_trans [OF moves_trans [OF mu mv] mt]]) (simp_all add: v(3))
  next
    fix e assume e: "vfs_get_curdir ops s = Some (Inl e, t)" "r = Inl e"
    show ?thesis using get_curdir_moves [OF e(1) assms(2)] by (simp add: e(2))
  qed
  show ?thesis
    using assms(1) direct root get_curdir_moves [OF _ assms(2)] get_root_moves [OF _ assms(2)] get_bootfs_moves [OF _ assms(2)]
    unfolding get_device_def by (auto split: option.splits prod.splits bool.splits nat.splits)
qed

lemma lookup_moves:
  assumes "vfs_lookup ops fops path s = Some (r, t)" "holds_refs ops good s"
  shows "moves ops good (given r) none s t"
  using assms(1) unfolding vfs_lookup_def
proof (rule io_thenE)
  fix e assume "get_device ops fops path s = Some (Inl e, t)" "r = Inl e"
  then show ?thesis using get_device_moves [OF _ assms(2)] by fastforce
next
  fix a u assume u: "get_device ops fops path s = Some (Inr a, u)" "(case a of (sub, n) \<Rightarrow> \<lambda>s. if sub \<noteq> [] then do {
       (r, s) \<leftarrow> vop ops n (vop_lookup ops n sub) s;
       s \<leftarrow> ref_down ops n s;
       Some (r, s)
     }
     else ret n s) u = Some (r, t)"
  obtain sub n where a: "a = (sub, n)" by force
  have mu: "moves ops good (one n) none s u" using get_device_moves [OF u(1) assms(2)] by (simp add: a)
  show ?thesis
  proof (cases "sub = []")
    case False
    then obtain v where v: "vop ops n (vop_lookup ops n sub) u = Some (r, v)" "ref_down ops n v = Some t"
      using u(2) by (auto simp: a bind_eq_Some_conv)
    have "0 < ref_count ops (under u) n" using moves_given_pos [OF mu assms(2)] .
    then have mv: "moves ops good (given r) none u v"
      using v(1) by (auto elim!: vop_moves intro: lookup_gives [OF moves_good [OF mu]])
    note mt = ref_down_moves [OF moves_good [OF mv] v(2)]
    show ?thesis by (rule moves_cong [OF moves_trans [OF moves_trans [OF mu mv] mt]]) simp_all
  qed (use mu u(2) in \<open>auto simp: a ret_def\<close>)
qed

end

context vnodes
begin

lemma close_moves:
  assumes "vfs_close ops n s = Some t" "good (under s)" "0 < ref_count ops (under s) n"
  shows "moves ops good (\<lambda>k. - one n k) (\<lambda>k. - one n k) s t"
proof -
  obtain u where u: "open_down ops n s = Some u" "ref_down ops n u = Some t" using assms(1) by (auto simp: vfs_close_def bind_eq_Some_conv)
  note mu = open_down_moves [OF assms(2,3) u(1)]
  show ?thesis by (rule moves_cong [OF moves_trans [OF mu ref_down_moves [OF moves_good [OF mu] u(2)]]]) simp_all
qed

lemma open_node_moves:
  assumes "open_node ops flags n s = Some (r, t)" "good (under s)" "0 < ref_count ops (under s) n"
  shows "moves ops good (\<lambda>k. given r k - one n k) (given r) s t \<and> (\<forall>k. r = Inr k \<longrightarrow> k = n)"
proof -
  obtain q u where u: "vop ops n (vop_open ops n flags) s = Some (q, u)" using assms(1) by (auto simp: open_node_def bind_eq_Some_conv)
  have mu: "moves ops good none none s u" using u by (rule vop_moves) (rule open_quiet [OF assms(2)])
  have pos: "0 < ref_count ops (under u) n" using moves_ref [OF mu, of n] assms(3) by simp
  note mo = open_up_moves [OF moves_good [OF mu] pos]
  show ?thesis
  proof (cases q)
    case (Inl e)
    then have t: "ref_down ops n u = Some t" "r = Inl e" using assms(1) u by (auto simp: open_node_def bind_eq_Some_conv fail_def)
    show ?thesis using moves_cong [OF moves_trans [OF mu ref_down_moves [OF moves_good [OF mu] t(1)]]] by (simp add: t(2))
  next
    case (Inr a)
    show ?thesis
    proof (cases "flags AND O_TRUNC \<noteq> 0 \<or> flags AND O_CREAT \<noteq> 0")
      case False
      then have t: "t = open_up ops n u" "r = Inr n" using assms(1) u Inr by (auto simp: open_node_def ret_def)
      show ?thesis using moves_cong [OF moves_trans [OF mu mo]] by (simp add: t)
    next
      case True
      obtain p v where v: "vop ops n (vop_truncate ops n 0) (open_up ops n u) = Some (p, v)"
          "(case p of Inl e \<Rightarrow> do { s \<leftarrow> open_down ops n v; s \<leftarrow> ref_down ops n s; fail e s } | Inr _ \<Rightarrow> ret n v) = Some (r, t)"
        using assms(1) u Inr True by (auto simp: open_node_def bind_eq_Some_conv)
      have mv: "moves ops good none none (open_up ops n u) v" using v(1) by (rule vop_moves) (rule truncate_quiet [OF moves_good [OF mo]])
      note sv = moves_trans [OF moves_trans [OF mu mo] mv]
      show ?thesis
      proof (cases p)
        case (Inl e)
        then have t: "vfs_close ops n v = Some t" "r = Inl e" using v(2) by (auto simp: vfs_close_def bind_eq_Some_conv fail_def)
        have "0 < ref_count ops (under v) n" using moves_ref [OF sv, of n] assms(3) by simp
        then show ?thesis using moves_cong [OF moves_trans [OF sv close_moves [OF t(1) moves_good [OF mv]]]] by (simp add: t(2))
      next
        case (Inr b)
        then have t: "t = v" "r = Inr n" using v(2) by (auto simp: ret_def)
        show ?thesis using moves_cong [OF sv] by (simp add: t)
      qed
    qed
  qed
qed

text \<open>A successful opening takes one reference and one opening of its node; a failure takes nothing. With \<^verbatim>\<open>O_CREAT\<close> there may be
  references \<open>l\<close> that are never given back.\<close>

lemma open_moves:
  assumes "vfs_open ops fops path flags s = Some (r, t)" "holds_refs ops good s"
  shows "\<exists>l. (\<forall>k. 0 \<le> l k) \<and> (flags AND O_CREAT = 0 \<longrightarrow> l = none) \<and> moves ops good (\<lambda>k. given r k + l k) (given r) s t"
proof (cases "t = s \<and> (\<exists>e. r = Inl e)")
  case True
  then show ?thesis using moves_refl assms(2) by (auto simp: holds_refs_def intro!: exI [of _ none] elim!: moves_cong)
next
  case False
  obtain q u where u: "vfs_lookup ops fops path s = Some (q, u)"
    using assms(1) False by (auto simp: vfs_open_def Let_def io_defs split: if_splits option.splits)
  note mu = lookup_moves [OF u assms(2)]
  have found: "moves ops good (given r) (given r) s t" if "open_node ops flags n u = Some (r, t)" "q = Inr n" for n
  proof -
    have m: "moves ops good (one n) none s u" using mu that(2) by simp
    have "moves ops good (\<lambda>k. given r k - one n k) (given r) u t" using open_node_moves [OF that(1) moves_good [OF mu] moves_given_pos [OF m assms(2)]] by blast
    from moves_trans [OF m this] show ?thesis by (rule moves_cong) simp_all
  qed
  consider (failed) e where "q = Inl e" "t = u" "r = Inl e" | (leak) n where "q = Inr n" "t = u" "r = Inl (- E_EXISTS)" "flags AND O_CREAT \<noteq> 0"
    | (opened) n where "q = Inr n" "open_node ops flags n u = Some (r, t)"
    | (created) e where "q = Inl e" "flags AND O_CREAT \<noteq> 0" "io_then (vfs_lookup_parent ops fops (path_after path)) (\<lambda>(dir, name).
            io_try (vop ops dir (vop_create ops dir name (flags AND O_EXCL \<noteq> 0))) (\<lambda>r. case r of
              Inl _ \<Rightarrow> (\<lambda>_. None) | Inr n \<Rightarrow> open_node ops flags n)) u = Some (r, t)"
    using assms(1) False u
    by (auto simp: vfs_open_def Let_def io_try_def fail_def split: if_splits option.splits prod.splits sum.splits)
  then show ?thesis
  proof cases
    case failed
    then show ?thesis using mu by (auto intro!: exI [of _ none] elim!: moves_cong)
  next
    case leak
    then show ?thesis using mu by (auto intro!: exI [of _ "one n"] elim!: moves_cong)
  next
    case (opened n)
    then show ?thesis using found by (auto intro!: exI [of _ none] elim!: moves_cong)
  next
    case created
    have su: "moves ops good none none s u" using mu created(1) by simp
    have hu: "holds_refs ops good u" using holds_refs_moves [OF assms(2) su] by simp
    from created(3) show ?thesis
    proof (rule io_thenE)
      fix e assume e: "vfs_lookup_parent ops fops (path_after path) u = Some (Inl e, t)" "r = Inl e"
      then have "get_device ops fops (path_after path) u = Some (Inl e, t)"
        by (auto simp: vfs_lookup_parent_def ret_def elim!: io_thenE)
      then have "moves ops good none none u t" using get_device_moves [OF _ hu] by fastforce
      then show ?thesis using moves_cong [OF moves_trans [OF su]] e(2) by (auto intro!: exI [of _ none])
    next
      fix a v assume v: "vfs_lookup_parent ops fops (path_after path) u = Some (Inr a, v)" "(case a of (dir, name) \<Rightarrow>
            io_try (vop ops dir (vop_create ops dir name (flags AND O_EXCL \<noteq> 0))) (\<lambda>r. case r of
              Inl _ \<Rightarrow> (\<lambda>_. None) | Inr n \<Rightarrow> open_node ops flags n)) v = Some (r, t)"
      obtain dir name where a: "a = (dir, name)" by force
      have "get_device ops fops (path_after path) u = Some (Inr (name, dir), v)"
        using v(1) by (auto simp: vfs_lookup_parent_def ret_def a elim!: io_thenE)
      then have mv: "moves ops good (one dir) none u v" using get_device_moves [OF _ hu] by fastforce
      obtain n w where w: "vop ops dir (vop_create ops dir name (flags AND O_EXCL \<noteq> 0)) v = Some (Inr n, w)" "open_node ops flags n w = Some (r, t)"
        using v(2) by (auto simp: a io_try_def split: option.splits sum.splits)
      have mw: "moves ops good (one n) none v w"
        using w(1) create_gives [OF moves_good [OF mv] moves_given_pos [OF mv hu]] by (auto elim!: vop_moves) fastforce
      have "0 < ref_count ops (under w) n" using moves_ref [OF mw, of n] nonneg [OF moves_good [OF mv], of n] by simp
      then have mt: "moves ops good (\<lambda>k. given r k - one n k) (given r) w t" using open_node_moves [OF w(2) moves_good [OF mw]] by blast
      show ?thesis
        using moves_cong [OF moves_trans [OF moves_trans [OF moves_trans [OF su mv] mw] mt]] created(2) by (intro exI [of _ "one dir"]) simp
    qed
  qed
qed

end

text \<open>The references of an optional node.\<close>

definition ones :: "nat option \<Rightarrow> nat \<Rightarrow> int" where "ones o' = (case o' of None \<Rightarrow> none | Some n \<Rightarrow> one n)"

lemma ones_simps [simp]: "ones None = none" "ones (Some n) = one n" "0 \<le> ones o' k"
  by (auto simp: ones_def split: option.split)

context vnodes
begin

lemma ref_downs_moves:
  assumes "(case o' of None \<Rightarrow> Some s | Some n \<Rightarrow> ref_down ops n s) = Some t" "good (under s)"
  shows "moves ops good (\<lambda>k. - ones o' k) none s t"
  using assms moves_refl ref_down_moves by (auto split: option.splits)

lemma set_cwd_moves:
  assumes "moves ops good d e s t" "set_cwd x t = Some w"
  obtains y where "set_cwd x s = Some y" "moves ops good d e y w"
proof -
  obtain v where v: "t = s\<lparr>under := v\<rparr>" "moves_u ops good d e (under s) v" using assms(1) by (auto simp: moves_def)
  show thesis using assms(2) v that by (auto simp: set_cwd_def moves_def)
qed

text \<open>Changing the directory moves a reference from the old to the new one.\<close>

lemma set_curdir_moves:
  assumes "vfs_set_curdir ops (Some n) s = Some (r, t)" "good (under s)" "0 < ref_count ops (under s) n" "get_cwd s = Some old"
  shows "case r of Inl _ \<Rightarrow> moves ops good none none s t
    | Inr _ \<Rightarrow> \<exists>u. set_cwd (Some n) s = Some u \<and> moves ops good (\<lambda>k. one n k - ones old k) none u t"
proof (cases "old = Some n")
  case True
  obtain i where i: "cur_fs s = Some i" "fs_pwd (fs_tab s i) = Some n" using assms(4) True by (auto simp: get_cwd_def)
  have "r = Inr ()" "t = s" using assms(1,4) True by (auto simp: vfs_set_curdir_def ret_def)
  moreover have "set_cwd (Some n) s = Some s" using i by (auto simp: set_cwd_def fun_upd_idem)
  ultimately show ?thesis using True moves_cong [OF moves_refl [OF assms(2)]] by simp
next
  case False
  have run: "io_then (vop ops n (vop_gettype ops n)) (\<lambda>type s.
            if \<not> S_ISDIR type then fail (- E_NOTDIR) s else do {
              s \<leftarrow> set_cwd (Some n) (ref_up ops n s);
              s \<leftarrow> (case old of None \<Rightarrow> Some s | Some o' \<Rightarrow> ref_down ops o' s);
              ret () s
            }) s = Some (r, t)"
    using assms(1,4) False by (auto simp: vfs_set_curdir_def io_defs split: option.splits sum.splits if_splits)
  then show ?thesis
  proof (rule io_thenE)
    fix e assume e: "vop ops n (vop_gettype ops n) s = Some (Inl e, t)" "r = Inl e"
    then show ?thesis by (auto elim!: vop_moves intro: gettype_quiet [OF assms(2)])
  next
    fix ty u assume u: "vop ops n (vop_gettype ops n) s = Some (Inr ty, u)" "(if \<not> S_ISDIR ty then fail (- E_NOTDIR) u else do {
              s \<leftarrow> set_cwd (Some n) (ref_up ops n u);
              s \<leftarrow> (case old of None \<Rightarrow> Some s | Some o' \<Rightarrow> ref_down ops o' s);
              ret () s
            }) = Some (r, t)"
    have mu: "moves ops good none none s u" using u(1) by (rule vop_moves) (rule gettype_quiet [OF assms(2)])
    have pos: "0 < ref_count ops (under u) n" using moves_ref [OF mu, of n] assms(3) by simp
    show ?thesis
    proof (cases "S_ISDIR ty")
      case False
      then show ?thesis using u(2) mu by (simp add: fail_def) auto
    next
      case True
      note mv = moves_trans [OF mu ref_up_moves [OF moves_good [OF mu] pos]]
      obtain w where w: "set_cwd (Some n) (ref_up ops n u) = Some w" "(case old of None \<Rightarrow> Some w | Some o' \<Rightarrow> ref_down ops o' w) = Some t" "r = Inr ()"
        using u(2) True by (auto simp: bind_eq_Some_conv ret_def split: option.splits)
      obtain x where x: "set_cwd (Some n) s = Some x" "moves ops good (\<lambda>k. 0 + one n k) (\<lambda>k. 0 + 0) x w" by (rule set_cwd_moves [OF mv w(1)])
      have "moves ops good (\<lambda>k. - ones old k) none w t" using ref_downs_moves [OF w(2)] moves_good [OF x(2)] by simp
      from moves_trans [OF x(2) this] have "moves ops good (\<lambda>k. one n k - ones old k) none x t" by (rule moves_cong) simp_all
      then show ?thesis using x(1) w(3) by auto
    qed
  qed
qed

lemma chdir_moves:
  assumes "vfs_chdir ops fops path s = Some (r, t)" "holds_refs ops good s" "get_cwd s = Some old"
  shows "case r of Inl _ \<Rightarrow> moves ops good none none s t
    | Inr _ \<Rightarrow> \<exists>n u. set_cwd (Some n) s = Some u \<and> moves ops good (\<lambda>k. one n k - ones old k) none u t"
  using assms(1) unfolding vfs_chdir_def
proof (rule io_thenE)
  fix e assume "vfs_lookup ops fops path s = Some (Inl e, t)" "r = Inl e"
  then show ?thesis using lookup_moves [OF _ assms(2)] by fastforce
next
  fix n u assume u: "vfs_lookup ops fops path s = Some (Inr n, u)"
    "(do { (r, s) \<leftarrow> vfs_set_curdir ops (Some n) u; s \<leftarrow> ref_down ops n s; Some (r, s) }) = Some (r, t)"
  have mu: "moves ops good (one n) none s u" using lookup_moves [OF u(1) assms(2)] by simp
  note fr = moves_frame [OF mu]
  obtain v where v: "vfs_set_curdir ops (Some n) u = Some (r, v)" "ref_down ops n v = Some t" using u(2) by (auto simp: bind_eq_Some_conv)
  have cwd: "get_cwd u = Some old" using assms(3) fr by (simp add: get_cwd_def)
  note sc = set_curdir_moves [OF v(1) moves_good [OF mu] moves_given_pos [OF mu assms(2)] cwd]
  show ?thesis
  proof (cases r)
    case (Inl e)
    then have mv: "moves ops good none none u v" using sc by simp
    show ?thesis using Inl moves_cong [OF moves_trans [OF moves_trans [OF mu mv] ref_down_moves [OF moves_good [OF mv] v(2)]]] by simp
  next
    case (Inr a)
    then obtain w where w: "set_cwd (Some n) u = Some w" "moves ops good (\<lambda>k. one n k - ones old k) none w v" using sc by auto
    obtain x where x: "set_cwd (Some n) s = Some x" "moves ops good (one n) none x w" by (rule set_cwd_moves [OF mu w(1)])
    from moves_trans [OF moves_trans [OF x(2) w(2)] ref_down_moves [OF moves_good [OF w(2)] v(2)]]
    have "moves ops good (\<lambda>k. one n k - ones old k) none x t" by (rule moves_cong) simp_all
    then show ?thesis using Inr x(1) by auto
  qed
qed

lemma getcwd_moves:
  assumes "vfs_getcwd ops len s = Some (r, t)" "holds_refs ops good s"
  shows "moves ops good none none s t"
  using assms(1) unfolding vfs_getcwd_def
proof (rule io_thenE)
  fix e assume "vfs_get_curdir ops s = Some (Inl e, t)" "r = Inl e"
  then show ?thesis using get_curdir_moves [OF _ assms(2)] by fastforce
next
  fix n u assume u: "vfs_get_curdir ops s = Some (Inr n, u)" "(do {
     f \<leftarrow> in_fs ops (under u) n;
     name \<leftarrow> vfs_get_devname f u;
     (r, s) \<leftarrow> (if len < length name + 1 then fail (- E_NO_MEM) u
        else io_then (vop ops n (vop_namefile ops n (len - (length name + 1)))) (\<lambda>bs. ret (name @ [58] @ bs)) u);
     s \<leftarrow> ref_down ops n s;
     Some (r, s)
   }) = Some (r, t)"
  have mu: "moves ops good (one n) none s u" using get_curdir_moves [OF u(1) assms(2)] by simp
  obtain v where v: "v = u \<or> (\<exists>l q. vop ops n (vop_namefile ops n l) u = Some (q, v))" "ref_down ops n v = Some t"
    using u(2) by (auto simp: bind_eq_Some_conv fail_def ret_def split: if_splits elim!: io_thenE)
  have "moves ops good none none u v"
    using v(1) moves_refl [OF moves_good [OF mu]] namefile_quiet [OF moves_good [OF mu] moves_given_pos [OF mu assms(2)]] by (auto elim!: vop_moves)
  from moves_trans [OF moves_trans [OF mu this] ref_down_moves [OF moves_good [OF this] v(2)]] show ?thesis by (rule moves_cong) simp_all
qed

end

end
