(* ===== verification/Filetable.thy ===== *)
theory Filetable
  imports Vfs
begin

text \<open>
  Files of a process (\<^verbatim>\<open>kern/fs/file.c\<close>, \<^verbatim>\<open>kern/fs/fs.c\<close>): the table of descriptors, the calls on descriptors and the life of a
  table. A \<^verbatim>\<open>struct file *\<close> is the number of its table and its index there. A call that works on a node may sleep, so a descriptor can be
  closed by another thread of the process in the meantime; the entry is then released by the last call that uses it.
\<close>

section \<open>The code\<close>

definition FS_STRUCT_NENTRY :: nat where "FS_STRUCT_NENTRY = 145"
definition NO_FD :: int where "NO_FD = - 0x9527"
definition LSEEK_SET :: int where "LSEEK_SET = 0"
definition LSEEK_CUR :: int where "LSEEK_CUR = 1"
definition LSEEK_END :: int where "LSEEK_END = 2"

definition testfd :: "int \<Rightarrow> bool" where "testfd fd \<longleftrightarrow> 0 \<le> fd \<and> fd < int FS_STRUCT_NENTRY"

definition file_at :: "nat \<times> nat \<Rightarrow> 's vfs \<Rightarrow> file_desc" where
  "file_at p s = filemap (fs_tab s (fst p)) ! snd p"

definition upd_file :: "nat \<times> nat \<Rightarrow> (file_desc \<Rightarrow> file_desc) \<Rightarrow> 's vfs \<Rightarrow> 's vfs" where
  "upd_file p f s = s\<lparr>fs_tab := (fs_tab s)(fst p := (fs_tab s (fst p))
     \<lparr>filemap := (filemap (fs_tab s (fst p)))[snd p := f (file_at p s)]\<rparr>)\<rparr>"

definition get_filemap :: "'s vfs \<Rightarrow> nat option" where
  "get_filemap s = do { i \<leftarrow> cur_fs s; kassert (0 < fs_count (fs_tab s i)); Some i }"

fun filemap_init :: "nat \<Rightarrow> file_desc list \<Rightarrow> file_desc list" where
  "filemap_init fd [] = []"
| "filemap_init fd (f # fs) = f\<lparr>f_count := 0, f_status := FD_NONE, f_fd := int fd\<rparr> # filemap_init (fd + 1) fs"

fun free_fd :: "nat \<Rightarrow> file_desc list \<Rightarrow> nat option" where
  "free_fd fd [] = None"
| "free_fd fd (f # fs) = (if f_status f = FD_NONE then Some fd else free_fd (fd + 1) fs)"

definition filemap_alloc :: "int \<Rightarrow> (nat \<times> nat, 's vfs) io" where
  "filemap_alloc fd s = do {
     i \<leftarrow> get_filemap s;
     case (if fd = NO_FD
           then (case free_fd 0 (filemap (fs_tab s i)) of Some k \<Rightarrow> Inr k | None \<Rightarrow> Inl (- E_MAX_OPEN))
           else if testfd fd
             then (if f_status (file_at (i, nat fd) s) = FD_NONE then Inr (nat fd) else Inl (- E_BUSY))
             else Inl (- E_INVAL)) of
       Inl e \<Rightarrow> fail e s
     | Inr k \<Rightarrow> do {
         kassert (f_count (file_at (i, k) s) = 0);
         ret (i, k) (upd_file (i, k) (\<lambda>f. f\<lparr>f_status := FD_INIT, f_node := None\<rparr>) s)
       }
   }"

definition filemap_free :: "'s vnode_ops \<Rightarrow> nat \<times> nat \<Rightarrow> 's vfs \<Rightarrow> 's vfs option" where
  "filemap_free ops p s = do {
     kassert (f_status (file_at p s) = FD_INIT \<or> f_status (file_at p s) = FD_CLOSED);
     kassert (f_count (file_at p s) = 0);
     s \<leftarrow> (if f_status (file_at p s) = FD_CLOSED then do { n \<leftarrow> f_node (file_at p s); vfs_close ops n s } else Some s);
     Some (upd_file p (\<lambda>f. f\<lparr>f_status := FD_NONE\<rparr>) s)
   }"

definition filemap_acquire :: "nat \<times> nat \<Rightarrow> 's vfs \<Rightarrow> 's vfs option" where
  "filemap_acquire p s = do {
     kassert (f_status (file_at p s) = FD_OPENED);
     Some (upd_file p (\<lambda>f. f\<lparr>f_count := f_count f + 1\<rparr>) s)
   }"

definition filemap_release :: "'s vnode_ops \<Rightarrow> nat \<times> nat \<Rightarrow> 's vfs \<Rightarrow> 's vfs option" where
  "filemap_release ops p s = do {
     kassert (f_status (file_at p s) = FD_OPENED \<or> f_status (file_at p s) = FD_CLOSED);
     kassert (0 < f_count (file_at p s));
     let s = upd_file p (\<lambda>f. f\<lparr>f_count := f_count f - 1\<rparr>) s;
     if f_count (file_at p s) = 0 then filemap_free ops p s else Some s
   }"

definition filemap_open :: "nat \<times> nat \<Rightarrow> 's vfs \<Rightarrow> 's vfs option" where
  "filemap_open p s = do {
     kassert (f_status (file_at p s) = FD_INIT \<and> f_node (file_at p s) \<noteq> None);
     Some (upd_file p (\<lambda>f. f\<lparr>f_status := FD_OPENED, f_count := f_count f + 1\<rparr>) s)
   }"

definition filemap_close :: "'s vnode_ops \<Rightarrow> nat \<times> nat \<Rightarrow> 's vfs \<Rightarrow> 's vfs option" where
  "filemap_close ops p s = do {
     kassert (f_status (file_at p s) = FD_OPENED);
     kassert (0 < f_count (file_at p s));
     let s = upd_file p (\<lambda>f. f\<lparr>f_status := FD_CLOSED, f_count := f_count f - 1\<rparr>) s;
     if f_count (file_at p s) = 0 then filemap_free ops p s else Some s
   }"

definition filemap_dup :: "'s vnode_ops \<Rightarrow> nat \<times> nat \<Rightarrow> nat \<times> nat \<Rightarrow> 's vfs \<Rightarrow> 's vfs option" where
  "filemap_dup ops to from s = do {
     let f = file_at from s;
     kassert (f_status (file_at to s) = FD_INIT \<and> f_status f = FD_OPENED);
     n \<leftarrow> f_node f;
     let s = open_up ops n (ref_up ops n s);
     filemap_open to (upd_file to (\<lambda>g. g\<lparr>f_pos := f_pos f, f_readable := f_readable f, f_writable := f_writable f, f_node := Some n\<rparr>) s)
   }"

definition fd2file :: "int \<Rightarrow> 's vfs \<Rightarrow> (int + nat \<times> nat) option" where
  "fd2file fd s =
     (if testfd fd
      then do {
        i \<leftarrow> get_filemap s;
        let f = file_at (i, nat fd) s;
        Some (if f_status f = FD_OPENED \<and> f_fd f = fd then Inr (i, nat fd) else Inl (- E_INVAL))
      }
      else Some (Inl (- E_INVAL)))"

definition file_testfd :: "int \<Rightarrow> bool \<Rightarrow> bool \<Rightarrow> 's vfs \<Rightarrow> bool option" where
  "file_testfd fd readable writable s = map_option (\<lambda>r. case r of
     Inl _ \<Rightarrow> False
   | Inr p \<Rightarrow> (readable \<longrightarrow> f_readable (file_at p s)) \<and> (writable \<longrightarrow> f_writable (file_at p s))) (fd2file fd s)"

subsection \<open>Calls on descriptors\<close>

text \<open>The last part of \<^verbatim>\<open>file_open\<close>, for an entry that is reserved.\<close>

definition file_open_at :: "'s vnode_ops \<Rightarrow> 's fs_ops \<Rightarrow> u8 list \<Rightarrow> u32 \<Rightarrow> nat \<times> nat \<Rightarrow> 's vfs \<Rightarrow> (int \<times> 's vfs) option" where
  "file_open_at ops fops path flags p s = do {
     (r, s) \<leftarrow> vfs_open ops fops path flags s;
     case r of
       Inl e \<Rightarrow> do { s \<leftarrow> filemap_free ops p s; Some (e, s) }
     | Inr n \<Rightarrow> do {
         (r, s) \<leftarrow> (if flags AND O_APPEND \<noteq> 0 then io_then (vop ops n (vop_fstat ops n)) (\<lambda>st. ret (st_size st)) s else ret 0 s);
         case r of
           Inl e \<Rightarrow> do { s \<leftarrow> vfs_close ops n s; s \<leftarrow> filemap_free ops p s; Some (e, s) }
         | Inr pos \<Rightarrow> do {
             let s = upd_file p (\<lambda>f. f\<lparr>f_pos := pos, f_node := Some n,
               f_readable := flags AND O_ACCMODE \<noteq> O_WRONLY, f_writable := flags AND O_ACCMODE \<noteq> O_RDONLY\<rparr>) s;
             s \<leftarrow> filemap_open p s;
             Some (f_fd (file_at p s), s)
           }
       }
   }"

definition file_open :: "'s vnode_ops \<Rightarrow> 's fs_ops \<Rightarrow> u8 list \<Rightarrow> u32 \<Rightarrow> 's vfs \<Rightarrow> (int \<times> 's vfs) option" where
  "file_open ops fops path flags s =
     (let acc = flags AND O_ACCMODE
      in if \<not> (acc = O_RDONLY \<or> acc = O_WRONLY \<or> acc = O_RDWR) then Some (- E_INVAL, s)
      else do {
        (r, s) \<leftarrow> filemap_alloc NO_FD s;
        case r of Inl e \<Rightarrow> Some (e, s) | Inr p \<Rightarrow> file_open_at ops fops path flags p s
      })"

definition file_close :: "'s vnode_ops \<Rightarrow> int \<Rightarrow> 's vfs \<Rightarrow> (int \<times> 's vfs) option" where
  "file_close ops fd s = do {
     r \<leftarrow> fd2file fd s;
     case r of Inl e \<Rightarrow> Some (e, s) | Inr p \<Rightarrow> do { s \<leftarrow> filemap_close ops p s; Some (0, s) }
   }"

text \<open>Reading and writing end with the new position, unless the descriptor was closed meanwhile.\<close>

definition advance :: "'s vnode_ops \<Rightarrow> nat \<times> nat \<Rightarrow> nat \<Rightarrow> 's vfs \<Rightarrow> 's vfs option" where
  "advance ops p copied s = filemap_release ops p
     (if f_status (file_at p s) = FD_OPENED then upd_file p (\<lambda>f. f\<lparr>f_pos := f_pos f + of_nat copied\<rparr>) s else s)"

definition file_read :: "'s vnode_ops \<Rightarrow> int \<Rightarrow> nat \<Rightarrow> 's vfs \<Rightarrow> ((int \<times> u8 list) \<times> 's vfs) option" where
  "file_read ops fd len s = do {
     r \<leftarrow> fd2file fd s;
     case r of
       Inl e \<Rightarrow> Some ((e, []), s)
     | Inr p \<Rightarrow>
         if \<not> f_readable (file_at p s) then Some ((- E_INVAL, []), s)
         else do {
           s \<leftarrow> filemap_acquire p s;
           n \<leftarrow> f_node (file_at p s);
           ((r, bs), s) \<leftarrow> vop ops n (vop_read ops n len (f_pos (file_at p s))) s;
           s \<leftarrow> advance ops p (length bs) s;
           Some ((r, bs), s)
         }
   }"

definition file_write :: "'s vnode_ops \<Rightarrow> int \<Rightarrow> u8 list \<Rightarrow> 's vfs \<Rightarrow> ((int \<times> nat) \<times> 's vfs) option" where
  "file_write ops fd bs s = do {
     r \<leftarrow> fd2file fd s;
     case r of
       Inl e \<Rightarrow> Some ((e, 0), s)
     | Inr p \<Rightarrow>
         if \<not> f_writable (file_at p s) then Some ((- E_INVAL, 0), s)
         else do {
           s \<leftarrow> filemap_acquire p s;
           n \<leftarrow> f_node (file_at p s);
           ((r, copied), s) \<leftarrow> vop ops n (vop_write ops n bs (f_pos (file_at p s))) s;
           s \<leftarrow> advance ops p copied s;
           Some ((r, copied), s)
         }
   }"

definition file_seek :: "'s vnode_ops \<Rightarrow> int \<Rightarrow> u32 \<Rightarrow> int \<Rightarrow> 's vfs \<Rightarrow> (int \<times> 's vfs) option" where
  "file_seek ops fd pos whence s = do {
     r \<leftarrow> fd2file fd s;
     case r of
       Inl e \<Rightarrow> Some (e, s)
     | Inr p \<Rightarrow> do {
         s \<leftarrow> filemap_acquire p s;
         n \<leftarrow> f_node (file_at p s);
         (r, s) \<leftarrow> io_then
           (if whence = LSEEK_SET then ret pos
            else if whence = LSEEK_CUR then ret (pos + f_pos (file_at p s))
            else if whence = LSEEK_END then io_then (vop ops n (vop_fstat ops n)) (\<lambda>st. ret (pos + st_size st))
            else fail (- E_INVAL))
           (\<lambda>pos. io_then (vop ops n (vop_tryseek ops n pos)) (\<lambda>_. ret pos)) s;
         s \<leftarrow> filemap_release ops p (case r of Inl _ \<Rightarrow> s | Inr pos \<Rightarrow> upd_file p (\<lambda>f. f\<lparr>f_pos := pos\<rparr>) s);
         Some (case r of Inl e \<Rightarrow> e | Inr _ \<Rightarrow> 0, s)
       }
   }"

text \<open>The calls that only ask the node.\<close>

definition file_ask :: "'s vnode_ops \<Rightarrow> int \<Rightarrow> (nat \<Rightarrow> ('b, 's) io) \<Rightarrow> ('b, 's vfs) io" where
  "file_ask ops fd f s = do {
     r \<leftarrow> fd2file fd s;
     case r of
       Inl e \<Rightarrow> fail e s
     | Inr p \<Rightarrow> do {
         s \<leftarrow> filemap_acquire p s;
         n \<leftarrow> f_node (file_at p s);
         (r, s) \<leftarrow> vop ops n (f n) s;
         s \<leftarrow> filemap_release ops p s;
         Some (r, s)
       }
   }"

definition file_fstat :: "'s vnode_ops \<Rightarrow> int \<Rightarrow> (stat, 's vfs) io" where
  "file_fstat ops fd = file_ask ops fd (vop_fstat ops)"

definition file_fsync :: "'s vnode_ops \<Rightarrow> int \<Rightarrow> (unit, 's vfs) io" where
  "file_fsync ops fd = file_ask ops fd (vop_fsync ops)"

text \<open>The result is the name and the next offset.\<close>

definition file_getdirentry :: "'s vnode_ops \<Rightarrow> int \<Rightarrow> u32 \<Rightarrow> (u8 list \<times> u32, 's vfs) io" where
  "file_getdirentry ops fd offset =
     io_then (file_ask ops fd (\<lambda>n. vop_getdirentry ops n offset)) (\<lambda>bs. ret (bs, offset + of_nat (length bs)))"

definition file_dup :: "'s vnode_ops \<Rightarrow> int \<Rightarrow> int \<Rightarrow> 's vfs \<Rightarrow> (int \<times> 's vfs) option" where
  "file_dup ops fd1 fd2 s = do {
     r \<leftarrow> fd2file fd1 s;
     case r of
       Inl e \<Rightarrow> Some (e, s)
     | Inr p \<Rightarrow> do {
         (r, s) \<leftarrow> filemap_alloc fd2 s;
         case r of
           Inl e \<Rightarrow> Some (e, s)
         | Inr q \<Rightarrow> do { s \<leftarrow> filemap_dup ops q p s; Some (f_fd (file_at q s), s) }
       }
   }"

subsection \<open>The life of a table\<close>

text \<open>A new table lies at an address with some former contents.\<close>

definition fs_create :: "(nat \<times> fs_struct) option \<Rightarrow> 's vfs \<Rightarrow> nat option \<times> 's vfs" where
  "fs_create alloc s = (case alloc of
     None \<Rightarrow> (None, s)
   | Some (i, m) \<Rightarrow> (Some i, s\<lparr>fs_tab := (fs_tab s)(i := \<lparr>fs_pwd = None, filemap = filemap_init 0 (filemap m), fs_count = 0\<rparr>),
       fs_ids := i # fs_ids s\<rparr>))"

fun destroy_loop :: "'s vnode_ops \<Rightarrow> nat \<Rightarrow> nat \<Rightarrow> nat \<Rightarrow> 's vfs \<Rightarrow> 's vfs option" where
  "destroy_loop ops i k 0 s = Some s"
| "destroy_loop ops i k (Suc m) s = do {
     s \<leftarrow> (if f_status (file_at (i, k) s) = FD_OPENED then filemap_close ops (i, k) s else Some s);
     kassert (f_status (file_at (i, k) s) = FD_NONE);
     destroy_loop ops i (k + 1) m s
   }"

definition fs_destroy :: "'s vnode_ops \<Rightarrow> nat \<Rightarrow> 's vfs \<Rightarrow> 's vfs option" where
  "fs_destroy ops i s = do {
     kassert (fs_count (fs_tab s i) = 0);
     s \<leftarrow> (case fs_pwd (fs_tab s i) of None \<Rightarrow> Some s | Some n \<Rightarrow> ref_down ops n s);
     s \<leftarrow> destroy_loop ops i 0 FS_STRUCT_NENTRY s;
     Some (s\<lparr>fs_ids := remove1 i (fs_ids s)\<rparr>)
   }"

fun closeall_loop :: "'s vnode_ops \<Rightarrow> nat \<Rightarrow> nat \<Rightarrow> nat \<Rightarrow> 's vfs \<Rightarrow> 's vfs option" where
  "closeall_loop ops i k 0 s = Some s"
| "closeall_loop ops i k (Suc m) s = do {
     s \<leftarrow> (if f_status (file_at (i, k) s) = FD_OPENED then filemap_close ops (i, k) s else Some s);
     closeall_loop ops i (k + 1) m s
   }"

definition fs_closeall :: "'s vnode_ops \<Rightarrow> nat \<Rightarrow> 's vfs \<Rightarrow> 's vfs option" where
  "fs_closeall ops i s = do { kassert (0 < fs_count (fs_tab s i)); closeall_loop ops i 2 (FS_STRUCT_NENTRY - 2) s }"

fun dup_files :: "'s vnode_ops \<Rightarrow> nat \<Rightarrow> nat \<Rightarrow> nat \<Rightarrow> nat \<Rightarrow> 's vfs \<Rightarrow> 's vfs option" where
  "dup_files ops to from k 0 s = Some s"
| "dup_files ops to from k (Suc m) s = do {
     s \<leftarrow> (if f_status (file_at (from, k) s) = FD_OPENED
           then filemap_dup ops (to, k) (from, k) (upd_file (to, k) (\<lambda>f. f\<lparr>f_status := FD_INIT\<rparr>) s) else Some s);
     dup_files ops to from (k + 1) m s
   }"

definition dup_fs :: "'s vnode_ops \<Rightarrow> nat \<Rightarrow> nat \<Rightarrow> 's vfs \<Rightarrow> 's vfs option" where
  "dup_fs ops to from s = do {
     kassert (fs_count (fs_tab s to) = 0 \<and> 0 < fs_count (fs_tab s from));
     let s = s\<lparr>fs_tab := (fs_tab s)(to := (fs_tab s to)\<lparr>fs_pwd := fs_pwd (fs_tab s from)\<rparr>)\<rparr>;
     let s = (case fs_pwd (fs_tab s to) of None \<Rightarrow> s | Some n \<Rightarrow> ref_up ops n s);
     dup_files ops to from 0 FS_STRUCT_NENTRY s
   }"

section \<open>Descriptors and the counts of their nodes\<close>

text \<open>The node an entry of a table uses, and how often a node is used and held.\<close>

definition uses :: "file_desc \<Rightarrow> nat \<Rightarrow> int" where
  "uses f n = (if (f_status f = FD_OPENED \<or> f_status f = FD_CLOSED) \<and> f_node f = Some n then 1 else 0)"

definition tab_uses :: "fs_struct \<Rightarrow> nat \<Rightarrow> int" where
  "tab_uses fs n = sum_list (map (\<lambda>f. uses f n) (filemap fs))"

definition all_uses :: "'s vfs \<Rightarrow> nat \<Rightarrow> int" where
  "all_uses s n = sum_list (map (\<lambda>i. tab_uses (fs_tab s i) n) (fs_ids s))"

definition pwd_uses :: "'s vfs \<Rightarrow> nat \<Rightarrow> int" where
  "pwd_uses s n = sum_list (map (\<lambda>i. ones (fs_pwd (fs_tab s i)) n) (fs_ids s))"

definition held :: "'s vfs \<Rightarrow> nat \<Rightarrow> int" where
  "held s n = all_uses s n + pwd_uses s n + sum_list (map (\<lambda>d. ones (devnode d) n) (vdev_list s)) + ones (bootfs_node s) n"

text \<open>An entry with \<open>h\<close> calls at work on it and \<open>a\<close> calls about to open it.\<close>

definition entry_ok :: "nat \<Rightarrow> file_desc \<Rightarrow> nat \<Rightarrow> nat \<Rightarrow> bool" where
  "entry_ok k f h a \<longleftrightarrow> f_fd f = int k \<and> (case f_status f of
     FD_NONE \<Rightarrow> f_count f = 0 \<and> h = 0 \<and> a = 0
   | FD_INIT \<Rightarrow> f_count f = 0 \<and> h = 0 \<and> a = 1
   | FD_OPENED \<Rightarrow> f_count f = int h + 1 \<and> f_node f \<noteq> None \<and> a = 0
   | FD_CLOSED \<Rightarrow> f_count f = int h \<and> 0 < h \<and> f_node f \<noteq> None \<and> a = 0)"

definition fds_ok :: "'s vfs \<Rightarrow> (nat \<times> nat \<Rightarrow> nat) \<Rightarrow> (nat \<times> nat \<Rightarrow> nat) \<Rightarrow> bool" where
  "fds_ok s h a \<longleftrightarrow> distinct (fs_ids s) \<and> (\<forall>i. cur_fs s = Some i \<longrightarrow> i \<in> set (fs_ids s))
     \<and> (\<forall>i \<in> set (fs_ids s). length (filemap (fs_tab s i)) = FS_STRUCT_NENTRY
         \<and> (\<forall>k < FS_STRUCT_NENTRY. entry_ok k (file_at (i, k) s) (h (i, k)) (a (i, k))))
     \<and> (\<forall>i k. 0 < h (i, k) + a (i, k) \<longrightarrow> i \<in> set (fs_ids s) \<and> k < FS_STRUCT_NENTRY)"

definition files_ok :: "'s vnode_ops \<Rightarrow> ('s \<Rightarrow> bool) \<Rightarrow> 's vfs \<Rightarrow> (nat \<times> nat \<Rightarrow> nat) \<Rightarrow> (nat \<times> nat \<Rightarrow> nat) \<Rightarrow> bool" where
  "files_ok ops good s h a \<longleftrightarrow> good (under s) \<and> fds_ok s h a
     \<and> (\<forall>n. open_count ops (under s) n = all_uses s n \<and> held s n \<le> ref_count ops (under s) n)"

definition is_entry :: "'s vfs \<Rightarrow> nat \<times> nat \<Rightarrow> bool" where
  "is_entry s p \<longleftrightarrow> fst p \<in> set (fs_ids s) \<and> snd p < FS_STRUCT_NENTRY"

lemma fds_okD:
  assumes "fds_ok s h a"
  shows "distinct (fs_ids s)" "cur_fs s = Some i \<Longrightarrow> i \<in> set (fs_ids s)" "i \<in> set (fs_ids s) \<Longrightarrow> length (filemap (fs_tab s i)) = FS_STRUCT_NENTRY"
    "is_entry s p \<Longrightarrow> entry_ok (snd p) (file_at p s) (h p) (a p)" "0 < h p \<Longrightarrow> is_entry s p" "0 < a p \<Longrightarrow> is_entry s p"
  using assms by (cases p; auto simp: fds_ok_def is_entry_def)+

lemma upd_file_simps [simp]:
  "under (upd_file p f s) = under s" "bootfs_node (upd_file p f s) = bootfs_node s" "vdev_list (upd_file p f s) = vdev_list s"
  "fs_ids (upd_file p f s) = fs_ids s" "cur_fs (upd_file p f s) = cur_fs s" "is_entry (upd_file p f s) q = is_entry s q"
  "fs_pwd (fs_tab (upd_file p f s) i) = fs_pwd (fs_tab s i)" "fs_count (fs_tab (upd_file p f s) i) = fs_count (fs_tab s i)"
  "length (filemap (fs_tab (upd_file p f s) i)) = length (filemap (fs_tab s i))"
  by (simp_all add: upd_file_def is_entry_def)

lemma file_at_upd:
  "snd p < length (filemap (fs_tab s (fst p))) \<Longrightarrow> file_at q (upd_file p f s) = (if q = p then f (file_at p s) else file_at q s)"
  by (cases p; cases q; auto simp: file_at_def upd_file_def nth_list_update)

lemma sum_list_update_int: "k < length xs \<Longrightarrow> sum_list (xs[k := v]) = sum_list xs - xs ! k + (v :: int)"
  by (induction xs arbitrary: k) (auto split: nat.split)

lemma sum_list_fun_upd:
  "distinct xs \<Longrightarrow> i \<in> set xs \<Longrightarrow> sum_list (map (\<lambda>j. g ((f(i := v)) j)) xs) = sum_list (map (\<lambda>j. g (f j)) xs) - g (f i) + (g v :: int)"
proof (induction xs)
  case (Cons x xs)
  show ?case
  proof (cases "x = i")
    case True
    then have "map (\<lambda>j. g ((f(i := v)) j)) xs = map (\<lambda>j. g (f j)) xs" using Cons.prems(1) by auto
    then have "sum_list (map (\<lambda>j. g ((f(i := v)) j)) xs) = sum_list (map (\<lambda>j. g (f j)) xs)" by (rule arg_cong)
    then show ?thesis using True by (simp del: fun_upd_apply) simp
  qed (use Cons in auto)
qed simp

lemma uses_upd:
  assumes "fds_ok s h a" "is_entry s p"
  shows "all_uses (upd_file p f s) n = all_uses s n - uses (file_at p s) n + uses (f (file_at p s)) n"
    "pwd_uses (upd_file p f s) n = pwd_uses s n" "held (upd_file p f s) n = held s n - uses (file_at p s) n + uses (f (file_at p s)) n"
proof -
  obtain i k where p: "p = (i, k)" by force
  have i: "i \<in> set (fs_ids s)" "k < length (filemap (fs_tab s i))" using assms fds_okD(3) [OF assms(1)] by (auto simp: is_entry_def p)
  let ?v = "(fs_tab s i)\<lparr>filemap := (filemap (fs_tab s i))[k := f (file_at p s)]\<rparr>"
  have "tab_uses ?v n = tab_uses (fs_tab s i) n - uses (file_at p s) n + uses (f (file_at p s)) n"
    using i(2) by (simp add: tab_uses_def map_update sum_list_update_int file_at_def p)
  then show a: "all_uses (upd_file p f s) n = all_uses s n - uses (file_at p s) n + uses (f (file_at p s)) n"
    using sum_list_fun_upd [OF fds_okD(1) [OF assms(1)] i(1), of "\<lambda>x. tab_uses x n" "fs_tab s" ?v] by (simp add: all_uses_def upd_file_def p)
  show b: "pwd_uses (upd_file p f s) n = pwd_uses s n"
    unfolding pwd_uses_def by simp
  show "held (upd_file p f s) n = held s n - uses (file_at p s) n + uses (f (file_at p s)) n"
    using a b by (simp add: held_def)
qed

lemma uses_nonneg [simp]: "0 \<le> uses f n" "0 \<le> all_uses s n" "0 \<le> pwd_uses s n"
  by (auto simp: uses_def tab_uses_def all_uses_def pwd_uses_def intro!: sum_list_nonneg)

lemma upd_file_twice:
  assumes "fds_ok s h a" "is_entry s p"
  shows "upd_file p g (upd_file p f s) = upd_file p (g \<circ> f) s"
proof -
  have "snd p < length (filemap (fs_tab s (fst p)))" using assms fds_okD(3) [OF assms(1)] by (simp add: is_entry_def)
  then show ?thesis using file_at_upd [of p s p f] by (simp add: upd_file_def)
qed

context vnodes
begin

lemma upd_file_moves:
  assumes "moves ops good d e (upd_file p f s) t"
  obtains u where "moves ops good d e s u" "t = upd_file p f u"
proof
  show "moves ops good d e s (s\<lparr>under := under t\<rparr>)" using assms by (simp add: moves_def)
  show "t = upd_file p f (s\<lparr>under := under t\<rparr>)" using assms by (cases s; cases t) (simp add: moves_def upd_file_def file_at_def)
qed

lemma moves_uses:
  assumes "moves ops good d e s t"
  shows "all_uses t n = all_uses s n" "held t n = held s n" "file_at p t = file_at p s" "is_entry t p = is_entry s p" "fds_ok t h a = fds_ok s h a"
  using moves_frame [OF assms] by (simp_all add: all_uses_def held_def pwd_uses_def file_at_def is_entry_def fds_ok_def)

text \<open>The step all operations come down to: one entry changes, and the counts of the nodes below follow it.\<close>

lemma entry_step:
  assumes ok: "files_ok ops good s h a" and p: "is_entry s p" and m: "moves ops good d e s u" and t: "t = upd_file p f u"
    and entry: "entry_ok (snd p) (f (file_at p s)) (h' p) (a' p)" and other: "\<And>q. q \<noteq> p \<Longrightarrow> h' q = h q \<and> a' q = a q"
    and opens: "\<And>n. e n = uses (f (file_at p s)) n - uses (file_at p s) n"
    and refs: "\<And>n. uses (f (file_at p s)) n - uses (file_at p s) n \<le> d n"
  shows "files_ok ops good t h' a'"
proof -
  have tab: "fds_ok s h a" using ok by (simp add: files_ok_def)
  note fr = moves_frame [OF m] and mu = moves_uses [OF m]
  have tab': "fds_ok u h a" and p': "is_entry u p" using tab p mu by simp_all
  have len: "snd p < length (filemap (fs_tab u (fst p)))" using fds_okD(3) [OF tab'] p' by (simp add: is_entry_def)
  have "entry_ok k (file_at (i, k) t) (h' (i, k)) (a' (i, k))" if "i \<in> set (fs_ids s)" "k < FS_STRUCT_NENTRY" for i k
    using entry other fds_okD(4) [OF tab, of "(i, k)"] that file_at_upd [OF len, of "(i, k)" f] mu(3)
    by (cases "(i, k) = p") (auto simp: t is_entry_def)
  moreover have "i \<in> set (fs_ids s) \<and> k < FS_STRUCT_NENTRY" if "0 < h' (i, k) + a' (i, k)" for i k
    using that p other [of "(i, k)"] fds_okD(5,6) [OF tab, of "(i, k)"] by (cases "(i, k) = p") (auto simp: is_entry_def)
  ultimately have "fds_ok t h' a'"
    using tab' fr tab by (simp add: fds_ok_def t)
  moreover have "open_count ops (under t) n = all_uses t n \<and> held t n \<le> ref_count ops (under t) n" for n
  proof -
    have "open_count ops (under s) n = all_uses s n" "held s n \<le> ref_count ops (under s) n" using ok by (simp_all add: files_ok_def)
    then show ?thesis using uses_upd [OF tab' p', of f n] m opens [of n] refs [of n] mu(1,2) [of n] mu(3) [of p] by (simp add: moves_def moves_u_def t)
  qed
  ultimately show ?thesis using moves_good [OF m] by (simp add: files_ok_def t)
qed

end

lemma uses_le_all:
  assumes "fds_ok s h a" "is_entry s p"
  shows "uses (file_at p s) n \<le> all_uses s n"
proof -
  obtain i k where p: "p = (i, k)" by force
  have i: "i \<in> set (fs_ids s)" "k < length (filemap (fs_tab s i))" using assms fds_okD(3) [OF assms(1)] by (auto simp: is_entry_def p)
  have "uses (file_at p s) n \<le> tab_uses (fs_tab s i) n"
    using i(2) unfolding tab_uses_def by (intro member_le_sum_list) (auto simp: file_at_def p)
  also have "\<dots> \<le> all_uses s n"
    using i(1) unfolding all_uses_def by (intro member_le_sum_list) (auto simp: tab_uses_def intro!: sum_list_nonneg)
  finally show ?thesis .
qed

lemma uses_le_held:
  assumes "fds_ok s h a" "is_entry s p"
  shows "uses (file_at p s) n \<le> held s n"
proof -
  have "all_uses s n \<le> held s n" unfolding held_def by (auto intro!: add_nonneg_nonneg sum_list_nonneg)
  then show ?thesis using uses_le_all [OF assms, of n] by simp
qed

lemma fd_status_cases_entry:
  assumes "fds_ok s h a"
  shows "0 < a p \<Longrightarrow> f_status (file_at p s) = FD_INIT \<and> f_count (file_at p s) = 0 \<and> a p = 1 \<and> h p = 0 \<and> f_fd (file_at p s) = int (snd p)"
    "0 < h p \<Longrightarrow> (f_status (file_at p s) = FD_OPENED \<and> f_count (file_at p s) = int (h p) + 1
       \<or> f_status (file_at p s) = FD_CLOSED \<and> f_count (file_at p s) = int (h p)) \<and> a p = 0 \<and> (\<exists>n. f_node (file_at p s) = Some n)"
    "is_entry s p \<Longrightarrow> f_status (file_at p s) = FD_OPENED \<Longrightarrow> f_count (file_at p s) = int (h p) + 1 \<and> a p = 0 \<and> (\<exists>n. f_node (file_at p s) = Some n)"
  using fds_okD(4-6) [OF assms, of p] by (auto simp: entry_ok_def split: fd_status.splits)

context vnodes
begin

lemma files_okD:
  assumes "files_ok ops good s h a"
  shows "good (under s)" "fds_ok s h a" "holds_refs ops good s" "is_entry s p \<Longrightarrow> uses (file_at p s) n = 1 \<Longrightarrow> 0 < ref_count ops (under s) n"
proof -
  show g: "good (under s)" and tab: "fds_ok s h a" using assms by (simp_all add: files_ok_def)
  have le: "held s n \<le> ref_count ops (under s) n" for n using assms by (simp add: files_ok_def)
  have dn: "0 \<le> sum_list (map (\<lambda>d. ones (devnode d) n) (vdev_list s))" for n by (auto intro!: sum_list_nonneg)
  have "1 \<le> held s n" if cwd: "get_cwd s = Some (Some n)" for n
  proof -
    obtain i where i: "i \<in> set (fs_ids s)" "fs_pwd (fs_tab s i) = Some n" using cwd fds_okD(2) [OF tab] by (auto simp: get_cwd_def)
    have "ones (fs_pwd (fs_tab s i)) n \<le> pwd_uses s n" using i(1) unfolding pwd_uses_def by (intro member_le_sum_list) auto
    then have "1 \<le> pwd_uses s n" using i(2) by simp
    then show ?thesis using uses_nonneg(2) [of s n] dn [of n] ones_simps(3) [of "bootfs_node s" n] unfolding held_def by linarith
  qed
  moreover have "1 \<le> held s n" if "bootfs_node s = Some n" for n
  proof -
    have "1 \<le> ones (bootfs_node s) n" using that by simp
    then show ?thesis using uses_nonneg(2,3) [of s n] dn [of n] unfolding held_def by linarith
  qed
  moreover have "1 \<le> held s n" if "d \<in> set (vdev_list s)" "devnode d = Some n" for d n
  proof -
    have "ones (devnode d) n \<le> sum_list (map (\<lambda>d. ones (devnode d) n) (vdev_list s))" using that(1) by (intro member_le_sum_list) auto
    then have "1 \<le> sum_list (map (\<lambda>d. ones (devnode d) n) (vdev_list s))" using that(2) by simp
    then show ?thesis using uses_nonneg(2,3) [of s n] ones_simps(3) [of "bootfs_node s" n] unfolding held_def by linarith
  qed
  ultimately have "0 < ref_count ops (under s) n" if "get_cwd s = Some (Some n) \<or> bootfs_node s = Some n \<or> (\<exists>d \<in> set (vdev_list s). devnode d = Some n)" for n
    using that le [of n] by fastforce
  then show "holds_refs ops good s" using g by (simp add: holds_refs_def)
  show "is_entry s p \<Longrightarrow> uses (file_at p s) n = 1 \<Longrightarrow> 0 < ref_count ops (under s) n"
    using uses_le_held [OF tab, of p n] le [of n] by simp
qed

lemma alloc_ok:
  assumes ok: "files_ok ops good s h a" and l: "filemap_alloc fd s = Some (r, t)"
  shows "case r of Inl _ \<Rightarrow> t = s | Inr p \<Rightarrow> is_entry s p \<and> f_status (file_at p s) = FD_NONE
    \<and> t = upd_file p (\<lambda>f. f\<lparr>f_status := FD_INIT, f_node := None\<rparr>) s \<and> files_ok ops good t h (a(p := 1))"
proof -
  note tab = files_okD(2) [OF ok]
  have scan: "free_fd b fs = Some k \<Longrightarrow> b \<le> k \<and> k < b + length fs \<and> f_status (fs ! (k - b)) = FD_NONE" for b fs k
    by (induction b fs rule: free_fd.induct) (auto split: if_splits simp: nth_Cons' Suc_diff_le)
  obtain i where i: "get_filemap s = Some i" using l by (auto simp: filemap_alloc_def bind_eq_Some_conv)
  then have ids: "i \<in> set (fs_ids s)" using fds_okD(2) [OF tab] by (auto simp: get_filemap_def bind_eq_Some_conv split: if_splits)
  have pick: "is_entry s (i, k) \<and> f_status (file_at (i, k) s) = FD_NONE"
    if "free_fd 0 (filemap (fs_tab s i)) = Some k \<or> testfd fd \<and> k = nat fd \<and> f_status (file_at (i, nat fd) s) = FD_NONE" for k
    using that scan [of 0 "filemap (fs_tab s i)" k] fds_okD(3) [OF tab ids] ids by (auto simp: is_entry_def file_at_def testfd_def)
  have "files_ok ops good (upd_file p (\<lambda>f. f\<lparr>f_status := FD_INIT, f_node := None\<rparr>) s) h (a(p := 1))"
    if "is_entry s p" "f_status (file_at p s) = FD_NONE" for p
    by (rule entry_step [OF ok that(1) moves_refl [OF files_okD(1) [OF ok]] refl])
      (use fds_okD(4) [OF tab that(1)] that(2) in \<open>auto simp: entry_ok_def uses_def\<close>)
  then show ?thesis using l i pick
    by (auto simp: filemap_alloc_def fail_def ret_def bind_eq_Some_conv split: if_splits option.splits)
qed

lemma free_reserved_ok:
  assumes ok: "files_ok ops good s h a" and p: "0 < a p" and t: "filemap_free ops p s = Some t"
  shows "files_ok ops good t h (a(p := 0))"
proof -
  note tab = files_okD(2) [OF ok]
  have st: "f_status (file_at p s) = FD_INIT" "f_count (file_at p s) = 0" "h p = 0" "f_fd (file_at p s) = int (snd p)" using fd_status_cases_entry(1) [OF tab p] by auto
  have "t = upd_file p (\<lambda>f. f\<lparr>f_status := FD_NONE\<rparr>) s" using t st by (auto simp: filemap_free_def)
  then show ?thesis
    by (intro entry_step [OF ok fds_okD(6) [OF tab p] moves_refl [OF files_okD(1) [OF ok]]]) (use st in \<open>auto simp: entry_ok_def uses_def\<close>)
qed

lemma acquire_ok:
  assumes ok: "files_ok ops good s h a" and p: "is_entry s p" and t: "filemap_acquire p s = Some t"
  shows "files_ok ops good t (h(p := h p + 1)) a"
proof -
  note tab = files_okD(2) [OF ok]
  have st: "f_status (file_at p s) = FD_OPENED" and t: "t = upd_file p (\<lambda>f. f\<lparr>f_count := f_count f + 1\<rparr>) s"
    using t by (auto simp: filemap_acquire_def split: if_splits)
  show ?thesis
    by (intro entry_step [OF ok p moves_refl [OF files_okD(1) [OF ok]] t]) (use fds_okD(4) [OF tab p] st in \<open>auto simp: entry_ok_def uses_def\<close>)
qed

text \<open>The last user of a closed entry closes the node.\<close>

lemma free_closed:
  assumes ok: "files_ok ops good s h a" and p: "is_entry s p" and n: "f_status (file_at p s) = FD_OPENED \<or> f_status (file_at p s) = FD_CLOSED" "f_node (file_at p s) = Some n"
    and g: "f_status (g (file_at p s)) = FD_CLOSED" "f_node (g (file_at p s)) = Some n" and t: "filemap_free ops p (upd_file p g s) = Some t"
  obtains u where "moves ops good (\<lambda>k. - one n k) (\<lambda>k. - one n k) s u" "t = upd_file p (\<lambda>f. (g f)\<lparr>f_status := FD_NONE\<rparr>) u"
proof -
  note tab = files_okD(2) [OF ok]
  have len: "snd p < length (filemap (fs_tab s (fst p)))" using fds_okD(3) [OF tab] p by (simp add: is_entry_def)
  obtain v where v: "vfs_close ops n (upd_file p g s) = Some v" "t = upd_file p (\<lambda>f. f\<lparr>f_status := FD_NONE\<rparr>) v"
    using t g file_at_upd [OF len, of p g] by (auto simp: filemap_free_def bind_eq_Some_conv split: if_splits)
  have "0 < ref_count ops (under s) n" using files_okD(4) [OF ok p, of n] n by (auto simp: uses_def)
  then have "moves ops good (\<lambda>k. - one n k) (\<lambda>k. - one n k) (upd_file p g s) v" using close_moves [OF v(1)] files_okD(1) [OF ok] by simp
  then obtain u where u: "moves ops good (\<lambda>k. - one n k) (\<lambda>k. - one n k) s u" "v = upd_file p g u" by (rule upd_file_moves)
  have "t = upd_file p (\<lambda>f. (g f)\<lparr>f_status := FD_NONE\<rparr>) u"
    using v(2) u(2) upd_file_twice [of u h a p] moves_uses(4,5) [OF u(1)] tab p by (simp add: comp_def)
  then show thesis using that u(1) by blast
qed

lemma release_ok:
  assumes ok: "files_ok ops good s h a" and p: "0 < h p" and t: "filemap_release ops p s = Some t"
  shows "files_ok ops good t (h(p := h p - 1)) a"
proof -
  note tab = files_okD(2) [OF ok]
  have e: "is_entry s p" using fds_okD(5) [OF tab p] .
  have len: "snd p < length (filemap (fs_tab s (fst p)))" using fds_okD(3) [OF tab] e by (simp add: is_entry_def)
  let ?g = "\<lambda>f. f\<lparr>f_count := f_count f - 1\<rparr>"
  obtain n where n: "f_node (file_at p s) = Some n" using fd_status_cases_entry(2) [OF tab p] by auto
  note en = fds_okD(4) [OF tab e]
  show ?thesis
  proof (cases "f_count (file_at p s) = 1")
    case True
    then have st: "f_status (file_at p s) = FD_CLOSED" "h p = 1" using fd_status_cases_entry(2) [OF tab p] p by auto
    then have "filemap_free ops p (upd_file p ?g s) = Some t" using t True file_at_upd [OF len, of p ?g] by (simp add: filemap_release_def)
    then obtain u where u: "moves ops good (\<lambda>k. - one n k) (\<lambda>k. - one n k) s u" "t = upd_file p (\<lambda>f. (?g f)\<lparr>f_status := FD_NONE\<rparr>) u"
      using free_closed [OF ok e, of n ?g t] st n by auto
    show ?thesis by (rule entry_step [OF ok e u]) (use en st True n in \<open>auto simp: entry_ok_def uses_def one_def\<close>)
  next
    case False
    then have t: "t = upd_file p ?g s" using t file_at_upd [OF len, of p ?g] by (auto simp: filemap_release_def split: if_splits)
    show ?thesis
      by (rule entry_step [OF ok e moves_refl [OF files_okD(1) [OF ok]] t])
        (use en p False in \<open>auto simp: entry_ok_def uses_def of_nat_diff split: fd_status.splits\<close>)
  qed
qed

lemma close_ok:
  assumes ok: "files_ok ops good s h a" and e: "is_entry s p" and t: "filemap_close ops p s = Some t"
  shows "files_ok ops good t h a" "q \<noteq> p \<Longrightarrow> file_at q t = file_at q s"
proof -
  note tab = files_okD(2) [OF ok]
  have len: "snd p < length (filemap (fs_tab s (fst p)))" using fds_okD(3) [OF tab] e by (simp add: is_entry_def)
  let ?g = "\<lambda>f. f\<lparr>f_status := FD_CLOSED, f_count := f_count f - 1\<rparr>"
  have st: "f_status (file_at p s) = FD_OPENED" using t by (auto simp: filemap_close_def split: if_splits)
  then obtain n where n: "f_count (file_at p s) = int (h p) + 1" "f_node (file_at p s) = Some n" using fd_status_cases_entry(3) [OF tab e] by auto
  note en = fds_okD(4) [OF tab e]
  have "files_ok ops good t h a \<and> (q \<noteq> p \<longrightarrow> file_at q t = file_at q s)"
  proof (cases "h p = 0")
    case True
    then have "filemap_free ops p (upd_file p ?g s) = Some t" using t n st file_at_upd [OF len, of p ?g] by (simp add: filemap_close_def)
    then obtain u where u: "moves ops good (\<lambda>k. - one n k) (\<lambda>k. - one n k) s u" "t = upd_file p (\<lambda>f. (?g f)\<lparr>f_status := FD_NONE\<rparr>) u"
      using free_closed [OF ok e, of n ?g t] st n by auto
    have "files_ok ops good t h a" by (rule entry_step [OF ok e u]) (use en st True n in \<open>auto simp: entry_ok_def uses_def one_def\<close>)
    moreover have "snd p < length (filemap (fs_tab u (fst p)))" using len moves_frame(3) [OF u(1)] by simp
    ultimately show ?thesis using file_at_upd [of p u q] moves_uses(3) [OF u(1), of q] u(2) by auto
  next
    case False
    then have t: "t = upd_file p ?g s" using t n st file_at_upd [OF len, of p ?g] by (simp add: filemap_close_def)
    have "files_ok ops good t h a"
      by (rule entry_step [OF ok e moves_refl [OF files_okD(1) [OF ok]] t]) (use en st n False in \<open>auto simp: entry_ok_def uses_def\<close>)
    then show ?thesis using file_at_upd [OF len, of q ?g] t by auto
  qed
  then show "files_ok ops good t h a" "q \<noteq> p \<Longrightarrow> file_at q t = file_at q s" by auto
qed

end

context vnodes
begin

lemma quiet_ok:
  assumes ok: "files_ok ops good s h a" and m: "moves ops good d none s t" and d: "\<And>k. 0 \<le> d k"
  shows "files_ok ops good t h a"
proof -
  have "held s n \<le> ref_count ops (under t) n" for n
  proof -
    have "held s n \<le> ref_count ops (under s) n" using ok by (simp add: files_ok_def)
    then show ?thesis using d [of n] moves_ref [OF m, of n] by linarith
  qed
  then show ?thesis
    using ok moves_uses [OF m] moves_good [OF m] m by (simp add: files_ok_def moves_def moves_u_def)
qed

lemma vop_ok:
  assumes ok: "files_ok ops good s h a" and v: "vop ops n f s = Some (r, t)" and q: "\<And>v. f (under s) = Some (r, v) \<Longrightarrow> moves_u ops good none none (under s) v"
  shows "files_ok ops good t h a" "file_at p t = file_at p s" "is_entry t p = is_entry s p"
proof -
  have m: "moves ops good none none s t" using v q by (rule vop_moves)
  then show "files_ok ops good t h a" "file_at p t = file_at p s" "is_entry t p = is_entry s p"
    using quiet_ok [OF ok m] moves_uses [OF m] by auto
qed

text \<open>The position and the access rights of an entry do not matter for the counts.\<close>

lemma upd_ok:
  assumes ok: "files_ok ops good s h a" and p: "is_entry s p"
    and same: "\<And>f. f_status (g f) = f_status f \<and> f_node (g f) = f_node f \<and> f_count (g f) = f_count f \<and> f_fd (g f) = f_fd f"
  shows "files_ok ops good (upd_file p g s) h a"
  by (rule entry_step [OF ok p moves_refl [OF files_okD(1) [OF ok]] refl])
    (use fds_okD(4) [OF files_okD(2) [OF ok] p] same [of "file_at p s"] in \<open>auto simp: entry_ok_def uses_def split: fd_status.splits\<close>)

lemma open_reserved_ok:
  assumes ok: "files_ok ops good s h a" and p: "0 < a p" and m: "moves ops good (\<lambda>k. one n k + l k) (one n) s u" and l: "\<And>k. 0 \<le> l k"
    and g: "f_status (g (file_at p s)) = FD_INIT" "f_node (g (file_at p s)) = Some n" "f_count (g (file_at p s)) = 0" "f_fd (g (file_at p s)) = int (snd p)"
    and t: "filemap_open p (upd_file p g u) = Some t"
  shows "files_ok ops good t h (a(p := 0))" "f_fd (file_at p t) = int (snd p)" "q \<noteq> p \<Longrightarrow> file_at q t = file_at q s" "fs_ids t = fs_ids s"
proof -
  note tab = files_okD(2) [OF ok]
  have e: "is_entry s p" using fds_okD(6) [OF tab p] .
  have tabu: "fds_ok u h a" "is_entry u p" using moves_uses(4,5) [OF m] tab e by simp_all
  have len: "snd p < length (filemap (fs_tab u (fst p)))" using fds_okD(3) [OF tabu(1)] tabu(2) by (simp add: is_entry_def)
  let ?o = "\<lambda>f. f\<lparr>f_status := FD_OPENED, f_count := f_count f + 1\<rparr>"
  have t: "t = upd_file p (?o \<circ> g) u"
    using t upd_file_twice [OF tabu, of ?o g] by (auto simp: filemap_open_def split: if_splits)
  have st: "f_status (file_at p s) = FD_INIT" "h p = 0" using fd_status_cases_entry(1) [OF tab p] by auto
  show "files_ok ops good t h (a(p := 0))"
    by (rule entry_step [OF ok e m t]) (use st g l in \<open>auto simp: entry_ok_def uses_def one_def\<close>)
  show "f_fd (file_at p t) = int (snd p)" using file_at_upd [OF len, of p "?o \<circ> g"] moves_uses(3) [OF m, of p] g by (simp add: t)
  show "q \<noteq> p \<Longrightarrow> file_at q t = file_at q s" "fs_ids t = fs_ids s"
    using file_at_upd [OF len, of q "?o \<circ> g"] moves_uses(3) [OF m, of q] moves_frame(4) [OF m] by (simp_all add: t)
qed

lemma dup_ok:
  assumes ok: "files_ok ops good s h a" and p: "0 < a to" and f: "is_entry s from" and t: "filemap_dup ops to from s = Some t"
  shows "files_ok ops good t h (a(to := 0))" "q \<noteq> to \<Longrightarrow> file_at q t = file_at q s" "fs_ids t = fs_ids s"
proof -
  note tab = files_okD(2) [OF ok]
  obtain n where n: "f_node (file_at from s) = Some n" "f_status (file_at from s) = FD_OPENED"
    "filemap_open to (upd_file to (\<lambda>g. g\<lparr>f_pos := f_pos (file_at from s), f_readable := f_readable (file_at from s),
       f_writable := f_writable (file_at from s), f_node := Some n\<rparr>) (open_up ops n (ref_up ops n s))) = Some t"
    using t by (auto simp: filemap_dup_def Let_def bind_eq_Some_conv split: if_splits)
  have pos: "0 < ref_count ops (under s) n" using files_okD(4) [OF ok f, of n] n by (simp add: uses_def)
  note mr = ref_up_moves [OF files_okD(1) [OF ok] pos]
  have "0 < ref_count ops (under (ref_up ops n s)) n" using moves_ref [OF mr, of n] pos by simp
  from moves_trans [OF mr open_up_moves [OF moves_good [OF mr] this]]
  have m: "moves ops good (\<lambda>k. one n k + none k) (one n) s (open_up ops n (ref_up ops n s))" by (rule moves_cong) simp_all
  note st = fd_status_cases_entry(1) [OF tab p]
  show "files_ok ops good t h (a(to := 0))" "q \<noteq> to \<Longrightarrow> file_at q t = file_at q s" "fs_ids t = fs_ids s"
    by (rule open_reserved_ok [OF ok p m _ _ _ _ _ n(3)]; use st in simp)+
qed

lemma file_open_at_ok:
  assumes ok: "files_ok ops good s h a" and p: "0 < a p" and t: "file_open_at ops fops path flags p s = Some (fd, t)"
  shows "files_ok ops good t h (a(p := 0))"
proof -
  note tab = files_okD(2) [OF ok]
  note st = fd_status_cases_entry(1) [OF tab p]
  obtain r u where u: "vfs_open ops fops path flags s = Some (r, u)" using t by (auto simp: file_open_at_def bind_eq_Some_conv)
  obtain l where l': "\<forall>k. 0 \<le> l k" "moves ops good (\<lambda>k. given r k + l k) (given r) s u"
    using open_moves [OF u files_okD(3) [OF ok]] by (elim exE conjE) (rule that)
  note l = l'(1) [rule_format] l'(2)
  show ?thesis
  proof (cases r)
    case (Inl e)
    then have "filemap_free ops p u = Some t" using t u by (auto simp: file_open_at_def bind_eq_Some_conv)
    moreover have "files_ok ops good u h a" using quiet_ok [OF ok, of l u] l Inl by simp
    ultimately show ?thesis using free_reserved_ok p by blast
  next
    case (Inr n)
    then have mu: "moves ops good (\<lambda>k. one n k + l k) (one n) s u" using l(2) by simp
    obtain q v where v: "(if flags AND O_APPEND \<noteq> 0 then io_then (vop ops n (vop_fstat ops n)) (\<lambda>st. ret (st_size st)) u else ret 0 u) = Some (q, v)"
      "(case q of Inl e \<Rightarrow> do { s \<leftarrow> vfs_close ops n v; s \<leftarrow> filemap_free ops p s; Some (e, s) }
         | Inr pos \<Rightarrow> do {
             let s = upd_file p (\<lambda>f. f\<lparr>f_pos := pos, f_node := Some n,
               f_readable := flags AND O_ACCMODE \<noteq> O_WRONLY, f_writable := flags AND O_ACCMODE \<noteq> O_RDONLY\<rparr>) v;
             s \<leftarrow> filemap_open p s;
             Some (f_fd (file_at p s), s)
           }) = Some (fd, t)"
      using t u Inr by (auto simp: file_open_at_def bind_eq_Some_conv)
    have "moves ops good none none u v"
      using v(1) moves_refl [OF moves_good [OF mu]]
      by (auto simp: ret_def split: if_splits elim!: io_thenE vop_moves intro: fstat_quiet [OF moves_good [OF mu]])
    from moves_trans [OF mu this] have mv: "moves ops good (\<lambda>k. one n k + l k) (one n) s v" by (rule moves_cong) simp_all
    show ?thesis
    proof (cases q)
      case (Inl e)
      then obtain w where w: "vfs_close ops n v = Some w" "filemap_free ops p w = Some t" using v(2) by (auto simp: bind_eq_Some_conv)
      have "0 < ref_count ops (under v) n" using moves_ref [OF mv, of n] nonneg [OF files_okD(1) [OF ok], of n] l(1) [of n] by simp
      from moves_trans [OF mv close_moves [OF w(1) moves_good [OF mv] this]] have "moves ops good l none s w" by (rule moves_cong) simp_all
      then show ?thesis using free_reserved_ok [OF quiet_ok [OF ok] p w(2)] l(1) by blast
    next
      case (Inr pos)
      then have fin: "filemap_open p (upd_file p (\<lambda>f. f\<lparr>f_pos := pos, f_node := Some n,
               f_readable := flags AND O_ACCMODE \<noteq> O_WRONLY, f_writable := flags AND O_ACCMODE \<noteq> O_RDONLY\<rparr>) v) = Some t"
        using v(2) by (auto simp: bind_eq_Some_conv)
      show ?thesis by (rule open_reserved_ok(1) [OF ok p mv l(1) _ _ _ _ fin]) (use st in auto)
    qed
  qed
qed

end

section \<open>Whole calls and tables\<close>

definition set_pwd :: "nat \<Rightarrow> nat option \<Rightarrow> 's vfs \<Rightarrow> 's vfs" where
  "set_pwd i d s = s\<lparr>fs_tab := (fs_tab s)(i := (fs_tab s i)\<lparr>fs_pwd := d\<rparr>)\<rparr>"

lemma set_pwd_simps [simp]:
  "under (set_pwd i d s) = under s" "bootfs_node (set_pwd i d s) = bootfs_node s" "vdev_list (set_pwd i d s) = vdev_list s"
  "fs_ids (set_pwd i d s) = fs_ids s" "cur_fs (set_pwd i d s) = cur_fs s" "filemap (fs_tab (set_pwd i d s) j) = filemap (fs_tab s j)"
  "fs_count (fs_tab (set_pwd i d s) j) = fs_count (fs_tab s j)" "file_at p (set_pwd i d s) = file_at p s" "all_uses (set_pwd i d s) n = all_uses s n"
  "is_entry (set_pwd i d s) p = is_entry s p" "fds_ok (set_pwd i d s) h a = fds_ok s h a"
proof -
  have fm: "filemap (fs_tab (set_pwd i d s) j) = filemap (fs_tab s j)" for j by (simp add: set_pwd_def)
  then show "filemap (fs_tab (set_pwd i d s) j) = filemap (fs_tab s j)" .
  have fa: "file_at q (set_pwd i d s) = file_at q s" for q by (simp add: file_at_def fm)
  then show "file_at p (set_pwd i d s) = file_at p s" .
  show "all_uses (set_pwd i d s) n = all_uses s n" by (simp add: all_uses_def tab_uses_def fm) (simp add: set_pwd_def)
  show "fds_ok (set_pwd i d s) h a = fds_ok s h a" by (simp add: fds_ok_def fa fm) (simp add: set_pwd_def)
qed (simp_all add: set_pwd_def is_entry_def)

lemma pwd_uses_set:
  assumes "distinct (fs_ids s)" "i \<in> set (fs_ids s)"
  shows "pwd_uses (set_pwd i d s) n = pwd_uses s n - ones (fs_pwd (fs_tab s i)) n + ones d n"
  using sum_list_fun_upd [OF assms, of "\<lambda>x. ones (fs_pwd x) n" "fs_tab s" "(fs_tab s i)\<lparr>fs_pwd := d\<rparr>"]
  by (simp add: pwd_uses_def set_pwd_def)

context vnodes
begin

lemma pwd_step:
  assumes ok: "files_ok ops good s h a" and i: "i \<in> set (fs_ids s)" and m: "moves ops good d none (set_pwd i x s) t"
    and refs: "\<And>n. ones x n - ones (fs_pwd (fs_tab s i)) n \<le> d n"
  shows "files_ok ops good t h a"
proof -
  note tab = files_okD(2) [OF ok]
  have "open_count ops (under t) n = all_uses t n \<and> held t n \<le> ref_count ops (under t) n" for n
  proof -
    have "open_count ops (under s) n = all_uses s n" "held s n \<le> ref_count ops (under s) n" using ok by (simp_all add: files_ok_def)
    then show ?thesis
      using pwd_uses_set [OF fds_okD(1) [OF tab] i, of x n] moves_uses(1,2) [OF m, of n] m refs [of n] by (simp add: moves_def moves_u_def held_def)
  qed
  then show ?thesis using moves_good [OF m] moves_uses(5) [OF m] tab by (simp add: files_ok_def)
qed

lemma fd2file_entry:
  assumes "files_ok ops good s h a" "fd2file fd s = Some (Inr p)"
  shows "is_entry s p" "f_status (file_at p s) = FD_OPENED" "int (snd p) = fd"
  using assms fds_okD(2) [OF files_okD(2) [OF assms(1)]]
  by (cases p; force simp: fd2file_def get_filemap_def bind_eq_Some_conv is_entry_def testfd_def Let_def split: if_splits)+

lemma file_close_ok:
  assumes ok: "files_ok ops good s h a" and t: "file_close ops fd s = Some (r, t)"
  shows "files_ok ops good t h a"
proof -
  obtain q where q: "fd2file fd s = Some q" using t by (auto simp: file_close_def bind_eq_Some_conv)
  show ?thesis
    using t q ok close_ok [OF ok fd2file_entry(1) [OF ok]] by (cases q) (auto simp: file_close_def bind_eq_Some_conv)
qed

lemma file_dup_ok:
  assumes ok: "files_ok ops good s h a" and t: "file_dup ops fd1 fd2 s = Some (r, t)"
  shows "files_ok ops good t h a"
proof (cases "t = s")
  case True
  then show ?thesis using ok by simp
next
  case False
  obtain x where x: "fd2file fd1 s = Some x" using t by (auto simp: file_dup_def bind_eq_Some_conv)
  obtain p where p: "x = Inr p" using t False x by (cases x) (auto simp: file_dup_def)
  obtain q u where q: "filemap_alloc fd2 s = Some (q, u)"
      "(case q of Inl e \<Rightarrow> Some (e, u) | Inr q \<Rightarrow> do { s \<leftarrow> filemap_dup ops q p u; Some (f_fd (file_at q s), s) }) = Some (r, t)"
    using t x p by (auto simp: file_dup_def bind_eq_Some_conv)
  note al = alloc_ok [OF ok q(1)]
  obtain k where k: "q = Inr k" "filemap_dup ops k p u = Some t" using q(2) al False by (cases q) (auto simp: bind_eq_Some_conv)
  have u: "files_ok ops good u h (a(k := 1))" "is_entry s k" "f_status (file_at k s) = FD_NONE" "is_entry u p"
    using al k(1) fd2file_entry(1) [OF ok x [unfolded p]] by auto
  have "a k = 0" using fds_okD(4) [OF files_okD(2) [OF ok] u(2)] u(3) by (simp add: entry_ok_def)
  then have "(a(k := 1))(k := 0) = a" by auto
  then show ?thesis using dup_ok(1) [OF u(1) _ u(4) k(2)] by simp
qed

lemma chdir_ok:
  assumes ok: "files_ok ops good s h a" and t: "vfs_chdir ops fops path s = Some (r, t)" and cur: "cur_fs s = Some i"
  shows "files_ok ops good t h a"
proof -
  have old: "get_cwd s = Some (fs_pwd (fs_tab s i))" using cur by (simp add: get_cwd_def)
  note cd = chdir_moves [OF t files_okD(3) [OF ok] old]
  show ?thesis
  proof (cases r)
    case (Inl e)
    then show ?thesis using cd quiet_ok [OF ok, of none] by simp
  next
    case (Inr b)
    then obtain n u where u: "set_cwd (Some n) s = Some u" "moves ops good (\<lambda>k. one n k - ones (fs_pwd (fs_tab s i)) k) none u t" using cd by auto
    then have "u = set_pwd i (Some n) s" using cur by (simp add: set_cwd_def set_pwd_def)
    then show ?thesis using pwd_step [OF ok fds_okD(2) [OF files_okD(2) [OF ok] cur]] u(2) by simp
  qed
qed

lemma filemap_close_ids: "filemap_close ops p s = Some t \<Longrightarrow> fs_ids t = fs_ids s \<and> cur_fs t = cur_fs s"
  by (auto simp: filemap_close_def filemap_free_def vfs_close_def open_down_def ref_down_def bind_eq_Some_conv Let_def split: if_splits)

lemma closeall_loop_ok:
  assumes "files_ok ops good s h a" "i \<in> set (fs_ids s)" "k + m \<le> FS_STRUCT_NENTRY" "closeall_loop ops i k m s = Some t"
  shows "files_ok ops good t h a"
  using assms
proof (induction m arbitrary: k s)
  case (Suc m)
  obtain u where u: "(if f_status (file_at (i, k) s) = FD_OPENED then filemap_close ops (i, k) s else Some s) = Some u" "closeall_loop ops i (k + 1) m u = Some t"
    using Suc.prems(4) by (auto simp: bind_eq_Some_conv)
  have e: "is_entry s (i, k)" using Suc.prems(2,3) by (simp add: is_entry_def)
  have ok: "files_ok ops good u h a" and ids: "fs_ids u = fs_ids s"
    using u(1) Suc.prems(1) close_ok [OF Suc.prems(1) e] filemap_close_ids by (auto split: if_splits)
  show ?case by (rule Suc.IH [OF ok _ _ u(2)]) (use ids Suc.prems in simp_all)
qed simp

end

lemma filemap_init_nth:
  "length (filemap_init b fs) = length fs"
  "k < length fs \<Longrightarrow> filemap_init b fs ! k = (fs ! k)\<lparr>f_count := 0, f_status := FD_NONE, f_fd := int (b + k)\<rparr>"
  by (induction b fs arbitrary: k rule: filemap_init.induct) (auto simp: nth_Cons split: nat.split)

lemma uses_none: "f_status f = FD_NONE \<Longrightarrow> uses f n = 0"
  by (simp add: uses_def)

lemma tab_uses_none: "(\<And>k. k < length (filemap fs) \<Longrightarrow> f_status (filemap fs ! k) = FD_NONE) \<Longrightarrow> tab_uses fs n = 0"
  unfolding tab_uses_def by (subst map_cong [OF refl, of _ _ "\<lambda>_. 0"]) (auto simp: in_set_conv_nth uses_none)

context vnodes
begin

lemma fs_create_ok:
  assumes ok: "files_ok ops good s h a" and i: "i \<notin> set (fs_ids s)" "length (filemap m) = FS_STRUCT_NENTRY" and t: "fs_create (Some (i, m)) s = (Some i, t)"
  shows "files_ok ops good t h a" "fs_ids t = i # fs_ids s" "k < FS_STRUCT_NENTRY \<Longrightarrow> f_status (file_at (i, k) t) = FD_NONE"
    "fs_pwd (fs_tab t i) = None"
proof -
  note tab = files_okD(2) [OF ok]
  have t': "fs_tab t = (fs_tab s)(i := \<lparr>fs_pwd = None, filemap = filemap_init 0 (filemap m), fs_count = 0\<rparr>)" "fs_ids t = i # fs_ids s"
    "under t = under s" "cur_fs t = cur_fs s" "vdev_list t = vdev_list s" "bootfs_node t = bootfs_node s"
    using t by (auto simp: fs_create_def)
  show "fs_ids t = i # fs_ids s" "fs_pwd (fs_tab t i) = None" using t'(1,2) by simp_all
  have new: "f_status (file_at (i, k) t) = FD_NONE" "f_count (file_at (i, k) t) = 0" "f_fd (file_at (i, k) t) = int k" if "k < FS_STRUCT_NENTRY" for k
    using that i(2) filemap_init_nth(2) [of k "filemap m" 0] by (simp_all add: file_at_def t'(1))
  then show "k < FS_STRUCT_NENTRY \<Longrightarrow> f_status (file_at (i, k) t) = FD_NONE" by simp
  have no: "h (i, k) = 0 \<and> a (i, k) = 0" for k using fds_okD(5,6) [OF tab, of "(i, k)"] i(1) by (auto simp: is_entry_def)
  have same: "fs_tab t j = fs_tab s j" if "j \<in> set (fs_ids s)" for j using that i(1) t'(1) by auto
  have "fds_ok t h a"
    using tab t'(2,4) same new no i filemap_init_nth(1) [of 0 "filemap m"] by (auto simp: fds_ok_def t'(1) file_at_def entry_ok_def)
  moreover have "tab_uses (fs_tab t i) n = 0" for n
    by (rule tab_uses_none) (use new(1) i(2) filemap_init_nth(1) [of 0 "filemap m"] in \<open>simp add: t'(1) file_at_def\<close>)
  then have "all_uses t n = all_uses s n" for n using same by (simp add: all_uses_def t'(2) cong: map_cong)
  moreover have "pwd_uses t n = pwd_uses s n" for n using same by (simp add: pwd_uses_def t'(2) cong: map_cong) (simp add: t'(1))
  ultimately show "files_ok ops good t h a" using ok t'(3,5,6) by (simp add: files_ok_def held_def)
qed

lemma dup_files_ok:
  assumes "files_ok ops good s h a" "to \<noteq> from" "to \<in> set (fs_ids s)" "from \<in> set (fs_ids s)" "k + m \<le> FS_STRUCT_NENTRY"
    "\<And>j. k \<le> j \<Longrightarrow> j < k + m \<Longrightarrow> f_status (file_at (to, j) s) = FD_NONE" "dup_files ops to from k m s = Some t"
  shows "files_ok ops good t h a"
  using assms
proof (induction m arbitrary: k s)
  case (Suc m)
  note ok = Suc.prems(1) and tab = files_okD(2) [OF Suc.prems(1)]
  let ?init = "\<lambda>f. f\<lparr>f_status := FD_INIT\<rparr>"
  have e: "is_entry s (to, k)" "is_entry s (from, k)" using Suc.prems(3-5) by (simp_all add: is_entry_def)
  have len: "snd (to, k) < length (filemap (fs_tab s (fst (to, k))))" using fds_okD(3) [OF tab] e(1) by (simp add: is_entry_def)
  obtain u where u: "(if f_status (file_at (from, k) s) = FD_OPENED
           then filemap_dup ops (to, k) (from, k) (upd_file (to, k) ?init s) else Some s) = Some u" "dup_files ops to from (k + 1) m u = Some t"
    using Suc.prems(7) by (auto simp: bind_eq_Some_conv)
  have st: "f_status (file_at (to, k) s) = FD_NONE" using Suc.prems(6) by simp
  then have z: "h (to, k) = 0" "a (to, k) = 0" "f_count (file_at (to, k) s) = 0" "f_fd (file_at (to, k) s) = int k"
    using fds_okD(4) [OF tab e(1)] by (auto simp: entry_ok_def)
  have ok1: "files_ok ops good (upd_file (to, k) ?init s) h (a((to, k) := 1))"
    by (rule entry_step [OF ok e(1) moves_refl [OF files_okD(1) [OF ok]] refl]) (use z st in \<open>auto simp: entry_ok_def uses_def\<close>)
  have a: "(a((to, k) := 1))((to, k) := 0) = a" using z(2) by auto
  have u': "files_ok ops good u h a \<and> fs_ids u = fs_ids s \<and> (\<forall>j. j \<noteq> k \<longrightarrow> file_at (to, j) u = file_at (to, j) s)"
  proof (cases "f_status (file_at (from, k) s) = FD_OPENED")
    case True
    then have d: "filemap_dup ops (to, k) (from, k) (upd_file (to, k) ?init s) = Some u" using u(1) by simp
    have ent: "is_entry (upd_file (to, k) ?init s) (from, k)" using e(2) by simp
    show ?thesis using dup_ok [OF ok1 _ ent d] a file_at_upd [OF len, of _ ?init] by auto
  qed (use u(1) ok in auto)
  show ?case by (rule Suc.IH [OF _ Suc.prems(2) _ _ _ _ u(2)]) (use u' Suc.prems(3-6) in auto)
qed simp

text \<open>A fork without shared files: a new table with the descriptors and the directory of the old one.\<close>

lemma fork_ok:
  assumes ok: "files_ok ops good s h a" and i: "i \<notin> set (fs_ids s)" "length (filemap m) = FS_STRUCT_NENTRY" "from \<in> set (fs_ids s)"
    and u: "fs_create (Some (i, m)) s = (Some i, u)" and t: "dup_fs ops i from u = Some t"
  shows "files_ok ops good t h a"
proof -
  note c = fs_create_ok [OF ok i(1,2) u]
  have ne: "i \<noteq> from" using i by auto
  let ?d = "fs_pwd (fs_tab u from)"
  let ?v = "case ?d of None \<Rightarrow> set_pwd i ?d u | Some n \<Rightarrow> ref_up ops n (set_pwd i ?d u)"
  have run: "dup_files ops i from 0 FS_STRUCT_NENTRY ?v = Some t"
    using t ne by (auto simp: dup_fs_def set_pwd_def Let_def split: if_splits option.splits)
  have pos: "0 < ref_count ops (under u) n" if "?d = Some n" for n
  proof -
    have "ones (fs_pwd (fs_tab u from)) n \<le> pwd_uses u n" using i(3) c(2) unfolding pwd_uses_def by (intro member_le_sum_list) auto
    then have "1 \<le> pwd_uses u n" using that by simp
    moreover have "0 \<le> sum_list (map (\<lambda>d. ones (devnode d) n) (vdev_list u))" by (auto intro!: sum_list_nonneg)
    ultimately have "1 \<le> held u n" using uses_nonneg(2) [of u n] ones_simps(3) [of "bootfs_node u" n] unfolding held_def by linarith
    also have "\<dots> \<le> ref_count ops (under u) n" using c(1) by (simp add: files_ok_def)
    finally show ?thesis by simp
  qed
  have m: "moves ops good (ones ?d) none (set_pwd i ?d u) ?v"
    using moves_refl [of "set_pwd i ?d u"] ref_up_moves [of "set_pwd i ?d u"] pos files_okD(1) [OF c(1)] by (auto split: option.splits)
  have v: "files_ok ops good ?v h a" by (rule pwd_step [OF c(1) _ m]) (use c(2,4) in auto)
  show ?thesis by (rule dup_files_ok [OF v ne _ _ _ _ run]) (use moves_frame(4) [OF m] moves_uses(3) [OF m] c(2,3) i(3) in auto)
qed

end

lemma pwd_filemap_upd: "(r :: fs_struct)\<lparr>filemap := x, fs_pwd := d\<rparr> = r\<lparr>fs_pwd := d, filemap := x\<rparr>"
  by (cases r) simp

lemma set_pwd_upd: "set_pwd i d (upd_file p f s) = upd_file p f (set_pwd i d s)"
  by (cases "i = fst p") (simp_all add: set_pwd_def upd_file_def file_at_def fun_upd_twist pwd_filemap_upd)

lemma set_pwd_close: "vfs_close ops n (set_pwd i d s) = map_option (set_pwd i d) (vfs_close ops n s)"
proof -
  have "(set_pwd i d s)\<lparr>under := u\<rparr> = set_pwd i d (s\<lparr>under := u\<rparr>)" for u and s :: "'a vfs" by (cases s) (simp add: set_pwd_def)
  then have "open_down ops n (set_pwd i d s) = map_option (set_pwd i d) (open_down ops n s)"
      "ref_down ops n (set_pwd i d s) = map_option (set_pwd i d) (ref_down ops n s)" for s
    by (simp_all add: open_down_def ref_down_def option.map_comp comp_def)
  then show ?thesis by (cases "open_down ops n s") (simp_all add: vfs_close_def)
qed

lemma set_pwd_free: "filemap_free ops p (set_pwd i d s) = map_option (set_pwd i d) (filemap_free ops p s)"
  by (cases "f_node (file_at p s)") (auto simp: filemap_free_def set_pwd_close set_pwd_upd option.map_comp comp_def split: option.split bind_split)

lemma set_pwd_filemap_close: "filemap_close ops p (set_pwd i d s) = map_option (set_pwd i d) (filemap_close ops p s)"
  by (auto simp: filemap_close_def Let_def set_pwd_free set_pwd_upd [symmetric])

lemma set_pwd_destroy: "destroy_loop ops j k m (set_pwd i d s) = map_option (set_pwd i d) (destroy_loop ops j k m s)"
proof (induction m arbitrary: k s)
  case (Suc m)
  show ?case by (cases "filemap_close ops (j, k) s") (auto simp: set_pwd_filemap_close Suc.IH)
qed simp

context vnodes
begin

lemma set_pwd_moves: "moves ops good d e s t \<Longrightarrow> moves ops good d e (set_pwd i x s) (set_pwd i x t)"
  by (cases s; cases t) (auto simp: moves_def set_pwd_def)

lemma destroy_loop_ok:
  assumes "files_ok ops good s h a" "i \<in> set (fs_ids s)" "k + m \<le> FS_STRUCT_NENTRY" "destroy_loop ops i k m s = Some t"
  shows "files_ok ops good t h a \<and> fs_ids t = fs_ids s \<and> cur_fs t = cur_fs s \<and> (\<forall>j < k. file_at (i, j) t = file_at (i, j) s)
    \<and> (\<forall>j. k \<le> j \<and> j < k + m \<longrightarrow> f_status (file_at (i, j) t) = FD_NONE)"
  using assms
proof (induction m arbitrary: k s)
  case (Suc m)
  obtain u where u: "(if f_status (file_at (i, k) s) = FD_OPENED then filemap_close ops (i, k) s else Some s) = Some u"
      "f_status (file_at (i, k) u) = FD_NONE" "destroy_loop ops i (k + 1) m u = Some t"
    using Suc.prems(4) by (auto simp: bind_eq_Some_conv split: if_splits)
  have e: "is_entry s (i, k)" using Suc.prems(2,3) by (simp add: is_entry_def)
  have ok: "files_ok ops good u h a" "fs_ids u = fs_ids s" "cur_fs u = cur_fs s" "\<And>j. j \<noteq> k \<Longrightarrow> file_at (i, j) u = file_at (i, j) s"
    using u(1) Suc.prems(1) close_ok [OF Suc.prems(1) e] filemap_close_ids by (auto split: if_splits)
  have rest: "files_ok ops good t h a \<and> fs_ids t = fs_ids u \<and> cur_fs t = cur_fs u \<and> (\<forall>j < k + 1. file_at (i, j) t = file_at (i, j) u)
      \<and> (\<forall>j. k + 1 \<le> j \<and> j < k + 1 + m \<longrightarrow> f_status (file_at (i, j) t) = FD_NONE)"
    by (rule Suc.IH [OF ok(1) _ _ u(3)]) (use ok(2) Suc.prems in simp_all)
  moreover have "f_status (file_at (i, j) t) = FD_NONE" if "k \<le> j" "j < k + Suc m" for j
    using rest that u(2) by (cases "j = k") auto
  ultimately show ?case using ok by auto
qed auto

lemma fs_destroy_ok:
  assumes ok: "files_ok ops good s h a" and i: "i \<in> set (fs_ids s)" "cur_fs s \<noteq> Some i" and idle: "\<And>k. h (i, k) = 0 \<and> a (i, k) = 0"
    and t: "fs_destroy ops i s = Some t"
  shows "files_ok ops good t h a"
proof -
  let ?old = "fs_pwd (fs_tab s i)"
  obtain u v where u: "(case ?old of None \<Rightarrow> Some s | Some n \<Rightarrow> ref_down ops n s) = Some u" "destroy_loop ops i 0 FS_STRUCT_NENTRY u = Some v"
      "t = v\<lparr>fs_ids := remove1 i (fs_ids v)\<rparr>"
    using t by (auto simp: fs_destroy_def bind_eq_Some_conv split: if_splits)
  note mu = ref_downs_moves [OF u(1) files_okD(1) [OF ok]]
  have "moves ops good (\<lambda>k. - ones ?old k) none (set_pwd i None s) (set_pwd i None u)"
    using mu by (rule set_pwd_moves)
  then have ok1: "files_ok ops good (set_pwd i None u) h a" by (rule pwd_step [OF ok i(1)]) simp
  have ids: "fs_ids u = fs_ids s" "cur_fs u = cur_fs s" using moves_frame [OF mu] by simp_all
  have run: "destroy_loop ops i 0 FS_STRUCT_NENTRY (set_pwd i None u) = Some (set_pwd i None v)" using u(2) by (simp add: set_pwd_destroy)
  have res: "files_ok ops good (set_pwd i None v) h a" "fs_ids v = fs_ids s" "cur_fs v = cur_fs s" "\<And>j. j < FS_STRUCT_NENTRY \<Longrightarrow> f_status (file_at (i, j) v) = FD_NONE"
    using destroy_loop_ok [OF ok1 _ _ run] i(1) ids by auto
  note tab = files_okD(2) [OF res(1)]
  have dist: "distinct (fs_ids v)" "i \<in> set (fs_ids v)" using fds_okD(1) [OF tab] res(2) i(1) by simp_all
  have drop: "sum_list (map g (fs_ids v)) = sum_list (map g (remove1 i (fs_ids v))) + g i" for g :: "nat \<Rightarrow> int"
    using dist(2) by (simp add: sum_list_map_remove1)
  have none: "tab_uses (fs_tab v i) n = 0" for n
    by (rule tab_uses_none) (use res(4) fds_okD(3) [OF tab, of i] dist(2) in \<open>simp add: file_at_def\<close>)
  have "pwd_uses t n = pwd_uses (set_pwd i None v) n" for n
  proof -
    have "ones (fs_pwd (fs_tab (set_pwd i None v) j)) n = ones (fs_pwd (fs_tab v j)) n" if "j \<in> set (remove1 i (fs_ids v))" for j
      using dist(1) that by (auto simp: set_pwd_def)
    then have "pwd_uses t n = sum_list (map (\<lambda>j. ones (fs_pwd (fs_tab (set_pwd i None v) j)) n) (remove1 i (fs_ids v)))"
      unfolding pwd_uses_def u(3) by (intro arg_cong [of _ _ sum_list] map_cong) auto
    moreover have "ones (fs_pwd (fs_tab (set_pwd i None v) i)) n = 0" by (simp add: set_pwd_def)
    ultimately show ?thesis
      using drop [of "\<lambda>j. ones (fs_pwd (fs_tab (set_pwd i None v) j)) n"] unfolding pwd_uses_def by simp
  qed
  moreover have "all_uses t n = all_uses v n" for n using drop [of "\<lambda>j. tab_uses (fs_tab v j) n"] none by (simp add: all_uses_def u(3))
  moreover have "fds_ok t h a"
  proof -
    have "j \<noteq> i" if "0 < h (j, k) + a (j, k)" for j k using idle [of k] that by auto
    then show ?thesis using tab dist(1) res(2,3) i(2) by (auto simp: fds_ok_def u(3) file_at_def)
  qed
  ultimately show ?thesis using res(1) by (simp add: files_ok_def held_def u(3))
qed

end

section \<open>Processes at work on their files\<close>

text \<open>A call on the node of a descriptor.\<close>

inductive node_call :: "'s vnode_ops \<Rightarrow> nat \<Rightarrow> 's vfs \<Rightarrow> 's vfs \<Rightarrow> bool" for ops n where
  "vop ops n (vop_read ops n len pos) s = Some (rr, t) \<Longrightarrow> node_call ops n s t"
| "vop ops n (vop_write ops n bs pos) s = Some (rw, t) \<Longrightarrow> node_call ops n s t"
| "vop ops n (vop_fstat ops n) s = Some (rs, t) \<Longrightarrow> node_call ops n s t"
| "vop ops n (vop_fsync ops n) s = Some (ru, t) \<Longrightarrow> node_call ops n s t"
| "vop ops n (vop_tryseek ops n pos) s = Some (ru, t) \<Longrightarrow> node_call ops n s t"
| "vop ops n (vop_getdirentry ops n pos) s = Some (rb, t) \<Longrightarrow> node_call ops n s t"

text \<open>What processes do with their tables, in any order and with calls that sleep: \<open>h\<close> counts the calls at work on an entry, \<open>a\<close> the
  entries that a call has reserved and not yet opened. A process switch changes the current table; the number of processes that share a
  table is set by \<^verbatim>\<open>copy_fs\<close> and \<^verbatim>\<open>put_fs\<close> of \<^verbatim>\<open>proc.c\<close>; the last process to leave a table is not in a call on it.\<close>

type_synonym 's files = "'s vfs \<times> (nat \<times> nat \<Rightarrow> nat) \<times> (nat \<times> nat \<Rightarrow> nat)"

inductive file_step :: "'s vnode_ops \<Rightarrow> 's fs_ops \<Rightarrow> 's files \<Rightarrow> 's files \<Rightarrow> bool" for ops fops where
  reserve: "filemap_alloc NO_FD s = Some (Inr p, t) \<Longrightarrow> file_step ops fops (s, h, a) (t, h, a(p := 1))"
| opens_at: "0 < a p \<Longrightarrow> file_open_at ops fops path flags p s = Some (fd, t) \<Longrightarrow> file_step ops fops (s, h, a) (t, h, a(p := 0))"
| enter: "fd2file fd s = Some (Inr p) \<Longrightarrow> filemap_acquire p s = Some t \<Longrightarrow> file_step ops fops (s, h, a) (t, h(p := h p + 1), a)"
| work: "0 < h p \<Longrightarrow> f_node (file_at p s) = Some n \<Longrightarrow> node_call ops n s t \<Longrightarrow> file_step ops fops (s, h, a) (t, h, a)"
| position: "0 < h p \<Longrightarrow> file_step ops fops (s, h, a) (upd_file p (\<lambda>f. f\<lparr>f_pos := pos\<rparr>) s, h, a)"
| leave: "0 < h p \<Longrightarrow> filemap_release ops p s = Some t \<Longrightarrow> file_step ops fops (s, h, a) (t, h(p := h p - 1), a)"
| closing: "file_close ops fd s = Some (r, t) \<Longrightarrow> file_step ops fops (s, h, a) (t, h, a)"
| duplicate: "file_dup ops fd fd' s = Some (r, t) \<Longrightarrow> file_step ops fops (s, h, a) (t, h, a)"
| directory: "cur_fs s = Some i \<Longrightarrow> vfs_chdir ops fops path s = Some (rd, t) \<Longrightarrow> file_step ops fops (s, h, a) (t, h, a)"
| current: "c = None \<or> (\<exists>i \<in> set (fs_ids s). c = Some i) \<Longrightarrow> file_step ops fops (s, h, a) (s\<lparr>cur_fs := c\<rparr>, h, a)"
| sharing: "file_step ops fops (s, h, a) (s\<lparr>fs_tab := (fs_tab s)(i := (fs_tab s i)\<lparr>fs_count := c'\<rparr>)\<rparr>, h, a)"
| fork: "i \<notin> set (fs_ids s) \<Longrightarrow> length (filemap m) = FS_STRUCT_NENTRY \<Longrightarrow> j \<in> set (fs_ids s) \<Longrightarrow> fs_create (Some (i, m)) s = (Some i, u)
    \<Longrightarrow> dup_fs ops i j u = Some t \<Longrightarrow> file_step ops fops (s, h, a) (t, h, a)"
| exec: "i \<in> set (fs_ids s) \<Longrightarrow> fs_closeall ops i s = Some t \<Longrightarrow> file_step ops fops (s, h, a) (t, h, a)"
| exit: "i \<in> set (fs_ids s) \<Longrightarrow> cur_fs s \<noteq> Some i \<Longrightarrow> (\<forall>k. h (i, k) = 0 \<and> a (i, k) = 0) \<Longrightarrow> fs_destroy ops i s = Some t
    \<Longrightarrow> file_step ops fops (s, h, a) (t, h, a)"

context vnodes
begin

lemma node_call_ok:
  assumes "node_call ops n s t" "files_ok ops good s h a"
  shows "files_ok ops good t h a"
  using assms(1)
proof cases
  case (1 len pos r) from vop_ok(1) [OF assms(2) 1 read_quiet [OF files_okD(1) [OF assms(2)]]] show ?thesis .
next
  case (2 bs pos r) from vop_ok(1) [OF assms(2) 2 write_quiet [OF files_okD(1) [OF assms(2)]]] show ?thesis .
next
  case (3 r) from vop_ok(1) [OF assms(2) 3 fstat_quiet [OF files_okD(1) [OF assms(2)]]] show ?thesis .
next
  case (4 r) from vop_ok(1) [OF assms(2) 4 fsync_quiet [OF files_okD(1) [OF assms(2)]]] show ?thesis .
next
  case (5 pos r) from vop_ok(1) [OF assms(2) 5 tryseek_quiet [OF files_okD(1) [OF assms(2)]]] show ?thesis .
next
  case (6 pos r) from vop_ok(1) [OF assms(2) 6 getdirentry_quiet [OF files_okD(1) [OF assms(2)]]] show ?thesis .
qed

lemma sharing_ok:
  assumes "files_ok ops good s h a"
  shows "files_ok ops good (s\<lparr>fs_tab := (fs_tab s)(i := (fs_tab s i)\<lparr>fs_count := c\<rparr>)\<rparr>) h a" (is "files_ok ops good ?t h a")
proof -
  have f: "filemap (fs_tab ?t j) = filemap (fs_tab s j)" "fs_pwd (fs_tab ?t j) = fs_pwd (fs_tab s j)" for j by simp_all
  have "all_uses ?t n = all_uses s n" "pwd_uses ?t n = pwd_uses s n" "file_at p ?t = file_at p s" for n p
    unfolding all_uses_def tab_uses_def pwd_uses_def file_at_def f by simp_all
  moreover from this(3) have "fds_ok ?t h a = fds_ok s h a" unfolding fds_ok_def f by simp
  ultimately show ?thesis using assms by (simp add: files_ok_def held_def)
qed

lemma file_step_ok:
  assumes "file_step ops fops (s, h, a) (t, h', a')" "files_ok ops good s h a"
  shows "files_ok ops good t h' a'"
  using assms(1)
proof cases
  case (reserve p)
  have "files_ok ops good t h (a(p := 1))" using alloc_ok [OF assms(2) reserve(3)] unfolding sum.case by blast
  then show ?thesis using reserve(1,2) by simp
next
  case (opens_at p path flags fd)
  then show ?thesis using file_open_at_ok [OF assms(2)] by blast
next
  case (enter fd p)
  then show ?thesis using acquire_ok [OF assms(2) fd2file_entry(1) [OF assms(2)]] by blast
next
  case (work p n)
  then show ?thesis using node_call_ok [OF _ assms(2)] by blast
next
  case (position p pos)
  then show ?thesis using upd_ok [OF assms(2) fds_okD(5) [OF files_okD(2) [OF assms(2)]]] by simp
next
  case (leave p)
  then show ?thesis using release_ok [OF assms(2)] by blast
next
  case (closing fd r)
  then show ?thesis using file_close_ok [OF assms(2)] by blast
next
  case (duplicate fd fd' r)
  then show ?thesis using file_dup_ok [OF assms(2)] by blast
next
  case (directory i path r)
  then show ?thesis using chdir_ok [OF assms(2)] by blast
next
  case (current c)
  have "all_uses (s\<lparr>cur_fs := c\<rparr>) n = all_uses s n" "held (s\<lparr>cur_fs := c\<rparr>) n = held s n" for n by (simp_all add: all_uses_def held_def pwd_uses_def)
  then show ?thesis using assms(2) current by (auto simp: files_ok_def fds_ok_def file_at_def)
next
  case (sharing i c)
  then show ?thesis using sharing_ok [OF assms(2)] by blast
next
  case (fork i m j u)
  then show ?thesis using fork_ok [OF assms(2)] by blast
next
  case (exec i)
  then have "closeall_loop ops i 2 (FS_STRUCT_NENTRY - 2) s = Some t" by (auto simp: fs_closeall_def split: if_splits)
  then show ?thesis using closeall_loop_ok [OF assms(2) exec(3), of 2 "FS_STRUCT_NENTRY - 2" t] exec(1,2) by (simp add: FS_STRUCT_NENTRY_def)
next
  case (exit i)
  then show ?thesis using fs_destroy_ok [OF assms(2)] by blast
qed

lemma file_steps_ok:
  assumes "(file_step ops fops)\<^sup>*\<^sup>* c c'" "c = (s, h, a)" "c' = (t, h', a')" "files_ok ops good s h a"
  shows "files_ok ops good t h' a'"
  using assms
proof (induction arbitrary: t h' a' rule: rtranclp_induct)
  case (step c' c'')
  obtain u g b where u: "c' = (u, g, b)" by (cases c') auto
  then show ?case using step file_step_ok by blast
qed simp

end

section \<open>Calls without the counting\<close>

text \<open>When nothing happens in between, taking and releasing an entry cancel out: a call acts on the node and the position alone.\<close>

lemma vop_upd: "vop ops n f (upd_file p g s) = map_option (\<lambda>(r, t). (r, upd_file p g t)) (vop ops n f s)"
proof -
  have "(upd_file p g s)\<lparr>under := u\<rparr> = upd_file p g (s\<lparr>under := u\<rparr>)" for u by (cases s) (simp add: upd_file_def file_at_def)
  then show ?thesis by (cases "f (under s)") (auto simp: vop_def on_under_def)
qed

lemma vop_same:
  assumes "vop ops n f s = Some (r, t)"
  shows "file_at p t = file_at p s" "is_entry t p = is_entry s p" "fds_ok t h a = fds_ok s h a"
  using assms by (auto simp: vop_def on_under_def file_at_def is_entry_def fds_ok_def split: if_splits)

definition plain :: "(file_desc \<Rightarrow> file_desc) \<Rightarrow> bool" where
  "plain g \<longleftrightarrow> (\<forall>f. f_status (g f) = f_status f \<and> f_count (g f) = f_count f \<and> (\<forall>c. g (f\<lparr>f_count := c\<rparr>) = (g f)\<lparr>f_count := c\<rparr>))"

lemma plain_pos: "plain (\<lambda>f. f)" "plain (\<lambda>f. f\<lparr>f_pos := x\<rparr>)" "plain (\<lambda>f. f\<lparr>f_pos := f_pos f + x\<rparr>)"
  by (auto simp: plain_def)

lemma release_taken:
  assumes tab: "fds_ok s h a" and e: "is_entry s p" and st: "f_status (file_at p s) = FD_OPENED" and g: "plain g"
  shows "filemap_release ops p (upd_file p g (upd_file p (\<lambda>f. f\<lparr>f_count := f_count f + 1\<rparr>) s)) = Some (upd_file p g s)"
proof -
  let ?i = "\<lambda>f. f\<lparr>f_count := f_count f + 1\<rparr>" and ?d = "\<lambda>f. f\<lparr>f_count := f_count f - 1\<rparr>"
  have len: "snd p < length (filemap (fs_tab s (fst p)))" using fds_okD(3) [OF tab] e by (simp add: is_entry_def)
  have c: "f_count (file_at p s) = int (h p) + 1" using fd_status_cases_entry(3) [OF tab e st] by simp
  have f: "f_status ((g \<circ> ?i) (file_at p s)) = FD_OPENED" "f_count ((g \<circ> ?i) (file_at p s)) = int (h p) + 2"
    using g c st by (simp_all add: plain_def)
  have id: "?d \<circ> (g \<circ> ?i) = g" using g by (intro ext) (simp add: plain_def)
  define s1 where "s1 = upd_file p (g \<circ> ?i) s"
  have "upd_file p ?d s1 = upd_file p g s" using upd_file_twice [OF tab e, of ?d "g \<circ> ?i"] id by (simp add: s1_def)
  moreover have "file_at p s1 = (g \<circ> ?i) (file_at p s)" "file_at p (upd_file p g s) = g (file_at p s)"
    using file_at_upd [OF len] by (simp_all add: s1_def)
  ultimately have "filemap_release ops p s1 = Some (upd_file p g s)" using f g c unfolding filemap_release_def Let_def by (simp add: plain_def)
  then show ?thesis by (simp add: s1_def upd_file_twice [OF tab e])
qed

lemma acquire_opened: "f_status (file_at p s) = FD_OPENED \<Longrightarrow> filemap_acquire p s = Some (upd_file p (\<lambda>f. f\<lparr>f_count := f_count f + 1\<rparr>) s)"
  by (simp add: filemap_acquire_def)

lemma taken_entry:
  assumes "fds_ok s h a" "is_entry s p"
  shows "f_node (file_at p (upd_file p (\<lambda>f. f\<lparr>f_count := f_count f + 1\<rparr>) s)) = f_node (file_at p s)"
    "f_pos (file_at p (upd_file p (\<lambda>f. f\<lparr>f_count := f_count f + 1\<rparr>) s)) = f_pos (file_at p s)"
    "f_status (file_at p (upd_file p (\<lambda>f. f\<lparr>f_count := f_count f + 1\<rparr>) s)) = f_status (file_at p s)"
  using file_at_upd [of p s p] fds_okD(3) [OF assms(1)] assms(2) by (simp_all add: is_entry_def)

definition opened :: "'s vfs \<Rightarrow> int \<Rightarrow> nat \<times> nat \<Rightarrow> nat \<Rightarrow> bool" where
  "opened s fd p n \<longleftrightarrow> fd2file fd s = Some (Inr p) \<and> f_status (file_at p s) = FD_OPENED \<and> f_node (file_at p s) = Some n \<and> is_entry s p"

lemma fd2file_Some:
  "fd2file fd s = Some (Inr p) \<longleftrightarrow> testfd fd \<and> (\<exists>i. get_filemap s = Some i \<and> p = (i, nat fd)) \<and> f_status (file_at p s) = FD_OPENED \<and> f_fd (file_at p s) = fd"
  by (cases "get_filemap s") (auto simp: fd2file_def Let_def)

lemma opened_upd:
  assumes "opened s fd p n" "fds_ok s h a" "\<And>f. f_status (g f) = f_status f \<and> f_node (g f) = f_node f \<and> f_fd (g f) = f_fd f"
  shows "opened (upd_file p g (s\<lparr>under := u\<rparr>)) fd p n" "file_at p (upd_file p g (s\<lparr>under := u\<rparr>)) = g (file_at p s)"
proof -
  have p: "is_entry s p" using assms(1) by (simp add: opened_def)
  have "snd p < length (filemap (fs_tab (s\<lparr>under := u\<rparr>) (fst p)))" using fds_okD(3) [OF assms(2)] p by (simp add: is_entry_def)
  from file_at_upd [OF this, of p g] show f: "file_at p (upd_file p g (s\<lparr>under := u\<rparr>)) = g (file_at p s)" by (simp add: file_at_def)
  have "get_filemap (upd_file p g (s\<lparr>under := u\<rparr>)) = get_filemap s" by (simp add: get_filemap_def)
  then show "opened (upd_file p g (s\<lparr>under := u\<rparr>)) fd p n"
    using assms(1,3) f by (auto simp: opened_def fd2file_Some is_entry_def)
qed

lemma file_read_exact:
  assumes tab: "fds_ok s h a" and o: "opened s fd p n" "f_readable (file_at p s)"
  shows "file_read ops fd len s = map_option (\<lambda>((r, bs), t). ((r, bs), upd_file p (\<lambda>f. f\<lparr>f_pos := f_pos f + of_nat (length bs)\<rparr>) t))
    (vop ops n (vop_read ops n len (f_pos (file_at p s))) s)"
proof -
  have e: "is_entry s p" "f_status (file_at p s) = FD_OPENED" "fd2file fd s = Some (Inr p)" "f_node (file_at p s) = Some n" using o by (simp_all add: opened_def)
  show ?thesis
  proof (cases "vop ops n (vop_read ops n len (f_pos (file_at p s))) s")
    case None
    then show ?thesis using e o(2) by (simp add: file_read_def acquire_opened taken_entry [OF tab e(1)] vop_upd)
  next
    case (Some x)
    obtain r bs t where x: "x = ((r, bs), t)" by (metis surj_pair)
    note same = vop_same [OF Some [unfolded x]]
    have t: "fds_ok t h a" "is_entry t p" "f_status (file_at p t) = FD_OPENED" using same tab e by simp_all
    show ?thesis
      using Some x e o(2) release_taken [OF t plain_pos(3)]
      by (simp add: file_read_def acquire_opened taken_entry [OF tab e(1)] vop_upd advance_def taken_entry [OF t(1,2)] t(3))
  qed
qed

lemma file_write_exact:
  assumes tab: "fds_ok s h a" and o: "opened s fd p n" "f_writable (file_at p s)"
  shows "file_write ops fd bs s = map_option (\<lambda>((r, k), t). ((r, k), upd_file p (\<lambda>f. f\<lparr>f_pos := f_pos f + of_nat k\<rparr>) t))
    (vop ops n (vop_write ops n bs (f_pos (file_at p s))) s)"
proof -
  have e: "is_entry s p" "f_status (file_at p s) = FD_OPENED" "fd2file fd s = Some (Inr p)" "f_node (file_at p s) = Some n" using o by (simp_all add: opened_def)
  show ?thesis
  proof (cases "vop ops n (vop_write ops n bs (f_pos (file_at p s))) s")
    case None
    then show ?thesis using e o(2) by (simp add: file_write_def acquire_opened taken_entry [OF tab e(1)] vop_upd)
  next
    case (Some x)
    obtain r k t where x: "x = ((r, k), t)" by (metis surj_pair)
    note same = vop_same [OF Some [unfolded x]]
    have t: "fds_ok t h a" "is_entry t p" "f_status (file_at p t) = FD_OPENED" using same tab e by simp_all
    show ?thesis
      using Some x e o(2) release_taken [OF t plain_pos(3)]
      by (simp add: file_write_def acquire_opened taken_entry [OF tab e(1)] vop_upd advance_def taken_entry [OF t(1,2)] t(3))
  qed
qed

lemma file_seek_set_exact:
  assumes tab: "fds_ok s h a" and o: "opened s fd p n"
  shows "file_seek ops fd pos LSEEK_SET s = map_option (\<lambda>(r, t). case r of Inl e \<Rightarrow> (e, t) | Inr _ \<Rightarrow> (0, upd_file p (\<lambda>f. f\<lparr>f_pos := pos\<rparr>) t))
    (vop ops n (vop_tryseek ops n pos) s)"
proof -
  have e: "is_entry s p" "f_status (file_at p s) = FD_OPENED" "fd2file fd s = Some (Inr p)" "f_node (file_at p s) = Some n" using o by (simp_all add: opened_def)
  show ?thesis
  proof (cases "vop ops n (vop_tryseek ops n pos) s")
    case None
    then show ?thesis using e by (simp add: file_seek_def acquire_opened taken_entry [OF tab e(1)] vop_upd io_defs)
  next
    case (Some x)
    obtain r t where x: "x = (r, t)" by force
    note same = vop_same [OF Some [unfolded x]]
    have t: "fds_ok t h a" "is_entry t p" "f_status (file_at p t) = FD_OPENED" using same tab e by simp_all
    have "upd_file p (\<lambda>f. f) u = u" if "is_entry u p" for u :: "'a vfs"
      by (cases u) (simp add: upd_file_def file_at_def)
    then show ?thesis
      using Some x e release_taken [OF t plain_pos(2), of ops pos] release_taken [OF t plain_pos(1), of ops] t(2)
      by (cases r) (simp_all add: file_seek_def acquire_opened taken_entry [OF tab e(1)] vop_upd io_defs)
  qed
qed

end
