(* ===== verification/Disk.thy ===== *)
theory Disk
  imports Kstring Sfs_Map
begin

text \<open>
  The disk below the file system: the buffer descriptors of transfers (\<^verbatim>\<open>kern/fs/iobuf.c\<close>), the disk held in memory
  (\<^verbatim>\<open>kern/driver/ramdisk.c\<close>), the table of disks (\<^verbatim>\<open>kern/driver/ide.c\<close>) and the device with its bounce buffer
  (\<^verbatim>\<open>kern/fs/devs/dev_disk0.c\<close>). They all live in one memory, so a transfer is right only where the buffers
  and the disk do not overlap. The device implements the block transfers that the file system is modelled on.
\<close>

section \<open>Buffer descriptors\<close>

record iobuf =
  io_base :: nat
  io_offset :: u32
  io_len :: u32
  io_resid :: u32

definition iobuf_init :: "nat \<Rightarrow> u32 \<Rightarrow> u32 \<Rightarrow> iobuf" where
  "iobuf_init base len offset = \<lparr>io_base = base, io_offset = offset, io_len = len, io_resid = len\<rparr>"

definition iobuf_used :: "iobuf \<Rightarrow> u32" where "iobuf_used iob = io_len iob - io_resid iob"

definition iobuf_skip :: "iobuf \<Rightarrow> u32 \<Rightarrow> iobuf option" where
  "iobuf_skip iob n = do {
     kassert (n \<le> io_resid iob);
     Some (iob\<lparr>io_base := io_base iob + unat n, io_offset := io_offset iob + n, io_resid := io_resid iob - n\<rparr>)
   }"

text \<open>The return code, what is stored through \<^verbatim>\<open>copiedp\<close>, the descriptor and the memory.\<close>

definition iobuf_move :: "iobuf \<Rightarrow> mem \<Rightarrow> nat \<Rightarrow> u32 \<Rightarrow> bool \<Rightarrow> (int \<times> u32 \<times> iobuf \<times> mem) option" where
  "iobuf_move iob m data len m2b =
     (let alen = min (io_resid iob) len in
      if 0 < alen
      then do {
        let m = (if m2b then memmove m (io_base iob) data (unat alen) else memmove m data (io_base iob) (unat alen));
        iob \<leftarrow> iobuf_skip iob alen;
        Some (if len - alen = 0 then 0 else - E_NO_MEM, alen, iob, m)
      }
      else Some (if len = 0 then 0 else - E_NO_MEM, alen, iob, m))"

definition iobuf_move_zeros :: "iobuf \<Rightarrow> mem \<Rightarrow> u32 \<Rightarrow> (int \<times> u32 \<times> iobuf \<times> mem) option" where
  "iobuf_move_zeros iob m len =
     (let alen = min (io_resid iob) len in
      if 0 < alen
      then do {
        let m = memset m (io_base iob) 0 (unat alen);
        iob \<leftarrow> iobuf_skip iob alen;
        Some (if len - alen = 0 then 0 else - E_NO_MEM, alen, iob, m)
      }
      else Some (if len = 0 then 0 else - E_NO_MEM, alen, iob, m))"

section \<open>Disks\<close>

definition SECTSIZE :: u32 where "SECTSIZE = 512"
definition MAX_IDE :: nat where "MAX_IDE = 4"
definition DISK0_DEV_NO :: nat where "DISK0_DEV_NO = 2"

record ide_device =
  valid :: bool
  sectors :: u32
  iobase :: nat

definition ramdisk_init_struct :: "nat \<Rightarrow> nat \<Rightarrow> ide_device option" where
  "ramdisk_init_struct initrd_begin initrd_end = do {
     let len = initrd_end - initrd_begin;
     kassert (len mod 512 = 0);
     Some (if initrd_end \<noteq> initrd_begin
       then \<lparr>valid = True, sectors = of_nat (len div 512), iobase = initrd_begin\<rparr>
       else \<lparr>valid = False, sectors = 0, iobase = 0\<rparr>)
   }"

text \<open>The number of sectors is unsigned, so the test for a negative one never holds; a sector behind the end makes the difference
  wrap around.\<close>

definition ramdisk_read :: "ide_device \<Rightarrow> u32 \<Rightarrow> nat \<Rightarrow> u32 \<Rightarrow> mem \<Rightarrow> int \<times> mem" where
  "ramdisk_read dev secno dst nsecs m =
     (let nsecs = min nsecs (sectors dev - secno)
      in (0, memcpy m dst (iobase dev + unat (secno * SECTSIZE)) (unat (nsecs * SECTSIZE))))"

definition ramdisk_write :: "ide_device \<Rightarrow> u32 \<Rightarrow> nat \<Rightarrow> u32 \<Rightarrow> mem \<Rightarrow> int \<times> mem" where
  "ramdisk_write dev secno src nsecs m =
     (let nsecs = min nsecs (sectors dev - secno)
      in (0, memcpy m (iobase dev + unat (secno * SECTSIZE)) src (unat (nsecs * SECTSIZE))))"

definition ide_init :: "nat \<Rightarrow> nat \<Rightarrow> ide_device list option" where
  "ide_init initrd_begin initrd_end = do {
     dev \<leftarrow> ramdisk_init_struct initrd_begin initrd_end;
     Some ((replicate MAX_IDE \<lparr>valid = False, sectors = 0, iobase = 0\<rparr>)[DISK0_DEV_NO := dev])
   }"

definition ide_device_valid :: "ide_device list \<Rightarrow> nat \<Rightarrow> bool" where
  "ide_device_valid devs ideno \<longleftrightarrow> ideno < MAX_IDE \<and> valid (devs ! ideno)"

definition ide_device_size :: "ide_device list \<Rightarrow> nat \<Rightarrow> u32" where
  "ide_device_size devs ideno = (if ide_device_valid devs ideno then sectors (devs ! ideno) else 0)"

definition ide_read_secs :: "ide_device list \<Rightarrow> nat \<Rightarrow> u32 \<Rightarrow> nat \<Rightarrow> u32 \<Rightarrow> mem \<Rightarrow> int \<times> mem" where
  "ide_read_secs devs ideno secno dst nsecs m =
     (if ide_device_valid devs ideno then ramdisk_read (devs ! ideno) secno dst nsecs m else (0, m))"

definition ide_write_secs :: "ide_device list \<Rightarrow> nat \<Rightarrow> u32 \<Rightarrow> nat \<Rightarrow> u32 \<Rightarrow> mem \<Rightarrow> int \<times> mem" where
  "ide_write_secs devs ideno secno src nsecs m =
     (if ide_device_valid devs ideno then ramdisk_write (devs ! ideno) secno src nsecs m else (0, m))"

section \<open>The device\<close>

definition DISK0_BLKSIZE :: u32 where "DISK0_BLKSIZE = 4096"
definition DISK0_BUFSIZE :: u32 where "DISK0_BUFSIZE = 4 * DISK0_BLKSIZE"
definition DISK0_BLK_NSECT :: u32 where "DISK0_BLK_NSECT = 8"

record disk0 =
  ides :: "ide_device list"
  disk0_buffer :: nat
  dev_blocks :: u32

definition disk0_device_init :: "ide_device list \<Rightarrow> nat option \<Rightarrow> disk0 option" where
  "disk0_device_init devs buffer = do {
     kassert (ide_device_valid devs DISK0_DEV_NO);
     buf \<leftarrow> buffer;
     Some \<lparr>ides = devs, disk0_buffer = buf, dev_blocks = ide_device_size devs DISK0_DEV_NO div DISK0_BLK_NSECT\<rparr>
   }"

definition disk0_read_blks_nolock :: "disk0 \<Rightarrow> u32 \<Rightarrow> u32 \<Rightarrow> mem \<Rightarrow> mem option" where
  "disk0_read_blks_nolock d blkno nblks m =
     (let (r, m) = ide_read_secs (ides d) DISK0_DEV_NO (blkno * DISK0_BLK_NSECT) (disk0_buffer d) (nblks * DISK0_BLK_NSECT) m
      in if r \<noteq> 0 then None else Some m)"

definition disk0_write_blks_nolock :: "disk0 \<Rightarrow> u32 \<Rightarrow> u32 \<Rightarrow> mem \<Rightarrow> mem option" where
  "disk0_write_blks_nolock d blkno nblks m =
     (let (r, m) = ide_write_secs (ides d) DISK0_DEV_NO (blkno * DISK0_BLK_NSECT) (disk0_buffer d) (nblks * DISK0_BLK_NSECT) m
      in if r \<noteq> 0 then None else Some m)"

text \<open>One round of the loop: the number of bytes moved, the descriptor and the memory.\<close>

definition disk0_round :: "disk0 \<Rightarrow> bool \<Rightarrow> u32 \<Rightarrow> u32 \<Rightarrow> iobuf \<Rightarrow> mem \<Rightarrow> (u32 \<times> iobuf \<times> mem) option" where
  "disk0_round d wr resid blkno iob m =
     (if wr
      then do {
        (_, copied, iob, m) \<leftarrow> iobuf_move iob m (disk0_buffer d) DISK0_BUFSIZE False;
        kassert (copied \<noteq> 0 \<and> copied \<le> resid \<and> copied mod DISK0_BLKSIZE = 0);
        m \<leftarrow> disk0_write_blks_nolock d blkno (copied div DISK0_BLKSIZE) m;
        Some (copied, iob, m)
      }
      else do {
        let alen = min DISK0_BUFSIZE resid;
        m \<leftarrow> disk0_read_blks_nolock d blkno (alen div DISK0_BLKSIZE) m;
        (_, copied, iob, m) \<leftarrow> iobuf_move iob m (disk0_buffer d) alen True;
        kassert (copied = alen \<and> copied mod DISK0_BLKSIZE = 0);
        Some (copied, iob, m)
      })"

function disk0_loop :: "disk0 \<Rightarrow> bool \<Rightarrow> u32 \<Rightarrow> u32 \<Rightarrow> iobuf \<Rightarrow> mem \<Rightarrow> (iobuf \<times> mem) option" where
  "disk0_loop d wr resid blkno iob m =
     (if resid = 0 then Some (iob, m)
      else case disk0_round d wr resid blkno iob m of
        None \<Rightarrow> None
      | Some (copied, iob, m) \<Rightarrow>
          if 0 < copied \<and> copied \<le> resid then disk0_loop d wr (resid - copied) (blkno + copied div DISK0_BLKSIZE) iob m else None)"
  by pat_completeness auto
termination
  by (relation "measure (\<lambda>(d, wr, resid, blkno, iob, m). unat resid)") (auto simp: unat_sub word_less_nat_alt word_le_nat_alt)

declare disk0_loop.simps [simp del]

text \<open>The offset is signed; the division is exact where it is used.\<close>

definition disk0_io :: "disk0 \<Rightarrow> iobuf \<Rightarrow> bool \<Rightarrow> mem \<Rightarrow> (int \<times> iobuf \<times> mem) option" where
  "disk0_io d iob wr m =
     (let offset = io_offset iob; resid = io_resid iob;
          blkno = word_of_int (sint offset div 4096); nblks = resid div DISK0_BLKSIZE
      in if offset mod DISK0_BLKSIZE \<noteq> 0 \<or> resid mod DISK0_BLKSIZE \<noteq> 0 then Some (- E_INVAL, iob, m)
         else if dev_blocks d < blkno + nblks then Some (- E_INVAL, iob, m)
         else if nblks = 0 then Some (0, iob, m)
         else do {
           (iob, m) \<leftarrow> disk0_loop d wr resid blkno iob m;
           Some (0, iob, m)
         })"

section \<open>Moving bytes through the buffer\<close>

definition moved :: "disk0 \<Rightarrow> nat \<Rightarrow> nat \<Rightarrow> nat \<Rightarrow> mem \<Rightarrow> mem \<Rightarrow> bool" where
  "moved d dst src len m m' \<longleftrightarrow> (\<forall>a. a \<notin> {disk0_buffer d..<disk0_buffer d + 16384} \<longrightarrow>
     m' a = (if a \<in> {dst..<dst + len} then m (src + (a - dst)) else m a))"

definition apart :: "disk0 \<Rightarrow> nat \<Rightarrow> nat \<Rightarrow> nat \<Rightarrow> bool" where
  "apart d dst src len \<longleftrightarrow> disjoint_ranges dst len src len
     \<and> disjoint_ranges (disk0_buffer d) 16384 src len \<and> disjoint_ranges (disk0_buffer d) 16384 dst len"

lemma moved_0: "moved d dst src 0 m m"
  by (simp add: moved_def)

lemma moved_trans:
  assumes "moved d dst src l m m1" "moved d (dst + l) (src + l) k m1 m2" "apart d dst src (l + k)"
  shows "moved d dst src (l + k) m m2"
  unfolding moved_def
proof (intro allI impI)
  fix a assume a: "a \<notin> {disk0_buffer d..<disk0_buffer d + 16384}"
  have m2: "m2 a = (if a \<in> {dst + l..<dst + l + k} then m1 (src + l + (a - (dst + l))) else m1 a)" using assms(2) a by (simp add: moved_def)
  show "m2 a = (if a \<in> {dst..<dst + (l + k)} then m (src + (a - dst)) else m a)"
  proof (cases "a \<in> {dst + l..<dst + l + k}")
    case True
    then have s: "src + l + (a - (dst + l)) = src + (a - dst)" by auto
    have "src + (a - dst) \<notin> {disk0_buffer d..<disk0_buffer d + 16384}" "src + (a - dst) \<notin> {dst..<dst + l}"
      using assms(3) True by (auto simp: apart_def disjoint_ranges_def)
    then have "m1 (src + (a - dst)) = m (src + (a - dst))" using assms(1) by (auto simp: moved_def)
    then show ?thesis using True m2 unfolding s by auto
  next
    case False
    then show ?thesis using m2 assms(1) a by (auto simp: moved_def)
  qed
qed

lemma moved_through:
  assumes "apart d dst src len" "len \<le> 16384"
  shows "moved d dst src len m (memcpy (memcpy m (disk0_buffer d) src len) dst (disk0_buffer d) len)" (is "moved d dst src len m ?m")
  unfolding moved_def
proof (intro allI impI)
  fix a assume a: "a \<notin> {disk0_buffer d..<disk0_buffer d + 16384}"
  have dis: "disjoint_ranges dst len (disk0_buffer d) len" "disjoint_ranges (disk0_buffer d) len src len"
    using assms by (auto simp: apart_def disjoint_ranges_def)
  show "?m a = (if a \<in> {dst..<dst + len} then m (src + (a - dst)) else m a)"
  proof (cases "a \<in> {dst..<dst + len}")
    case True
    then have "?m (dst + (a - dst)) = m (src + (a - dst))"
      using memcpy_disjoint [OF dis(1), of "a - dst"] memcpy_disjoint [OF dis(2), of "a - dst" m] by auto
    then show ?thesis using True by simp
  next
    case False
    moreover have "a \<notin> {disk0_buffer d..<disk0_buffer d + len}" using a assms(2) by auto
    ultimately have "?m a = m a" by (simp only: memcpy_outside not_False_eq_True)
    then show ?thesis using False by (simp only: if_False)
  qed
qed

lemma memmove_memcpy: "memmove m dst src n = memcpy m dst src n" if "disjoint_ranges dst n src n"
  using that by (auto simp: memmove_def disjoint_ranges_def)

section \<open>Transfers of blocks\<close>

definition disk_ok :: "disk0 \<Rightarrow> bool" where
  "disk_ok d \<longleftrightarrow> ide_device_valid (ides d) DISK0_DEV_NO \<and> unat (dev_blocks d) * 8 \<le> unat (sectors (ides d ! DISK0_DEV_NO))
     \<and> unat (dev_blocks d) < 524288"

definition block_addr :: "disk0 \<Rightarrow> nat \<Rightarrow> nat" where
  "block_addr d k = iobase (ides d ! DISK0_DEV_NO) + k * 4096"

lemma sector_numbers:
  assumes ok: "disk_ok d" and n: "k + n \<le> unat (dev_blocks d)"
  shows "unat (of_nat k * DISK0_BLK_NSECT * SECTSIZE) = k * 4096"
    "unat (min (of_nat n * DISK0_BLK_NSECT) (sectors (ides d ! DISK0_DEV_NO) - of_nat k * DISK0_BLK_NSECT) * SECTSIZE) = n * 4096"
proof -
  have small: "k \<le> 524288" "n \<le> 524288" using ok n by (simp_all add: disk_ok_def)
  have blk: "unat (of_nat j * DISK0_BLK_NSECT * SECTSIZE) = j * 4096" if "j \<le> 524288" for j
    using that by (simp add: DISK0_BLK_NSECT_def SECTSIZE_def unat_word_ariths unat_of_nat)
  then show "unat (of_nat k * DISK0_BLK_NSECT * SECTSIZE) = k * 4096" using small by simp
  have k8: "unat (of_nat k * DISK0_BLK_NSECT) = k * 8" "unat (of_nat n * DISK0_BLK_NSECT) = n * 8"
    using small by (simp_all add: DISK0_BLK_NSECT_def unat_word_ariths unat_of_nat)
  have le: "k * 8 + n * 8 \<le> unat (sectors (ides d ! DISK0_DEV_NO))" using ok n by (simp add: disk_ok_def)
  then have "of_nat k * DISK0_BLK_NSECT \<le> sectors (ides d ! DISK0_DEV_NO)" by (simp add: word_le_nat_alt k8)
  then have "unat (sectors (ides d ! DISK0_DEV_NO) - of_nat k * DISK0_BLK_NSECT) = unat (sectors (ides d ! DISK0_DEV_NO)) - k * 8"
    by (simp add: unat_sub k8)
  then have "of_nat n * DISK0_BLK_NSECT \<le> sectors (ides d ! DISK0_DEV_NO) - of_nat k * DISK0_BLK_NSECT"
    using le by (simp add: word_le_nat_alt k8)
  then have "min (of_nat n * DISK0_BLK_NSECT) (sectors (ides d ! DISK0_DEV_NO) - of_nat k * DISK0_BLK_NSECT) = of_nat n * DISK0_BLK_NSECT"
    by (simp add: min_def)
  then show "unat (min (of_nat n * DISK0_BLK_NSECT) (sectors (ides d ! DISK0_DEV_NO) - of_nat k * DISK0_BLK_NSECT) * SECTSIZE) = n * 4096"
    using blk [OF small(2)] by simp
qed

lemma blks_nolock:
  assumes "disk_ok d" "k + n \<le> unat (dev_blocks d)"
  shows "disk0_read_blks_nolock d (of_nat k) (of_nat n) m = Some (memcpy m (disk0_buffer d) (block_addr d k) (n * 4096))"
    "disk0_write_blks_nolock d (of_nat k) (of_nat n) m = Some (memcpy m (block_addr d k) (disk0_buffer d) (n * 4096))"
  using assms(1) by (simp_all add: disk_ok_def disk0_read_blks_nolock_def disk0_write_blks_nolock_def ide_read_secs_def ide_write_secs_def
    ramdisk_read_def ramdisk_write_def sector_numbers [OF assms] block_addr_def)

lemma bytes_of_blocks:
  assumes "n < 524288"
  shows "unat (of_nat (n * 4096) :: u32) = n * 4096" "min (of_nat (n * 4096)) DISK0_BUFSIZE = of_nat (min n 4 * 4096)"
    "of_nat (n * 4096) div DISK0_BLKSIZE = (of_nat n :: u32)" "of_nat (n * 4096) mod DISK0_BLKSIZE = (0 :: u32)"
proof -
  show u: "unat (of_nat (n * 4096) :: u32) = n * 4096" using assms by (simp add: unat_of_nat del: of_nat_mult)
  have b: "unat DISK0_BUFSIZE = 16384" by (simp add: DISK0_BUFSIZE_def DISK0_BLKSIZE_def)
  show "min (of_nat (n * 4096)) DISK0_BUFSIZE = of_nat (min n 4 * 4096)"
  proof (cases "n \<le> 4")
    case True
    then show ?thesis using u b by (simp add: min_def word_le_nat_alt del: of_nat_mult)
  next
    case False
    then have "\<not> (of_nat (n * 4096) :: u32) \<le> DISK0_BUFSIZE" using u b by (simp add: word_le_nat_alt del: of_nat_mult)
    then show ?thesis using False by (simp add: min_def DISK0_BUFSIZE_def DISK0_BLKSIZE_def)
  qed
  show "of_nat (n * 4096) div DISK0_BLKSIZE = (of_nat n :: u32)"
    using u assms by (simp add: word_unat_eq_iff unat_div unat_of_nat DISK0_BLKSIZE_def del: of_nat_mult)
  show "of_nat (n * 4096) mod DISK0_BLKSIZE = (0 :: u32)"
    using u by (simp add: word_unat_eq_iff unat_mod DISK0_BLKSIZE_def del: of_nat_mult)
qed

definition skipped :: "iobuf \<Rightarrow> nat \<Rightarrow> iobuf" where
  "skipped iob n = iob\<lparr>io_base := io_base iob + n * 4096, io_offset := io_offset iob + of_nat (n * 4096), io_resid := io_resid iob - of_nat (n * 4096)\<rparr>"

lemma iobuf_move_blocks:
  assumes n: "0 < n" "n < 524288" "io_resid iob = of_nat (n * 4096)" and len: "len = DISK0_BUFSIZE \<or> len = of_nat (min n 4 * 4096)"
    and dis: "disjoint_ranges (io_base iob) (min n 4 * 4096) buf (min n 4 * 4096)"
  shows "\<exists>r. iobuf_move iob m buf len m2b = Some (r, of_nat (min n 4 * 4096), skipped iob (min n 4),
     if m2b then memcpy m (io_base iob) buf (min n 4 * 4096) else memcpy m buf (io_base iob) (min n 4 * 4096))"
proof -
  let ?c = "min n 4"
  have c: "unat (of_nat (?c * 4096) :: u32) = ?c * 4096" using bytes_of_blocks(1) [of ?c] n(2) by simp
  have le: "(of_nat (?c * 4096) :: u32) \<le> of_nat (n * 4096)" unfolding word_le_nat_alt c bytes_of_blocks(1) [OF n(2)] by simp
  have alen: "min (io_resid iob) len = of_nat (?c * 4096)"
    using len bytes_of_blocks(2) [OF n(2)] n(3) le by (elim disjE) (simp_all only: min_absorb2)
  have pos: "0 < (of_nat (?c * 4096) :: u32)" using c n(1) by (simp add: word_less_nat_alt del: of_nat_mult)
  have "disjoint_ranges buf (?c * 4096) (io_base iob) (?c * 4096)" using dis by (auto simp: disjoint_ranges_def)
  then show ?thesis
    using pos le n(3) unfolding iobuf_move_def alen Let_def c by (simp add: iobuf_skip_def skipped_def c memmove_memcpy [OF dis] memmove_memcpy del: of_nat_mult)
qed

definition dst_of :: "disk0 \<Rightarrow> bool \<Rightarrow> nat \<Rightarrow> nat \<Rightarrow> nat" where "dst_of d wr k base = (if wr then block_addr d k else base)"
definition src_of :: "disk0 \<Rightarrow> bool \<Rightarrow> nat \<Rightarrow> nat \<Rightarrow> nat" where "src_of d wr k base = (if wr then base else block_addr d k)"

lemma disk0_round_moved:
  assumes ok: "disk_ok d" and n: "0 < n" "k + n \<le> unat (dev_blocks d)" "io_resid iob = of_nat (n * 4096)"
    and ap: "apart d (dst_of d wr k (io_base iob)) (src_of d wr k (io_base iob)) (n * 4096)"
  shows "\<exists>m'. disk0_round d wr (of_nat (n * 4096)) (of_nat k) iob m = Some (of_nat (min n 4 * 4096), skipped iob (min n 4), m')
    \<and> moved d (dst_of d wr k (io_base iob)) (src_of d wr k (io_base iob)) (min n 4 * 4096) m m'"
proof -
  let ?c = "min n 4"
  have n': "n < 524288" "?c < 524288" using ok n by (auto simp: disk_ok_def)
  note c = bytes_of_blocks [OF n'(2)]
  have kc: "k + ?c \<le> unat (dev_blocks d)" using n(2) by simp
  have "apart d (dst_of d wr k (io_base iob)) (src_of d wr k (io_base iob)) (?c * 4096)"
    using ap by (auto simp: apart_def disjoint_ranges_def)
  moreover have "?c * 4096 \<le> 16384" by simp
  ultimately have mv: "moved d (dst_of d wr k (io_base iob)) (src_of d wr k (io_base iob)) (?c * 4096) m
      (memcpy (memcpy m (disk0_buffer d) (src_of d wr k (io_base iob)) (?c * 4096)) (dst_of d wr k (io_base iob)) (disk0_buffer d) (?c * 4096))"
    by (rule moved_through)
  have dis: "disjoint_ranges (io_base iob) (?c * 4096) (disk0_buffer d) (?c * 4096)"
    using ap by (cases wr) (auto simp: apart_def disjoint_ranges_def dst_of_def src_of_def)
  have ne: "(of_nat (?c * 4096) :: u32) \<noteq> 0" using c(1) n(1) by (metis mult_is_0 min_0L min_def unat_0 zero_neq_numeral less_irrefl)
  have le: "(of_nat (?c * 4096) :: u32) \<le> of_nat (n * 4096)" unfolding word_le_nat_alt c(1) bytes_of_blocks(1) [OF n'(1)] by simp
  show ?thesis
  proof (cases wr)
    case True
    obtain r where "iobuf_move iob m (disk0_buffer d) DISK0_BUFSIZE False
        = Some (r, of_nat (?c * 4096), skipped iob ?c, memcpy m (disk0_buffer d) (io_base iob) (?c * 4096))"
      using iobuf_move_blocks [OF n(1) n'(1) n(3) disjI1 [OF refl] dis, of m False] by auto
    then have "disk0_round d wr (of_nat (n * 4096)) (of_nat k) iob m = Some (of_nat (?c * 4096), skipped iob ?c,
        memcpy (memcpy m (disk0_buffer d) (io_base iob) (?c * 4096)) (block_addr d k) (disk0_buffer d) (?c * 4096))"
      using True ne le c(3,4) blks_nolock(2) [OF ok kc] by (simp add: disk0_round_def del: of_nat_mult)
    then show ?thesis using mv True by (simp add: dst_of_def src_of_def)
  next
    case False
    let ?m = "memcpy m (disk0_buffer d) (block_addr d k) (?c * 4096)"
    have alen: "min DISK0_BUFSIZE (of_nat (n * 4096)) = of_nat (?c * 4096)" using bytes_of_blocks(2) [OF n'(1)] by (simp only: min.commute)
    obtain r where "iobuf_move iob ?m (disk0_buffer d) (of_nat (?c * 4096)) True
        = Some (r, of_nat (?c * 4096), skipped iob ?c, memcpy ?m (io_base iob) (disk0_buffer d) (?c * 4096))"
      using iobuf_move_blocks [OF n(1) n'(1) n(3) disjI2 [OF refl] dis, of ?m True] by auto
    then have "disk0_round d wr (of_nat (n * 4096)) (of_nat k) iob m = Some (of_nat (?c * 4096), skipped iob ?c,
        memcpy ?m (io_base iob) (disk0_buffer d) (?c * 4096))"
      using False c(3,4) blks_nolock(1) [OF ok kc, of m] by (simp add: disk0_round_def alen del: of_nat_mult)
    then show ?thesis using mv False by (simp add: dst_of_def src_of_def)
  qed
qed

lemma disk0_loop_moved:
  assumes "disk_ok d" "k + n \<le> unat (dev_blocks d)" "io_resid iob = of_nat (n * 4096)"
    "apart d (dst_of d wr k (io_base iob)) (src_of d wr k (io_base iob)) (n * 4096)"
  shows "\<exists>iob' m'. disk0_loop d wr (of_nat (n * 4096)) (of_nat k) iob m = Some (iob', m') \<and> io_resid iob' = 0
    \<and> moved d (dst_of d wr k (io_base iob)) (src_of d wr k (io_base iob)) (n * 4096) m m'"
  using assms
proof (induction n arbitrary: k iob m rule: less_induct)
  case (less n)
  have n': "n < 524288" using less.prems(1,2) by (auto simp: disk_ok_def)
  show ?case
  proof (cases "n = 0")
    case True
    then show ?thesis using less.prems(3) moved_0 by (simp add: disk0_loop.simps)
  next
    case False
    define c where "c = min n 4"
    let ?D = "dst_of d wr k (io_base iob)" and ?S = "src_of d wr k (io_base iob)" and ?i = "skipped iob c"
    obtain m1 where m1: "disk0_round d wr (of_nat (n * 4096)) (of_nat k) iob m = Some (of_nat (c * 4096), ?i, m1)"
        "moved d ?D ?S (c * 4096) m m1"
      using disk0_round_moved [OF less.prems(1) _ less.prems(2,3,4)] False by (auto simp: c_def)
    have c: "0 < c" "c \<le> n" "c < 524288" using False n' by (auto simp: c_def)
    have split: "n * 4096 = c * 4096 + (n - c) * 4096" using c(2) by (simp flip: add_mult_distrib)
    have rest: "of_nat (n * 4096) - of_nat (c * 4096) = (of_nat ((n - c) * 4096) :: u32)" unfolding split by simp
    have next_blk: "of_nat k + of_nat (c * 4096) div DISK0_BLKSIZE = (of_nat (k + c) :: u32)" using bytes_of_blocks(3) [OF c(3)] by simp
    have base: "dst_of d wr (k + c) (io_base ?i) = ?D + c * 4096" "src_of d wr (k + c) (io_base ?i) = ?S + c * 4096"
      by (simp_all add: dst_of_def src_of_def block_addr_def skipped_def)
    have "apart d (?D + c * 4096) (?S + c * 4096) ((n - c) * 4096)"
      using less.prems(4) c(2) unfolding split by (auto simp: apart_def disjoint_ranges_def)
    moreover have "io_resid ?i = of_nat ((n - c) * 4096)" using less.prems(3) rest by (simp add: skipped_def)
    moreover have "k + c + (n - c) \<le> unat (dev_blocks d)" "n - c < n" using less.prems(2) c by auto
    ultimately obtain iob' m' where m': "disk0_loop d wr (of_nat ((n - c) * 4096)) (of_nat (k + c)) ?i m1 = Some (iob', m')" "io_resid iob' = 0"
        "moved d (?D + c * 4096) (?S + c * 4096) ((n - c) * 4096) m1 m'"
      using less.IH [of "n - c" "k + c" ?i m1] less.prems(1) unfolding base by blast
    have "moved d ?D ?S (n * 4096) m m'"
      using moved_trans [OF m1(2) m'(3)] less.prems(4) unfolding split [symmetric] by simp
    moreover have "(of_nat (n * 4096) :: u32) \<noteq> 0" "0 < (of_nat (c * 4096) :: u32)" "(of_nat (c * 4096) :: u32) \<le> of_nat (n * 4096)"
      using bytes_of_blocks(1) [OF n'] bytes_of_blocks(1) [OF c(3)] c False
      by (auto simp: word_less_nat_alt word_le_nat_alt word_unat_eq_iff simp del: of_nat_mult)
    ultimately show ?thesis using m1(1) m' rest next_blk by (subst disk0_loop.simps) (simp del: of_nat_mult of_nat_add)
  qed
qed

lemma disk0_io_moved:
  assumes ok: "disk_ok d" and k: "k < 524288" "n < 524288" and iob: "io_offset iob = of_nat (k * 4096)" "io_resid iob = of_nat (n * 4096)"
    and ap: "k + n \<le> unat (dev_blocks d) \<Longrightarrow> apart d (dst_of d wr k (io_base iob)) (src_of d wr k (io_base iob)) (n * 4096)"
  shows "if k + n \<le> unat (dev_blocks d)
    then \<exists>iob' m'. disk0_io d iob wr m = Some (0, iob', m') \<and> io_resid iob' = 0
      \<and> moved d (dst_of d wr k (io_base iob)) (src_of d wr k (io_base iob)) (n * 4096) m m'
    else disk0_io d iob wr m = Some (- E_INVAL, iob, m)"
proof -
  have "sint (of_nat (k * 4096) :: u32) = int k * 4096"
    using k(1) by (simp add: signed_of_nat signed_take_bit_int_eq_self del: of_nat_mult)
  then have blkno: "word_of_int (sint (io_offset iob) div 4096) = (of_nat k :: u32)" unfolding iob(1) by simp
  note b = bytes_of_blocks(3,4) [OF k(1)] bytes_of_blocks(3,4) [OF k(2)]
  have sum: "of_nat k + of_nat n = (of_nat (k + n) :: u32)" "unat (of_nat (k + n) :: u32) = k + n" using k by (simp_all add: unat_of_nat del: of_nat_add) simp
  have run: "disk0_io d iob wr m = (if dev_blocks d < of_nat (k + n) then Some (- E_INVAL, iob, m)
      else if (of_nat n :: u32) = 0 then Some (0, iob, m)
      else disk0_loop d wr (of_nat (n * 4096)) (of_nat k) iob m \<bind> (\<lambda>(iob, m). Some (0, iob, m)))"
    unfolding disk0_io_def Let_def blkno by (simp only: iob b sum) simp
  show ?thesis
  proof (cases "k + n \<le> unat (dev_blocks d)")
    case True
    have guard: "\<not> dev_blocks d < of_nat (k + n)" using True unfolding word_less_nat_alt sum(2) by simp
    obtain iob' m' where l: "disk0_loop d wr (of_nat (n * 4096)) (of_nat k) iob m = Some (iob', m')" "io_resid iob' = 0"
        "moved d (dst_of d wr k (io_base iob)) (src_of d wr k (io_base iob)) (n * 4096) m m'"
      using disk0_loop_moved [OF ok True iob(2) ap [OF True]] by blast
    show ?thesis
    proof (cases "n = 0")
      case n0: True
      then show ?thesis using True run guard iob(2) moved_0 by simp
    next
      case False
      then have "(of_nat n :: u32) \<noteq> 0" using k(2) by (simp add: word_unat_eq_iff unat_of_nat)
      then show ?thesis using True run guard l by simp
    qed
  next
    case False
    then have "dev_blocks d < of_nat (k + n)" unfolding word_less_nat_alt sum(2) by simp
    then show ?thesis using False run by simp
  qed
qed

section \<open>The device under the file system\<close>

text \<open>The disk of the file system is the one in memory.\<close>

definition on_disk :: "disk0 \<Rightarrow> mem \<Rightarrow> 'a sfs_fs_scheme \<Rightarrow> bool" where
  "on_disk d m s \<longleftrightarrow> disk_ok d \<and> dev_blocks d = d_blocks s
     \<and> (\<forall>b < d_blocks s. \<forall>i < 4096. m (block_addr d (unat b) + i) = disk s b i)"

definition block_iobuf :: "nat \<Rightarrow> u32 \<Rightarrow> iobuf" where
  "block_iobuf buf blkno = iobuf_init buf DISK0_BLKSIZE (blkno * DISK0_BLKSIZE)"

text \<open>A page for the transfer, the bounce buffer and the disk do not overlap.\<close>

definition page_apart :: "disk0 \<Rightarrow> nat \<Rightarrow> bool" where
  "page_apart d buf \<longleftrightarrow> disjoint_ranges buf 4096 (disk0_buffer d) 16384
     \<and> disjoint_ranges (block_addr d 0) (unat (dev_blocks d) * 4096) buf 4096
     \<and> disjoint_ranges (block_addr d 0) (unat (dev_blocks d) * 4096) (disk0_buffer d) 16384"

lemma page_apart_block:
  assumes "page_apart d buf" "b < dev_blocks d"
  shows "apart d (dst_of d wr (unat b) buf) (src_of d wr (unat b) buf) 4096" "disjoint_ranges (disk0_buffer d) 16384 (block_addr d (unat b)) 4096"
    "disjoint_ranges buf 4096 (block_addr d (unat b)) 4096"
proof -
  have "unat b * 4096 + 4096 \<le> unat (dev_blocks d) * 4096" using assms(2) by (simp add: word_less_nat_alt)
  then show "disjoint_ranges (disk0_buffer d) 16384 (block_addr d (unat b)) 4096" "disjoint_ranges buf 4096 (block_addr d (unat b)) 4096"
    using assms(1) unfolding page_apart_def disjoint_ranges_def block_addr_def by auto
  then show "apart d (dst_of d wr (unat b) buf) (src_of d wr (unat b) buf) 4096"
    using assms(1) by (cases wr) (auto simp: page_apart_def apart_def disjoint_ranges_def dst_of_def src_of_def)
qed

lemma block_iobuf_run:
  assumes sim: "on_disk d m s" and ap: "page_apart d buf" and b: "unat b < 524288"
  shows "if b < d_blocks s
    then \<exists>iob' m'. disk0_io d (block_iobuf buf b) wr m = Some (0, iob', m')
      \<and> moved d (dst_of d wr (unat b) buf) (src_of d wr (unat b) buf) 4096 m m'
    else \<exists>iob'. disk0_io d (block_iobuf buf b) wr m = Some (- E_INVAL, iob', m)"
proof -
  have ok: "disk_ok d" "dev_blocks d = d_blocks s" using sim by (simp_all add: on_disk_def)
  have iob: "io_offset (block_iobuf buf b) = of_nat (unat b * 4096)" "io_resid (block_iobuf buf b) = of_nat (1 * 4096)" "io_base (block_iobuf buf b) = buf"
    by (simp_all add: block_iobuf_def iobuf_init_def DISK0_BLKSIZE_def)
  have lt: "unat b + 1 \<le> unat (dev_blocks d) \<longleftrightarrow> b < d_blocks s" using ok(2) by (simp add: word_less_nat_alt Suc_le_eq)
  have "apart d (dst_of d wr (unat b) buf) (src_of d wr (unat b) buf) (1 * 4096)" if "unat b + 1 \<le> unat (dev_blocks d)"
    using page_apart_block(1) [OF ap] that lt ok(2) by simp
  then show ?thesis using disk0_io_moved [OF ok(1) b _ iob(1,2), of wr m] unfolding iob(3) lt by (auto split: if_splits)
qed

lemma read_stored:
  assumes sim: "on_disk d m s" and ap: "page_apart d buf" and b: "b < d_blocks s" and mv: "moved d buf (block_addr d (unat b)) 4096 m m'"
  shows "i < 4096 \<Longrightarrow> m' (buf + i) = disk s b i" "on_disk d m' s"
proof -
  have db: "dev_blocks d = d_blocks s" using sim by (simp add: on_disk_def)
  have "m' (buf + i) = m (block_addr d (unat b) + i)" if "i < 4096" for i
    using mv ap that by (auto simp: moved_def page_apart_def disjoint_ranges_def)
  then show "i < 4096 \<Longrightarrow> m' (buf + i) = disk s b i" using sim b by (simp add: on_disk_def)
  have "m' (block_addr d (unat c) + i) = m (block_addr d (unat c) + i)" if "c < d_blocks s" "i < 4096" for c i
    using mv page_apart_block(2,3) [OF ap, of c] that db by (auto simp: moved_def disjoint_ranges_def)
  then show "on_disk d m' s" using sim by (simp add: on_disk_def)
qed

lemma write_stored:
  assumes sim: "on_disk d m s" and ap: "page_apart d buf" and b: "b < d_blocks s" and c: "\<And>i. i < 4096 \<Longrightarrow> m (buf + i) = c i"
    and mv: "moved d (block_addr d (unat b)) buf 4096 m m'"
  shows "on_disk d m' (s\<lparr>disk := (disk s)(b := c)\<rparr>)"
proof -
  have db: "dev_blocks d = d_blocks s" using sim by (simp add: on_disk_def)
  have "m' (block_addr d (unat e) + i) = (if e = b then c i else disk s e i)" if e: "e < d_blocks s" "i < 4096" for e i
  proof -
    have out: "block_addr d (unat e) + i \<notin> {disk0_buffer d..<disk0_buffer d + 16384}"
      using page_apart_block(2) [OF ap, of e] e db by (auto simp: disjoint_ranges_def)
    have "block_addr d (unat e) + i \<in> {block_addr d (unat b)..<block_addr d (unat b) + 4096} \<longleftrightarrow> e = b"
    proof -
      have "unat b * 4096 \<le> unat e * 4096 + i \<and> unat e * 4096 + i < unat b * 4096 + 4096 \<longleftrightarrow> unat e = unat b" using e(2) by auto
      then show ?thesis by (simp add: block_addr_def word_unat_eq_iff)
    qed
    then show ?thesis using mv out c [OF e(2)] sim e by (auto simp: moved_def on_disk_def)
  qed
  then show ?thesis using sim by (auto simp: on_disk_def)
qed

lemma block_transfers:
  assumes "on_disk d m s" "page_apart d buf" "unat blkno < 524288"
  shows "rd_block blkno check s = Some (r, s') \<Longrightarrow>
      \<exists>iob' m'. disk0_io d (block_iobuf buf blkno) False m = Some (case r of Inl e \<Rightarrow> e | Inr _ \<Rightarrow> 0, iob', m') \<and> on_disk d m' s'
        \<and> (case r of Inl _ \<Rightarrow> m' = m | Inr c \<Rightarrow> \<forall>i < 4096. m' (buf + i) = c i)"
    and "wr_block blkno check c s = Some (w, s') \<Longrightarrow> (\<And>i. i < 4096 \<Longrightarrow> m (buf + i) = c i) \<Longrightarrow>
      \<exists>iob' m'. disk0_io d (block_iobuf buf blkno) True m = Some (case w of Inl e \<Rightarrow> e | Inr _ \<Rightarrow> 0, iob', m') \<and> on_disk d m' s'"
proof -
  note run = block_iobuf_run [OF assms]
  show "\<exists>iob' m'. disk0_io d (block_iobuf buf blkno) False m = Some (case r of Inl e \<Rightarrow> e | Inr _ \<Rightarrow> 0, iob', m') \<and> on_disk d m' s'
      \<and> (case r of Inl _ \<Rightarrow> m' = m | Inr c \<Rightarrow> \<forall>i < 4096. m' (buf + i) = c i)" if "rd_block blkno check s = Some (r, s')"
  proof (cases "blkno < d_blocks s")
    case True
    then have r: "r = Inr (disk s blkno)" "s' = s" using that by (auto simp: rd_block_def kassert_def split: if_splits)
    obtain iob' m' where m': "disk0_io d (block_iobuf buf blkno) False m = Some (0, iob', m')" "moved d buf (block_addr d (unat blkno)) 4096 m m'"
      using run [of False] True by (auto simp: dst_of_def src_of_def)
    then show ?thesis using read_stored [OF assms(1,2) True m'(2)] r by auto
  next
    case False
    then have "r = Inl (- E_INVAL)" "s' = s" using that by (auto simp: rd_block_def kassert_def split: if_splits)
    then show ?thesis using run [of False] False assms(1) by auto
  qed
  show "\<exists>iob' m'. disk0_io d (block_iobuf buf blkno) True m = Some (case w of Inl e \<Rightarrow> e | Inr _ \<Rightarrow> 0, iob', m') \<and> on_disk d m' s'"
    if w: "wr_block blkno check c s = Some (w, s')" and c: "\<And>i. i < 4096 \<Longrightarrow> m (buf + i) = c i"
  proof (cases "blkno < d_blocks s")
    case True
    then have r: "w = Inr ()" "s' = s\<lparr>disk := (disk s)(blkno := c)\<rparr>" using w by (auto simp: wr_block_def kassert_def split: if_splits)
    obtain iob' m' where m': "disk0_io d (block_iobuf buf blkno) True m = Some (0, iob', m')" "moved d (block_addr d (unat blkno)) buf 4096 m m'"
      using run [of True] True by (auto simp: dst_of_def src_of_def)
    then show ?thesis using write_stored [OF assms(1,2) True c m'(2)] r by auto
  next
    case False
    then have "w = Inl (- E_INVAL)" "s' = s" using w by (auto simp: wr_block_def kassert_def split: if_splits)
    then show ?thesis using run [of True] False assms(1) by auto
  qed
qed

section \<open>Properties\<close>

text \<open>C15: the disk device implements the block transfers of the file system. A block of the disk in memory read through the bounce
  buffer arrives in the page given, a page written becomes the block and changes no other one, and a block outside the device is
  refused with \<^verbatim>\<open>-E_INVAL\<close> and nothing changed, for every block below the two gigabytes a signed offset reaches.\<close>

theorem disk0_io_refines_blocks:
  assumes "on_disk d m s" "page_apart d buf" "unat blkno < 524288"
  shows "(\<forall>r s'. rd_block blkno check s = Some (r, s') \<longrightarrow>
      (\<exists>iob' m'. disk0_io d (block_iobuf buf blkno) False m = Some (case r of Inl e \<Rightarrow> e | Inr _ \<Rightarrow> 0, iob', m') \<and> on_disk d m' s'
        \<and> (case r of Inl _ \<Rightarrow> m' = m | Inr c \<Rightarrow> \<forall>i < 4096. m' (buf + i) = c i)))
    \<and> (\<forall>c w s'. wr_block blkno check c s = Some (w, s') \<longrightarrow> (\<forall>i < 4096. m (buf + i) = c i) \<longrightarrow>
      (\<exists>iob' m'. disk0_io d (block_iobuf buf blkno) True m = Some (case w of Inl e \<Rightarrow> e | Inr _ \<Rightarrow> 0, iob', m') \<and> on_disk d m' s'))"
  using block_transfers [OF assms] by blast

definition demo_disk :: disk0 where
  "demo_disk = \<lparr>ides = (replicate 4 \<lparr>valid = False, sectors = 0, iobase = 0\<rparr>)[2 := \<lparr>valid = True, sectors = 64, iobase = 0\<rparr>],
     disk0_buffer = 40000, dev_blocks = 8\<rparr>"

lemma demo_disk_on: "on_disk demo_disk (\<lambda>_. 0) demo_fs" "page_apart demo_disk 60000"
  by (simp_all add: on_disk_def disk_ok_def ide_device_valid_def DISK0_DEV_NO_def MAX_IDE_def demo_disk_def demo_fs_def
    page_apart_def block_addr_def disjoint_ranges_def)

theorem disk0_io_refines_blocks_witness:
  "(\<exists>iob' m'. disk0_io demo_disk (block_iobuf 60000 3) True (\<lambda>_. 0) = Some (0, iob', m') \<and> on_disk demo_disk m' (demo_fs\<lparr>disk := (disk demo_fs)(3 := \<lambda>_. 0)\<rparr>))
   \<and> (\<exists>iob' m'. disk0_io demo_disk (block_iobuf 60000 3) False (\<lambda>_. 0) = Some (0, iob', m') \<and> (\<forall>i < 4096. m' (60000 + i) = 0))"
proof -
  have w: "wr_block 3 True (\<lambda>_. 0) demo_fs = Some (Inr (), demo_fs\<lparr>disk := (disk demo_fs)(3 := \<lambda>_. 0)\<rparr>)"
    by (simp add: wr_block_def demo_fs_def demo_super_def)
  have r: "rd_block 3 True demo_fs = Some (Inr (\<lambda>_. 0), demo_fs)" by (simp add: rd_block_def demo_fs_def demo_super_def)
  have small: "unat (3 :: u32) < 524288" by simp
  note both = disk0_io_refines_blocks [OF demo_disk_on small, of True]
  show ?thesis using conjunct1 [OF both, rule_format, OF r] conjunct2 [OF both, rule_format, OF w] by auto
qed

end
