(* ===== verification/Sfs_Dir.thy ===== *)
theory Sfs_Dir
  imports Sfs_Inode Disk
begin

text \<open>
  Directories of the simple file system (\<^verbatim>\<open>kern/fs/sfs/sfs_inode.c\<close>): a directory is a file with one entry per block, an
  entry is an inode number, zero when the entry is unused, and a name. Names are lists of bytes without the final zero; equality of
  names is what \<^verbatim>\<open>strcmp\<close> decides. The outcome of \<^verbatim>\<open>kmalloc\<close> is an argument.
\<close>

section \<open>The code\<close>

definition SFS_MAX_FNAME_LEN :: nat where "SFS_MAX_FNAME_LEN = 255"
definition sfs_dentry_size :: nat where "sfs_dentry_size = 256"

record sfs_disk_entry =
  de_ino :: u32
  de_name :: "u8 list"

definition cname :: "u8 list \<Rightarrow> u8 list" where "cname bs = takeWhile (\<lambda>b. b \<noteq> 0) bs"

definition entry_of_bytes :: "u8 list \<Rightarrow> sfs_disk_entry" where
  "entry_of_bytes bs = \<lparr>de_ino = word4 (take 4 bs), de_name = (take 256 (drop 4 bs))[SFS_MAX_FNAME_LEN := 0]\<rparr>"

definition sfs_dirent_read :: "nat \<Rightarrow> (sfs_disk_entry, sfs_sin) io" where
  "sfs_dirent_read slot =
     io_then (io_assert (\<lambda>s. Some (din_type (din s) = SFS_TYPE_DIR \<and> slot < unat (din_blocks (din s))))) (\<lambda>_.
     io_then (sfs_bmap_load slot) (\<lambda>i.
     io_then (io_assert (sfs_block_inuse i)) (\<lambda>_.
     io_then (sfs_rbuf 260 i 0) (\<lambda>bs. ret (entry_of_bytes bs)))))"

fun search_loop :: "u8 list \<Rightarrow> nat \<Rightarrow> nat \<Rightarrow> (u32 \<times> nat, sfs_sin) io" where
  "search_loop name i 0 = fail (- E_NOENT)"
| "search_loop name i (Suc n) = io_then (sfs_dirent_read i) (\<lambda>e.
     if de_ino e = 0 then search_loop name (i + 1) n
     else if name = cname (de_name e) then ret (de_ino e, i)
     else search_loop name (i + 1) n)"

text \<open>The inode number and the slot; no caller asks for an empty slot.\<close>

definition sfs_dirent_search :: "bool \<Rightarrow> u8 list \<Rightarrow> (u32 \<times> nat, sfs_sin) io" where
  "sfs_dirent_search alloc name =
     io_then (io_assert (\<lambda>_. Some (length name \<le> SFS_MAX_FNAME_LEN))) (\<lambda>_ s.
       if \<not> alloc then fail (- E_NO_MEM) s else search_loop name 0 (unat (din_blocks (din s))) s)"

fun findino_loop :: "u32 \<Rightarrow> nat \<Rightarrow> nat \<Rightarrow> (sfs_disk_entry, sfs_sin) io" where
  "findino_loop num i 0 = fail (- E_NOENT)"
| "findino_loop num i (Suc n) = io_then (sfs_dirent_read i) (\<lambda>e. if de_ino e = num then ret e else findino_loop num (i + 1) n)"

definition sfs_dirent_findino :: "u32 \<Rightarrow> (sfs_disk_entry, sfs_sin) io" where
  "sfs_dirent_findino num s = findino_loop num 0 (unat (din_blocks (din s))) s"

fun getdirentry_loop :: "nat \<Rightarrow> nat \<Rightarrow> nat \<Rightarrow> (sfs_disk_entry, sfs_sin) io" where
  "getdirentry_loop slot i 0 = fail (- E_NOENT)"
| "getdirentry_loop slot i (Suc n) = io_then (sfs_dirent_read i) (\<lambda>e.
     if de_ino e \<noteq> 0
     then if slot = 0 then ret e else getdirentry_loop (slot - 1) (i + 1) n
     else getdirentry_loop slot (i + 1) n)"

definition sfs_getdirentry_sub :: "nat \<Rightarrow> (sfs_disk_entry, sfs_sin) io" where
  "sfs_getdirentry_sub slot s = getdirentry_loop slot 0 (unat (din_blocks (din s))) s"

text \<open>The entry is read to the address given by \<^verbatim>\<open>kmalloc\<close>; its name is four bytes further on.\<close>

definition sfs_getdirentry :: "nat option \<Rightarrow> iobuf \<Rightarrow> mem \<Rightarrow> sfs_sin \<Rightarrow> (int \<times> iobuf \<times> mem \<times> sfs_sin) option" where
  "sfs_getdirentry alloc iob m s = (case alloc of
     None \<Rightarrow> Some (- E_NO_MEM, iob, m, s)
   | Some entry \<Rightarrow>
       if io_offset iob <s 0 \<or> io_offset iob mod 256 \<noteq> 0 then Some (- E_INVAL, iob, m, s)
       else let slot = io_offset iob div 256 in
         if din_blocks (din s) < slot then Some (- E_NOENT, iob, m, s)
         else case sfs_getdirentry_sub (unat slot) s of
           None \<Rightarrow> None
         | Some (Inl e, s) \<Rightarrow> Some (e, iob, m, s)
         | Some (Inr e, s) \<Rightarrow> do {
             (r, _, iob, m) \<leftarrow> iobuf_move iob (put_bytes m (entry + 4) (de_name e)) (entry + 4) 256 True;
             Some (r, iob, m, s)
           })"

section \<open>The entries of a directory\<close>

definition dir_entry :: "sfs_sin \<Rightarrow> nat \<Rightarrow> sfs_disk_entry" where
  "dir_entry s i = entry_of_bytes (map (fbyte s) [i * 4096..<i * 4096 + 260])"

definition dir_entries :: "sfs_sin \<Rightarrow> sfs_disk_entry list" where
  "dir_entries s = map (dir_entry s) [0..<nblk s]"

definition live :: "sfs_sin \<Rightarrow> sfs_disk_entry list" where
  "live s = filter (\<lambda>e. de_ino e \<noteq> 0) (dir_entries s)"

definition is_dir :: "sfs_sin \<Rightarrow> bool" where
  "is_dir s \<longleftrightarrow> bmap_inv s \<and> din_type (din s) = SFS_TYPE_DIR"

lemma dirent_read:
  assumes "is_dir s" "i < nblk s"
  shows "sfs_dirent_read i s = Some (Inr (dir_entry s i), s)"
proof -
  have inv: "bmap_inv s" and ty: "din_type (din s) = SFS_TYPE_DIR" using assms(1) by (simp_all add: is_dir_def)
  have tk: "taken s (blockno s i)" using bmap_invD(6) [OF inv, of "Block i"] assms(2) by simp
  have "sfs_rbuf 260 (blockno s i) 0 s = Some (Inr (map (\<lambda>j. disk s (blockno s i) (0 + j)) [0..<260]), s)"
    using taken_buf(1) [OF bmap_invD(1) [OF inv] tk, of 0 260] by simp
  then show ?thesis
    using ty assms(2) bmap_load_existing [OF inv assms(2)] taken_inuse [OF bmap_invD(1) [OF inv] tk] fbyte_map [of 0 260 s i]
    by (simp add: sfs_dirent_read_def io_defs dir_entry_def)
qed

lemma dirent_drop: "i < nblk s \<Longrightarrow> drop i (dir_entries s) = dir_entry s i # drop (Suc i) (dir_entries s)"
  by (simp add: dir_entries_def Cons_nth_drop_Suc [symmetric])

lemma search_loop_finds:
  assumes "is_dir s" "i + n = nblk s"
  shows "search_loop name i n s = Some (case find (\<lambda>j. de_ino (dir_entry s j) \<noteq> 0 \<and> cname (de_name (dir_entry s j)) = name) [i..<nblk s] of
      None \<Rightarrow> Inl (- E_NOENT) | Some j \<Rightarrow> Inr (de_ino (dir_entry s j), j), s)"
  using assms(2)
proof (induction n arbitrary: i)
  case 0
  then show ?case by (simp add: fail_def)
next
  case (Suc n)
  then have i: "i < nblk s" "[i..<nblk s] = i # [Suc i..<nblk s]" by (simp_all add: upt_conv_Cons)
  show ?case using Suc.IH [of "Suc i"] Suc.prems i dirent_read [OF assms(1) i(1)] by (auto simp: io_defs)
qed

lemma getdirentry_loop_finds:
  assumes "is_dir s" "i + n = nblk s"
  shows "getdirentry_loop slot i n s = (let es = filter (\<lambda>e. de_ino e \<noteq> 0) (drop i (dir_entries s))
      in Some (if slot < length es then Inr (es ! slot) else Inl (- E_NOENT), s))"
  using assms(2)
proof (induction n arbitrary: i slot)
  case 0
  then have "drop i (dir_entries s) = []" by (simp add: dir_entries_def)
  then show ?case by (simp add: fail_def)
next
  case (Suc n)
  then have i: "i < nblk s" by simp
  show ?case
    using Suc.IH [of "Suc i"] Suc.prems dirent_read [OF assms(1) i] dirent_drop [OF i]
    by (auto simp: io_defs Let_def nth_Cons split: nat.splits)
qed

lemma findino_loop_finds:
  assumes "is_dir s" "i + n = nblk s"
  shows "findino_loop num i n s = Some (case find (\<lambda>e. de_ino e = num) (drop i (dir_entries s)) of
      None \<Rightarrow> Inl (- E_NOENT) | Some e \<Rightarrow> Inr e, s)"
  using assms(2)
proof (induction n arbitrary: i)
  case 0
  then have "drop i (dir_entries s) = []" by (simp add: dir_entries_def)
  then show ?case by (simp add: fail_def)
next
  case (Suc n)
  then have i: "i < nblk s" by simp
  show ?case using Suc.IH [of "Suc i"] Suc.prems dirent_read [OF assms(1) i] dirent_drop [OF i] by (auto simp: io_defs)
qed

lemma length_de_name: "e \<in> set (dir_entries s) \<Longrightarrow> length (de_name e) = 256"
  by (auto simp: dir_entries_def dir_entry_def entry_of_bytes_def)

lemma iobuf_move_name:
  assumes "256 \<le> io_resid iob" "length name = 256"
  shows "\<exists>iob' m'. iobuf_move iob (put_bytes m data name) data 256 True = Some (0, 256, iob', m')
    \<and> io_resid iob' = io_resid iob - 256 \<and> (\<forall>i < 256. m' (io_base iob + i) = name ! i)"
proof -
  have "min (io_resid iob) 256 = 256" using assms(1) by (simp add: min_def)
  then show ?thesis using assms by (simp add: iobuf_move_def Let_def iobuf_skip_def memmove_exact put_bytes_def)
qed

lemma dir_offset:
  assumes "n \<le> 1036"
  shows "\<not> (of_nat (n * 256) :: u32) <s 0" "of_nat (n * 256) mod 256 = (0 :: u32)" "of_nat (n * 256) div 256 = (of_nat n :: u32)"
    "unat (of_nat n :: u32) = n"
proof -
  have u: "unat (of_nat (n * 256) :: u32) = n * 256" "unat (of_nat n :: u32) = n" using assms by (simp_all add: unat_of_nat del: of_nat_mult)
  show "\<not> (of_nat (n * 256) :: u32) <s 0" using small_sless [of "n * 256" 0] assms by simp
  show "of_nat (n * 256) mod 256 = (0 :: u32)" using u by (simp add: word_unat_eq_iff unat_mod del: of_nat_mult)
  show "of_nat (n * 256) div 256 = (of_nat n :: u32)" using u by (simp add: word_unat_eq_iff unat_div del: of_nat_mult)
  show "unat (of_nat n :: u32) = n" by (rule u(2))
qed

lemma getdirentry_finds:
  assumes dir: "is_dir s" and slot: "slot \<le> nblk s" and iob: "io_offset iob = of_nat (slot * 256)" "256 \<le> io_resid iob"
  shows "if slot < length (live s)
    then \<exists>iob' m'. sfs_getdirentry (Some entry) iob m s = Some (0, iob', m', s) \<and> io_resid iob' = io_resid iob - 256
      \<and> (\<forall>i < 256. m' (io_base iob + i) = de_name (live s ! slot) ! i)
    else sfs_getdirentry (Some entry) iob m s = Some (- E_NOENT, iob, m, s)"
proof -
  have "nblk s \<le> 1036" using dir bmap_invD(3) by (simp add: is_dir_def)
  then have n: "slot \<le> 1036" using slot by simp
  note off = dir_offset [OF n]
  have "\<not> din_blocks (din s) < of_nat slot" using slot off(4) by (simp add: word_less_nat_alt)
  moreover have "sfs_getdirentry_sub slot s = Some (if slot < length (live s) then Inr (live s ! slot) else Inl (- E_NOENT), s)"
    using getdirentry_loop_finds [OF dir, of 0 "nblk s" slot] by (simp add: sfs_getdirentry_sub_def live_def)
  ultimately have run: "sfs_getdirentry (Some entry) iob m s = (if slot < length (live s)
      then iobuf_move iob (put_bytes m (entry + 4) (de_name (live s ! slot))) (entry + 4) 256 True \<bind> (\<lambda>(r, _, iob, m). Some (r, iob, m, s))
      else Some (- E_NOENT, iob, m, s))"
    using off iob(1) by (simp add: sfs_getdirentry_def Let_def del: of_nat_mult)
  show ?thesis
  proof (cases "slot < length (live s)")
    case True
    then have "live s ! slot \<in> set (dir_entries s)" using nth_mem [OF True] by (simp add: live_def)
    then have "length (de_name (live s ! slot)) = 256" by (rule length_de_name)
    then show ?thesis using True run iobuf_move_name [OF iob(2), of "de_name (live s ! slot)" m "entry + 4"] by auto
  next
    case False
    then show ?thesis using run by simp
  qed
qed

section \<open>Properties\<close>

text \<open>C25: a directory is the list of its entries. Searching a name gives the inode number and the slot of the first entry in use
  with that name, and \<^verbatim>\<open>-E_NOENT\<close> when there is none; listing at position \<open>256 k\<close> copies the name of the \<open>k\<close>-th entry in
  use to the buffer, and reports \<^verbatim>\<open>-E_NOENT\<close> behind the last one. Neither changes the file system.\<close>

theorem sfs_dir_exact:
  assumes "is_dir s" "length name \<le> 255"
  shows "sfs_dirent_search True name s = Some (case find (\<lambda>j. de_ino (dir_entry s j) \<noteq> 0 \<and> cname (de_name (dir_entry s j)) = name) [0..<nblk s] of
      None \<Rightarrow> Inl (- E_NOENT) | Some j \<Rightarrow> Inr (de_ino (dir_entry s j), j), s)
    \<and> (\<forall>k iob m. k \<le> nblk s \<and> io_offset iob = of_nat (k * 256) \<and> 256 \<le> io_resid iob \<longrightarrow>
        (if k < length (live s)
         then \<exists>iob' m'. sfs_getdirentry (Some entry) iob m s = Some (0, iob', m', s) \<and> io_resid iob' = io_resid iob - 256
           \<and> (\<forall>i < 256. m' (io_base iob + i) = de_name (live s ! k) ! i)
         else sfs_getdirentry (Some entry) iob m s = Some (- E_NOENT, iob, m, s)))"
proof (intro conjI allI impI)
  show "sfs_dirent_search True name s = Some (case find (\<lambda>j. de_ino (dir_entry s j) \<noteq> 0 \<and> cname (de_name (dir_entry s j)) = name) [0..<nblk s] of
      None \<Rightarrow> Inl (- E_NOENT) | Some j \<Rightarrow> Inr (de_ino (dir_entry s j), j), s)"
    using search_loop_finds [OF assms(1), of 0 "nblk s" name] assms(2)
    by (simp add: sfs_dirent_search_def SFS_MAX_FNAME_LEN_def io_defs)
qed (use getdirentry_finds [OF assms(1)] in blast)

text \<open>The root directory with the entry \<open>.\<close> in its only block.\<close>

definition demo_dir :: sfs_sin where
  "demo_dir = \<lparr>super = demo_super\<lparr>sb_unused := 1\<rparr>, freemap = demo_map\<lparr>words := 16 # replicate 1023 0\<rparr>, super_dirty = False, d_blocks = 8,
     disk = (\<lambda>_ _. 0)(3 := (\<lambda>_. 0)(0 := 1, 4 := 46)),
     din = \<lparr>din_size = 256, din_type = 2, din_nlinks = 1, din_blocks = 1, direct = 3 # replicate 11 0, indirect = 0\<rparr>,
     ino = 1, dirty = False, reclaim_count = 1\<rparr>"

lemma bit_16: "bit (16 :: u32) i \<longleftrightarrow> i = 4"
  using bit_push_bit_iff [of 4 "1 :: u32" i] by (auto simp: bit_1_iff)

lemma demo_dir_avail: "avail (freemap demo_dir) i \<longleftrightarrow> i = 4"
proof (cases "i < 32")
  case True
  then have "avail (freemap demo_dir) i \<longleftrightarrow> bit (16 :: u32) i" by (simp add: avail_def demo_map_def demo_dir_def)
  then show ?thesis using bit_16 by blast
next
  case False
  then have "i div 32 \<noteq> 0" by (simp add: div_eq_0_iff)
  then show ?thesis using False by (auto simp: avail_def demo_map_def demo_dir_def nth_Cons split: nat.split)
qed

lemma demo_dir_free: "free_set (freemap demo_dir) = {4}"
  by (auto simp: free_set_def demo_dir_avail) (auto simp: demo_map_def demo_dir_def)

lemma demo_dir_wf: "bitmap_wf (freemap demo_dir)"
  by (auto simp: bitmap_wf_def demo_dir_avail) (auto simp: demo_map_def demo_dir_def)

lemma demo_is_dir: "is_dir demo_dir"
proof -
  have ok: "fs_ok demo_dir"
    unfolding fs_ok_def demo_dir_free using demo_dir_wf by (simp add: demo_dir_def demo_super_def demo_map_def)
  have uses: "buses demo_dir = {Inode, Block 0}" by (auto simp: buses_def demo_dir_def)
  have blk: "blockno demo_dir i = (if i = 0 then 3 else 0)" if "i < 1036" for i
    using that by (auto simp: blockno_def demo_dir_def nth_Cons nth_replicate split: nat.split)
  have "taken demo_dir 1" "taken demo_dir 3" unfolding taken_def demo_dir_free by (simp_all add: demo_dir_def demo_super_def)
  moreover have "bno demo_dir Inode = 1" "bno demo_dir (Block 0) = 3" using blk [of 0] by (simp_all add: demo_dir_def)
  ultimately have "bmap_inv demo_dir" unfolding bmap_inv_def uses using ok blk by (simp add: inj_on_def) (simp add: demo_dir_def)
  then show ?thesis by (simp add: is_dir_def demo_dir_def SFS_TYPE_DIR_def)
qed

lemma demo_dir_entry: "de_ino (dir_entry demo_dir 0) = 1" "cname (de_name (dir_entry demo_dir 0)) = [46]" "nblk demo_dir = 1"
proof -
  have byte: "fbyte demo_dir p = (if p = 0 then 1 else if p = 4 then 46 else 0)" if "p < 4096" for p
    using that by (simp add: fbyte_def blockno_def demo_dir_def)
  have "take 4 (map (fbyte demo_dir) [0..<260]) = map (fbyte demo_dir) [0..<4]" by (simp add: take_map take_upt)
  then show "de_ino (dir_entry demo_dir 0) = 1" by (simp add: dir_entry_def entry_of_bytes_def upt4 byte word4_def)
  have "drop 4 (map (fbyte demo_dir) [0..<260]) = map (fbyte demo_dir) [4..<260]" by (simp add: drop_map)
  moreover have "[4..<260] = 4 # 5 # [6..<260]" by (simp add: upt_conv_Cons)
  ultimately have bytes: "take 256 (drop 4 (map (fbyte demo_dir) [0..<260])) = 46 # 0 # map (fbyte demo_dir) [6..<260]"
    by (simp add: byte)
  have "(255 :: nat) = Suc (Suc 253)" by simp
  then show "cname (de_name (dir_entry demo_dir 0)) = [46]"
    using bytes by (simp add: dir_entry_def entry_of_bytes_def cname_def SFS_MAX_FNAME_LEN_def del: drop_map)
  show "nblk demo_dir = 1" by (simp add: demo_dir_def)
qed

theorem sfs_dir_exact_witness:
  "sfs_dirent_search True [46] demo_dir = Some (Inr (1, 0), demo_dir)
   \<and> (\<exists>iob' m'. sfs_getdirentry (Some 5000) (iobuf_init 9000 256 0) (\<lambda>_. 0) demo_dir = Some (0, iob', m', demo_dir))"
proof -
  have n: "live demo_dir = [dir_entry demo_dir 0]" by (simp add: live_def dir_entries_def demo_dir_entry)
  have pos: "0 \<le> nblk demo_dir \<and> io_offset (iobuf_init 9000 256 0) = of_nat (0 * 256) \<and> 256 \<le> io_resid (iobuf_init 9000 256 0)"
    by (simp add: iobuf_init_def)
  have len: "length [46 :: u8] \<le> 255" by simp
  note both = sfs_dir_exact [OF demo_is_dir len, of 5000]
  show ?thesis using conjunct1 [OF both] conjunct2 [OF both, rule_format, OF pos, of "\<lambda>_. 0"] by (auto simp: demo_dir_entry n)
qed

end
