(* ===== verification/Sfs_Cache.thy ===== *)
theory Sfs_Cache
  imports Sfs_Dir
begin

text \<open>
  Inodes in memory (\<^verbatim>\<open>kern/fs/sfs/sfs_inode.c\<close>, \<^verbatim>\<open>kern/fs/vfs/inode.c\<close>): an inode that is in use is held once, found through a hash list,
  counted, and dropped when its last reference goes. The in-memory inode joins \<^verbatim>\<open>struct inode\<close> and \<^verbatim>\<open>struct sfs_inode\<close>;
  outcomes of \<^verbatim>\<open>kmalloc\<close> are arguments, for a new inode its address.
\<close>

section \<open>The code\<close>

record mem_inode =
  mi_din :: sfs_disk_inode
  mi_ino :: u32
  mi_dirty :: bool
  mi_reclaim :: int
  mi_ref :: int
  mi_open :: int

record sfs_ifs = sfs_fs +
  nodes :: "nat \<Rightarrow> mem_inode"
  inode_list :: "nat list"
  hash_list :: "u32 \<Rightarrow> nat list"

text \<open>An operation on one inode works on the file system with that inode.\<close>

definition sin_of :: "'a sfs_ifs_scheme \<Rightarrow> nat \<Rightarrow> sfs_sin" where
  "sin_of s n = sfs_fs.extend (sfs_fs.truncate s)
     (sfs_sin.fields (mi_din (nodes s n)) (mi_ino (nodes s n)) (mi_dirty (nodes s n)) (mi_reclaim (nodes s n)))"

definition put_sin :: "nat \<Rightarrow> sfs_sin \<Rightarrow> 'a sfs_ifs_scheme \<Rightarrow> 'a sfs_ifs_scheme" where
  "put_sin n v s = s\<lparr>super := super v, freemap := freemap v, super_dirty := super_dirty v, d_blocks := d_blocks v, disk := disk v,
     nodes := (nodes s)(n := (nodes s n)\<lparr>mi_din := din v, mi_dirty := dirty v\<rparr>)\<rparr>"

definition on_node :: "nat \<Rightarrow> (sfs_sin \<Rightarrow> ('b \<times> sfs_sin) option) \<Rightarrow> 'a sfs_ifs_scheme \<Rightarrow> ('b \<times> 'a sfs_ifs_scheme) option" where
  "on_node n f s = map_option (\<lambda>(r, v). (r, put_sin n v s)) (f (sin_of s n))"

definition sin_hashfn :: "u32 \<Rightarrow> u32" where "sin_hashfn x = hash32 x 10"

definition sfs_set_links :: "nat \<Rightarrow> 'a sfs_ifs_scheme \<Rightarrow> 'a sfs_ifs_scheme" where
  "sfs_set_links n s = (let h = sin_hashfn (mi_ino (nodes s n))
     in s\<lparr>inode_list := n # inode_list s, hash_list := (hash_list s)(h := n # hash_list s h)\<rparr>)"

definition sfs_remove_links :: "nat \<Rightarrow> 'a sfs_ifs_scheme \<Rightarrow> 'a sfs_ifs_scheme" where
  "sfs_remove_links n s = s\<lparr>inode_list := remove1 n (inode_list s), hash_list := \<lambda>h. remove1 n (hash_list s h)\<rparr>"

definition sfs_create_inode :: "nat option \<Rightarrow> sfs_disk_inode \<Rightarrow> u32 \<Rightarrow> (nat, 'a sfs_ifs_scheme) io" where
  "sfs_create_inode alloc d num = (case alloc of
     None \<Rightarrow> fail (- E_NO_MEM)
   | Some n \<Rightarrow>
       if din_type d = SFS_TYPE_DIR \<or> din_type d = SFS_TYPE_FILE
       then (\<lambda>s. ret n (s\<lparr>nodes := (nodes s)(n := \<lparr>mi_din = d, mi_ino = num, mi_dirty = False, mi_reclaim = 1, mi_ref = 1, mi_open = 0\<rparr>)\<rparr>))
       else (\<lambda>_. None))"

definition lookup_sfs :: "u32 \<Rightarrow> 'a sfs_ifs_scheme \<Rightarrow> (nat \<times> 'a sfs_ifs_scheme) option" where
  "lookup_sfs num s = map_option (\<lambda>n.
     (n, s\<lparr>nodes := (nodes s)(n := (nodes s n)\<lparr>mi_ref := mi_ref (nodes s n) + 1,
        mi_reclaim := (if mi_ref (nodes s n) + 1 = 1 then mi_reclaim (nodes s n) + 1 else mi_reclaim (nodes s n))\<rparr>)\<rparr>))
     (find (\<lambda>n. mi_ino (nodes s n) = num) (hash_list s (sin_hashfn num)))"

definition sfs_load_inode :: "bool \<Rightarrow> nat option \<Rightarrow> u32 \<Rightarrow> (nat, 'a sfs_ifs_scheme) io" where
  "sfs_load_inode din_alloc node_alloc num s = (case lookup_sfs num s of
     Some (n, s) \<Rightarrow> ret n s
   | None \<Rightarrow>
       if \<not> din_alloc then fail (- E_NO_MEM) s
       else io_then (io_assert (sfs_block_inuse num)) (\<lambda>_.
         io_then (sfs_rbuf 64 num 0) (\<lambda>bs.
         io_then (io_assert (\<lambda>_. Some (din_nlinks (din_of bs) \<noteq> 0))) (\<lambda>_.
         io_then (sfs_create_inode node_alloc (din_of bs) num) (\<lambda>n s. ret n (sfs_set_links n s))))) s)"

text \<open>The check before each call through the table of operations; within \<^verbatim>\<open>sfs_reclaim\<close> the counts stay as checked on entry.\<close>

definition node_check :: "nat \<Rightarrow> 'a sfs_ifs_scheme \<Rightarrow> bool" where
  "node_check n s \<longleftrightarrow> mi_open (nodes s n) \<le> mi_ref (nodes s n) \<and> 0 \<le> mi_open (nodes s n)
     \<and> mi_ref (nodes s n) < 0x10000 \<and> mi_open (nodes s n) < 0x10000"

text \<open>Only regular files have a handler for \<^verbatim>\<open>vop_truncate\<close>.\<close>

definition node_truncate :: "nat \<Rightarrow> u32 \<Rightarrow> (unit, 'a sfs_ifs_scheme) io" where
  "node_truncate n len s = (if din_type (mi_din (nodes s n)) = SFS_TYPE_FILE then on_node n (sfs_truncfile len) s else None)"

definition inode_kill :: "nat \<Rightarrow> (unit, 'a sfs_ifs_scheme) io" where
  "inode_kill n s = do { kassert (mi_ref (nodes s n) = 0); kassert (mi_open (nodes s n) = 0); ret () s }"

definition sfs_reclaim :: "nat \<Rightarrow> (unit, 'a sfs_ifs_scheme) io" where
  "sfs_reclaim n s = do {
     kassert (0 < mi_reclaim (nodes s n));
     let s = s\<lparr>nodes := (nodes s)(n := (nodes s n)\<lparr>mi_reclaim := mi_reclaim (nodes s n) - 1\<rparr>)\<rparr>;
     if mi_reclaim (nodes s n) \<noteq> 0 \<or> mi_ref (nodes s n) \<noteq> 0 then fail (- E_BUSY) s
     else io_then (\<lambda>s. if din_nlinks (mi_din (nodes s n)) = 0 then node_truncate n 0 s else ret () s) (\<lambda>_.
       io_then (\<lambda>s. if mi_dirty (nodes s n) then on_node n sfs_fsync s else ret () s) (\<lambda>_ s.
       let s = sfs_remove_links n s; nd = nodes s n in
         io_then (if din_nlinks (mi_din nd) = 0
           then io_then (sfs_block_free (mi_ino nd)) (\<lambda>_. if indirect (mi_din nd) \<noteq> 0 then sfs_block_free (indirect (mi_din nd)) else ret ())
           else ret ()) (\<lambda>_. inode_kill n) s)) s
   }"

definition inode_ref_inc :: "nat \<Rightarrow> 'a sfs_ifs_scheme \<Rightarrow> 'a sfs_ifs_scheme" where
  "inode_ref_inc n s = s\<lparr>nodes := (nodes s)(n := (nodes s n)\<lparr>mi_ref := mi_ref (nodes s n) + 1\<rparr>)\<rparr>"

definition inode_ref_dec :: "nat \<Rightarrow> 'a sfs_ifs_scheme \<Rightarrow> (int \<times> 'a sfs_ifs_scheme) option" where
  "inode_ref_dec n s = do {
     kassert (0 < mi_ref (nodes s n));
     let r = mi_ref (nodes s n) - 1;
     let s = s\<lparr>nodes := (nodes s)(n := (nodes s n)\<lparr>mi_ref := r\<rparr>)\<rparr>;
     if r = 0 then do { kassert (node_check n s); map_option (\<lambda>(_, s). (r, s)) (sfs_reclaim n s) } else Some (r, s)
   }"

definition inode_open_inc :: "nat \<Rightarrow> 'a sfs_ifs_scheme \<Rightarrow> 'a sfs_ifs_scheme" where
  "inode_open_inc n s = s\<lparr>nodes := (nodes s)(n := (nodes s n)\<lparr>mi_open := mi_open (nodes s n) + 1\<rparr>)\<rparr>"

definition inode_open_dec :: "nat \<Rightarrow> 'a sfs_ifs_scheme \<Rightarrow> (int \<times> 'a sfs_ifs_scheme) option" where
  "inode_open_dec n s = do {
     kassert (0 < mi_open (nodes s n));
     let r = mi_open (nodes s n) - 1;
     let s = s\<lparr>nodes := (nodes s)(n := (nodes s n)\<lparr>mi_open := r\<rparr>)\<rparr>;
     if r = 0 then do { kassert (node_check n s); map_option (\<lambda>(_, s). (r, s)) (on_node n sfs_close s) } else Some (r, s)
   }"

text \<open>The whole rest of the path is looked up as one name.\<close>

definition sfs_lookup_once :: "bool \<Rightarrow> bool \<Rightarrow> nat option \<Rightarrow> nat \<Rightarrow> u8 list \<Rightarrow> (nat, 'a sfs_ifs_scheme) io" where
  "sfs_lookup_once ent_alloc din_alloc node_alloc n name =
     io_then (on_node n (sfs_dirent_search ent_alloc name)) (\<lambda>(num, _). sfs_load_inode din_alloc node_alloc num)"

definition sfs_lookup :: "bool \<Rightarrow> bool \<Rightarrow> nat option \<Rightarrow> nat \<Rightarrow> u8 list \<Rightarrow> (nat, 'a sfs_ifs_scheme) io" where
  "sfs_lookup ent_alloc din_alloc node_alloc n path s = do {
     kassert (path \<noteq> [] \<and> hd path \<noteq> 47);
     let s = inode_ref_inc n s;
     if din_type (mi_din (nodes s n)) \<noteq> SFS_TYPE_DIR
     then do { (_, s) \<leftarrow> inode_ref_dec n s; fail (- E_NOTDIR) s }
     else do {
       (r, s) \<leftarrow> sfs_lookup_once ent_alloc din_alloc node_alloc n path s;
       (_, s) \<leftarrow> inode_ref_dec n s;
       Some (r, s)
     }
   }"

definition sfs_get_root :: "bool \<Rightarrow> nat option \<Rightarrow> 'a sfs_ifs_scheme \<Rightarrow> (nat \<times> 'a sfs_ifs_scheme) option" where
  "sfs_get_root din_alloc node_alloc s = (case sfs_load_inode din_alloc node_alloc 1 s of
     Some (Inr n, s) \<Rightarrow> Some (n, s) | _ \<Rightarrow> None)"

section \<open>One inode per number\<close>

definition cache_inv :: "'a sfs_ifs_scheme \<Rightarrow> bool" where
  "cache_inv s \<longleftrightarrow> distinct (inode_list s) \<and> inj_on (\<lambda>n. mi_ino (nodes s n)) (set (inode_list s))
     \<and> (\<forall>h. distinct (hash_list s h) \<and> set (hash_list s h) = {n \<in> set (inode_list s). sin_hashfn (mi_ino (nodes s n)) = h})
     \<and> (\<forall>n \<in> set (inode_list s). 0 \<le> mi_ref (nodes s n) \<and> mi_reclaim (nodes s n) = (if mi_ref (nodes s n) = 0 then 0 else 1))"

lemma cache_invD:
  assumes "cache_inv s"
  shows "distinct (inode_list s)" "n \<in> set (inode_list s) \<Longrightarrow> k \<in> set (inode_list s) \<Longrightarrow> mi_ino (nodes s n) = mi_ino (nodes s k) \<Longrightarrow> n = k"
    "distinct (hash_list s h)" "n \<in> set (hash_list s h) \<longleftrightarrow> n \<in> set (inode_list s) \<and> sin_hashfn (mi_ino (nodes s n)) = h"
    "n \<in> set (inode_list s) \<Longrightarrow> 0 \<le> mi_ref (nodes s n)" "n \<in> set (inode_list s) \<Longrightarrow> mi_reclaim (nodes s n) = (if mi_ref (nodes s n) = 0 then 0 else 1)"
  using assms by (auto simp: cache_inv_def inj_on_def)

text \<open>The parts of the state that matter for the invariant.\<close>

definition same_cache :: "'a sfs_ifs_scheme \<Rightarrow> 'a sfs_ifs_scheme \<Rightarrow> bool" where
  "same_cache s t \<longleftrightarrow> inode_list t = inode_list s \<and> hash_list t = hash_list s
     \<and> (\<forall>n. mi_ino (nodes t n) = mi_ino (nodes s n) \<and> mi_ref (nodes t n) = mi_ref (nodes s n) \<and> mi_reclaim (nodes t n) = mi_reclaim (nodes s n)
         \<and> mi_open (nodes t n) = mi_open (nodes s n))"

lemma inv_cong:
  assumes "cache_inv s" "inode_list t = inode_list s" "hash_list t = hash_list s" "\<And>n. mi_ino (nodes t n) = mi_ino (nodes s n)"
    "\<And>n. mi_ref (nodes t n) = mi_ref (nodes s n)" "\<And>n. mi_reclaim (nodes t n) = mi_reclaim (nodes s n)"
  shows "cache_inv t"
  using assms by (simp add: cache_inv_def inj_on_def)

lemma same_cache_inv: "same_cache s t \<Longrightarrow> cache_inv s \<Longrightarrow> cache_inv t"
  by (rule inv_cong) (simp_all add: same_cache_def)

lemma same_cache_refl: "same_cache s s"
  by (simp add: same_cache_def)

lemma same_cache_trans: "same_cache s t \<Longrightarrow> same_cache t u \<Longrightarrow> same_cache s u"
  by (simp add: same_cache_def)

lemma on_node_cache: "on_node n f s = Some (r, t) \<Longrightarrow> same_cache s t"
  by (auto simp: on_node_def put_sin_def same_cache_def)

lemma sfs_block_free_cache: "sfs_block_free b s = Some (r, t) \<Longrightarrow> same_cache s t"
  by (auto simp: sfs_block_free_def io_defs same_cache_def bind_eq_Some_conv split: option.splits bool.splits)

lemma lookup_sfs_None:
  assumes "cache_inv s"
  shows "lookup_sfs num s = None \<longleftrightarrow> (\<forall>n \<in> set (inode_list s). mi_ino (nodes s n) \<noteq> num)"
  using cache_invD(4) [OF assms] by (auto simp: lookup_sfs_def find_None_iff)

lemma lookup_sfs_Some:
  assumes inv: "cache_inv s" and l: "lookup_sfs num s = Some (n, t)"
  shows "n \<in> set (inode_list s)" "mi_ino (nodes s n) = num" "cache_inv t" "inode_list t = inode_list s" "mi_ino (nodes t k) = mi_ino (nodes s k)"
    "mi_ref (nodes t k) = mi_ref (nodes s k) + (if k = n then 1 else 0)"
proof -
  have n: "n \<in> set (hash_list s (sin_hashfn num))" "mi_ino (nodes s n) = num"
    using l by (auto simp: lookup_sfs_def find_Some_iff)
  then show in_list: "n \<in> set (inode_list s)" "mi_ino (nodes s n) = num" using cache_invD(4) [OF inv] by blast+
  have t: "inode_list t = inode_list s" "hash_list t = hash_list s" "\<And>k. mi_ino (nodes t k) = mi_ino (nodes s k)"
      "\<And>k. mi_ref (nodes t k) = mi_ref (nodes s k) + (if k = n then 1 else 0)"
      "mi_reclaim (nodes t n) = (if mi_ref (nodes s n) + 1 = 1 then mi_reclaim (nodes s n) + 1 else mi_reclaim (nodes s n))"
      "\<And>k. k \<noteq> n \<Longrightarrow> mi_reclaim (nodes t k) = mi_reclaim (nodes s k)"
    using l by (auto simp: lookup_sfs_def)
  show "inode_list t = inode_list s" "mi_ino (nodes t k) = mi_ino (nodes s k)" "mi_ref (nodes t k) = mi_ref (nodes s k) + (if k = n then 1 else 0)"
    using t by auto
  have "0 \<le> mi_ref (nodes t j) \<and> mi_reclaim (nodes t j) = (if mi_ref (nodes t j) = 0 then 0 else 1)" if "j \<in> set (inode_list s)" for j
    using t(4-6) cache_invD(5,6) [OF inv that] by (cases "j = n") auto
  then show "cache_inv t" using inv t(1-3) by (simp add: cache_inv_def inj_on_def)
qed

lemma remove_links_inv:
  assumes "cache_inv s"
  shows "cache_inv (sfs_remove_links n s)" "inode_list (sfs_remove_links n s) = remove1 n (inode_list s)"
  using cache_invD [OF assms] unfolding cache_inv_def sfs_remove_links_def inj_on_def by auto

lemma set_links_inv:
  assumes inv: "cache_inv s" and n: "n \<notin> set (inode_list s)" and new: "\<forall>k \<in> set (inode_list s). mi_ino (nodes s k) \<noteq> num"
    and t: "t = s\<lparr>nodes := (nodes s)(n := \<lparr>mi_din = d, mi_ino = num, mi_dirty = False, mi_reclaim = 1, mi_ref = 1, mi_open = 0\<rparr>)\<rparr>"
  shows "cache_inv (sfs_set_links n t)"
proof -
  let ?u = "sfs_set_links n t"
  have out: "n \<notin> set (hash_list s h)" for h using cache_invD(4) [OF inv] n by blast
  have u: "inode_list ?u = n # inode_list s" "\<And>h. hash_list ?u h = (if h = sin_hashfn num then n # hash_list s h else hash_list s h)"
      "nodes ?u = nodes t" "\<And>k. k \<in> set (inode_list s) \<Longrightarrow> nodes t k = nodes s k" "mi_ino (nodes t n) = num" "mi_ref (nodes t n) = 1" "mi_reclaim (nodes t n) = 1"
    using n by (auto simp: t sfs_set_links_def Let_def)
  have "set (hash_list ?u h) = {k \<in> set (inode_list ?u). sin_hashfn (mi_ino (nodes ?u k)) = h}" for h
    using cache_invD(4) [OF inv, of _ h] u n by (auto simp: u(2))
  moreover have "inj_on (\<lambda>k. mi_ino (nodes ?u k)) (set (inode_list ?u))"
    using cache_invD(2) [OF inv] u n new unfolding inj_on_def by (metis set_ConsD list.set_intros u(1))
  ultimately show ?thesis
    unfolding cache_inv_def using cache_invD(1,3,5,6) [OF inv] u n out by auto
qed

lemma load_inode_inv:
  assumes inv: "cache_inv s" and fresh: "\<And>n. node_alloc = Some n \<Longrightarrow> n \<notin> set (inode_list s)"
    and l: "sfs_load_inode din_alloc node_alloc num s = Some (r, t)"
  shows "cache_inv t" "r = Inr n \<Longrightarrow> n \<in> set (inode_list t) \<and> mi_ino (nodes t n) = num"
proof -
  have "cache_inv t \<and> (\<forall>n. r = Inr n \<longrightarrow> n \<in> set (inode_list t) \<and> mi_ino (nodes t n) = num)"
  proof (cases "lookup_sfs num s")
    case (Some p)
    then show ?thesis using lookup_sfs_Some [OF inv, of num "fst p" "snd p"] l by (auto simp: sfs_load_inode_def ret_def split: prod.splits)
  next
    case None
    then have new: "\<forall>k \<in> set (inode_list s). mi_ino (nodes s k) \<noteq> num" using lookup_sfs_None [OF inv] by simp
    define d where "d = din_of (map (disk s num) [0..<64])"
    have "t = s \<and> (\<exists>e. r = Inl e) \<or> (\<exists>n. node_alloc = Some n \<and> r = Inr n
        \<and> t = sfs_set_links n (s\<lparr>nodes := (nodes s)(n := \<lparr>mi_din = d, mi_ino = num, mi_dirty = False, mi_reclaim = 1, mi_ref = 1, mi_open = 0\<rparr>)\<rparr>))"
      using l None by (auto simp: sfs_load_inode_def io_defs sfs_rbuf_def rd_block_def kassert_def sfs_create_inode_def d_def
          split: if_splits option.splits bool.splits)
    then show ?thesis
    proof (elim disjE conjE exE)
      fix n assume n: "node_alloc = Some n" "r = Inr n"
        "t = sfs_set_links n (s\<lparr>nodes := (nodes s)(n := \<lparr>mi_din = d, mi_ino = num, mi_dirty = False, mi_reclaim = 1, mi_ref = 1, mi_open = 0\<rparr>)\<rparr>)"
      show ?thesis using set_links_inv [OF inv fresh [OF n(1)] new refl, of d] n by (simp add: sfs_set_links_def Let_def)
    qed (use inv in auto)
  qed
  then show "cache_inv t" "r = Inr n \<Longrightarrow> n \<in> set (inode_list t) \<and> mi_ino (nodes t n) = num" by auto
qed

text \<open>Between the last \<^verbatim>\<open>vop_ref_dec\<close> and the end of the reclaiming the counts of the inode at hand do not agree.\<close>

definition cache_but :: "nat \<Rightarrow> 'a sfs_ifs_scheme \<Rightarrow> bool" where
  "cache_but n s \<longleftrightarrow> cache_inv (s\<lparr>nodes := (nodes s)(n := (nodes s n)\<lparr>mi_ref := 0, mi_reclaim := 0\<rparr>)\<rparr>)"

lemma reclaim_frame:
  assumes n: "mi_ref (nodes s n) = 0" "mi_reclaim (nodes s n) = 1" and r: "sfs_reclaim n s = Some (r, t)"
  defines "z \<equiv> s\<lparr>nodes := (nodes s)(n := (nodes s n)\<lparr>mi_reclaim := 0\<rparr>)\<rparr>"
  shows "same_cache z t \<or> (\<exists>u. same_cache z u \<and> same_cache (sfs_remove_links n u) t)"
proof -
  let ?tr = "\<lambda>s. if din_nlinks (mi_din (nodes s n)) = 0 then node_truncate n 0 s else ret () s"
  let ?sy = "\<lambda>s. if mi_dirty (nodes s n) then on_node n sfs_fsync s else ret () s"
  have tr: "same_cache u v" if "?tr u = Some (x, v)" for u v :: "'a sfs_ifs_scheme" and x
    using that on_node_cache same_cache_refl by (auto simp: node_truncate_def ret_def split: if_splits)
  have sy: "same_cache u v" if "?sy u = Some (x, v)" for u v :: "'a sfs_ifs_scheme" and x
    using that on_node_cache same_cache_refl by (auto simp: ret_def split: if_splits)
  have last: "same_cache (sfs_remove_links n u) t" if "io_then (if c then io_then (sfs_block_free a) (\<lambda>_. if b \<noteq> 0 then sfs_block_free b else ret ()) else ret ())
      (\<lambda>_. inode_kill n) (sfs_remove_links n u) = Some (r, t)" for a b c u
    using that sfs_block_free_cache same_cache_trans same_cache_refl
    by (elim io_thenE) (auto simp: inode_kill_def kassert_def ret_def split: if_splits elim!: io_thenE, blast+)
  have chain: "same_cache z v" if "same_cache z u" "same_cache u v" for u v :: "'a sfs_ifs_scheme" using that by (rule same_cache_trans)
  show "same_cache z t \<or> (\<exists>u. same_cache z u \<and> same_cache (sfs_remove_links n u) t)"
  proof -
    let ?fin = "\<lambda>s. let s = sfs_remove_links n s; nd = nodes s n in
         io_then (if din_nlinks (mi_din nd) = 0
           then io_then (sfs_block_free (mi_ino nd)) (\<lambda>_. if indirect (mi_din nd) \<noteq> 0 then sfs_block_free (indirect (mi_din nd)) else ret ())
           else ret ()) (\<lambda>_. inode_kill n) s"
    have "io_then ?tr (\<lambda>_. io_then ?sy (\<lambda>_. ?fin)) z = Some (r, t)" using r n by (simp add: sfs_reclaim_def kassert_def z_def)
    then show ?thesis
    proof (rule io_thenE)
      fix a u assume u: "?tr z = Some (Inr a, u)" "io_then ?sy (\<lambda>_. ?fin) u = Some (r, t)"
      note su = tr [OF u(1)]
      from u(2) show ?thesis
      proof (rule io_thenE)
        fix b v assume v: "?sy u = Some (Inr b, v)" "?fin v = Some (r, t)"
        have "same_cache (sfs_remove_links n v) t" using v(2) unfolding Let_def by (rule last)
        then show ?thesis using chain [OF su sy [OF v(1)]] by blast
      qed (use chain [OF su] sy in blast)
    qed (use tr in blast)
  qed
qed

lemma reclaim_inv:
  assumes n: "n \<in> set (inode_list s)" "mi_ref (nodes s n) = 0" "mi_reclaim (nodes s n) = 1" and inv: "cache_but n s"
    and r: "sfs_reclaim n s = Some (r, t)"
  shows "cache_inv t" "set (inode_list t) \<subseteq> set (inode_list s)"
proof -
  let ?s = "s\<lparr>nodes := (nodes s)(n := (nodes s n)\<lparr>mi_reclaim := 0\<rparr>)\<rparr>"
  have "same_cache (s\<lparr>nodes := (nodes s)(n := (nodes s n)\<lparr>mi_ref := 0, mi_reclaim := 0\<rparr>)\<rparr>) ?s" using n(2) by (simp add: same_cache_def)
  then have s: "cache_inv ?s" using inv same_cache_inv unfolding cache_but_def by blast
  have "same_cache ?s t \<or> (\<exists>u. same_cache ?s u \<and> same_cache (sfs_remove_links n u) t)" using reclaim_frame [OF n(2,3) r] .
  then have "cache_inv t \<and> set (inode_list t) \<subseteq> set (inode_list s)"
  proof (elim disjE exE conjE)
    fix u assume u: "same_cache ?s u" "same_cache (sfs_remove_links n u) t"
    have "cache_inv u" using same_cache_inv [OF u(1) s] .
    note rem = remove_links_inv [OF this, of n]
    have "cache_inv t" using same_cache_inv [OF u(2) rem(1)] .
    moreover have "set (inode_list t) \<subseteq> set (inode_list s)" using u rem(2) set_remove1_subset by (fastforce simp: same_cache_def)
    ultimately show ?thesis ..
  next
    assume "same_cache ?s t"
    then show ?thesis using same_cache_inv [OF _ s] by (simp add: same_cache_def)
  qed
  then show "cache_inv t" "set (inode_list t) \<subseteq> set (inode_list s)" by simp_all
qed

lemma counts_inv:
  assumes "cache_inv s" "inode_list t = inode_list s" "hash_list t = hash_list s" "\<And>k. mi_ino (nodes t k) = mi_ino (nodes s k)"
    "\<And>k. k \<noteq> n \<Longrightarrow> mi_ref (nodes t k) = mi_ref (nodes s k) \<and> mi_reclaim (nodes t k) = mi_reclaim (nodes s k)"
    "0 \<le> mi_ref (nodes t n)" "mi_reclaim (nodes t n) = (if mi_ref (nodes t n) = 0 then 0 else 1)"
  shows "cache_inv t"
proof -
  have "0 \<le> mi_ref (nodes t k) \<and> mi_reclaim (nodes t k) = (if mi_ref (nodes t k) = 0 then 0 else 1)" if "k \<in> set (inode_list s)" for k
    using assms(5-7) cache_invD(5,6) [OF assms(1) that] by (cases "k = n") simp_all
  then show ?thesis using assms(1-4) by (simp add: cache_inv_def inj_on_def)
qed

lemma ref_dec_inv:
  assumes inv: "cache_inv s" and n: "n \<in> set (inode_list s)" and r: "inode_ref_dec n s = Some (r, t)"
  shows "cache_inv t" "set (inode_list t) \<subseteq> set (inode_list s)"
proof -
  have pos: "0 < mi_ref (nodes s n)" using r by (auto simp: inode_ref_dec_def kassert_def split: if_splits)
  then have rc: "mi_reclaim (nodes s n) = 1" using cache_invD(6) [OF inv n] by simp
  let ?s = "\<lambda>x. s\<lparr>nodes := (nodes s)(n := (nodes s n)\<lparr>mi_ref := x\<rparr>)\<rparr>"
  have "cache_inv t \<and> set (inode_list t) \<subseteq> set (inode_list s)"
  proof (cases "mi_ref (nodes s n) = 1")
    case True
    then obtain q where q: "sfs_reclaim n (?s 0) = Some (q, t)" using r pos by (auto simp: inode_ref_dec_def kassert_def Let_def split: if_splits)
    have "cache_inv (s\<lparr>nodes := (nodes s)(n := (nodes s n)\<lparr>mi_ref := 0, mi_reclaim := 0\<rparr>)\<rparr>)"
      by (rule counts_inv [OF inv, where n = n]) simp_all
    then have "cache_but n (?s 0)" by (simp add: cache_but_def)
    then show ?thesis using reclaim_inv [OF _ _ _ _ q] n rc by simp
  next
    case False
    then have t: "t = ?s (mi_ref (nodes s n) - 1)" using r pos by (auto simp: inode_ref_dec_def kassert_def Let_def)
    have "cache_inv t" by (rule counts_inv [OF inv, where n = n]) (use pos False rc in \<open>simp_all add: t\<close>)
    then show ?thesis by (simp add: t)
  qed
  then show "cache_inv t" "set (inode_list t) \<subseteq> set (inode_list s)" by simp_all
qed

text \<open>What happens to the inodes in memory: loading by number with a fresh address for a new inode, taking and dropping references,
  opening and closing, and any operation on the data of one inode, whose result does not matter here.\<close>

inductive inode_step :: "sfs_ifs \<Rightarrow> sfs_ifs \<Rightarrow> bool" where
  load: "(\<forall>n. a = Some n \<longrightarrow> n \<notin> set (inode_list s)) \<Longrightarrow> sfs_load_inode d a num s = Some (r, t) \<Longrightarrow> inode_step s t"
| take_ref: "n \<in> set (inode_list s) \<Longrightarrow> 0 < mi_ref (nodes s n) \<Longrightarrow> inode_step s (inode_ref_inc n s)"
| drop_ref: "n \<in> set (inode_list s) \<Longrightarrow> inode_ref_dec n s = Some (r', t) \<Longrightarrow> inode_step s t"
| open_inode: "inode_step s (inode_open_inc n s)"
| close_inode: "inode_open_dec n s = Some (r', t) \<Longrightarrow> inode_step s t"
| data: "on_node n (f :: (unit, sfs_sin) io) s = Some (v, t) \<Longrightarrow> inode_step s t"

inductive_cases inode_stepE: "inode_step s t"

lemma inode_step_inv:
  assumes "inode_step s t" "cache_inv s"
  shows "cache_inv t"
  using assms
proof (induction rule: inode_step.induct)
  case (load a s d num r t)
  then show ?case using load_inode_inv(1) by blast
next
  case (take_ref n s)
  show ?case
    by (rule counts_inv [OF take_ref.prems, where n = n])
      (use take_ref.hyps cache_invD(6) [OF take_ref.prems take_ref.hyps(1)] in \<open>simp_all add: inode_ref_inc_def\<close>)
next
  case (drop_ref n s r t)
  then show ?case using ref_dec_inv(1) by blast
next
  case (open_inode s n)
  then show ?case by (rule inv_cong) (simp_all add: inode_open_inc_def)
next
  case (close_inode n s r t)
  let ?s = "s\<lparr>nodes := (nodes s)(n := (nodes s n)\<lparr>mi_open := mi_open (nodes s n) - 1\<rparr>)\<rparr>"
  have inv: "cache_inv ?s" using close_inode.prems by (rule inv_cong) simp_all
  have "t = ?s \<or> (\<exists>q. on_node n sfs_close ?s = Some (q, t))"
    using close_inode.hyps by (auto simp: inode_open_dec_def kassert_def Let_def split: if_splits)
  then show ?case using inv by (elim disjE exE) (simp, rule same_cache_inv [OF on_node_cache])
next
  case (data n f s v t)
  show ?case using same_cache_inv [OF on_node_cache [OF data.hyps] data.prems] .
qed

section \<open>The last reference\<close>

lemma sin_of_simps [simp]:
  "super (sin_of s n) = super s" "freemap (sin_of s n) = freemap s" "d_blocks (sin_of s n) = d_blocks s" "disk (sin_of s n) = disk s"
  "din (sin_of s n) = mi_din (nodes s n)" "ino (sin_of s n) = mi_ino (nodes s n)" "dirty (sin_of s n) = mi_dirty (nodes s n)"
  by (simp_all add: sin_of_def sfs_fs.defs sfs_sin.defs)

lemma fs_ok_cong:
  assumes "freemap t = freemap s" "super t = super s" "d_blocks t = d_blocks s"
  shows "fs_ok t = fs_ok s" "taken t b = taken s b"
  using assms by (simp_all add: fs_ok_def taken_def)

text \<open>After the blocks of the file are gone: writing the inode back and giving back the last two blocks.\<close>

lemma reclaim_tail:
  assumes inv: "bmap_inv (sin_of s n)" and counts: "mi_ref (nodes s n) = 0" "mi_open (nodes s n) = 0" "din_nlinks (mi_din (nodes s n)) = 0"
  shows "\<exists>t. io_then (\<lambda>s. if mi_dirty (nodes s n) then on_node n sfs_fsync s else ret () s) (\<lambda>_ s.
       let s = sfs_remove_links n s; nd = nodes s n in
         io_then (if din_nlinks (mi_din nd) = 0
           then io_then (sfs_block_free (mi_ino nd)) (\<lambda>_. if indirect (mi_din nd) \<noteq> 0 then sfs_block_free (indirect (mi_din nd)) else ret ())
           else ret ()) (\<lambda>_. inode_kill n) s) s = Some (Inr (), t)
    \<and> fs_ok t \<and> free_set (freemap t) = free_set (freemap s) \<union> {unat (mi_ino (nodes s n))}
        \<union> (if indirect (mi_din (nodes s n)) = 0 then {} else {unat (indirect (mi_din (nodes s n)))})
    \<and> same_cache (sfs_remove_links n s) t" (is "\<exists>t. ?run = Some (Inr (), t) \<and> _")
proof -
  let ?nd = "nodes s n"
  have ok: "fs_ok s" using bmap_invD(1) [OF inv] fs_ok_cong(1) [of "sin_of s n" "sin_of s n"] by (simp add: fs_ok_def)
  have tk: "taken (sin_of s n) (mi_ino ?nd)" using bmap_invD(6) [OF inv, of Inode] by simp
  obtain s1 where s1: "(if mi_dirty ?nd then on_node n sfs_fsync s else ret () s) = Some (Inr (), s1)" "freemap s1 = freemap s" "super s1 = super s"
      "d_blocks s1 = d_blocks s" "mi_din (nodes s1 n) = mi_din ?nd" "mi_ino (nodes s1 n) = mi_ino ?nd" "mi_ref (nodes s1 n) = 0" "mi_open (nodes s1 n) = 0" "same_cache s s1"
  proof (cases "mi_dirty ?nd")
    case True
    obtain d b where "sfs_fsync (sin_of s n) = Some (Inr (), (sin_of s n)\<lparr>disk := d, dirty := b\<rparr>)"
      using fsync_runs [OF bmap_invD(1) [OF inv] _ bmap_invD(2) [OF inv]] tk by auto
    then have "on_node n sfs_fsync s = Some (Inr (), put_sin n ((sin_of s n)\<lparr>disk := d, dirty := b\<rparr>) s)" by (simp add: on_node_def)
    then show ?thesis using True counts by (intro that [of "put_sin n ((sin_of s n)\<lparr>disk := d, dirty := b\<rparr>) s"]) (auto simp: put_sin_def same_cache_def)
  next
    case False
    then show ?thesis using counts same_cache_refl by (intro that [of s]) (simp_all add: ret_def)
  qed
  define s2 where "s2 = sfs_remove_links n s1"
  have s2: "freemap s2 = freemap s" "super s2 = super s" "d_blocks s2 = d_blocks s" "nodes s2 = nodes s1"
    using s1 by (simp_all add: s2_def sfs_remove_links_def)
  have rem: "same_cache (sfs_remove_links n s) s2" using s1(9) by (simp add: s2_def same_cache_def sfs_remove_links_def)
  have "fs_ok s2" "taken s2 (mi_ino ?nd)" using tk ok s2 by (simp_all add: taken_def fs_ok_def)
  then obtain s3 where s3: "sfs_block_free (mi_ino ?nd) s2 = Some (Inr (), s3)" "fs_ok s3" "free_set (freemap s3) = insert (unat (mi_ino ?nd)) (free_set (freemap s2))"
      "sb_blocks (super s3) = sb_blocks (super s2)" "sfs_fs.more s3 = sfs_fs.more s2"
    by (rule sfs_block_free_spec) (rule that)
  have sc3: "same_cache s2 s3" using sfs_block_free_cache [OF s3(1)] .
  have kill: "inode_kill n u = Some (Inr (), u)" if "nodes u = nodes s1" for u :: "'a sfs_ifs_scheme" using s1(7,8) that by (simp add: inode_kill_def kassert_def ret_def)
  have nodes3: "nodes s3 = nodes s1" using s3(1) s2(4) by (auto simp: sfs_block_free_def io_defs bind_eq_Some_conv split: option.splits bool.splits)
  let ?body = "\<lambda>_ s. let s = sfs_remove_links n s; nd = nodes s n in
         io_then (if din_nlinks (mi_din nd) = 0
           then io_then (sfs_block_free (mi_ino nd)) (\<lambda>_. if indirect (mi_din nd) \<noteq> 0 then sfs_block_free (indirect (mi_din nd)) else ret ())
           else ret ()) (\<lambda>_. inode_kill n) s"
  have "io_then (\<lambda>s. if mi_dirty (nodes s n) then on_node n sfs_fsync s else ret () s) ?body s = ?body () s1"
    by (rule io_then_Inr) (rule s1(1))
  also have "\<dots> = io_then (io_then (sfs_block_free (mi_ino ?nd)) (\<lambda>_. if indirect (mi_din ?nd) \<noteq> 0 then sfs_block_free (indirect (mi_din ?nd)) else ret ()))
      (\<lambda>_. inode_kill n) s2"
    using s1(5,6) s2(4) counts(3) by (simp add: Let_def flip: s2_def)
  finally have run: "io_then (\<lambda>s. if mi_dirty (nodes s n) then on_node n sfs_fsync s else ret () s) ?body s = \<dots>" .
  show ?thesis
  proof (cases "indirect (mi_din ?nd) = 0")
    case True
    have "same_cache (sfs_remove_links n s) s3" using same_cache_trans [OF rem sc3] .
    moreover have "?run = Some (Inr (), s3)" unfolding run using s3(1) True kill [OF nodes3] by (simp add: io_defs)
    ultimately show ?thesis using s3 s2(1) True by (intro exI [of _ s3]) simp
  next
    case False
    have "taken (sin_of s n) (indirect (mi_din ?nd))" using bmap_invD(6) [OF inv, of Indirect] False by simp
    moreover have "mi_ino ?nd \<noteq> indirect (mi_din ?nd)" using inj_onD [OF bmap_invD(5) [OF inv], of Inode Indirect] False by auto
    ultimately have "taken s3 (indirect (mi_din ?nd))" using s3(3,4) s2 by (auto simp: taken_def word_unat_eq_iff [of "mi_ino ?nd"])
    with s3(2) obtain s4 where s4: "sfs_block_free (indirect (mi_din ?nd)) s3 = Some (Inr (), s4)" "fs_ok s4"
        "free_set (freemap s4) = insert (unat (indirect (mi_din ?nd))) (free_set (freemap s3))"
      by (rule sfs_block_free_spec) (rule that)
    have nodes4: "nodes s4 = nodes s1" using s4(1) nodes3 by (auto simp: sfs_block_free_def io_defs bind_eq_Some_conv split: option.splits bool.splits)
    have "same_cache (sfs_remove_links n s) s4" using same_cache_trans [OF same_cache_trans [OF rem sc3] sfs_block_free_cache [OF s4(1)]] .
    moreover have "?run = Some (Inr (), s4)" unfolding run using s3(1) s4(1) False kill [OF nodes4] by (simp add: io_defs)
    ultimately show ?thesis using s3 s4 s2(1) False by (intro exI [of _ s4]) auto
  qed
qed

lemma numbers_in_use:
  "{unat (bno v u) | u. u \<in> buses v} = {unat (blockno v i) | i. i < nblk v} \<union> {unat (ino v)}
    \<union> (if indirect (din v) = 0 then {} else {unat (indirect (din v))})"
proof -
  have "buses v = {Inode} \<union> (if indirect (din v) = 0 then {} else {Indirect}) \<union> Block ` {..<nblk v}" by (auto simp: buses_def)
  moreover have "{unat (bno v u) | u. u \<in> buses v} = (\<lambda>u. unat (bno v u)) ` buses v" by blast
  moreover have "{unat (blockno v i) | i. i < nblk v} = (\<lambda>i. unat (blockno v i)) ` {..<nblk v}" by blast
  ultimately show ?thesis by (simp add: image_Un image_image Un_ac)
qed

lemma last_reference:
  assumes inv: "cache_inv s" and n: "n \<in> set (inode_list s)" and counts: "mi_ref (nodes s n) = 1" "mi_open (nodes s n) = 0"
    and unlinked: "din_nlinks (mi_din (nodes s n)) = 0" "din_type (mi_din (nodes s n)) = SFS_TYPE_FILE" and wf: "file_wf (sin_of s n)"
  obtains t where "inode_ref_dec n s = Some (0, t)" "cache_inv t" "inode_list t = remove1 n (inode_list s)" "fs_ok t"
    "free_set (freemap t) = free_set (freemap s) \<union> {unat (bno (sin_of s n) u) | u. u \<in> buses (sin_of s n)}"
proof -
  define s1 where "s1 = s\<lparr>nodes := (nodes s)(n := (nodes s n)\<lparr>mi_ref := 0, mi_reclaim := 0\<rparr>)\<rparr>"
  have rc: "mi_reclaim (nodes s n) = 1" using cache_invD(6) [OF inv n] counts by simp
  have inv1: "cache_inv s1" by (rule counts_inv [OF inv, where n = n]) (simp_all add: s1_def)
  have wf1: "file_wf (sin_of s1 n)" and blk: "blockno (sin_of s1 n) = blockno (sin_of s n)"
    using wf same_map [of "sin_of s1 n" "sin_of s n"] by (simp_all add: file_wf_def s1_def)
  have "0 \<le> unat (din_size (din (sin_of s1 n)))" by simp
  then obtain v where v: "sfs_truncfile (of_nat 0) (sin_of s1 n) = Some (Inr (), v)" "file_wf v" "contents v = take 0 (contents (sin_of s1 n))"
      "free_set (freemap v) = free_set (freemap (sin_of s1 n)) \<union> {unat (blockno (sin_of s1 n) i) | i. blocks_for 0 \<le> i \<and> i < nblk (sin_of s1 n)}"
      "ino v = ino (sin_of s1 n)" "indirect (din v) = indirect (din (sin_of s1 n))" "din_nlinks (din v) = din_nlinks (din (sin_of s1 n))"
      "din_type (din v) = din_type (din (sin_of s1 n))"
    by (rule truncfile_cut [OF wf1]) (rule that)
  define s2 where "s2 = put_sin n v s1"
  have trunc: "node_truncate n 0 s1 = Some (Inr (), s2)" using v(1) unlinked(2) by (simp add: node_truncate_def on_node_def s2_def s1_def)
  have "bmap_inv (sin_of s2 n)" using same_map(1) [of "sin_of s2 n" v] v(2,5) by (simp add: s2_def put_sin_def file_wf_def)
  then obtain t where t: "io_then (\<lambda>s. if mi_dirty (nodes s n) then on_node n sfs_fsync s else ret () s) (\<lambda>_ s.
       let s = sfs_remove_links n s; nd = nodes s n in
         io_then (if din_nlinks (mi_din nd) = 0
           then io_then (sfs_block_free (mi_ino nd)) (\<lambda>_. if indirect (mi_din nd) \<noteq> 0 then sfs_block_free (indirect (mi_din nd)) else ret ())
           else ret ()) (\<lambda>_. inode_kill n) s) s2 = Some (Inr (), t)" "fs_ok t"
      "free_set (freemap t) = free_set (freemap s2) \<union> {unat (mi_ino (nodes s2 n))}
        \<union> (if indirect (mi_din (nodes s2 n)) = 0 then {} else {unat (indirect (mi_din (nodes s2 n)))})"
      "same_cache (sfs_remove_links n s2) t"
    using reclaim_tail [of s2 n] v(7) unlinked(1) counts(2) by (auto simp: s2_def put_sin_def s1_def)
  have "sfs_reclaim n (s\<lparr>nodes := (nodes s)(n := (nodes s n)\<lparr>mi_ref := 0\<rparr>)\<rparr>) = Some (Inr (), t)"
    using rc trunc t(1) unlinked(1) unfolding sfs_reclaim_def by (simp add: kassert_def s1_def) (simp add: io_then_Inr)
  then have run: "inode_ref_dec n s = Some (0, t)" using counts by (simp add: inode_ref_dec_def kassert_def node_check_def)
  have list: "inode_list t = remove1 n (inode_list s)" using t(4) by (simp add: same_cache_def sfs_remove_links_def s2_def put_sin_def s1_def)
  have "{unat (bno (sin_of s n) u) | u. u \<in> buses (sin_of s n)} = {unat (blockno (sin_of s n) i) | i. i < nblk (sin_of s n)}
      \<union> {unat (mi_ino (nodes s n))} \<union> (if indirect (mi_din (nodes s n)) = 0 then {} else {unat (indirect (mi_din (nodes s n)))})"
    using numbers_in_use [of "sin_of s n"] by simp
  moreover have "free_set (freemap s2) = free_set (freemap s) \<union> {unat (blockno (sin_of s n) i) | i. i < nblk (sin_of s n)}"
    using v(4) blk by (simp add: s2_def put_sin_def s1_def blocks_for_def)
  ultimately have "free_set (freemap t) = free_set (freemap s) \<union> {unat (bno (sin_of s n) u) | u. u \<in> buses (sin_of s n)}"
    using t(3) v(6) by (simp add: s2_def put_sin_def s1_def Un_ac)
  then show thesis by (rule that [OF run ref_dec_inv(1) [OF inv n run] list t(2)])
qed

text \<open>A path component longer than the 255 bytes of a name is not refused: the assertion of the search fails.\<close>

lemma long_name_panics:
  "255 < length path \<Longrightarrow> din_type (mi_din (nodes s n)) = SFS_TYPE_DIR \<Longrightarrow> sfs_lookup e d a n path s = None"
  by (auto simp: sfs_lookup_def kassert_def inode_ref_inc_def sfs_lookup_once_def on_node_def sfs_dirent_search_def SFS_MAX_FNAME_LEN_def io_defs)

section \<open>Properties\<close>

text \<open>C10: however inodes are loaded, shared, opened, changed and dropped, an inode number is never held by two inodes in memory, the hash
  lists find exactly the inodes held, and an inode is reclaimed once per use: its reclaim count is one while it is referenced.\<close>

theorem inode_never_twice:
  assumes "inode_step\<^sup>*\<^sup>* s t" "cache_inv s"
  shows "(\<forall>n \<in> set (inode_list t). \<forall>k \<in> set (inode_list t). mi_ino (nodes t n) = mi_ino (nodes t k) \<longrightarrow> n = k)
    \<and> (\<forall>num. (\<exists>n u. lookup_sfs num t = Some (n, u) \<and> n \<in> set (inode_list t) \<and> mi_ino (nodes t n) = num)
        \<or> lookup_sfs num t = None \<and> (\<forall>n \<in> set (inode_list t). mi_ino (nodes t n) \<noteq> num))
    \<and> (\<forall>n \<in> set (inode_list t). 0 < mi_ref (nodes t n) \<longrightarrow> mi_reclaim (nodes t n) = 1)"
proof -
  have inv: "cache_inv t" using assms by (induction rule: rtranclp_induct) (use inode_step_inv in auto)
  have "(\<exists>n u. lookup_sfs num t = Some (n, u) \<and> n \<in> set (inode_list t) \<and> mi_ino (nodes t n) = num)
      \<or> lookup_sfs num t = None \<and> (\<forall>n \<in> set (inode_list t). mi_ino (nodes t n) \<noteq> num)" for num
    using lookup_sfs_None [OF inv, of num] lookup_sfs_Some(1,2) [OF inv, of num] by (cases "lookup_sfs num t") auto
  then show ?thesis using cache_invD(2,6) [OF inv] by auto
qed

definition demo_cache :: sfs_ifs where
  "demo_cache = \<lparr>super = demo_super, freemap = demo_map, super_dirty = False, d_blocks = 8,
     disk = (\<lambda>_ _. 0)(1 := (\<lambda>_. 0)(4 := 2, 6 := 1)),
     nodes = \<lambda>_. \<lparr>mi_din = din demo_file, mi_ino = 0, mi_dirty = False, mi_reclaim = 0, mi_ref = 0, mi_open = 0\<rparr>,
     inode_list = [], hash_list = \<lambda>_. []\<rparr>"

lemma demo_cache_inv: "cache_inv demo_cache"
  by (simp add: cache_inv_def demo_cache_def)

lemma demo_load: "\<exists>t. sfs_load_inode True (Some 7) 1 demo_cache = Some (Inr 7, t) \<and> inode_list t = [7]"
proof -
  let ?b = "map (disk demo_cache 1) [0..<64]"
  have ok: "fs_ok demo_cache" "taken demo_cache 1"
    by (simp_all add: fs_ok_def taken_def demo_cache_def demo_map_free demo_map_wf) (simp_all add: demo_super_def demo_map_def)
  have up: "[6..<8] = [6, 7 :: nat]" "[4..<6] = [4, 5 :: nat]" by (simp_all add: upt_conv_Cons)
  have "take 2 (drop 6 ?b) = [1, 0]" "take 2 (drop 4 ?b) = [2, 0]" by (simp_all add: take_map drop_map up) (simp_all add: demo_cache_def)
  then have d: "din_nlinks (din_of ?b) = 1" "din_type (din_of ?b) = SFS_TYPE_DIR" by (simp_all add: din_of_def word2_def SFS_TYPE_DIR_def)
  have none: "lookup_sfs 1 demo_cache = None" by (simp add: lookup_sfs_def demo_cache_def)
  have "sfs_rbuf 64 1 0 demo_cache = Some (Inr ?b, demo_cache)" using taken_buf(1) [OF ok, of 0 64] by simp
  then have "sfs_load_inode True (Some 7) 1 demo_cache = Some (Inr 7, sfs_set_links 7 (demo_cache\<lparr>nodes := (nodes demo_cache)(7 :=
      \<lparr>mi_din = din_of ?b, mi_ino = 1, mi_dirty = False, mi_reclaim = 1, mi_ref = 1, mi_open = 0\<rparr>)\<rparr>))"
    using taken_inuse [OF ok] d none by (simp add: sfs_load_inode_def io_defs sfs_create_inode_def)
  then show ?thesis by (simp add: sfs_set_links_def Let_def demo_cache_def)
qed

theorem inode_never_twice_witness:
  "\<exists>t. sfs_load_inode True (Some 7) 1 demo_cache = Some (Inr 7, t) \<and> inode_list t = [7] \<and> (0 < mi_ref (nodes t 7) \<longrightarrow> mi_reclaim (nodes t 7) = 1)"
proof -
  obtain t where t: "sfs_load_inode True (Some 7) 1 demo_cache = Some (Inr 7, t)" "inode_list t = [7]" using demo_load by blast
  have "\<forall>n. Some 7 = Some n \<longrightarrow> n \<notin> set (inode_list demo_cache)" by (simp add: demo_cache_def)
  then have "inode_step demo_cache t" using t(1) by (rule inode_step.load)
  then have "inode_step\<^sup>*\<^sup>* demo_cache t" by (rule r_into_rtranclp)
  then show ?thesis using inode_never_twice [OF _ demo_cache_inv, of t] t by auto
qed

text \<open>C11: when the last reference to a file without links is dropped, the drop succeeds, the inode leaves the lists, and exactly its
  blocks, its indirect block and the block of the inode itself become free: nothing is lost and nothing else is given back.\<close>

theorem unlinked_file_freed:
  assumes "cache_inv s" "n \<in> set (inode_list s)" "mi_ref (nodes s n) = 1" "mi_open (nodes s n) = 0"
    "din_nlinks (mi_din (nodes s n)) = 0" "din_type (mi_din (nodes s n)) = SFS_TYPE_FILE" "file_wf (sin_of s n)"
  shows "\<exists>t. inode_ref_dec n s = Some (0, t) \<and> cache_inv t \<and> inode_list t = remove1 n (inode_list s) \<and> fs_ok t
    \<and> free_set (freemap t) = free_set (freemap s) \<union> {unat (bno (sin_of s n) u) | u. u \<in> buses (sin_of s n)}"
  by (rule last_reference [OF assms]) blast

definition demo_unlinked :: sfs_ifs where
  "demo_unlinked = demo_cache\<lparr>nodes := \<lambda>_. \<lparr>mi_din = (din demo_file)\<lparr>din_nlinks := 0\<rparr>, mi_ino = 1, mi_dirty = True, mi_reclaim = 1, mi_ref = 1, mi_open = 0\<rparr>,
     inode_list := [7], hash_list := (\<lambda>_. [])(sin_hashfn 1 := [7]), disk := \<lambda>_ _. 0\<rparr>"

lemma demo_unlinked_ok: "cache_inv demo_unlinked" "file_wf (sin_of demo_unlinked 7)"
proof -
  show "cache_inv demo_unlinked" by (simp add: cache_inv_def demo_unlinked_def)
  have "bmap_inv (sin_of demo_unlinked 7) = bmap_inv demo_file"
    by (rule same_map) (simp_all add: demo_unlinked_def demo_cache_def demo_file_def)
  then show "file_wf (sin_of demo_unlinked 7)" using demo_file_inv by (simp add: file_wf_def) (simp add: demo_unlinked_def demo_file_def blocks_for_def)
qed

theorem unlinked_file_freed_witness:
  "\<exists>t. inode_ref_dec 7 demo_unlinked = Some (0, t) \<and> inode_list t = [] \<and> free_set (freemap t) = {3, 4} \<union> {1}"
proof -
  have "\<exists>t. inode_ref_dec 7 demo_unlinked = Some (0, t) \<and> cache_inv t \<and> inode_list t = remove1 7 (inode_list demo_unlinked) \<and> fs_ok t
    \<and> free_set (freemap t) = free_set (freemap demo_unlinked) \<union> {unat (bno (sin_of demo_unlinked 7) u) | u. u \<in> buses (sin_of demo_unlinked 7)}"
    by (rule unlinked_file_freed [OF demo_unlinked_ok(1) _ _ _ _ _ demo_unlinked_ok(2)])
      (simp_all add: demo_unlinked_def demo_file_def SFS_TYPE_FILE_def)
  moreover have "{unat (bno (sin_of demo_unlinked 7) u) | u. u \<in> buses (sin_of demo_unlinked 7)} = {1}"
    unfolding numbers_in_use by (simp add: demo_unlinked_def demo_file_def)
  moreover have "free_set (freemap demo_unlinked) = {3, 4}" "inode_list demo_unlinked = [7]"
    by (simp_all add: demo_unlinked_def demo_cache_def demo_map_free)
  ultimately show ?thesis by auto
qed

end
