(* ===== verification/Sfs_Mount.thy ===== *)
theory Sfs_Mount
  imports Sfs_Cache
begin

text \<open>
  Mounting and synchronising the simple file system (\<^verbatim>\<open>kern/fs/sfs/sfs_fs.c\<close>). A device is the number of its blocks and their
  contents; the outcomes of the five calls of \<^verbatim>\<open>kmalloc\<close> are arguments, and what is at the addresses of inodes
  before they are used is arbitrary.
\<close>

section \<open>The code\<close>

definition SFS_MAGIC :: u32 where "SFS_MAGIC = 0x2f8dbe2a"
definition SFS_BLKN_SUPER :: u32 where "SFS_BLKN_SUPER = 0"
definition SFS_BLKN_FREEMAP :: u32 where "SFS_BLKN_FREEMAP = 2"

definition sfs_freemap_bits :: "u32 \<Rightarrow> u32" where "sfs_freemap_bits nblocks = ROUNDUP_2N nblocks 15"
definition sfs_freemap_blocks :: "u32 \<Rightarrow> u32" where "sfs_freemap_blocks nblocks = ROUNDUP_DIV_2N nblocks 15"

subsection \<open>Synchronising\<close>

text \<open>The loop over the inodes: \<^verbatim>\<open>vop_fsync\<close> checks the counts of an inode before it calls \<^verbatim>\<open>sfs_fsync\<close>.\<close>

fun sync_inodes :: "nat list \<Rightarrow> sfs_ifs \<Rightarrow> sfs_ifs option" where
  "sync_inodes [] s = Some s"
| "sync_inodes (n # ns) s = do {
     kassert (node_check n s);
     (_, s) \<leftarrow> on_node n sfs_fsync s;
     sync_inodes ns s
   }"

definition sfs_sync :: "(unit, sfs_ifs) io" where
  "sfs_sync s = do {
     s \<leftarrow> sync_inodes (inode_list s) s;
     if super_dirty s
     then io_try sfs_sync_super (\<lambda>r. case r of
         Inl e \<Rightarrow> (\<lambda>s. Some (Inl e, s\<lparr>super_dirty := True\<rparr>))
       | Inr _ \<Rightarrow> io_try sfs_sync_freemap (\<lambda>r. case r of
             Inl e \<Rightarrow> (\<lambda>s. Some (Inl e, s\<lparr>super_dirty := True\<rparr>))
           | Inr _ \<Rightarrow> ret ())) (s\<lparr>super_dirty := False\<rparr>)
     else ret () s
   }"

definition sfs_unmount :: "(unit, sfs_ifs) io" where
  "sfs_unmount s = (if inode_list s \<noteq> [] then fail (- E_BUSY) s else io_assert (\<lambda>s. Some (\<not> super_dirty s)) s)"

fun cleanup_loop :: "nat \<Rightarrow> sfs_ifs \<Rightarrow> sfs_ifs option" where
  "cleanup_loop 0 s = Some s"
| "cleanup_loop (Suc n) s = (case sfs_sync s of
     None \<Rightarrow> None | Some (Inr _, s) \<Rightarrow> Some s | Some (Inl _, s) \<Rightarrow> cleanup_loop n s)"

definition sfs_cleanup :: "sfs_ifs \<Rightarrow> sfs_ifs option" where "sfs_cleanup s = cleanup_loop 32 s"

subsection \<open>Mounting\<close>

type_synonym device = "u32 \<times> (u32 \<Rightarrow> blk)"

definition sfs_init_read :: "device \<Rightarrow> u32 \<Rightarrow> int + blk" where
  "sfs_init_read dev blkno = (if blkno < fst dev then Inr (snd dev blkno) else Inl (- E_INVAL))"

definition super_of :: "blk \<Rightarrow> sfs_super" where
  "super_of b = \<lparr>sb_magic = word4 (map b [0..<4]), sb_blocks = word4 (map b [4..<8]), sb_unused = word4 (map b [8..<12]),
     sb_info = (map b [12..<44])[31 := 0]\<rparr>"

definition words_of :: "blk \<Rightarrow> u32 list" where
  "words_of b = map (\<lambda>j. word4 (map (\<lambda>k. b (j * 4 + k)) [0..<4])) [0..<SFS_BLK_NENTRY]"

fun init_freemap_loop :: "device \<Rightarrow> u32 \<Rightarrow> nat \<Rightarrow> int + u32 list" where
  "init_freemap_loop dev blkno 0 = Inr []"
| "init_freemap_loop dev blkno (Suc nblks) = (case sfs_init_read dev blkno of
     Inl e \<Rightarrow> Inl e
   | Inr b \<Rightarrow> (case init_freemap_loop dev (blkno + 1) nblks of Inl e \<Rightarrow> Inl e | Inr ws \<Rightarrow> Inr (words_of b @ ws)))"

definition sfs_init_freemap :: "device \<Rightarrow> bitmap \<Rightarrow> u32 \<Rightarrow> u32 \<Rightarrow> (int + bitmap) option" where
  "sfs_init_freemap dev bm blkno nblks = do {
     kassert (snd (bitmap_getdata bm) = nblks * 4096);
     Some (case init_freemap_loop dev blkno (unat nblks) of Inl e \<Rightarrow> Inl e | Inr ws \<Rightarrow> Inr (bm\<lparr>words := ws\<rparr>))
   }"

definition count_unused :: "bitmap \<Rightarrow> nat \<Rightarrow> nat" where
  "count_unused bm n = length (filter (\<lambda>i. bitmap_test bm (of_nat i) = Some True) [0..<n])"

record mount_alloc =
  a_fs :: bool
  a_buffer :: bool
  a_hash :: bool
  a_bitmap :: bool
  a_words :: bool

definition sfs_do_mount :: "mount_alloc \<Rightarrow> (nat \<Rightarrow> mem_inode) \<Rightarrow> nat \<Rightarrow> device \<Rightarrow> (int + sfs_ifs) option" where
  "sfs_do_mount a nds blocksize dev =
     (if blocksize \<noteq> SFS_BLKSIZE then Some (Inl (- E_NA_DEV))
      else if \<not> a_fs a then Some (Inl (- E_NO_MEM))
      else if \<not> a_buffer a then Some (Inl (- E_NO_MEM))
      else case sfs_init_read dev SFS_BLKN_SUPER of
        Inl e \<Rightarrow> Some (Inl e)
      | Inr b \<Rightarrow>
          let sb = super_of b in
          if sb_magic sb \<noteq> SFS_MAGIC then Some (Inl (- E_INVAL))
          else if fst dev < sb_blocks sb then Some (Inl (- E_INVAL))
          else if \<not> a_hash a then Some (Inl (- E_NO_MEM))
          else do {
            bmo \<leftarrow> bitmap_create (a_bitmap a) (a_words a) (sfs_freemap_bits (sb_blocks sb));
            case bmo of
              None \<Rightarrow> Some (Inl (- E_NO_MEM))
            | Some bm \<Rightarrow> do {
                r \<leftarrow> sfs_init_freemap dev bm SFS_BLKN_FREEMAP (sfs_freemap_blocks (sb_blocks sb));
                case r of
                  Inl e \<Rightarrow> Some (Inl e)
                | Inr bm \<Rightarrow> do {
                    kassert (of_nat (count_unused bm (unat (sfs_freemap_bits (sb_blocks sb)))) = sb_unused sb);
                    Some (Inr \<lparr>super = sb, freemap = bm, super_dirty = False, d_blocks = fst dev, disk = snd dev,
                      nodes = nds, inode_list = [], hash_list = \<lambda>_. []\<rparr>)
                  }
              }
          })"

section \<open>Writing\<close>

lemma wblock_run:
  assumes "unat blkno + length bs \<le> unat (sb_blocks (super s))" "sb_blocks (super s) \<le> d_blocks s" "blkno \<noteq> 0"
  shows "sfs_wblock bs blkno s = Some (Inr (), s\<lparr>disk := \<lambda>c. if unat blkno \<le> unat c \<and> unat c < unat blkno + length bs
      then bs ! (unat c - unat blkno) else disk s c\<rparr>)"
  using assms
proof (induction bs arbitrary: blkno s)
  case Nil
  have "(\<lambda>c. if unat blkno \<le> unat c \<and> unat c < unat blkno + length [] then [] ! (unat c - unat blkno) else disk s c) = disk s"
    by (auto simp: fun_eq_iff)
  then show ?case by (simp add: ret_def)
next
  case (Cons b bs)
  have lt: "unat blkno + 1 < 4294967296" using Cons.prems(1) unat_u32_less [of "sb_blocks (super s)"] by simp
  then have suc: "unat (blkno + 1) = unat blkno + 1" using unat_add_no_overflow [of blkno 1] by simp
  have "blkno < sb_blocks (super s)" using Cons.prems(1) by (simp add: word_less_nat_alt)
  moreover have "blkno < d_blocks s" using calculation Cons.prems(2) by simp
  ultimately have w: "wr_block blkno True b s = Some (Inr (), s\<lparr>disk := (disk s)(blkno := b)\<rparr>)"
    using Cons.prems(3) by (simp add: wr_block_def kassert_def)
  let ?s = "s\<lparr>disk := (disk s)(blkno := b)\<rparr>"
  have "blkno + 1 \<noteq> 0" using suc by (metis add_eq_0_iff_both_eq_0 one_neq_zero unat_0)
  then have rest: "sfs_wblock bs (blkno + 1) ?s = Some (Inr (), ?s\<lparr>disk := \<lambda>c. if unat (blkno + 1) \<le> unat c \<and> unat c < unat (blkno + 1) + length bs
      then bs ! (unat c - unat (blkno + 1)) else disk ?s c\<rparr>)"
    using Cons.prems suc by (intro Cons.IH) simp_all
  have new: "(\<lambda>c. if unat (blkno + 1) \<le> unat c \<and> unat c < unat (blkno + 1) + length bs then bs ! (unat c - unat (blkno + 1)) else disk ?s c)
      = (\<lambda>c. if unat blkno \<le> unat c \<and> unat c < unat blkno + length (b # bs) then (b # bs) ! (unat c - unat blkno) else disk s c)"
  proof
    fix c
    consider "c = blkno" | "unat c < unat blkno" | "unat blkno < unat c" by (metis linorder_neqE_nat word_unat_eq_iff)
    then show "(if unat (blkno + 1) \<le> unat c \<and> unat c < unat (blkno + 1) + length bs then bs ! (unat c - unat (blkno + 1)) else disk ?s c)
      = (if unat blkno \<le> unat c \<and> unat c < unat blkno + length (b # bs) then (b # bs) ! (unat c - unat blkno) else disk s c)"
      by cases (auto simp: nth_Cons' word_unat_eq_iff suc)
  qed
  have "sfs_wblock (b # bs) blkno s = sfs_wblock bs (blkno + 1) ?s" using w by (simp add: io_defs)
  then show ?case unfolding rest new by simp
qed

section \<open>Reading back\<close>

lemma map_put_bytes: "b \<le> length L \<Longrightarrow> map (put_bytes z 0 L) [a..<b] = take (b - a) (drop a L)"
  by (intro nth_equalityI) (auto simp: put_bytes_def)

lemma super_roundtrip:
  assumes "length (sb_info sb) = 32" "sb_info sb ! 31 = 0"
  shows "super_of (super_block sb) = sb"
proof -
  define L where "L = bytes4 (sb_magic sb) @ bytes4 (sb_blocks sb) @ bytes4 (sb_unused sb) @ sb_info sb"
  have len: "length L = 44" using assms(1) by (simp add: L_def)
  have d4: "drop 4 L = bytes4 (sb_blocks sb) @ bytes4 (sb_unused sb) @ sb_info sb" unfolding L_def by (rule take_bytes4(2))
  have "drop 8 L = drop 4 (drop 4 L)" by simp
  then have d8: "drop 8 L = bytes4 (sb_unused sb) @ sb_info sb" unfolding d4 take_bytes4(2) .
  have "drop 12 L = drop 4 (drop 8 L)" by simp
  then have d12: "drop 12 L = sb_info sb" unfolding d8 take_bytes4(2) .
  have b: "super_block sb = put_bytes (\<lambda>_. 0) 0 L" by (simp add: super_block_def L_def)
  have "take 4 L = bytes4 (sb_magic sb)" unfolding L_def by (rule take_bytes4(1))
  moreover have "take 4 (drop 4 L) = bytes4 (sb_blocks sb)" unfolding d4 by (rule take_bytes4(1))
  moreover have "take 4 (drop 8 L) = bytes4 (sb_unused sb)" unfolding d8 by (rule take_bytes4(1))
  moreover have "take 32 (drop 12 L) = sb_info sb" unfolding d12 using assms(1) by simp
  moreover have "(sb_info sb)[31 := 0] = sb_info sb" using assms(2) list_update_id [of "sb_info sb" 31] by simp
  moreover have "map (put_bytes (\<lambda>_. 0) 0 L) [0..<4] = take (4 - 0) (drop 0 L)" "map (put_bytes (\<lambda>_. 0) 0 L) [4..<8] = take (8 - 4) (drop 4 L)"
      "map (put_bytes (\<lambda>_. 0) 0 L) [8..<12] = take (12 - 8) (drop 8 L)" "map (put_bytes (\<lambda>_. 0) 0 L) [12..<44] = take (44 - 12) (drop 12 L)"
    by (rule map_put_bytes, simp add: len)+
  moreover have "(8 :: nat) - 4 = 4" "(12 :: nat) - 8 = 4" "(44 :: nat) - 12 = 32" by simp_all
  ultimately have "super_of (super_block sb) = \<lparr>sb_magic = word4 (bytes4 (sb_magic sb)), sb_blocks = word4 (bytes4 (sb_blocks sb)),
      sb_unused = word4 (bytes4 (sb_unused sb)), sb_info = sb_info sb\<rparr>"
    unfolding super_of_def b by (simp only: drop_0 diff_zero)
  then show ?thesis by (simp add: bytes4_word4)
qed

lemma words_of_map_block:
  assumes "(k + 1) * 1024 \<le> length ws"
  shows "words_of (map_block ws k) = take 1024 (drop (k * 1024) ws)"
proof (rule nth_equalityI)
  show "length (words_of (map_block ws k)) = length (take 1024 (drop (k * 1024) ws))" using assms by (simp add: words_of_def SFS_BLK_NENTRY_def)
  fix j assume "j < length (words_of (map_block ws k))"
  then have j: "j < 1024" by (simp add: words_of_def SFS_BLK_NENTRY_def)
  have "map_block ws k (j * 4 + i) = bytes4 (ws ! (k * 1024 + j)) ! i" if "i < 4" for i
  proof -
    have "(j * 4 + i) div 4 = j" using that by (intro div_nat_eqI) simp_all
    moreover have "(j * 4 + i) mod 4 = i" using that by simp
    ultimately show ?thesis using j assms by (simp add: map_block_def SFS_BLK_NENTRY_def)
  qed
  then have "map (\<lambda>i. map_block ws k (j * 4 + i)) [0..<4] = map (nth (bytes4 (ws ! (k * 1024 + j)))) [0..<4]" by (intro map_cong) auto
  also have "\<dots> = bytes4 (ws ! (k * 1024 + j))" using map_nth [of "bytes4 (ws ! (k * 1024 + j))"] by simp
  finally show "words_of (map_block ws k) ! j = take 1024 (drop (k * 1024) ws) ! j"
    using j assms by (simp add: words_of_def SFS_BLK_NENTRY_def bytes4_word4)
qed

lemma init_freemap_reads:
  assumes "length ws = n * 1024" "k + m = n" "2 + n \<le> unat nb"
    "\<And>c. 2 \<le> unat c \<Longrightarrow> unat c < 2 + n \<Longrightarrow> d c = map_block ws (unat c - 2)"
  shows "init_freemap_loop (nb, d) (of_nat (2 + k)) m = Inr (drop (k * 1024) ws)"
  using assms(2)
proof (induction m arbitrary: k)
  case 0
  then show ?case using assms(1) by simp
next
  case (Suc m)
  have u: "unat (of_nat (2 + k) :: u32) = 2 + k" using Suc.prems assms(3) unat_u32_less [of nb] by (intro of_nat_inverse [OF refl]) simp
  have "(of_nat (2 + k) :: u32) < nb" unfolding word_less_nat_alt u using Suc.prems assms(3) by simp
  moreover have "d (of_nat (2 + k)) = map_block ws k" using assms(4) [of "of_nat (2 + k)"] Suc.prems unfolding u by simp
  ultimately have "sfs_init_read (nb, d) (of_nat (2 + k)) = Inr (map_block ws k)" by (simp add: sfs_init_read_def)
  moreover have "(of_nat (2 + k) :: u32) + 1 = of_nat (2 + (k + 1))" by simp
  then have "init_freemap_loop (nb, d) (of_nat (2 + k) + 1) m = Inr (drop ((k + 1) * 1024) ws)" using Suc.IH [of "k + 1"] Suc.prems by simp
  moreover have "words_of (map_block ws k) = take 1024 (drop (k * 1024) ws)" using Suc.prems assms(1) by (intro words_of_map_block) simp
  moreover have "take 1024 (drop (k * 1024) ws) @ drop ((k + 1) * 1024) ws = drop (k * 1024) ws"
    using append_take_drop_id [of 1024 "drop (k * 1024) ws"] by (simp add: add.commute)
  ultimately show ?case by (simp del: of_nat_add)
qed

lemma count_unused_card:
  assumes "bitmap_wf bm"
  shows "count_unused bm (unat (nbits bm)) = card (free_set bm)"
proof -
  have "bitmap_test bm (of_nat i) = Some True \<longleftrightarrow> i \<in> free_set bm" if "i < unat (nbits bm)" for i
  proof -
    have "unat (of_nat i :: u32) = i" using that unat_u32_less [of "nbits bm"] by (simp add: unat_of_nat)
    then show ?thesis using bitmap_test_iff [OF assms, of "of_nat i"] that by simp
  qed
  then have "filter (\<lambda>i. bitmap_test bm (of_nat i) = Some True) [0..<unat (nbits bm)] = filter (\<lambda>i. i \<in> free_set bm) [0..<unat (nbits bm)]"
    by (intro filter_cong) auto
  moreover have "set (filter (\<lambda>i. i \<in> free_set bm) [0..<unat (nbits bm)]) = free_set bm" using free_set_bound by auto
  ultimately show ?thesis unfolding count_unused_def by (metis distinct_card distinct_filter distinct_upt)
qed

section \<open>Synchronising and mounting again\<close>

lemma on_node_fsync:
  assumes "fs_ok s" "taken s (mi_ino (nodes s n))" "length (direct (mi_din (nodes s n))) = 12"
  obtains t where "on_node n sfs_fsync s = Some (Inr (), t)" "freemap t = freemap s" "super t = super s" "super_dirty t = super_dirty s"
    "d_blocks t = d_blocks s" "inode_list t = inode_list s" "\<And>k. k \<noteq> n \<Longrightarrow> nodes t k = nodes s k"
    "mi_din (nodes t n) = mi_din (nodes s n)" "mi_ino (nodes t n) = mi_ino (nodes s n)"
    "disk t = (if mi_dirty (nodes s n) then (disk s)(mi_ino (nodes s n) := put_bytes (disk s (mi_ino (nodes s n))) 0 (din_bytes (mi_din (nodes s n)))) else disk s)"
proof -
  have "super_dirty (sin_of s n) = super_dirty s" by (simp add: sin_of_def sfs_fs.defs sfs_sin.defs)
  moreover have "fs_ok (sin_of s n)" "taken (sin_of s n) (ino (sin_of s n))" using assms(1,2) by (simp_all add: fs_ok_def taken_def)
  then have "sfs_fsync (sin_of s n) = Some (Inr (), if mi_dirty (nodes s n)
      then (sin_of s n)\<lparr>disk := (disk s)(mi_ino (nodes s n) := put_bytes (disk s (mi_ino (nodes s n))) 0 (din_bytes (mi_din (nodes s n)))), dirty := False\<rparr>
      else sin_of s n)"
    using fsync_exact [of "sin_of s n"] assms(3) by simp
  ultimately show thesis
    by (intro that [of "put_sin n (if mi_dirty (nodes s n)
      then (sin_of s n)\<lparr>disk := (disk s)(mi_ino (nodes s n) := put_bytes (disk s (mi_ino (nodes s n))) 0 (din_bytes (mi_din (nodes s n)))), dirty := False\<rparr>
      else sin_of s n) s"]) (simp_all add: on_node_def put_sin_def)
qed

definition inodes_ok :: "nat list \<Rightarrow> sfs_ifs \<Rightarrow> bool" where
  "inodes_ok ns s \<longleftrightarrow> distinct ns \<and> inj_on (\<lambda>n. mi_ino (nodes s n)) (set ns)
     \<and> (\<forall>n \<in> set ns. taken s (mi_ino (nodes s n)) \<and> length (direct (mi_din (nodes s n))) = 12 \<and> node_check n s)"

lemma sync_inodes_run:
  assumes "fs_ok s" "inodes_ok ns s"
  shows "\<exists>t. sync_inodes ns s = Some t \<and> freemap t = freemap s \<and> super t = super s \<and> super_dirty t = super_dirty s \<and> d_blocks t = d_blocks s
    \<and> (\<forall>n \<in> set ns. mi_dirty (nodes s n) \<longrightarrow> disk t (mi_ino (nodes s n)) = put_bytes (disk s (mi_ino (nodes s n))) 0 (din_bytes (mi_din (nodes s n))))
    \<and> (\<forall>c. (\<forall>n \<in> set ns. mi_ino (nodes s n) = c \<longrightarrow> \<not> mi_dirty (nodes s n)) \<longrightarrow> disk t c = disk s c)"
  using assms
proof (induction ns arbitrary: s)
  case (Cons n ns)
  have n: "taken s (mi_ino (nodes s n))" "length (direct (mi_din (nodes s n))) = 12" and check: "node_check n s" using Cons.prems(2) by (simp_all add: inodes_ok_def)
  obtain u where u: "on_node n sfs_fsync s = Some (Inr (), u)" "freemap u = freemap s" "super u = super s" "super_dirty u = super_dirty s"
    "d_blocks u = d_blocks s" "inode_list u = inode_list s" "\<And>k. k \<noteq> n \<Longrightarrow> nodes u k = nodes s k"
    "mi_din (nodes u n) = mi_din (nodes s n)" "mi_ino (nodes u n) = mi_ino (nodes s n)"
    "disk u = (if mi_dirty (nodes s n) then (disk s)(mi_ino (nodes s n) := put_bytes (disk s (mi_ino (nodes s n))) 0 (din_bytes (mi_din (nodes s n)))) else disk s)"
    by (rule on_node_fsync [OF Cons.prems(1) n]) (rule that)
  have same: "nodes u k = nodes s k" if "k \<in> set ns" for k using u(7) [of k] Cons.prems(2) that by (metis distinct.simps(2) inodes_ok_def)
  have other: "mi_ino (nodes s k) \<noteq> mi_ino (nodes s n)" if "k \<in> set ns" for k using Cons.prems(2) that by (auto simp: inodes_ok_def inj_on_def)
  have ok: "fs_ok u" "inodes_ok ns u" using Cons.prems u same by (auto simp: fs_ok_def inodes_ok_def inj_on_def taken_def node_check_def)
  obtain t where t: "sync_inodes ns u = Some t" "freemap t = freemap u" "super t = super u" "super_dirty t = super_dirty u" "d_blocks t = d_blocks u"
      "\<And>k. k \<in> set ns \<Longrightarrow> mi_dirty (nodes u k) \<Longrightarrow> disk t (mi_ino (nodes u k)) = put_bytes (disk u (mi_ino (nodes u k))) 0 (din_bytes (mi_din (nodes u k)))"
      "\<And>c. \<forall>k \<in> set ns. mi_ino (nodes u k) = c \<longrightarrow> \<not> mi_dirty (nodes u k) \<Longrightarrow> disk t c = disk u c"
    using Cons.IH [OF ok] by blast
  have "disk t (mi_ino (nodes s k)) = put_bytes (disk s (mi_ino (nodes s k))) 0 (din_bytes (mi_din (nodes s k)))"
    if k: "k \<in> set (n # ns)" "mi_dirty (nodes s k)" for k
  proof (cases "k = n")
    case True
    then have "disk t (mi_ino (nodes s k)) = disk u (mi_ino (nodes s k))" using other same by (intro t(7)) auto
    then show ?thesis using True k(2) u(10) by simp
  next
    case False
    then have "k \<in> set ns" using k(1) by simp
    then show ?thesis using t(6) [of k] same [of k] other [of k] k(2) u(10) by simp
  qed
  moreover have "disk t c = disk s c" if "\<forall>k \<in> set (n # ns). mi_ino (nodes s k) = c \<longrightarrow> \<not> mi_dirty (nodes s k)" for c
    using t(7) [of c] same that u(10) by auto
  ultimately show ?case using check u(1-5) t(1-5) by (intro exI [of _ t]) auto
qed simp

text \<open>A file system that can be written back: its structures fit the device, and the counts of the inodes in memory pass the check that
  precedes every operation on an inode.\<close>

definition mountable :: "sfs_ifs \<Rightarrow> bool" where
  "mountable s \<longleftrightarrow> fs_ok s \<and> sb_magic (super s) = SFS_MAGIC \<and> length (sb_info (super s)) = 32 \<and> sb_info (super s) ! 31 = 0
     \<and> unat (sb_blocks (super s)) + 65536 < 4294967296 \<and> nbits (freemap s) = sfs_freemap_bits (sb_blocks (super s))
     \<and> 2 + unat (sfs_freemap_blocks (sb_blocks (super s))) \<le> unat (sb_blocks (super s))
     \<and> inodes_ok (inode_list s) s
     \<and> (\<forall>n \<in> set (inode_list s). mi_ino (nodes s n) = 1 \<or> 2 + unat (sfs_freemap_blocks (sb_blocks (super s))) \<le> unat (mi_ino (nodes s n)))"

definition all_memory :: mount_alloc where
  "all_memory = \<lparr>a_fs = True, a_buffer = True, a_hash = True, a_bitmap = True, a_words = True\<rparr>"

lemma freemap_sizes:
  assumes "mountable s"
  defines "F \<equiv> unat (sfs_freemap_blocks (sb_blocks (super s)))"
  shows "unat (nbits (freemap s)) = F * 32768" "length (words (freemap s)) = F * 1024" "nwords (freemap s) = of_nat (F * 1024)" "0 < F" "F * 32768 + 32 < 4294967296"
proof -
  let ?n = "unat (sb_blocks (super s))"
  have n: "?n + 65536 < 4294967296" "2 \<le> ?n" using assms(1) by (simp_all add: mountable_def)
  have F: "F = (?n + 32767) div 32768" using unat_ROUNDUP_DIV [of 15 "sb_blocks (super s)"] n by (simp add: F_def sfs_freemap_blocks_def)
  show bits: "unat (nbits (freemap s)) = F * 32768"
    using unat_ROUNDUP [of 15 "sb_blocks (super s)"] n assms(1) by (simp add: mountable_def sfs_freemap_bits_def F)
  show "0 < F" unfolding F using n by (simp add: div_greater_zero_iff)
  have "F * 32768 \<le> ?n + 32767" unfolding F by (rule div_times_less_eq_dividend)
  then show "F * 32768 + 32 < 4294967296" using n by simp
  have wf: "bitmap_wf (freemap s)" using assms(1) by (simp add: mountable_def fs_ok_def)
  have "unat (nwords (freemap s)) = (F * 32768 + 31) div 32" using wf bits by (simp add: bitmap_wf_def)
  also have "\<dots> = F * 1024" by (intro div_nat_eqI) simp_all
  finally have w: "unat (nwords (freemap s)) = F * 1024" .
  then show "length (words (freemap s)) = F * 1024" using wf by (simp add: bitmap_wf_def)
  show "nwords (freemap s) = of_nat (F * 1024)" unfolding w [symmetric] by simp
qed

lemma sync_writes:
  assumes m: "mountable s" and d: "super_dirty s"
  defines "F \<equiv> unat (sfs_freemap_blocks (sb_blocks (super s)))"
  shows "\<exists>t. sfs_sync s = Some (Inr (), t) \<and> d_blocks t = d_blocks s \<and> disk t 0 = super_block (super s)
    \<and> (\<forall>c. 2 \<le> unat c \<and> unat c < 2 + F \<longrightarrow> disk t c = map_block (words (freemap s)) (unat c - 2))
    \<and> (\<forall>c. (c = 1 \<or> 2 + F \<le> unat c) \<and> (\<forall>n \<in> set (inode_list s). mi_ino (nodes s n) = c \<longrightarrow> \<not> mi_dirty (nodes s n)) \<longrightarrow> disk t c = disk s c)
    \<and> (\<forall>n \<in> set (inode_list s). mi_dirty (nodes s n) \<longrightarrow> disk t (mi_ino (nodes s n)) = put_bytes (disk s (mi_ino (nodes s n))) 0 (din_bytes (mi_din (nodes s n))))"
proof -
  have ok: "fs_ok s" "inodes_ok (inode_list s) s" and fit: "2 + F \<le> unat (sb_blocks (super s))"
    using m by (simp_all add: mountable_def F_def)
  obtain u where u: "sync_inodes (inode_list s) s = Some u" "freemap u = freemap s" "super u = super s" "super_dirty u = super_dirty s" "d_blocks u = d_blocks s"
      "\<And>k. k \<in> set (inode_list s) \<Longrightarrow> mi_dirty (nodes s k) \<Longrightarrow> disk u (mi_ino (nodes s k)) = put_bytes (disk s (mi_ino (nodes s k))) 0 (din_bytes (mi_din (nodes s k)))"
      "\<And>c. \<forall>k \<in> set (inode_list s). mi_ino (nodes s k) = c \<longrightarrow> \<not> mi_dirty (nodes s k) \<Longrightarrow> disk u c = disk s c"
    using sync_inodes_run [OF ok] by blast
  let ?v = "u\<lparr>super_dirty := False, disk := (disk u)(0 := super_block (super s))\<rparr>"
  let ?bs = "map (map_block (words (freemap s))) [0..<F]"
  have le: "sb_blocks (super s) \<le> d_blocks s" using ok by (simp add: fs_ok_def)
  have "(0 :: u32) < sb_blocks (super s)" using fit by (simp add: word_less_nat_alt)
  moreover have "(0 :: u32) < d_blocks s" using calculation le by simp
  ultimately have sup: "sfs_sync_super (u\<lparr>super_dirty := False\<rparr>) = Some (Inr (), ?v)"
    using u by (simp add: sfs_sync_super_def wr_block_def kassert_def)
  define t where "t = ?v\<lparr>disk := \<lambda>c. if unat (2 :: u32) \<le> unat c \<and> unat c < unat (2 :: u32) + length ?bs then ?bs ! (unat c - unat (2 :: u32)) else disk ?v c\<rparr>"
  have "sfs_wblock ?bs 2 ?v = Some (Inr (), t)" unfolding t_def using fit le u by (intro wblock_run) simp_all
  then have fm: "sfs_sync_freemap ?v = Some (Inr (), t)"
    using u(2,3) by (simp add: sfs_sync_freemap_def bitmap_getdata_def F_def sfs_freemap_blocks_def Let_def)
  have run: "sfs_sync s = Some (Inr (), t)" using u(1,4) d sup fm by (simp add: sfs_sync_def io_try_def ret_def)
  have t: "disk t c = (if 2 \<le> unat c \<and> unat c < 2 + F then map_block (words (freemap s)) (unat c - 2) else if c = 0 then super_block (super s) else disk u c)" for c
    by (auto simp: t_def)
  have out: "disk t c = disk u c" if "c = 1 \<or> 2 + F \<le> unat c" for c using that by (auto simp: t)
  have inos: "mi_ino (nodes s n) = 1 \<or> 2 + F \<le> unat (mi_ino (nodes s n))" if "n \<in> set (inode_list s)" for n using m that by (auto simp: mountable_def F_def)
  show ?thesis using run t out inos u(5-7) by (intro exI [of _ t]) (auto simp: t_def)
qed

lemma mount_reads:
  assumes m: "mountable s" and disk: "D 0 = super_block (super s)"
    "\<And>c. 2 \<le> unat c \<Longrightarrow> unat c < 2 + unat (sfs_freemap_blocks (sb_blocks (super s))) \<Longrightarrow> D c = map_block (words (freemap s)) (unat c - 2)"
  shows "sfs_do_mount all_memory nds 4096 (d_blocks s, D) = Some (Inr \<lparr>super = super s, freemap = freemap s, super_dirty = False,
    d_blocks = d_blocks s, disk = D, nodes = nds, inode_list = [], hash_list = \<lambda>_. []\<rparr>)"
proof -
  let ?b = "sb_blocks (super s)"
  define F where "F = unat (sfs_freemap_blocks ?b)"
  have ok: "fs_ok s" "bitmap_wf (freemap s)" "?b \<le> d_blocks s" "nbits (freemap s) = sfs_freemap_bits ?b" "sb_magic (super s) = SFS_MAGIC"
    and fit: "2 + F \<le> unat ?b" using m unfolding mountable_def F_def fs_ok_def by blast+
  note sz = freemap_sizes [OF m, folded F_def]
  have "(0 :: u32) < ?b" using fit by (simp add: word_less_nat_alt)
  then have "(0 :: u32) < d_blocks s" using ok(3) by simp
  then have rd: "sfs_init_read (d_blocks s, D) SFS_BLKN_SUPER = Inr (super_block (super s))"
    using disk(1) by (simp add: sfs_init_read_def SFS_BLKN_SUPER_def)
  have sup: "super_of (super_block (super s)) = super s" using m by (intro super_roundtrip) (simp_all add: mountable_def)
  let ?nb = "sfs_freemap_bits ?b"
  have nb: "unat ?nb = F * 32768" using sz(1) ok(4) by simp
  have "unat (ROUNDUP_DIV_2N ?nb 5) = (F * 32768 + 31) div 32" using unat_ROUNDUP_DIV [of 5 ?nb] nb sz(5) by simp
  also have "\<dots> = F * 1024" by (intro div_nat_eqI) simp_all
  finally have "bitmap_create True True ?nb = Some (Some \<lparr>nbits = ?nb, nwords = of_nat (F * 1024), words = replicate (F * 1024) (- 1)\<rparr>)"
    using nb sz(4,5) by (intro bitmap_create_full) simp_all
  moreover have "init_freemap_loop (d_blocks s, D) (of_nat (2 + 0)) F = Inr (drop (0 * 1024) (words (freemap s)))"
  proof (rule init_freemap_reads)
    show "2 + F \<le> unat (d_blocks s)" using fit ok(3) unfolding word_le_nat_alt by (rule le_trans)
  qed (use sz(2) disk(2) in \<open>simp_all add: F_def\<close>)
  moreover have "4 * of_nat (F * 1024) = sfs_freemap_blocks ?b * 4096"
  proof -
    have "sfs_freemap_blocks ?b = of_nat F" by (simp add: F_def)
    then show ?thesis by simp
  qed
  moreover have "\<lparr>nbits = ?nb, nwords = of_nat (F * 1024), words = words (freemap s)\<rparr> = freemap s" using ok(4) sz(3) by simp
  moreover have "of_nat (count_unused (freemap s) (unat ?nb)) = sb_unused (super s)"
    using count_unused_card [OF ok(2)] ok(1,4) by (simp add: fs_ok_def)
  ultimately show ?thesis
    using rd sup ok(3,5) by (simp add: sfs_do_mount_def all_memory_def SFS_BLKSIZE_def Let_def not_less [symmetric] sfs_init_freemap_def bitmap_getdata_def
        SFS_BLKN_FREEMAP_def flip: F_def)
qed

section \<open>Properties\<close>

text \<open>C9: for a changed file system whose structures fit its device and whose inodes pass the check of their counts, synchronising it and mounting the device again gives the same super block and the same free map, in a
  consistent state without inodes in memory; every changed inode is found on the disk as it was in memory, and every block that is
  neither part of the super block and the free map nor a changed inode is untouched.\<close>

theorem sync_then_mount:
  assumes "mountable s" "super_dirty s"
  shows "\<exists>t s'. sfs_sync s = Some (Inr (), t) \<and> sfs_do_mount all_memory nds 4096 (d_blocks t, disk t) = Some (Inr s')
    \<and> super s' = super s \<and> freemap s' = freemap s \<and> d_blocks s' = d_blocks s \<and> fs_ok s' \<and> cache_inv s' \<and> inode_list s' = []
    \<and> (\<forall>n \<in> set (inode_list s). mi_dirty (nodes s n) \<longrightarrow> din_of (map (disk s' (mi_ino (nodes s n))) [0..<64]) = mi_din (nodes s n))
    \<and> (\<forall>c. (c = 1 \<or> 2 + unat (sfs_freemap_blocks (sb_blocks (super s))) \<le> unat c)
        \<and> (\<forall>n \<in> set (inode_list s). mi_ino (nodes s n) = c \<longrightarrow> \<not> mi_dirty (nodes s n)) \<longrightarrow> disk s' c = disk s c)"
proof -
  obtain t where t: "sfs_sync s = Some (Inr (), t)" "d_blocks t = d_blocks s" "disk t 0 = super_block (super s)"
      "\<And>c. 2 \<le> unat c \<Longrightarrow> unat c < 2 + unat (sfs_freemap_blocks (sb_blocks (super s))) \<Longrightarrow> disk t c = map_block (words (freemap s)) (unat c - 2)"
      "\<And>c. (c = 1 \<or> 2 + unat (sfs_freemap_blocks (sb_blocks (super s))) \<le> unat c)
        \<and> (\<forall>n \<in> set (inode_list s). mi_ino (nodes s n) = c \<longrightarrow> \<not> mi_dirty (nodes s n)) \<Longrightarrow> disk t c = disk s c"
      "\<And>n. n \<in> set (inode_list s) \<Longrightarrow> mi_dirty (nodes s n) \<Longrightarrow> disk t (mi_ino (nodes s n)) = put_bytes (disk s (mi_ino (nodes s n))) 0 (din_bytes (mi_din (nodes s n)))"
    using sync_writes [OF assms] by blast
  let ?s = "\<lparr>super = super s, freemap = freemap s, super_dirty = False, d_blocks = d_blocks s, disk = disk t, nodes = nds, inode_list = [], hash_list = \<lambda>_. []\<rparr>"
  have "sfs_do_mount all_memory nds 4096 (d_blocks t, disk t) = Some (Inr ?s)" unfolding t(2) using assms(1) t(3,4) by (rule mount_reads)
  moreover have "fs_ok s" using assms(1) unfolding mountable_def by blast
  then have "fs_ok ?s" by (simp add: fs_ok_def)
  moreover have "cache_inv ?s" by (simp add: cache_inv_def)
  moreover have "din_of (map (disk t (mi_ino (nodes s n))) [0..<64]) = mi_din (nodes s n)" if n: "n \<in> set (inode_list s)" "mi_dirty (nodes s n)" for n
  proof -
    have len: "length (direct (mi_din (nodes s n))) = 12" using assms(1) n(1) by (simp add: mountable_def inodes_ok_def)
    have "64 \<le> length (din_bytes (mi_din (nodes s n)))" using length_din_bytes [OF len] by simp
    then have "map (disk t (mi_ino (nodes s n))) [0..<64] = take (64 - 0) (drop 0 (din_bytes (mi_din (nodes s n))))"
      unfolding t(6) [OF n] by (rule map_put_bytes)
    then show ?thesis using length_din_bytes [OF len] din_of_bytes [OF len] by simp
  qed
  ultimately show ?thesis using t(1,5) by (intro exI [of _ t] exI [of _ ?s]) auto
qed

lemma demo_mountable: "mountable (demo_unlinked\<lparr>super_dirty := True\<rparr>)"
proof -
  let ?s = "demo_unlinked\<lparr>super_dirty := True\<rparr>"
  have "fs_ok ?s" using demo_fs_ok(1) by (simp add: fs_ok_def demo_unlinked_def demo_cache_def demo_fs_def)
  moreover have "taken ?s 1" unfolding taken_def by (simp add: demo_unlinked_def demo_cache_def demo_map_free demo_super_def)
  moreover have "sfs_freemap_bits 5 = 32768" "sfs_freemap_blocks 5 = 1"
    using unat_ROUNDUP [of 15 5] unat_ROUNDUP_DIV [of 15 5] by (simp_all add: sfs_freemap_bits_def sfs_freemap_blocks_def word_unat_eq_iff)
  moreover have "super ?s = demo_super" "freemap ?s = demo_map" "inode_list ?s = [7]" "mi_ino (nodes ?s 7) = 1" "length (direct (mi_din (nodes ?s 7))) = 12" "node_check 7 ?s"
    by (simp_all add: demo_unlinked_def demo_cache_def demo_file_def node_check_def)
  ultimately show ?thesis by (simp add: mountable_def inodes_ok_def demo_super_def demo_map_def SFS_MAGIC_def)
qed

theorem sync_then_mount_witness:
  "\<exists>t s'. sfs_sync (demo_unlinked\<lparr>super_dirty := True\<rparr>) = Some (Inr (), t)
    \<and> sfs_do_mount all_memory (nodes demo_cache) 4096 (d_blocks t, disk t) = Some (Inr s') \<and> super s' = demo_super \<and> freemap s' = demo_map"
proof -
  have d: "super_dirty (demo_unlinked\<lparr>super_dirty := True\<rparr>)" by simp
  have "super demo_unlinked = demo_super" "freemap demo_unlinked = demo_map" by (simp_all add: demo_unlinked_def demo_cache_def)
  then show ?thesis using sync_then_mount [OF demo_mountable d, of "nodes demo_cache"] by auto
qed

end
