(* ===== verification/Vfs_Sfs.thy ===== *)
theory Vfs_Sfs
  imports Filetable Sfs_Mount
begin

text \<open>
  The simple file system below the virtual one: its two tables of operations (\<^verbatim>\<open>sfs_node_dirops\<close>, \<^verbatim>\<open>sfs_node_fileops\<close> in
  \<^verbatim>\<open>sfs_inode.c\<close>) and the operations of \<^verbatim>\<open>struct fs\<close> keep the contract that the descriptors rely on. What \<^verbatim>\<open>kmalloc\<close> answers
  is a function of the state. A node pointer that names no inode in memory has no meaning.
\<close>

section \<open>The code\<close>

record sfs_alloc =
  ent_ok :: "sfs_ifs \<Rightarrow> bool"
  din_ok :: "sfs_ifs \<Rightarrow> bool"
  node_at :: "sfs_ifs \<Rightarrow> nat option"

definition DOTDOT :: "u8 list" where "DOTDOT = [46, 46]"

text \<open>The way to the root: the name of each directory in its parent, with \<open>resid\<close> bytes left.\<close>

partial_function (option) namefile_loop :: "sfs_alloc \<Rightarrow> nat \<Rightarrow> nat \<Rightarrow> u8 list \<Rightarrow> sfs_ifs \<Rightarrow> ((int + u8 list) \<times> sfs_ifs) option" where
  "namefile_loop al n resid acc s = do {
     (r, s) \<leftarrow> sfs_lookup_once (ent_ok al s) (din_ok al s) (node_at al s) n DOTDOT s;
     case r of
       Inl e \<Rightarrow> do { (_, s) \<leftarrow> inode_ref_dec n s; Some (Inl e, s) }
     | Inr parent \<Rightarrow> do {
         let num = mi_ino (nodes s n);
         (_, s) \<leftarrow> inode_ref_dec n s;
         if n = parent then do { (_, s) \<leftarrow> inode_ref_dec n s; Some (Inr acc, s) }
         else do {
           kassert (num \<noteq> mi_ino (nodes s parent) \<and> din_type (mi_din (nodes s parent)) = SFS_TYPE_DIR);
           (r, s) \<leftarrow> on_node parent (sfs_dirent_findino num) s;
           case r of
             Inl e \<Rightarrow> do { (_, s) \<leftarrow> inode_ref_dec parent s; Some (Inl e, s) }
           | Inr entry \<Rightarrow>
               if resid < length (cname (de_name entry)) + 1
               then do { (_, s) \<leftarrow> inode_ref_dec parent s; Some (Inl (- E_NO_MEM), s) }
               else namefile_loop al parent (resid - (length (cname (de_name entry)) + 1)) (cname (de_name entry) @ [47] @ acc) s
         }
       }
   }"

definition sfs_namefile :: "sfs_alloc \<Rightarrow> nat \<Rightarrow> nat \<Rightarrow> (u8 list, sfs_ifs) io" where
  "sfs_namefile al n resid s =
     (if resid \<le> 2 \<or> \<not> ent_ok al s then fail (- E_NO_MEM) s
      else io_then (namefile_loop al n (resid - 2) []) (\<lambda>acc. ret (47 # acc)) (inode_ref_inc n s))"

text \<open>Files and directories have different handlers; a missing one is a failed assertion.\<close>

definition sfs_kind :: "16 word \<Rightarrow> nat \<Rightarrow> (sfs_ifs \<Rightarrow> ('b \<times> sfs_ifs) option) \<Rightarrow> sfs_ifs \<Rightarrow> ('b \<times> sfs_ifs) option" where
  "sfs_kind ty n f s = (if n \<in> set (inode_list s) \<and> din_type (mi_din (nodes s n)) = ty then f s else None)"

definition sfs_any :: "nat \<Rightarrow> (sfs_ifs \<Rightarrow> 'b option) \<Rightarrow> sfs_ifs \<Rightarrow> 'b option" where
  "sfs_any n f s = (if n \<in> set (inode_list s) then f s else None)"

definition dirent_bytes :: "bool \<Rightarrow> u32 \<Rightarrow> (u8 list, sfs_sin) io" where
  "dirent_bytes ok offset s = do {
     (r, iob, m, s) \<leftarrow> sfs_getdirentry (if ok then Some 4096 else None) (iobuf_init 0 256 offset) (\<lambda>_. 0) s;
     Some (if r = 0 then Inr (map m [0..<unat (iobuf_used iob)]) else Inl r, s)
   }"

definition sfs_vops :: "sfs_alloc \<Rightarrow> sfs_ifs vnode_ops" where
  "sfs_vops al = \<lparr>
     ref_count = \<lambda>s n. if n \<in> set (inode_list s) then mi_ref (nodes s n) else 0,
     open_count = \<lambda>s n. if n \<in> set (inode_list s) then mi_open (nodes s n) else 0,
     in_fs = \<lambda>s n. Some 0,
     vop_ref_inc = inode_ref_inc,
     vop_ref_dec = \<lambda>n. sfs_any n (\<lambda>s. map_option snd (inode_ref_dec n s)),
     vop_open_inc = inode_open_inc,
     vop_open_dec = \<lambda>n. sfs_any n (\<lambda>s. map_option snd (inode_open_dec n s)),
     vop_open = \<lambda>n flags. sfs_any n (on_node n (\<lambda>v. if din_type (din v) = SFS_TYPE_DIR then sfs_opendir flags v else sfs_openfile flags v)),
     vop_read = \<lambda>n len pos. sfs_kind SFS_TYPE_FILE n (on_node n (sfs_io_nolock False (replicate len 0) pos)),
     vop_write = \<lambda>n bs pos. sfs_kind SFS_TYPE_FILE n (on_node n (\<lambda>v. map_option (\<lambda>((r, out), v). ((r, length out), v)) (sfs_io_nolock True bs pos v))),
     vop_fstat = \<lambda>n. sfs_any n (on_node n sfs_fstat),
     vop_fsync = \<lambda>n. sfs_any n (on_node n sfs_fsync),
     vop_namefile = \<lambda>n len. sfs_kind SFS_TYPE_DIR n (sfs_namefile al n len),
     vop_getdirentry = \<lambda>n offset. sfs_kind SFS_TYPE_DIR n (\<lambda>s. on_node n (dirent_bytes (ent_ok al s) offset) s),
     vop_gettype = \<lambda>n. sfs_any n (on_node n sfs_gettype),
     vop_tryseek = \<lambda>n pos. sfs_kind SFS_TYPE_FILE n (on_node n (sfs_tryseek pos)),
     vop_truncate = \<lambda>n len. sfs_kind SFS_TYPE_FILE n (on_node n (sfs_truncfile len)),
     vop_create = \<lambda>n name excl s. None,
     vop_lookup = \<lambda>n path. sfs_kind SFS_TYPE_DIR n (\<lambda>s. sfs_lookup (ent_ok al s) (din_ok al s) (node_at al s) n path s)\<rparr>"

definition sfs_fops :: "sfs_alloc \<Rightarrow> sfs_ifs fs_ops" where
  "sfs_fops al = \<lparr>
     fs_sync = \<lambda>_. sfs_sync,
     fs_get_root = \<lambda>_ s. sfs_get_root (din_ok al s) (node_at al s) s,
     fs_unmount = \<lambda>_. sfs_unmount,
     fs_cleanup = \<lambda>_. sfs_cleanup\<rparr>"

section \<open>The contract\<close>

text \<open>Memory handed out for a new inode is not in use.\<close>

definition fresh_alloc :: "sfs_alloc \<Rightarrow> bool" where
  "fresh_alloc al \<longleftrightarrow> (\<forall>s n. node_at al s = Some n \<longrightarrow> n \<notin> set (inode_list s))"

abbreviation sfs_moves :: "(nat \<Rightarrow> int) \<Rightarrow> (nat \<Rightarrow> int) \<Rightarrow> sfs_ifs \<Rightarrow> sfs_ifs \<Rightarrow> bool" where
  "sfs_moves \<equiv> moves_u (sfs_vops \<lparr>ent_ok = \<lambda>_. True, din_ok = \<lambda>_. True, node_at = \<lambda>_. None\<rparr>) cache_inv"

lemma sfs_counts [simp]:
  "ref_count (sfs_vops al) s n = (if n \<in> set (inode_list s) then mi_ref (nodes s n) else 0)"
  "open_count (sfs_vops al) s n = (if n \<in> set (inode_list s) then mi_open (nodes s n) else 0)"
  by (simp_all add: sfs_vops_def)

lemma sfs_moves_al: "moves_u (sfs_vops al) cache_inv = sfs_moves"
  by (intro ext) (simp add: moves_u_def)

lemma same_cache_moves: "cache_inv s \<Longrightarrow> same_cache s t \<Longrightarrow> sfs_moves none none s t"
  using same_cache_inv by (auto simp: moves_u_def same_cache_def)

lemma sfs_moves_trans: "sfs_moves d e s t \<Longrightarrow> sfs_moves d' e' t u \<Longrightarrow> sfs_moves (\<lambda>k. d k + d' k) (\<lambda>k. e k + e' k) s u"
  unfolding moves_u_def by simp

lemma sfs_moves_cong: "sfs_moves d e s t \<Longrightarrow> (\<And>k. d' k = d k) \<Longrightarrow> (\<And>k. e' k = e k) \<Longrightarrow> sfs_moves d' e' s t"
  by (simp add: moves_u_def)

lemma on_node_moves: "cache_inv s \<Longrightarrow> on_node n f s = Some (r, t) \<Longrightarrow> sfs_moves none none s t"
  by (rule same_cache_moves [OF _ on_node_cache])

lemma sfs_ref_inc_moves:
  assumes "cache_inv s" "n \<in> set (inode_list s)" "0 < mi_ref (nodes s n)"
  shows "sfs_moves (one n) none s (inode_ref_inc n s)"
  using inode_step_inv [OF take_ref [OF assms(2,3)] assms(1)] assms(2) by (auto simp: moves_u_def inode_ref_inc_def one_def)

lemma sfs_ref_dec_moves:
  assumes inv: "cache_inv s" and n: "n \<in> set (inode_list s)" and t: "inode_ref_dec n s = Some (r, t)"
  shows "sfs_moves (\<lambda>k. - one n k) none s t"
proof -
  have inv': "cache_inv t" using ref_dec_inv(1) [OF inv n t] .
  have pos: "0 < mi_ref (nodes s n)" using t by (auto simp: inode_ref_dec_def kassert_def split: if_splits)
  then have rc: "mi_reclaim (nodes s n) = 1" using cache_invD(6) [OF inv n] by simp
  show ?thesis
  proof (cases "mi_ref (nodes s n) = 1")
    case False
    then have "t = s\<lparr>nodes := (nodes s)(n := (nodes s n)\<lparr>mi_ref := mi_ref (nodes s n) - 1\<rparr>)\<rparr>"
      using t pos by (auto simp: inode_ref_dec_def kassert_def Let_def)
    then show ?thesis using inv' n by (auto simp: moves_u_def one_def)
  next
    case True
    let ?s = "s\<lparr>nodes := (nodes s)(n := (nodes s n)\<lparr>mi_ref := 0\<rparr>)\<rparr>"
    obtain q where q: "sfs_reclaim n ?s = Some (q, t)" "node_check n ?s"
      using t True by (auto simp: inode_ref_dec_def kassert_def Let_def split: if_splits)
    have "mi_open (nodes s n) = 0" using q(2) by (simp add: node_check_def)
    then show ?thesis
      using reclaim_frame [OF _ _ q(1)] rc inv' n cache_invD(1) [OF inv] True
      by (auto simp: moves_u_def one_def same_cache_def sfs_remove_links_def)
  qed
qed

lemma sfs_load_moves:
  assumes inv: "cache_inv s" and fresh: "\<And>n. a = Some n \<Longrightarrow> n \<notin> set (inode_list s)" and l: "sfs_load_inode d a num s = Some (r, t)"
  shows "sfs_moves (given r) none s t"
proof -
  have inv': "cache_inv t" using load_inode_inv(1) [OF inv fresh l] by blast
  show ?thesis
  proof (cases "lookup_sfs num s")
    case (Some p)
    then have "r = Inr (fst p)" "t = snd p" using l by (auto simp: sfs_load_inode_def ret_def split: prod.splits)
    moreover have "mi_open (nodes (snd p) k) = mi_open (nodes s k)" for k using Some by (auto simp: lookup_sfs_def)
    ultimately show ?thesis
      using inv' lookup_sfs_Some [OF inv, of num "fst p" "snd p"] Some by (auto simp: moves_u_def one_def)
  next
    case None
    then show ?thesis
      using l fresh inv' by (auto simp: sfs_load_inode_def io_defs sfs_rbuf_def rd_block_def kassert_def sfs_create_inode_def moves_u_def one_def
          sfs_set_links_def Let_def split: if_splits option.splits bool.splits)
  qed
qed

lemma sfs_lookup_once_moves:
  assumes "cache_inv s" "\<And>k. a = Some k \<Longrightarrow> k \<notin> set (inode_list s)" "sfs_lookup_once e d a n name s = Some (r, t)"
  shows "sfs_moves (given r) none s t"
  using assms(3) unfolding sfs_lookup_once_def
proof (rule io_thenE)
  fix x assume "on_node n (sfs_dirent_search e name) s = Some (Inl x, t)" "r = Inl x"
  then show ?thesis using on_node_moves [OF assms(1)] by fastforce
next
  fix p u assume u: "on_node n (sfs_dirent_search e name) s = Some (Inr p, u)" "(case p of (num, _) \<Rightarrow> sfs_load_inode d a num) u = Some (r, t)"
  note mu = on_node_moves [OF assms(1) u(1)]
  have "inode_list u = inode_list s" "cache_inv u" using on_node_cache [OF u(1)] same_cache_inv [OF _ assms(1)] by (auto simp: same_cache_def)
  then have "sfs_moves (given r) none u t" using sfs_load_moves [of u a d _ r t] assms(2) u(2) by (auto split: prod.splits)
  from sfs_moves_trans [OF mu this] show ?thesis by (rule sfs_moves_cong) simp_all
qed

lemma sfs_pos_in_list:
  assumes "sfs_moves d e s t" "0 < (if k \<in> set (inode_list s) then mi_ref (nodes s k) else 0) + d k"
  shows "k \<in> set (inode_list t)" "0 < mi_ref (nodes t k)"
proof -
  have "(if k \<in> set (inode_list t) then mi_ref (nodes t k) else 0) = (if k \<in> set (inode_list s) then mi_ref (nodes s k) else 0) + d k"
    using assms(1) unfolding moves_u_def sfs_counts by blast
  then have "0 < (if k \<in> set (inode_list t) then mi_ref (nodes t k) else 0)" using assms(2) by simp
  then show "k \<in> set (inode_list t)" "0 < mi_ref (nodes t k)" by (simp_all split: if_splits)
qed

lemma sfs_lookup_moves:
  assumes inv: "cache_inv s" and fresh: "\<And>k. a = Some k \<Longrightarrow> k \<notin> set (inode_list s)"
    and n: "n \<in> set (inode_list s)" "0 < mi_ref (nodes s n)" "din_type (mi_din (nodes s n)) = SFS_TYPE_DIR"
    and t: "sfs_lookup e d a n path s = Some (r, t)"
  shows "sfs_moves (given r) none s t"
proof -
  note mi = sfs_ref_inc_moves [OF inv n(1,2)]
  have "din_type (mi_din (nodes (inode_ref_inc n s) n)) = SFS_TYPE_DIR" "inode_list (inode_ref_inc n s) = inode_list s" using n(3) by (simp_all add: inode_ref_inc_def)
  then obtain u x where u: "sfs_lookup_once e d a n path (inode_ref_inc n s) = Some (r, u)" "inode_ref_dec n u = Some (x, t)"
    using t by (auto simp: sfs_lookup_def kassert_def bind_eq_Some_conv Let_def split: if_splits)
  have "sfs_moves (given r) none (inode_ref_inc n s) u"
    by (rule sfs_lookup_once_moves [OF _ _ u(1)]) (use mi fresh in \<open>auto simp: moves_u_def inode_ref_inc_def\<close>)
  from sfs_moves_trans [OF mi this] have mu: "sfs_moves (\<lambda>k. one n k + given r k) none s u" by (rule sfs_moves_cong) simp_all
  have "0 \<le> given r n" by (cases r) simp_all
  then have "n \<in> set (inode_list u)" using sfs_pos_in_list [OF mu, of n] n by simp
  then have "sfs_moves (\<lambda>k. - one n k) none u t" using sfs_ref_dec_moves [OF _ _ u(2)] mu by (simp add: moves_u_def)
  from sfs_moves_trans [OF mu this] show ?thesis by (rule sfs_moves_cong) simp_all
qed

lemma namefile_loop_moves:
  assumes "namefile_loop al n resid acc s = Some y"
  shows "cache_inv s \<Longrightarrow> n \<in> set (inode_list s) \<Longrightarrow> 0 < mi_ref (nodes s n) \<Longrightarrow> fresh_alloc al \<Longrightarrow> sfs_moves (\<lambda>k. - one n k) none s (snd y)"
  using assms
proof (induction al n resid acc s y rule: namefile_loop.raw_induct [rotated 1, consumes 1, case_names step])
  case (step loop al n resid acc s y)
  note inv = step.prems(1) and n = step.prems(2,3) and fresh = step.prems(4)
  obtain r u where u: "sfs_lookup_once (ent_ok al s) (din_ok al s) (node_at al s) n DOTDOT s = Some (r, u)"
    using step.hyps by (auto simp: bind_eq_Some_conv)
  have mu: "sfs_moves (given r) none s u"
    by (rule sfs_lookup_once_moves [OF inv _ u]) (use fresh in \<open>auto simp: fresh_alloc_def\<close>)
  have inv_u: "cache_inv u" using mu by (simp add: moves_u_def)
  have "0 \<le> given r n" by (cases r) simp_all
  then have nu: "n \<in> set (inode_list u)" using sfs_pos_in_list [OF mu, of n] n by simp
  show ?case
  proof (cases r)
    case (Inl e)
    then obtain x where x: "inode_ref_dec n u = Some (x, snd y)" using step.hyps u by (auto simp: bind_eq_Some_conv)
    from sfs_moves_trans [OF mu sfs_ref_dec_moves [OF inv_u nu x]] show ?thesis by (rule sfs_moves_cong) (simp_all add: Inl)
  next
    case (Inr parent)
    obtain x v where v: "inode_ref_dec n u = Some (x, v)" using step.hyps u Inr by (auto simp: bind_eq_Some_conv Let_def)
    from sfs_moves_trans [OF mu sfs_ref_dec_moves [OF inv_u nu v]]
    have mv: "sfs_moves (\<lambda>k. one parent k - one n k) none s v" by (rule sfs_moves_cong) (simp_all add: Inr)
    have inv_v: "cache_inv v" using mv by (simp add: moves_u_def)
    show ?thesis
    proof (cases "n = parent")
      case True
      then obtain x where x: "inode_ref_dec n v = Some (x, snd y)" using step.hyps u Inr v by (auto simp: bind_eq_Some_conv Let_def)
      have "n \<in> set (inode_list v)" using sfs_pos_in_list [OF mv, of n] n True by simp
      from sfs_moves_trans [OF mv sfs_ref_dec_moves [OF inv_v this x]] show ?thesis by (rule sfs_moves_cong) (simp_all add: True)
    next
      case False
      have "0 \<le> (if parent \<in> set (inode_list s) then mi_ref (nodes s parent) else 0)" using cache_invD(5) [OF inv] by simp
      then have pv: "parent \<in> set (inode_list v)" and rv: "0 < mi_ref (nodes v parent)"
        using sfs_pos_in_list [OF mv, of parent] False by simp_all
      obtain q w where w: "on_node parent (sfs_dirent_findino (mi_ino (nodes u n))) v = Some (q, w)"
          "(case q of Inl e \<Rightarrow> do { (_, s) \<leftarrow> inode_ref_dec parent w; Some (Inl e, s) }
           | Inr entry \<Rightarrow>
               if resid < length (cname (de_name entry)) + 1
               then do { (_, s) \<leftarrow> inode_ref_dec parent w; Some (Inl (- E_NO_MEM), s) }
               else loop al parent (resid - (length (cname (de_name entry)) + 1)) (cname (de_name entry) @ [47] @ acc) w) = Some y"
        using step.hyps u Inr v False by (auto simp: bind_eq_Some_conv Let_def kassert_def split: if_splits)
      note same = on_node_cache [OF w(1)]
      have inv_w: "cache_inv w" and pw: "parent \<in> set (inode_list w)" "0 < mi_ref (nodes w parent)"
        using same_cache_inv [OF same inv_v] pv rv same by (simp_all add: same_cache_def)
      from sfs_moves_trans [OF mv on_node_moves [OF inv_v w(1)]]
      have mw: "sfs_moves (\<lambda>k. one parent k - one n k) none s w" by (rule sfs_moves_cong) simp_all
      have "sfs_moves (\<lambda>k. - one parent k) none w (snd y)"
      proof -
        have "sfs_moves (\<lambda>k. - one parent k) none w (snd y)" if "(do { (_, s) \<leftarrow> inode_ref_dec parent w; Some (Inl e, s) }) = Some y" for e
          using that sfs_ref_dec_moves [OF inv_w pw(1)] by (auto simp: bind_eq_Some_conv)
        then show ?thesis using w(2) step.IH [OF _ inv_w pw fresh] by (auto split: sum.splits if_splits)
      qed
      from sfs_moves_trans [OF mw this] show ?thesis by (rule sfs_moves_cong) simp_all
    qed
  qed
qed

lemma sfs_namefile_moves:
  assumes "sfs_namefile al n len s = Some (r, t)" "fresh_alloc al" "cache_inv s" "n \<in> set (inode_list s)" "0 < mi_ref (nodes s n)"
  shows "sfs_moves none none s t"
proof (cases "len \<le> 2 \<or> \<not> ent_ok al s")
  case True
  then show ?thesis using assms by (auto simp: sfs_namefile_def fail_def moves_u_def)
next
  case False
  note mi = sfs_ref_inc_moves [OF assms(3-5)]
  obtain q where q: "namefile_loop al n (len - 2) [] (inode_ref_inc n s) = Some (q, t)"
    using assms(1) False by (auto simp: sfs_namefile_def ret_def elim!: io_thenE)
  have "sfs_moves (\<lambda>k. - one n k) none (inode_ref_inc n s) t"
    using namefile_loop_moves [OF q] assms(2) mi assms(4,5) by (simp add: moves_u_def inode_ref_inc_def)
  from sfs_moves_trans [OF mi this] show ?thesis by (rule sfs_moves_cong) simp_all
qed

lemma sfs_vops_sel:
  "in_fs (sfs_vops al) = (\<lambda>s n. Some 0)"
  "vop_ref_inc (sfs_vops al) = (inode_ref_inc)"
  "vop_ref_dec (sfs_vops al) = (\<lambda>n. sfs_any n (\<lambda>s. map_option snd (inode_ref_dec n s)))"
  "vop_open_inc (sfs_vops al) = (inode_open_inc)"
  "vop_open_dec (sfs_vops al) = (\<lambda>n. sfs_any n (\<lambda>s. map_option snd (inode_open_dec n s)))"
  "vop_open (sfs_vops al) = (\<lambda>n flags. sfs_any n (on_node n (\<lambda>v. if din_type (din v) = SFS_TYPE_DIR then sfs_opendir flags v else sfs_openfile flags v)))"
  "vop_read (sfs_vops al) = (\<lambda>n len pos. sfs_kind SFS_TYPE_FILE n (on_node n (sfs_io_nolock False (replicate len 0) pos)))"
  "vop_write (sfs_vops al) = (\<lambda>n bs pos. sfs_kind SFS_TYPE_FILE n (on_node n (\<lambda>v. map_option (\<lambda>((r, out), v). ((r, length out), v)) (sfs_io_nolock True bs pos v))))"
  "vop_fstat (sfs_vops al) = (\<lambda>n. sfs_any n (on_node n sfs_fstat))"
  "vop_fsync (sfs_vops al) = (\<lambda>n. sfs_any n (on_node n sfs_fsync))"
  "vop_namefile (sfs_vops al) = (\<lambda>n len. sfs_kind SFS_TYPE_DIR n (sfs_namefile al n len))"
  "vop_getdirentry (sfs_vops al) = (\<lambda>n offset. sfs_kind SFS_TYPE_DIR n (\<lambda>s. on_node n (dirent_bytes (ent_ok al s) offset) s))"
  "vop_gettype (sfs_vops al) = (\<lambda>n. sfs_any n (on_node n sfs_gettype))"
  "vop_tryseek (sfs_vops al) = (\<lambda>n pos. sfs_kind SFS_TYPE_FILE n (on_node n (sfs_tryseek pos)))"
  "vop_truncate (sfs_vops al) = (\<lambda>n len. sfs_kind SFS_TYPE_FILE n (on_node n (sfs_truncfile len)))"
  "vop_create (sfs_vops al) = (\<lambda>n name excl s. None)"
  "vop_lookup (sfs_vops al) = (\<lambda>n path. sfs_kind SFS_TYPE_DIR n (\<lambda>s. sfs_lookup (ent_ok al s) (din_ok al s) (node_at al s) n path s))"
  by (simp_all add: sfs_vops_def)

lemma sfs_any_Some: "sfs_any n f s = Some y \<longleftrightarrow> n \<in> set (inode_list s) \<and> f s = Some y"
  by (simp add: sfs_any_def)

lemma sfs_kind_Some: "sfs_kind ty n f s = Some y \<longleftrightarrow> n \<in> set (inode_list s) \<and> din_type (mi_din (nodes s n)) = ty \<and> f s = Some y"
  by (auto simp: sfs_kind_def)

lemma sfs_open_dec_moves:
  assumes inv: "cache_inv s" and n: "n \<in> set (inode_list s)" and t: "inode_open_dec n s = Some (r, t)"
  shows "sfs_moves none (\<lambda>k. - one n k) s t"
proof -
  let ?s = "s\<lparr>nodes := (nodes s)(n := (nodes s n)\<lparr>mi_open := mi_open (nodes s n) - 1\<rparr>)\<rparr>"
  have inv': "cache_inv ?s" using inv by (rule inv_cong) simp_all
  have "sfs_moves none (\<lambda>k. - one n k) s ?s" using inv' n by (auto simp: moves_u_def one_def)
  moreover have "t = ?s \<or> (\<exists>q. on_node n sfs_close ?s = Some (q, t))"
    using t by (auto simp: inode_open_dec_def kassert_def Let_def split: if_splits)
  then have "sfs_moves none none ?s t"
    using inv' by (elim disjE exE) (simp add: moves_u_def, rule on_node_moves)
  ultimately have "sfs_moves (\<lambda>k. 0 + 0) (\<lambda>k. - one n k + 0) s t" by (rule sfs_moves_trans)
  then show ?thesis by (rule sfs_moves_cong) simp_all
qed

lemma sfs_vnodes:
  assumes fresh: "fresh_alloc al"
  shows "vnodes (sfs_vops al) (sfs_fops al) cache_inv"
proof -
  have al: "node_at al u = Some k \<Longrightarrow> k \<notin> set (inode_list u)" for u k using fresh by (simp add: fresh_alloc_def)
  have pos: "n \<in> set (inode_list u) \<and> 0 < mi_ref (nodes u n)" if "0 < ref_count (sfs_vops al) u n" for u n using that by (simp split: if_splits)
  show ?thesis
  proof (unfold_locales, goal_cases)
    case (1 u n) then show ?case using cache_invD(5) [of u n] by simp
  next
    case (2 u n) then show ?case unfolding sfs_moves_al [of al] using pos [OF 2(2)] by (simp add: sfs_vops_sel sfs_ref_inc_moves)
  next
    case (3 u n v) then show ?case unfolding sfs_moves_al [of al] by (auto simp: sfs_vops_sel sfs_any_Some intro: sfs_ref_dec_moves)
  next
    case (4 u n) then show ?case unfolding sfs_moves_al [of al] using pos [OF 4(2)] inode_step_inv [OF open_inode 4(1), of n]
      by (auto simp: sfs_vops_sel moves_u_def inode_open_inc_def one_def)
  next
    case (5 u n v) then show ?case unfolding sfs_moves_al [of al] by (auto simp: sfs_vops_sel sfs_any_Some intro: sfs_open_dec_moves)
  next
    case (6 u n flags r v) then show ?case unfolding sfs_moves_al [of al] by (auto simp: sfs_vops_sel sfs_any_Some intro: on_node_moves)
  next
    case (7 u n len pos r v) then show ?case unfolding sfs_moves_al [of al] by (auto simp: sfs_vops_sel sfs_kind_Some intro: on_node_moves)
  next
    case (8 u n bs pos r v) then show ?case unfolding sfs_moves_al [of al] by (auto simp: sfs_vops_sel sfs_kind_Some intro: on_node_moves)
  next
    case (9 u n r v) then show ?case unfolding sfs_moves_al [of al] by (auto simp: sfs_vops_sel sfs_any_Some intro: on_node_moves)
  next
    case (10 u n r v) then show ?case unfolding sfs_moves_al [of al] by (auto simp: sfs_vops_sel sfs_any_Some intro: on_node_moves)
  next
    case (11 u n len r v) then show ?case unfolding sfs_moves_al [of al] using pos [OF 11(2)] fresh
      by (auto simp: sfs_vops_sel sfs_kind_Some intro: sfs_namefile_moves)
  next
    case (12 u n pos r v) then show ?case unfolding sfs_moves_al [of al] by (auto simp: sfs_vops_sel sfs_kind_Some intro: on_node_moves)
  next
    case (13 u n r v) then show ?case unfolding sfs_moves_al [of al] by (auto simp: sfs_vops_sel sfs_any_Some intro: on_node_moves)
  next
    case (14 u n pos r v) then show ?case unfolding sfs_moves_al [of al] by (auto simp: sfs_vops_sel sfs_kind_Some intro: on_node_moves)
  next
    case (15 u n pos r v) then show ?case unfolding sfs_moves_al [of al] by (auto simp: sfs_vops_sel sfs_kind_Some intro: on_node_moves)
  next
    case (16 u n bs excl r v) then show ?case by (simp add: sfs_vops_sel)
  next
    case (17 u n bs r v) then show ?case unfolding sfs_moves_al [of al] using pos [OF 17(2)] al
      by (auto simp: sfs_vops_sel sfs_kind_Some intro: sfs_lookup_moves)
  next
    case (18 u f n v)
    then have "sfs_load_inode (din_ok al u) (node_at al u) 1 u = Some (Inr n, v)"
      by (auto simp: sfs_fops_def sfs_get_root_def split: option.splits prod.splits sum.splits)
    from sfs_load_moves [OF 18(1) al this] show ?case unfolding sfs_moves_al [of al] by simp
  qed
qed

text \<open>An allocator for examples: the first address above all inodes in memory.\<close>

definition bump_alloc :: sfs_alloc where
  "bump_alloc = \<lparr>ent_ok = \<lambda>_. True, din_ok = \<lambda>_. True, node_at = \<lambda>s. Some (Suc (fold max (inode_list s) 0))\<rparr>"

lemma fresh_bump: "fresh_alloc bump_alloc"
proof -
  have "m \<le> fold max xs m \<and> (\<forall>x \<in> set xs. x \<le> fold max xs m)" for xs and m :: nat
    by (induction xs arbitrary: m) (auto, (meson max.cobounded1 max.cobounded2 order.trans)+)
  then have "x \<le> fold max xs 0" if "x \<in> set xs" for x :: nat and xs using that by blast
  then show ?thesis by (auto simp: fresh_alloc_def bump_alloc_def) fastforce
qed

interpretation sfs_below: vnodes "sfs_vops bump_alloc" "sfs_fops bump_alloc" cache_inv
  by (rule sfs_vnodes [OF fresh_bump])

section \<open>Properties\<close>

text \<open>C13: processes that open, read, write, seek, duplicate and close descriptors, change directory, fork, execute and exit, in any order
  and with calls that overlap, keep every table of descriptors well-formed: it has all its entries, each knows its own number, and the
  state of an entry agrees with the calls at work on it. A call that leaves an entry which others still use never fails.\<close>

theorem descriptors_typed:
  assumes "fresh_alloc al" "files_ok (sfs_vops al) cache_inv s h a" "(file_step (sfs_vops al) (sfs_fops al))\<^sup>*\<^sup>* (s, h, a) (t, h', a')"
  shows "fds_ok t h' a' \<and> (\<forall>p. 0 < h' p \<and> \<not> (f_status (file_at p t) = FD_CLOSED \<and> h' p = 1) \<longrightarrow>
    filemap_release (sfs_vops al) p t = Some (upd_file p (\<lambda>f. f\<lparr>f_count := f_count f - 1\<rparr>) t))"
proof -
  have ok: "files_ok (sfs_vops al) cache_inv t h' a'" using vnodes.file_steps_ok [OF sfs_vnodes [OF assms(1)] assms(3) refl refl assms(2)] .
  then have tab: "fds_ok t h' a'" by (simp add: files_ok_def)
  have "filemap_release (sfs_vops al) p t = Some (upd_file p (\<lambda>f. f\<lparr>f_count := f_count f - 1\<rparr>) t)"
    if "0 < h' p" "\<not> (f_status (file_at p t) = FD_CLOSED \<and> h' p = 1)" for p
  proof -
    have len: "snd p < length (filemap (fs_tab t (fst p)))" using fds_okD(3) [OF tab] fds_okD(5) [OF tab that(1)] by (simp add: is_entry_def)
    show ?thesis
      using fd_status_cases_entry(2) [OF tab that(1)] that file_at_upd [OF len, of p "\<lambda>f. f\<lparr>f_count := f_count f - 1\<rparr>"]
      by (auto simp: filemap_release_def Let_def)
  qed
  then show ?thesis using tab by blast
qed

text \<open>A system with one file open as descriptor 0.\<close>

definition demo_blank :: file_desc where
  "demo_blank = \<lparr>f_status = FD_NONE, f_readable = False, f_writable = False, f_fd = 0, f_pos = 0, f_node = None, f_count = 0\<rparr>"

definition demo_struct :: fs_struct where
  "demo_struct = \<lparr>fs_pwd = None, filemap = replicate FS_STRUCT_NENTRY demo_blank, fs_count = 0\<rparr>"

definition demo_boot :: "sfs_ifs vfs" where
  "demo_boot = \<lparr>under = demo_unlinked, bootfs_node = None, vdev_list = [], fs_tab = \<lambda>_. demo_struct, fs_ids = [], cur_fs = None\<rparr>"

definition demo_started :: "sfs_ifs vfs" where
  "demo_started = (let s = snd (fs_create (Some (0, demo_struct)) demo_boot)
     in s\<lparr>fs_tab := (fs_tab s)(0 := (fs_tab s 0)\<lparr>fs_count := 1\<rparr>), cur_fs := Some 0\<rparr>)"

definition demo_open :: "sfs_ifs vfs" where
  "demo_open = upd_file (0, 0) (\<lambda>f. f\<lparr>f_status := FD_OPENED, f_node := Some 7, f_count := 1, f_readable := True, f_writable := True, f_pos := 0\<rparr>)
     (open_up (sfs_vops bump_alloc) 7 (ref_up (sfs_vops bump_alloc) 7 demo_started))"

lemma demo_started_ok: "files_ok (sfs_vops bump_alloc) cache_inv demo_started (\<lambda>_. 0) (\<lambda>_. 0)" "is_entry demo_started (0, 0)"
  "f_status (file_at (0, 0) demo_started) = FD_NONE" "f_fd (file_at (0, 0) demo_started) = 0"
proof -
  let ?ops = "sfs_vops bump_alloc" and ?s = "snd (fs_create (Some (0, demo_struct)) demo_boot)"
  have boot: "files_ok ?ops cache_inv demo_boot (\<lambda>_. 0) (\<lambda>_. 0)"
    using demo_unlinked_ok(1)
    by (simp add: files_ok_def fds_ok_def all_uses_def held_def pwd_uses_def demo_boot_def) (simp add: demo_unlinked_def)
  have c: "fs_create (Some (0, demo_struct)) demo_boot = (Some 0, ?s)" by (simp add: fs_create_def)
  have len: "length (filemap demo_struct) = FS_STRUCT_NENTRY" "0 \<notin> set (fs_ids demo_boot)" by (simp_all add: demo_struct_def demo_boot_def)
  note new = sfs_below.fs_create_ok [OF boot len(2,1) c]
  have step: "file_step ?ops (sfs_fops bump_alloc) (s, h, a) (s\<lparr>cur_fs := Some 0\<rparr>, h, a)" if "0 \<in> set (fs_ids s)" for s h a
    using file_step.current [of "Some 0" s] that by auto
  show "files_ok ?ops cache_inv demo_started (\<lambda>_. 0) (\<lambda>_. 0)"
    using sfs_below.file_step_ok [OF step sfs_below.sharing_ok [OF new(1), of 0 1]] new(2) by (simp add: demo_started_def Let_def)
  show "is_entry demo_started (0, 0)" using new(2) by (simp add: is_entry_def demo_started_def Let_def FS_STRUCT_NENTRY_def)
  show "f_status (file_at (0, 0) demo_started) = FD_NONE" "f_fd (file_at (0, 0) demo_started) = 0"
    using filemap_init_nth(2) [of 0 "filemap demo_struct" 0] len
    by (simp_all add: demo_started_def Let_def file_at_def fs_create_def FS_STRUCT_NENTRY_def)
qed

lemma demo_open_ok: "files_ok (sfs_vops bump_alloc) cache_inv demo_open (\<lambda>_. 0) (\<lambda>_. 0)" "opened demo_open 0 (0, 0) 7"
  "f_readable (file_at (0, 0) demo_open)" "f_writable (file_at (0, 0) demo_open)" "f_pos (file_at (0, 0) demo_open) = 0"
  "under demo_open = inode_open_inc 7 (inode_ref_inc 7 demo_unlinked)"
proof -
  let ?ops = "sfs_vops bump_alloc" and ?u = "open_up (sfs_vops bump_alloc) 7 (ref_up (sfs_vops bump_alloc) 7 demo_started)"
  note ok = demo_started_ok(1) and good = sfs_below.files_okD(1) [OF demo_started_ok(1)] and tab = sfs_below.files_okD(2) [OF demo_started_ok(1)]
  have und: "under demo_started = demo_unlinked" by (simp add: demo_started_def demo_boot_def Let_def fs_create_def)
  have pos: "0 < ref_count ?ops (under demo_started) 7" by (simp add: und) (simp add: demo_unlinked_def)
  note mr = sfs_below.ref_up_moves [OF good pos]
  have "0 < ref_count ?ops (under (ref_up ?ops 7 demo_started)) 7" using sfs_below.moves_ref [OF mr, of 7] pos by simp
  note mo = sfs_below.moves_trans [OF mr sfs_below.open_up_moves [OF sfs_below.moves_good [OF mr] this]]
  show "files_ok ?ops cache_inv demo_open (\<lambda>_. 0) (\<lambda>_. 0)"
    by (rule sfs_below.entry_step [OF ok demo_started_ok(2) mo demo_open_def])
      (use demo_started_ok(3,4) in \<open>auto simp: entry_ok_def uses_def one_def\<close>)
  have "snd (0, 0) < length (filemap (fs_tab ?u (fst (0, 0))))"
    using fds_okD(3) [OF tab] demo_started_ok(2) by (simp add: open_up_def ref_up_def is_entry_def)
  from file_at_upd [OF this, of "(0, 0)"]
  have f: "file_at (0, 0) demo_open = (file_at (0, 0) demo_started)\<lparr>f_status := FD_OPENED, f_node := Some 7, f_count := 1, f_readable := True, f_writable := True, f_pos := 0\<rparr>"
    by (simp add: demo_open_def) (simp add: open_up_def ref_up_def file_at_def)
  have g: "get_filemap demo_open = Some 0"
    by (simp add: get_filemap_def demo_open_def) (simp add: open_up_def ref_up_def demo_started_def Let_def)
  show "opened demo_open 0 (0, 0) 7"
    using f demo_started_ok(2,4) g by (simp add: opened_def fd2file_def testfd_def FS_STRUCT_NENTRY_def)
      (simp add: demo_open_def is_entry_def open_up_def ref_up_def)
  show "f_readable (file_at (0, 0) demo_open)" "f_writable (file_at (0, 0) demo_open)" "f_pos (file_at (0, 0) demo_open) = 0" using f by simp_all
  show "under demo_open = inode_open_inc 7 (inode_ref_inc 7 demo_unlinked)"
    using und by (simp add: demo_open_def) (simp add: open_up_def ref_up_def sfs_vops_sel)
qed

theorem descriptors_typed_witness:
  "\<exists>t. filemap_acquire (0, 0) demo_open = Some t \<and> fds_ok t ((\<lambda>_. 0)((0, 0) := 1)) (\<lambda>_. 0)"
proof -
  obtain t where t: "filemap_acquire (0, 0) demo_open = Some t" using demo_open_ok(2) by (simp add: opened_def filemap_acquire_def)
  have "fd2file 0 demo_open = Some (Inr (0, 0))" using demo_open_ok(2) by (simp add: opened_def)
  from file_step.enter [OF this t, of "sfs_vops bump_alloc" "sfs_fops bump_alloc" "\<lambda>_. 0" "\<lambda>_. 0"]
  have "(file_step (sfs_vops bump_alloc) (sfs_fops bump_alloc))\<^sup>*\<^sup>* (demo_open, \<lambda>_. 0, \<lambda>_. 0) (t, (\<lambda>_. 0)((0, 0) := 0 + 1), \<lambda>_. 0)"
    by (rule r_into_rtranclp)
  from descriptors_typed [OF fresh_bump demo_open_ok(1) this] t show ?thesis by auto
qed

text \<open>C16: opening without \<^verbatim>\<open>O_CREAT\<close> takes one reference and one opening of the node it returns, and no failure on the way leaves a
  reference behind. With \<^verbatim>\<open>O_CREAT\<close> and \<^verbatim>\<open>O_EXCL\<close> on a file that exists, in every access mode the call accepts, it reports
  \<^verbatim>\<open>E_EXISTS\<close> but keeps the reference of its search; an access mode it does not accept changes nothing.\<close>

theorem vfs_open_counts:
  assumes "fresh_alloc al" "holds_refs (sfs_vops al) cache_inv s" "vfs_open (sfs_vops al) (sfs_fops al) path flags s = Some (r, t)"
  shows "(flags AND O_CREAT = 0 \<longrightarrow> moves (sfs_vops al) cache_inv (given r) (given r) s t)
    \<and> (\<forall>n u. flags AND O_CREAT \<noteq> 0 \<and> flags AND O_EXCL \<noteq> 0 \<and> vfs_lookup (sfs_vops al) (sfs_fops al) path s = Some (Inr n, u) \<longrightarrow>
        (if flags AND O_ACCMODE \<notin> {O_RDONLY, O_WRONLY, O_RDWR} \<or> flags AND O_ACCMODE = O_RDONLY \<and> flags AND O_TRUNC \<noteq> 0
         then r = Inl (- E_INVAL) \<and> t = s else r = Inl (- E_EXISTS) \<and> moves (sfs_vops al) cache_inv (one n) none s t))"
proof -
  note below = sfs_vnodes [OF assms(1)]
  let ?bad = "flags AND O_ACCMODE \<notin> {O_RDONLY, O_WRONLY, O_RDWR} \<or> flags AND O_ACCMODE = O_RDONLY \<and> flags AND O_TRUNC \<noteq> 0"
  obtain l where l: "flags AND O_CREAT = 0 \<longrightarrow> l = none" "moves (sfs_vops al) cache_inv (\<lambda>k. given r k + l k) (given r) s t"
    using vnodes.open_moves [OF below assms(3,2)] by (elim exE conjE) (rule that)
  have "moves (sfs_vops al) cache_inv (given r) (given r) s t" if "flags AND O_CREAT = 0"
    using l that by simp
  moreover have "if ?bad then r = Inl (- E_INVAL) \<and> t = s else r = Inl (- E_EXISTS) \<and> moves (sfs_vops al) cache_inv (one n) none s t"
    if "flags AND O_CREAT \<noteq> 0" "flags AND O_EXCL \<noteq> 0" "vfs_lookup (sfs_vops al) (sfs_fops al) path s = Some (Inr n, u)" for n u
  proof (cases ?bad)
    case True
    then have "r = Inl (- E_INVAL) \<and> t = s"
      using assms(3) by (auto simp: vfs_open_def Let_def fail_def O_RDONLY_def O_WRONLY_def O_RDWR_def split: if_splits)
    then show ?thesis using True by simp
  next
    case False
    then have "r = Inl (- E_EXISTS)" "t = u" using assms(3) that by (auto simp: vfs_open_def Let_def io_try_def fail_def split: if_splits)
    then show ?thesis using vnodes.lookup_moves [OF below that(3) assms(2)] False by auto
  qed
  ultimately show ?thesis by blast
qed

text \<open>The root directory of a disk, looked up as \<^verbatim>\<open>d:\<close>.\<close>

definition demo_disk_vfs :: "sfs_ifs vfs" where
  "demo_disk_vfs = demo_boot\<lparr>under := demo_cache, vdev_list := [\<lparr>devname = [100], devnode = None, dev_fs = Some 0, mountable = True\<rparr>]\<rparr>"

definition one_alloc :: sfs_alloc where
  "one_alloc = \<lparr>ent_ok = \<lambda>_. True, din_ok = \<lambda>_. True, node_at = \<lambda>s. if inode_list s = [] then Some 7 else None\<rparr>"

theorem vfs_open_counts_witness:
  "\<exists>t. vfs_open (sfs_vops one_alloc) (sfs_fops one_alloc) [100, 58] 14 demo_disk_vfs = Some (Inl (- E_EXISTS), t)
     \<and> moves (sfs_vops one_alloc) cache_inv (one 7) none demo_disk_vfs t"
proof -
  have fresh: "fresh_alloc one_alloc" by (simp add: fresh_alloc_def one_alloc_def)
  have holds: "holds_refs (sfs_vops one_alloc) cache_inv demo_disk_vfs"
    by (simp add: holds_refs_def get_cwd_def demo_disk_vfs_def demo_boot_def demo_cache_inv)
  obtain v where v: "sfs_load_inode True (Some 7) 1 demo_cache = Some (Inr 7, v)" using demo_load by blast
  then have root: "fs_get_root (sfs_fops one_alloc) 0 demo_cache = Some (7, v)" by (simp add: sfs_fops_def sfs_get_root_def one_alloc_def demo_cache_def)
  let ?t = "demo_disk_vfs\<lparr>under := v\<rparr>"
  have "vfs_get_root (sfs_vops one_alloc) (sfs_fops one_alloc) [100] demo_disk_vfs = Some (Inr 7, ?t)"
    using root by (simp add: vfs_get_root_def on_under_def demo_disk_vfs_def demo_boot_def)
  then have look: "vfs_lookup (sfs_vops one_alloc) (sfs_fops one_alloc) [100, 58] demo_disk_vfs = Some (Inr 7, ?t)"
    by (simp add: vfs_lookup_def get_device_def io_defs skip_slashes_def)
  have flags: "(14 :: u32) AND O_ACCMODE = O_RDWR" "(14 :: u32) AND O_CREAT \<noteq> 0" "(14 :: u32) AND O_EXCL \<noteq> 0" "(14 :: u32) AND O_TRUNC = 0"
    by (simp_all add: O_ACCMODE_def O_RDWR_def O_CREAT_def O_EXCL_def O_TRUNC_def)
  have run: "vfs_open (sfs_vops one_alloc) (sfs_fops one_alloc) [100, 58] 14 demo_disk_vfs = Some (Inl (- E_EXISTS), ?t)"
    using look flags by (simp add: vfs_open_def Let_def io_try_def fail_def)
  have ok: "\<not> ((14 :: u32) AND O_ACCMODE \<notin> {O_RDONLY, O_WRONLY, O_RDWR} \<or> 14 AND O_ACCMODE = O_RDONLY \<and> 14 AND O_TRUNC \<noteq> 0)"
    using flags by simp
  have "moves (sfs_vops one_alloc) cache_inv (one 7) none demo_disk_vfs ?t"
    using vfs_open_counts [OF fresh holds run, THEN conjunct2, rule_format, OF conjI [OF flags(2) conjI [OF flags(3) look]]] ok by simp
  then show ?thesis using run by blast
qed

end
