(* ===== verification/Spec2Isabelle.thy ===== *)
theory Spec2Isabelle
  imports Klist Bitmap Page_Allocator Kstring Process_Wait Paging Vfs_Sfs
begin

text \<open>
  A verification library for the operating system kernel in \<^verbatim>\<open>src/ucore/kern\<close>, a variant of uCore for a MIPS processor
  (the processor itself, \<^verbatim>\<open>src/cpu\<close>, is below this development).

  \<^bold>\<open>The program and the theories.\<close> The kernel manages physical pages, address spaces, processes and files. Each theory models one part of
  it; a definition has the name of the C function or structure it translates wherever the name is free. Paths below are relative to
  \<^verbatim>\<open>src/ucore/kern\<close>.

  \<^item> Basics. \<open>Prelude\<close>: machine types, error codes, assertions. \<open>Klib\<close>: rounding, address and bit macros, division without a divide
    instruction, hashing and random numbers (\<^verbatim>\<open>include/defs.h\<close>, \<^verbatim>\<open>include/thumips.h\<close>, \<^verbatim>\<open>include/atomic.h\<close>, \<^verbatim>\<open>mm/mmu.h\<close>, \<^verbatim>\<open>libs/hash.c\<close>,
    \<^verbatim>\<open>libs/rand.c\<close>). \<open>Klist\<close>: circular lists over two link maps (\<^verbatim>\<open>include/list.h\<close>). \<open>Kstring\<close>: strings and memory blocks over a
    byte memory (\<^verbatim>\<open>libs/string.c\<close>). \<open>Intr\<close>: the interrupt flag and critical sections (\<^verbatim>\<open>driver/intr.c\<close>, \<^verbatim>\<open>sync/sync.h\<close>).
  \<^item> Physical memory. \<open>Buddy\<close>: the buddy system (\<^verbatim>\<open>mm/buddy_pmm.c\<close>); \<open>Page_Allocator\<close>: the interface \<^verbatim>\<open>struct pmm_manager\<close> as a locale,
    the buddy system as its instance, and the functions of \<^verbatim>\<open>mm/pmm.c\<close> that call it.
  \<^item> Virtual memory. \<open>Vmm\<close>: areas of an address space (\<^verbatim>\<open>mm/vmm.c\<close>); \<open>Paging\<close>: two-level page tables, reference counts of pages, the TLB,
    page faults (\<^verbatim>\<open>mm/pmm.c\<close>, \<^verbatim>\<open>mm/thumips_tlb.c\<close>, \<^verbatim>\<open>mm/vmm.c\<close>).
  \<^item> Processes. \<open>Sched\<close>: run queue, timers, \<^verbatim>\<open>schedule\<close> and \<^verbatim>\<open>wakeup_proc\<close> (\<^verbatim>\<open>schedule/\<close>); \<open>Sync\<close>: wait queues and semaphores
    (\<^verbatim>\<open>sync/\<close>); \<open>Pid\<close>, \<open>Trapframe\<close>, \<open>Proc\<close>, \<open>Process_Life\<close>, \<open>Process_End\<close>, \<open>Process_Wait\<close>: process numbers, fork, exit, wait and kill
    (\<^verbatim>\<open>process/proc.c\<close>).
  \<^item> The simple file system (\<^verbatim>\<open>fs/sfs/\<close>). \<open>Bitmap\<close>: the free map; \<open>Sfs_Block\<close>, \<open>Sfs_Map\<close>: blocks and the block map of a file; \<open>Sfs_File\<close>,
    \<open>Sfs_Inode\<close>: reading, writing, truncating; \<open>Sfs_Dir\<close>: directories; \<open>Sfs_Cache\<close>: inodes in memory; \<open>Sfs_Mount\<close>: mounting and
    synchronising. \<open>Disk\<close>: buffers and the disk below it (\<^verbatim>\<open>fs/iobuf.c\<close>, \<^verbatim>\<open>driver/ramdisk.c\<close>, \<^verbatim>\<open>driver/ide.c\<close>, \<^verbatim>\<open>fs/devs/dev_disk0.c\<close>).
  \<^item> Files. \<open>Vfs\<close>: the virtual file system (\<^verbatim>\<open>fs/vfs/\<close>); \<open>Filetable\<close>: descriptors (\<^verbatim>\<open>fs/file.c\<close>, \<^verbatim>\<open>fs/fs.c\<close>); \<open>Vfs_Sfs\<close>: the tables of
    operations of the simple file system as the instance of what the virtual one relies on.

  \<^bold>\<open>Conventions.\<close> A failed \<^verbatim>\<open>assert\<close> and a \<^verbatim>\<open>panic\<close> are \<open>None\<close>; an error that is returned is a negative number, or \<open>Inl\<close> of it in the
  type \<open>io\<close> of the file system. Words keep their width (\<open>u32\<close>, \<open>u8\<close>) where the code relies on it. State is passed explicitly in
  records; the records of the scheduler, the semaphores and the process table extend one another. A list of
  \<^verbatim>\<open>list.h\<close> is a HOL list, which \<open>Klist\<close> justifies; an address is a number. The outcome of an allocation is an argument, so each
  theorem is about all of them. Code between \<^verbatim>\<open>local_intr_save\<close> and \<^verbatim>\<open>local_intr_restore\<close> is one step, as it is on one processor;
  an operation that sleeps is split at its call of \<^verbatim>\<open>schedule\<close>.

  \<^bold>\<open>What is shown.\<close>
  \<^item> Locales state what one part relies on in another and are interpreted on the model: \<open>index_pool\<close> (a pool of numbers, by the bitmap),
    \<open>page_allocator\<close> (a page manager, by the buddy system), \<open>scheduling_class\<close> (by round robin), \<open>vnodes\<close> (a file system below the
    virtual one, by the simple file system).
  \<^item> Refinement: list operations against sequences, differences in the timer list against deadlines, the disk device against blocks,
    the block map against the bytes of a file.
  \<^item> Exact results: what allocation, freeing, mapping, page faults, fork, exit, wait, reading, writing, truncating, looking up and
    mounting compute, on the error exits too, and what they leave unchanged.
  \<^item> Invariants over all sequences of steps: permits of a semaphore, fairness of the run queue, the family of processes, inodes held
    once, counts of open files.
  \<^item> This theory joins the layers: bytes written through a descriptor are read back from the disk, and an inode stays in memory as
    long as a descriptor uses it.

  \<^bold>\<open>Loops.\<close> A loop whose end is not obvious is a partial function with result \<open>None\<close> when it does not end (\<open>get_pid\<close>, the string loops,
  the traversals of \<open>Klist\<close>, the path of \<open>sfs_namefile\<close>), and its theorem says that it returns. The other loops are total, by structural recursion
  or a measure. No fuel is used, except that the number of turns of a counted loop is an argument.

  \<^bold>\<open>Not modelled.\<close> The slab allocator (\<^verbatim>\<open>mm/kmalloc.c\<close>), whose outcomes are arguments here; red-black trees (\<^verbatim>\<open>libs/rb_tree.c\<close>), which nothing uses; formatted
  output, the console, the monitor, and the device files over them, which are input and output; \<^verbatim>\<open>do_execve\<close> and the loader of
  \<^verbatim>\<open>proc.c\<close>, which interpret a file format; \<^verbatim>\<open>fs/sysfile.c\<close> and the dispatch of system calls and traps, which hand arguments over to the
  operations modelled here; assembly, the start-up sequence, user programs and the tools of the host.
\<close>

section \<open>Across the components\<close>

lemma file_wf_put:
  assumes "file_wf v" "ino v = mi_ino (nodes s n)"
  shows "file_wf (sin_of (put_sin n v s) n)" "contents (sin_of (put_sin n v s) n) = contents v"
    "din_type (mi_din (nodes (put_sin n v s) n)) = din_type (din v)" "din_type (din (sin_of (put_sin n v s) n)) = din_type (din v)"
proof -
  have "sin_of (put_sin n v s) n = v\<lparr>reclaim_count := mi_reclaim (nodes s n)\<rparr>"
    using assms(2) by (cases v) (simp add: put_sin_def sin_of_def sfs_fs.defs sfs_sin.defs)
  then show "file_wf (sin_of (put_sin n v s) n)" "contents (sin_of (put_sin n v s) n) = contents v"
    "din_type (din (sin_of (put_sin n v s) n)) = din_type (din v)"
    using assms(1) same_map [of "v\<lparr>reclaim_count := mi_reclaim (nodes s n)\<rparr>" v] by (simp_all add: file_wf_def contents_def fbyte_def)
  show "din_type (mi_din (nodes (put_sin n v s) n)) = din_type (din v)" by (simp add: put_sin_def)
qed

lemma sfs_vop:
  assumes "n \<in> set (inode_list (under s))" "0 \<le> mi_open (nodes (under s) n)" "mi_open (nodes (under s) n) \<le> mi_ref (nodes (under s) n)"
    "mi_ref (nodes (under s) n) < 0x10000"
  shows "vop (sfs_vops al) n f s = map_option (\<lambda>(r, u). (r, s\<lparr>under := u\<rparr>)) (f (under s))"
  using assms by (simp add: vop_def inode_check_def on_under_def MAX_INODE_COUNT_def)

text \<open>A descriptor that is open on a regular file whose counts are in range.\<close>

definition open_on :: "sfs_alloc \<Rightarrow> sfs_ifs vfs \<Rightarrow> int \<Rightarrow> nat \<times> nat \<Rightarrow> nat \<Rightarrow> bool" where
  "open_on al s fd p n \<longleftrightarrow> (\<exists>h a. files_ok (sfs_vops al) cache_inv s h a) \<and> opened s fd p n
     \<and> mi_ref (nodes (under s) n) < 0x10000 \<and> din_type (mi_din (nodes (under s) n)) = SFS_TYPE_FILE \<and> file_wf (sin_of (under s) n)"

lemma open_onD:
  assumes "fresh_alloc al" "open_on al s fd p n"
  obtains h a where "files_ok (sfs_vops al) cache_inv s h a" "fds_ok s h a" "cache_inv (under s)" "n \<in> set (inode_list (under s))"
    "vop (sfs_vops al) n f s = map_option (\<lambda>(r, u). (r, s\<lparr>under := u\<rparr>)) (f (under s))"
proof -
  note below = sfs_vnodes [OF assms(1)]
  obtain h a where ok: "files_ok (sfs_vops al) cache_inv s h a" using assms(2) by (auto simp: open_on_def)
  have p: "is_entry s p" "uses (file_at p s) n = 1" using assms(2) by (auto simp: open_on_def opened_def uses_def)
  have "0 < ref_count (sfs_vops al) (under s) n" using vnodes.files_okD(4) [OF below ok p] .
  then have n: "n \<in> set (inode_list (under s))" by (simp split: if_splits)
  have "open_count (sfs_vops al) (under s) n = all_uses s n" "held s n \<le> ref_count (sfs_vops al) (under s) n" using ok by (simp_all add: files_ok_def)
  moreover have "all_uses s n \<le> held s n" unfolding held_def by (auto intro!: add_nonneg_nonneg sum_list_nonneg)
  ultimately have "0 \<le> mi_open (nodes (under s) n)" "mi_open (nodes (under s) n) \<le> mi_ref (nodes (under s) n)" using n uses_nonneg(2) [of s n] by simp_all
  then have "vop (sfs_vops al) n f s = map_option (\<lambda>(r, u). (r, s\<lparr>under := u\<rparr>)) (f (under s))"
    using sfs_vop [OF n] assms(2) by (simp add: open_on_def)
  then show thesis using that ok n vnodes.files_okD(1,2) [OF below ok] by blast
qed

text \<open>The descriptor stays open when only the inode and the position change.\<close>

lemma open_on_step:
  assumes al: "fresh_alloc al" and o: "open_on al s fd p n" and u: "u = put_sin n v (under s)" "file_wf v" "ino v = mi_ino (nodes (under s) n)"
    "din_type (din v) = SFS_TYPE_FILE" and t: "t = upd_file p (\<lambda>f. f\<lparr>f_pos := q f\<rparr>) (s\<lparr>under := u\<rparr>)"
  shows "open_on al t fd p n" "file_at p t = (file_at p s)\<lparr>f_pos := q (file_at p s)\<rparr>" "contents (sin_of (under t) n) = contents v"
proof -
  note below = sfs_vnodes [OF al]
  obtain h a where ok: "files_ok (sfs_vops al) cache_inv s h a" "fds_ok s h a" "cache_inv (under s)" by (rule open_onD [OF al o])
  have op: "opened s fd p n" using o by (simp add: open_on_def)
  have same: "same_cache (under s) u" by (simp add: u(1) same_cache_def put_sin_def)
  have m: "moves (sfs_vops al) cache_inv none none s (s\<lparr>under := u\<rparr>)"
    using same_cache_moves [OF ok(3) same] sfs_moves_al [of al] by (simp add: moves_def)
  have ok1: "files_ok (sfs_vops al) cache_inv (s\<lparr>under := u\<rparr>) h a" using vnodes.quiet_ok [OF below ok(1) m] by simp
  have e: "is_entry (s\<lparr>under := u\<rparr>) p" using op by (simp add: opened_def is_entry_def)
  have ok2: "files_ok (sfs_vops al) cache_inv t h a" unfolding t by (rule vnodes.upd_ok [OF below ok1 e]) simp
  show "file_at p t = (file_at p s)\<lparr>f_pos := q (file_at p s)\<rparr>" using opened_upd(2) [OF op ok(2)] by (simp add: t)
  have "opened t fd p n" unfolding t by (rule opened_upd [OF op ok(2)]) simp
  then show "open_on al t fd p n" "contents (sin_of (under t) n) = contents v"
    using o ok2 file_wf_put [OF u(2,3)] u(1,4) unfolding open_on_def by (auto simp: t put_sin_def)
qed

text \<open>Writing, seeking and reading through a descriptor, on the bytes of the file.\<close>

lemma descriptor_write:
  assumes al: "fresh_alloc al" and o: "open_on al s fd p n" "f_writable (file_at p s)"
    and pos: "f_pos (file_at p s) = of_nat off" "off \<le> length (contents (sin_of (under s) n))" "off + length bs \<le> 1036 * 4096"
  obtains r k t where "file_write (sfs_vops al) fd bs s = Some ((r, k), t)"
    "r = (if off + length bs \<le> room (sin_of (under s) n) * 4096 then 0 else - E_NO_MEM)" "k = min (length bs) (room (sin_of (under s) n) * 4096 - off)"
    "open_on al t fd p n" "file_at p t = (file_at p s)\<lparr>f_pos := of_nat (off + k)\<rparr>"
    "contents (sin_of (under t) n) = take off (contents (sin_of (under s) n)) @ take k bs @ drop (off + k) (contents (sin_of (under s) n))"
proof -
  let ?ops = "sfs_vops al" and ?v = "sin_of (under s) n"
  obtain h a where s: "fds_ok s h a" "n \<in> set (inode_list (under s))"
    "vop ?ops n (vop_write ?ops n bs (of_nat off)) s = map_option (\<lambda>(r, u). (r, s\<lparr>under := u\<rparr>)) (vop_write ?ops n bs (of_nat off) (under s))"
    by (rule open_onD [OF al o(1)])
  have ty: "din_type (mi_din (nodes (under s) n)) = SFS_TYPE_FILE" "opened s fd p n" "file_wf ?v" using o(1) by (simp_all add: open_on_def)
  then have "din_type (din ?v) \<noteq> SFS_TYPE_DIR" "off \<le> unat (din_size (din ?v))" "off + length bs \<le> 4243456"
    using pos(2,3) by (simp_all add: SFS_TYPE_FILE_def SFS_TYPE_DIR_def)
  then obtain r bs' v where v: "sfs_io_nolock True bs (of_nat off) ?v = Some ((r, bs'), v)" "file_wf v" "din_type (din v) = din_type (din ?v)" "ino v = ino ?v"
      "contents v = take off (contents ?v) @ bs' @ drop (off + length bs') (contents ?v)" "r = (if off + length bs \<le> room ?v * 4096 then 0 else - E_NO_MEM)"
      "bs' = take (room ?v * 4096 - off) bs"
    by (rule sfs_write_contents [OF ty(3)]) (rule that)
  define k where "k = length bs'"
  have k: "bs' = take k bs" "k = min (length bs) (room ?v * 4096 - off)" using v(7) by (simp_all add: k_def min_def)
  define t where "t = upd_file p (\<lambda>f. f\<lparr>f_pos := f_pos f + of_nat k\<rparr>) (s\<lparr>under := put_sin n v (under s)\<rparr>)"
  have wr: "file_write ?ops fd bs s = Some ((r, k), t)"
    using file_write_exact [OF s(1) ty(2) o(2), of ?ops bs] s(2,3) ty(1) v(1) pos(1)
    by (simp add: sfs_vops_sel sfs_kind_def on_node_def t_def k_def)
  have vt: "ino v = mi_ino (nodes (under s) n)" "din_type (din v) = SFS_TYPE_FILE" using v(3,4) ty(1) by simp_all
  note st = open_on_step [OF al o(1) refl v(2) vt t_def]
  have "contents v = take off (contents ?v) @ take k bs @ drop (off + k) (contents ?v)"
    unfolding k(1) [symmetric] unfolding k_def by (rule v(5))
  with st(2,3) pos(1) show thesis by (intro that [OF wr v(6) k(2) st(1)]) simp_all
qed

lemma descriptor_seek:
  assumes al: "fresh_alloc al" and o: "open_on al s fd p n" and off: "off \<le> length (contents (sin_of (under s) n))"
  obtains t where "file_seek (sfs_vops al) fd (of_nat off) LSEEK_SET s = Some (0, t)" "open_on al t fd p n"
    "file_at p t = (file_at p s)\<lparr>f_pos := of_nat off\<rparr>" "contents (sin_of (under t) n) = contents (sin_of (under s) n)"
proof -
  let ?ops = "sfs_vops al" and ?v = "sin_of (under s) n"
  obtain h a where s: "fds_ok s h a" "n \<in> set (inode_list (under s))"
    "vop ?ops n (vop_tryseek ?ops n (of_nat off)) s = map_option (\<lambda>(r, u). (r, s\<lparr>under := u\<rparr>)) (vop_tryseek ?ops n (of_nat off) (under s))"
    by (rule open_onD [OF al o(1)])
  have ty: "din_type (mi_din (nodes (under s) n)) = SFS_TYPE_FILE" "opened s fd p n" "file_wf ?v" using o(1) by (simp_all add: open_on_def)
  have small: "off \<le> 4243456" using off file_wf_size [OF ty(3)] by simp
  have "\<not> din_size (din ?v) < of_nat off" using small off by (simp add: word_less_nat_alt)
  moreover have "\<not> of_nat off <s (0 :: u32)" "\<not> SFS_MAX_FILE_SIZE \<le> of_nat off"
    using small_sless [of off 0] small by (simp_all add: SFS_MAX_FILE_SIZE_def word_le_nat_alt)
  ultimately have seek: "sfs_tryseek (of_nat off) ?v = Some (Inr (), ?v)" by (simp add: sfs_tryseek_def ret_def)
  define t where "t = upd_file p (\<lambda>f. f\<lparr>f_pos := of_nat off\<rparr>) (s\<lparr>under := put_sin n ?v (under s)\<rparr>)"
  have sk: "file_seek ?ops fd (of_nat off) LSEEK_SET s = Some (0, t)"
    using file_seek_set_exact [OF s(1) ty(2), of ?ops "of_nat off"] s(2,3) ty(1) seek by (simp add: sfs_vops_sel sfs_kind_def on_node_def t_def)
  have vt: "ino ?v = mi_ino (nodes (under s) n)" "din_type (din ?v) = SFS_TYPE_FILE" using ty(1) by simp_all
  note st = open_on_step [OF al o(1) refl ty(3) vt t_def]
  show thesis by (rule that [OF sk st])
qed

lemma descriptor_read:
  assumes al: "fresh_alloc al" and o: "open_on al s fd p n" "f_readable (file_at p s)"
    and pos: "f_pos (file_at p s) = of_nat off" "off < 134217728" "off + k < 2147483648"
  obtains t where "file_read (sfs_vops al) fd k s = Some ((0, take k (drop off (contents (sin_of (under s) n)))), t)"
proof -
  let ?ops = "sfs_vops al" and ?v = "sin_of (under s) n"
  obtain h a where s: "fds_ok s h a" "n \<in> set (inode_list (under s))"
    "vop ?ops n (vop_read ?ops n k (of_nat off)) s = map_option (\<lambda>(r, u). (r, s\<lparr>under := u\<rparr>)) (vop_read ?ops n k (of_nat off) (under s))"
    by (rule open_onD [OF al o(1)])
  have ty: "din_type (mi_din (nodes (under s) n)) = SFS_TYPE_FILE" "opened s fd p n" "file_wf ?v" using o(1) by (simp_all add: open_on_def)
  have "sfs_io_nolock False (replicate k 0) (of_nat off) ?v = Some ((0, take k (drop off (contents ?v))), ?v)"
    using sfs_read_contents [OF ty(3), of off "replicate k 0"] pos(2,3) ty(1) by (simp add: SFS_TYPE_FILE_def SFS_TYPE_DIR_def)
  then show thesis
    using that file_read_exact [OF s(1) ty(2) o(2), of ?ops k] s(2,3) ty(1) pos(1) by (simp add: sfs_vops_sel sfs_kind_def on_node_def)
qed

section \<open>Properties\<close>

text \<open>C2: data written through a descriptor comes back. A write at a position within a file succeeds exactly when the blocks of the file and
  the free blocks of the disk hold all the bytes, and otherwise reports \<^verbatim>\<open>-E_NO_MEM\<close>; it stores all the bytes these blocks hold
  at that place and advances the position by their number. After seeking back the descriptor reads just these bytes.\<close>

theorem write_then_read:
  assumes "fresh_alloc al" "open_on al s fd p n" "f_writable (file_at p s)" "f_readable (file_at p s)"
    "f_pos (file_at p s) = of_nat off" "off \<le> length (contents (sin_of (under s) n))" "off + length bs \<le> 1036 * 4096"
  shows "\<exists>r k t t' t''. file_write (sfs_vops al) fd bs s = Some ((r, k), t)
    \<and> r = (if off + length bs \<le> room (sin_of (under s) n) * 4096 then 0 else - E_NO_MEM) \<and> k = min (length bs) (room (sin_of (under s) n) * 4096 - off)
    \<and> contents (sin_of (under t) n) = take off (contents (sin_of (under s) n)) @ take k bs @ drop (off + k) (contents (sin_of (under s) n))
    \<and> f_pos (file_at p t) = of_nat (off + k)
    \<and> file_seek (sfs_vops al) fd (of_nat off) LSEEK_SET t = Some (0, t') \<and> file_read (sfs_vops al) fd k t' = Some ((0, take k bs), t'')"
proof -
  obtain r k t where t: "file_write (sfs_vops al) fd bs s = Some ((r, k), t)"
      "r = (if off + length bs \<le> room (sin_of (under s) n) * 4096 then 0 else - E_NO_MEM)" "k = min (length bs) (room (sin_of (under s) n) * 4096 - off)"
      "open_on al t fd p n" "file_at p t = (file_at p s)\<lparr>f_pos := of_nat (off + k)\<rparr>"
      "contents (sin_of (under t) n) = take off (contents (sin_of (under s) n)) @ take k bs @ drop (off + k) (contents (sin_of (under s) n))"
    by (rule descriptor_write [OF assms(1-3,5-7)])
  have k: "k \<le> length bs" using t(3) by simp
  have "off \<le> length (contents (sin_of (under t) n))" unfolding t(6) using assms(6) by simp
  then obtain t' where t': "file_seek (sfs_vops al) fd (of_nat off) LSEEK_SET t = Some (0, t')" "open_on al t' fd p n"
      "file_at p t' = (file_at p t)\<lparr>f_pos := of_nat off\<rparr>" "contents (sin_of (under t') n) = contents (sin_of (under t) n)"
    by (rule descriptor_seek [OF assms(1) t(4)])
  have "f_readable (file_at p t')" "f_pos (file_at p t') = of_nat off" "off < 134217728" "off + k < 2147483648"
    using t'(3) t(5) assms(4,7) k by simp_all
  then obtain t'' where r: "file_read (sfs_vops al) fd k t' = Some ((0, take k (drop off (contents (sin_of (under t') n)))), t'')"
    by (rule descriptor_read [OF assms(1) t'(2)])
  have same: "take k (drop off (contents (sin_of (under t') n))) = take k bs" using t(6) t'(4) assms(6) k by simp
  have "f_pos (file_at p t) = of_nat (off + k)" using t(5) by simp
  with t(1-3,6) t'(1) r [unfolded same] show ?thesis by blast
qed

theorem write_then_read_witness:
  "\<exists>t t' t''. file_write (sfs_vops bump_alloc) 0 [72, 105] demo_open = Some ((0, 2), t)
     \<and> file_seek (sfs_vops bump_alloc) 0 (of_nat 0) LSEEK_SET t = Some (0, t') \<and> file_read (sfs_vops bump_alloc) 0 2 t' = Some ((0, [72, 105]), t'')"
proof -
  have same: "sin_of (under demo_open) 7 = sin_of demo_unlinked 7"
    by (simp add: demo_open_ok(6) inode_open_inc_def inode_ref_inc_def sin_of_def sfs_fs.defs)
  moreover have "mi_ref (nodes (under demo_open) 7) = 2" "din_type (mi_din (nodes (under demo_open) 7)) = SFS_TYPE_FILE"
    by (simp_all add: demo_open_ok(6) inode_open_inc_def inode_ref_inc_def) (simp_all add: demo_unlinked_def demo_file_def SFS_TYPE_FILE_def)
  ultimately have o: "open_on bump_alloc demo_open 0 (0, 0) 7"
    using demo_open_ok(1,2) demo_unlinked_ok(2) unfolding open_on_def by auto
  have "freemap (sin_of demo_unlinked 7) = freemap demo_file" "indirect (din (sin_of demo_unlinked 7)) = indirect (din demo_file)"
      "nblk (sin_of demo_unlinked 7) = nblk demo_file"
    by (simp_all add: demo_unlinked_def demo_cache_def) (simp_all add: demo_file_def)
  then have room: "room (sin_of (under demo_open) 7) = 2" using demo_file_room unfolding same by (simp add: room_def)
  have "f_pos (file_at (0, 0) demo_open) = of_nat 0" using demo_open_ok(5) by simp
  from write_then_read [OF fresh_bump o demo_open_ok(4,3) this, of "[72, 105]", unfolded room] show ?thesis by (auto simp: numeral_2_eq_2)
qed

text \<open>C12: an open file stays in memory. While any descriptor of any process uses an inode, directly or in a call that is still running after
  a close, the inode is in the list of the file system, its open count is the number of these descriptors, and its reference count is at
  least as large, so that it is not reclaimed.\<close>

theorem open_files_stay:
  assumes "fresh_alloc al" "files_ok (sfs_vops al) cache_inv s h a" "(file_step (sfs_vops al) (sfs_fops al))\<^sup>*\<^sup>* (s, h, a) (t, h', a')"
    "is_entry t p" "f_status (file_at p t) = FD_OPENED \<or> f_status (file_at p t) = FD_CLOSED" "f_node (file_at p t) = Some n"
  shows "n \<in> set (inode_list (under t)) \<and> mi_open (nodes (under t) n) = all_uses t n \<and> 0 < all_uses t n \<and> all_uses t n \<le> mi_ref (nodes (under t) n)"
proof -
  note below = sfs_vnodes [OF assms(1)]
  have ok: "files_ok (sfs_vops al) cache_inv t h' a'" using vnodes.file_steps_ok [OF below assms(3) refl refl assms(2)] .
  have u: "uses (file_at p t) n = 1" using assms(5,6) by (auto simp: uses_def)
  have "0 < ref_count (sfs_vops al) (under t) n" using vnodes.files_okD(4) [OF below ok assms(4) u] .
  then have n: "n \<in> set (inode_list (under t))" by (simp split: if_splits)
  have "open_count (sfs_vops al) (under t) n = all_uses t n" "held t n \<le> ref_count (sfs_vops al) (under t) n" using ok by (simp_all add: files_ok_def)
  moreover have "all_uses t n \<le> held t n" unfolding held_def by (auto intro!: add_nonneg_nonneg sum_list_nonneg)
  moreover have "uses (file_at p t) n \<le> all_uses t n" by (rule uses_le_all [OF vnodes.files_okD(2) [OF below ok] assms(4)])
  ultimately show ?thesis using n u by simp
qed

theorem open_files_stay_witness: "\<exists>t. filemap_acquire (0, 0) demo_open = Some t \<and> 7 \<in> set (inode_list (under t)) \<and> mi_open (nodes (under t) 7) = all_uses t 7"
proof -
  obtain t where t: "filemap_acquire (0, 0) demo_open = Some t" using demo_open_ok(2) by (simp add: opened_def filemap_acquire_def)
  have o: "fd2file 0 demo_open = Some (Inr (0, 0))" "is_entry demo_open (0, 0)" "f_status (file_at (0, 0) demo_open) = FD_OPENED" "f_node (file_at (0, 0) demo_open) = Some 7"
    using demo_open_ok(2) by (simp_all add: opened_def)
  from file_step.enter [OF o(1) t, of "sfs_vops bump_alloc" "sfs_fops bump_alloc" "\<lambda>_. 0" "\<lambda>_. 0"]
  have run: "(file_step (sfs_vops bump_alloc) (sfs_fops bump_alloc))\<^sup>*\<^sup>* (demo_open, \<lambda>_. 0, \<lambda>_. 0) (t, (\<lambda>_. 0)((0, 0) := 0 + 1), \<lambda>_. 0)"
    by (rule r_into_rtranclp)
  have tab: "fds_ok demo_open (\<lambda>_. 0) (\<lambda>_. 0)" using demo_open_ok(1) by (simp add: files_ok_def)
  have "t = upd_file (0, 0) (\<lambda>f. f\<lparr>f_count := f_count f + 1\<rparr>) demo_open" using t o(3) by (simp add: filemap_acquire_def)
  then have e: "is_entry t (0, 0)" "f_status (file_at (0, 0) t) = FD_OPENED" "f_node (file_at (0, 0) t) = Some 7"
    using taken_entry [OF tab o(2)] o by simp_all
  show ?thesis using open_files_stay [OF fresh_bump demo_open_ok(1) run e(1) disjI1 [OF e(2)] e(3)] t by blast
qed

end
